(* ===== verification/Prelude.thy ===== *)
theory Prelude
  imports Main "HOL-Library.Word" "HOL-Library.Signed_Division"
begin

unbundle bit_operations_syntax

text \<open>
  Shared vocabulary of the development: the C integer types of include/types.h as words, the
  fact collections the component proofs use, and the generic lemmas on words and lists that more
  than one component needs.
\<close>

section \<open>The C integer types\<close>

text \<open>
  \<open>unsigned char\<close>, \<open>unsigned short\<close>, \<open>unsigned int\<close> of the 32-bit ARM target. \<open>size_t\<close>
  and pointers are 32 bits wide as well; the null pointer is \<open>0\<close>.
\<close>

type_synonym u8 = "8 word"
type_synonym u16 = "16 word"
type_synonym u32 = "32 word"
type_synonym addr = "32 word"

abbreviation (input) NULL :: addr where
  "NULL \<equiv> 0"

section \<open>Fact collections\<close>

named_theorems inv_intros "introduction rules of the component invariants"
named_theorems inv_dests "facts that follow from the component invariants"
named_theorems step_simps "field-by-field effects of the operations"

section \<open>Words\<close>

lemma unat_push_bit_u32:
  fixes w :: u32
  assumes "unat w * 2 ^ n < 2 ^ 32"
  shows "unat (push_bit n w) = unat w * 2 ^ n"
proof -
  have "unat (push_bit n w) = take_bit 32 (push_bit n (unat w))"
    by (simp add: unsigned_push_bit_eq)
  also have "\<dots> = unat w * 2 ^ n"
    using assms by (simp add: push_bit_eq_mult take_bit_nat_eq_self)
  finally show ?thesis .
qed

lemma unat_drop_bit_u32: "unat (drop_bit n (w :: u32)) = unat w div 2 ^ n"
  by (rule trans [OF unat_drop_bit_eq drop_bit_eq_div])

lemma top_bit_clear_u32:
  fixes w :: u32
  shows "w AND push_bit 31 1 = 0 \<longleftrightarrow> unat w < 2 ^ 31"
proof -
  have "w AND push_bit 31 1 = 0 \<longleftrightarrow> \<not> bit w 31"
    by (simp only: push_bit_eq_mult mult_1 and_exp_eq_0_iff_not_bit)
  also have "\<dots> \<longleftrightarrow> \<not> bit (unat w) 31"
    by (simp only: bit_unsigned_iff possible_bit_def) simp
  also have "\<dots> \<longleftrightarrow> even (unat w div 2 ^ 31)"
    by (simp only: bit_iff_odd not_not)
  also have "\<dots> \<longleftrightarrow> unat w < 2 ^ 31"
  proof -
    have "unat w < 2 ^ 32" using unsigned_less [of w, where ?'a = nat] by simp
    then have "unat w div 2 ^ 31 < 2" by (simp add: less_mult_imp_div_less)
    then have "unat w div 2 ^ 31 = 0 \<or> unat w div 2 ^ 31 = 1" by linarith
    moreover have "unat w div 2 ^ 31 = 0 \<longleftrightarrow> unat w < 2 ^ 31" by (simp add: div_eq_0_iff)
    ultimately show ?thesis by auto
  qed
  finally show ?thesis .
qed

lemma unat_or_pow2_u32:
  fixes a b :: u32
  assumes "unat b = 2 ^ k" and "2 ^ Suc k dvd unat a"
  shows "unat (a OR b) = unat a + 2 ^ k"
proof -
  have "unat (a OR b) = (unat a) OR (2 ^ k)"
    by (simp add: unsigned_or_eq assms(1))
  also have "\<dots> = unat a + 2 ^ k"
  proof (rule sym, rule disjunctive_add)
    fix n
    have "\<not> bit (unat a) k"
      using assms(2) by (auto simp: bit_iff_odd elim!: dvdE)
    then show "\<not> bit (unat a) n \<or> \<not> bit ((2::nat) ^ k) n"
      by (cases "n = k") (auto simp: bit_exp_iff)
  qed
  finally show ?thesis .
qed

lemma unat_u32_bound: "unat (w :: u32) < 2 ^ 32"
  using unsigned_less [of w, where ?'a = nat] by simp

lemma uint_u32_bounds: "0 \<le> uint (w :: u32)" "uint w < 2 ^ 32"
  using uint_lt2p [of w] by simp_all

lemma sint_u32: "sint (w :: u32) = (if uint w < 2 ^ 31 then uint w else uint w - 2 ^ 32)"
proof -
  have lo: "- (2 ^ 31) \<le> sint w" and hi: "sint w < 2 ^ 31"
    using sint_ge [of w] sint_lt [of w] by simp_all
  have u: "uint w = sint w mod 2 ^ 32"
    using uint_sint [of w] by (simp add: take_bit_eq_mod)
  show ?thesis
  proof (cases "0 \<le> sint w")
    case True
    with hi have "sint w mod 2 ^ 32 = sint w" by (intro mod_pos_pos_trivial) auto
    with u hi show ?thesis by simp
  next
    case False
    have "sint w mod 2 ^ 32 = (sint w + 2 ^ 32) mod 2 ^ 32" by simp
    also have "\<dots> = sint w + 2 ^ 32" using False lo by (intro mod_pos_pos_trivial) auto
    finally show ?thesis using u lo False by simp
  qed
qed

lemma sint_u32_range: "- (2 ^ 31) \<le> sint (a :: u32)" "sint a < 2 ^ 31"
  using sint_ge [of a] sint_lt [of a] by simp_all

lemma sint_u32_eq_iff: "sint (a :: u32) = sint b \<longleftrightarrow> a = b"
  by (rule word_eq_iff_signed [symmetric])

lemma uint_uminus_u32:
  assumes "w \<noteq> 0"
  shows "uint (- w :: u32) = 2 ^ 32 - uint w"
proof -
  have "uint w \<noteq> 0" using assms by (simp add: uint_0_iff)
  then have "0 < uint w" using uint_u32_bounds [of w] by linarith
  then have "(2 ^ 32 - uint w) mod 2 ^ 32 = 2 ^ 32 - uint w"
    using uint_u32_bounds [of w] by (intro mod_pos_pos_trivial) auto
  then show ?thesis by (simp only: uint_word_ariths minus_mod_self1) simp
qed

lemma sint_uminus_u32:
  assumes "uint (w :: u32) \<le> 2 ^ 31"
  shows "sint (- w) = - uint w"
proof (cases "w = 0")
  case False
  then have "uint w \<noteq> 0" by (simp add: uint_0_iff)
  with False assms uint_u32_bounds [of w] show ?thesis by (auto simp: sint_u32 uint_uminus_u32)
qed simp

lemma uint_drop_bit: "uint (drop_bit n (w :: 'a :: len word)) = uint w div 2 ^ n"
proof -
  have h: "unat (drop_bit n w) = unat w div 2 ^ n" by (rule trans [OF unat_drop_bit_eq drop_bit_eq_div])
  have "uint (drop_bit n w) = int (unat w div 2 ^ n)" by (simp only: uint_nat h)
  then show ?thesis by (simp only: of_nat_div of_nat_power of_nat_numeral uint_nat)
qed

lemma uint_take_bit: "uint (take_bit n (w :: 'a :: len word)) = uint w mod 2 ^ n"
  by (rule trans [OF unsigned_take_bit_eq take_bit_eq_mod])

lemma uint_ucast_u8: "uint (ucast (w :: u32) :: u8) = uint w mod 256"
proof -
  have "uint (ucast w :: u8) = take_bit 8 (uint w)" by (simp add: unsigned_ucast_eq)
  then show ?thesis by (simp add: take_bit_eq_mod)
qed

lemma and_mask_eq_take_bit_u8: "(c :: u8) AND 0xF = take_bit 4 c"
  using take_bit_eq_mask [of 4 c] by (simp add: mask_eq_exp_minus_1)

section \<open>Lists\<close>

text \<open>An initialisation loop that overwrites position \<open>k\<close> of an array whose first \<open>k\<close> positions are done.\<close>

lemma map_upt_update:
  assumes "k < n"
  shows "(map f [0..<k] @ map g [k..<n])[k := f k] = map f [0..<Suc k] @ map g [Suc k..<n]"
  using assms by (simp add: upt_conv_Cons list_update_append)

end
