(* ===== verification/Bus.thy ===== *)
theory Bus
  imports Prelude
begin

text \<open>
  The accessors of arch/regs.h. Devices are not part of the program: a driver is a function of the bus it runs on, a record
  of what reading and writing a register does to the state \<open>'d\<close> of the outside world.
\<close>

record 'd bus =
  bus_rd8 :: "addr \<Rightarrow> 'd \<Rightarrow> u8 \<times> 'd"
  bus_wr8 :: "addr \<Rightarrow> u8 \<Rightarrow> 'd \<Rightarrow> 'd"
  bus_rd16 :: "addr \<Rightarrow> 'd \<Rightarrow> u16 \<times> 'd"
  bus_wr16 :: "addr \<Rightarrow> u16 \<Rightarrow> 'd \<Rightarrow> 'd"
  bus_rd32 :: "addr \<Rightarrow> 'd \<Rightarrow> u32 \<times> 'd"
  bus_wr32 :: "addr \<Rightarrow> u32 \<Rightarrow> 'd \<Rightarrow> 'd"

definition inb :: "'d bus \<Rightarrow> addr \<Rightarrow> 'd \<Rightarrow> u8 \<times> 'd" where "inb b a d = bus_rd8 b a d"
definition outb :: "'d bus \<Rightarrow> addr \<Rightarrow> u8 \<Rightarrow> 'd \<Rightarrow> 'd" where "outb b a v d = bus_wr8 b a v d"
definition inw :: "'d bus \<Rightarrow> addr \<Rightarrow> 'd \<Rightarrow> u16 \<times> 'd" where "inw b a d = bus_rd16 b a d"
definition outw :: "'d bus \<Rightarrow> addr \<Rightarrow> u16 \<Rightarrow> 'd \<Rightarrow> 'd" where "outw b a v d = bus_wr16 b a v d"
definition inl :: "'d bus \<Rightarrow> addr \<Rightarrow> 'd \<Rightarrow> u32 \<times> 'd" where "inl b a d = bus_rd32 b a d"
definition outl :: "'d bus \<Rightarrow> addr \<Rightarrow> u32 \<Rightarrow> 'd \<Rightarrow> 'd" where "outl b a v d = bus_wr32 b a v d"

text \<open>The read-modify-write idiom \<open>outb(reg, f(inb(reg)))\<close>, and the polling idiom \<open>while (inl(reg) & mask);\<close>.\<close>

definition modb :: "'d bus \<Rightarrow> addr \<Rightarrow> (u8 \<Rightarrow> u8) \<Rightarrow> 'd \<Rightarrow> 'd" where
  "modb b a f d = (case inb b a d of (v, d) \<Rightarrow> outb b a (f v) d)"

definition modl :: "'d bus \<Rightarrow> addr \<Rightarrow> (u32 \<Rightarrow> u32) \<Rightarrow> 'd \<Rightarrow> 'd" where
  "modl b a f d = (case inl b a d of (v, d) \<Rightarrow> outl b a (f v) d)"

partial_function (option) poll8 :: "'d bus \<Rightarrow> addr \<Rightarrow> (u8 \<Rightarrow> bool) \<Rightarrow> 'd \<Rightarrow> 'd option" where
  "poll8 b a busy d = (case inb b a d of (v, d) \<Rightarrow> if busy v then poll8 b a busy d else Some d)"

partial_function (option) poll32 :: "'d bus \<Rightarrow> addr \<Rightarrow> (u32 \<Rightarrow> bool) \<Rightarrow> 'd \<Rightarrow> 'd option" where
  "poll32 b a busy d = (case inl b a d of (v, d) \<Rightarrow> if busy v then poll32 b a busy d else Some d)"

text \<open>Reading and writing \<open>n\<close> bytes through one register.\<close>

primrec readb :: "'d bus \<Rightarrow> addr \<Rightarrow> nat \<Rightarrow> 'd \<Rightarrow> u8 list \<times> 'd" where
  "readb b a 0 d = ([], d)"
| "readb b a (Suc n) d = (case inb b a d of (v, d) \<Rightarrow> case readb b a n d of (vs, d) \<Rightarrow> (v # vs, d))"

primrec writeb :: "'d bus \<Rightarrow> addr \<Rightarrow> u8 list \<Rightarrow> 'd \<Rightarrow> 'd" where
  "writeb b a [] d = d"
| "writeb b a (v # vs) d = writeb b a vs (outb b a v d)"

lemma readb_length [simp]: "length (fst (readb b a n d)) = n"
  by (induction n arbitrary: d) (auto split: prod.splits, metis fst_conv)

end
