(* ===== verification/Popcount.thy ===== *)
theory Popcount
  imports Prelude
begin

text \<open>
  popcount32 of dev/hamming.c: the divide-and-conquer population count, and its equivalence with the sum of
  the bits. Each step is read as an operation on the digits of a number in base 4, 16 and 256.
\<close>

definition popcount32 :: "u32 \<Rightarrow> u32" where
  "popcount32 x =
     (let m1 = 0x55555555; m2 = 0x33333333; m4 = 0x0F0F0F0F;
          x = x - (drop_bit 1 x AND m1);
          x = (x AND m2) + (drop_bit 2 x AND m2);
          x = (x + drop_bit 4 x) AND m4;
          x = x + drop_bit 8 x
      in (x + drop_bit 16 x) AND 0x3F)"

section \<open>The population count\<close>

text \<open>\<open>digits w d n\<close>: the number whose \<open>n\<close> digits of \<open>w\<close> bits each are \<open>d 0\<close>, \<open>d 1\<close>, and so on.\<close>

definition digits :: "nat \<Rightarrow> (nat \<Rightarrow> nat) \<Rightarrow> nat \<Rightarrow> nat" where
  "digits w d n = (\<Sum>i<n. d i * 2 ^ (w * i))"

lemma digits_Suc: "digits w d (Suc n) = digits w d n + 2 ^ (w * n) * d n"
  by (simp add: digits_def)

lemma digits_less:
  assumes "\<And>i. i < n \<Longrightarrow> d i < 2 ^ w"
  shows "digits w d n < 2 ^ (w * n)"
  using assms
proof (induction n)
  case (Suc n)
  have "digits w d n < 2 ^ (w * n)" using Suc by simp
  moreover have "d n \<le> 2 ^ w - 1" using Suc.prems [of n] by simp
  then have "2 ^ (w * n) * d n \<le> 2 ^ (w * n) * (2 ^ w - 1)" by (rule mult_le_mono2)
  moreover have "2 ^ (w * n) * (2 ^ w - 1) = 2 ^ (w * Suc n) - (2 ^ (w * n) :: nat)"
    by (simp add: power_add algebra_simps)
  moreover have "(2 ^ (w * n) :: nat) \<le> 2 ^ (w * Suc n)" by (simp add: power_add)
  ultimately show ?case unfolding digits_Suc by linarith
qed (simp add: digits_def)

lemma bit_above: "(a :: nat) < 2 ^ k \<Longrightarrow> k \<le> j \<Longrightarrow> \<not> bit a j"
  by (metis bit_take_bit_iff not_le take_bit_nat_eq_self)

lemma bit_split_nat:
  assumes "(a :: nat) < 2 ^ k"
  shows "bit (a + 2 ^ k * b) j \<longleftrightarrow> (if j < k then bit a j else bit b (j - k))"
proof -
  have "a + push_bit k b = a OR push_bit k b"
    by (rule disjunctive_add) (use bit_above [OF assms] in \<open>auto simp: bit_push_bit_iff\<close>)
  then have "a + 2 ^ k * b = a OR push_bit k b" by (simp add: push_bit_eq_mult mult.commute)
  then show ?thesis using bit_above [OF assms, of j] by (auto simp: bit_or_iff bit_push_bit_iff)
qed

lemma and_less_nat:
  assumes "(m :: nat) < 2 ^ k"
  shows "x AND m < 2 ^ k"
proof -
  have "take_bit k (x AND m) = x AND m"
    using bit_above [OF assms] not_le by (intro bit_eqI) (auto simp: bit_take_bit_iff bit_and_iff)
  then show ?thesis by (metis take_bit_nat_less_exp)
qed

lemma bit_digits:
  assumes "\<And>i. i < n \<Longrightarrow> d i < 2 ^ w" and "0 < w"
  shows "bit (digits w d n) j \<longleftrightarrow> j < w * n \<and> bit (d (j div w)) (j mod w)"
  using assms(1)
proof (induction n)
  case (Suc n)
  have IH: "bit (digits w d n) j \<longleftrightarrow> j < w * n \<and> bit (d (j div w)) (j mod w)" using Suc by simp
  have "bit (digits w d (Suc n)) j \<longleftrightarrow> (if j < w * n then bit (digits w d n) j else bit (d n) (j - w * n))"
    unfolding digits_Suc using Suc.prems by (intro bit_split_nat digits_less) simp
  also have "\<dots> \<longleftrightarrow> j < w * Suc n \<and> bit (d (j div w)) (j mod w)"
  proof (cases "j < w * n")
    case True
    then show ?thesis using IH by simp
  next
    case False
    show ?thesis
    proof (cases "j < w * Suc n")
      case True
      then have "j div w = n" using False by (intro div_nat_eqI) (simp_all add: mult.commute)
      moreover from this have "j mod w = j - w * n" by (metis minus_mult_div_eq_mod)
      ultimately show ?thesis using False True by simp
    next
      case big: False
      have "d n < 2 ^ w" using Suc.prems by simp
      then show ?thesis using bit_above [of "d n" w "j - w * n"] big False by simp
    qed
  qed
  finally show ?case .
qed (simp add: digits_def)

lemma digits_shift_mask:
  assumes d: "\<And>i. i < n \<Longrightarrow> d i < 2 ^ w" and m: "m < 2 ^ (w - s)" and s: "s < w"
  shows "digits w d n div 2 ^ s AND digits w (\<lambda>_. m) n = digits w (\<lambda>i. d i div 2 ^ s AND m) n"
proof (rule bit_eqI)
  fix j
  have m': "m < 2 ^ w" using m by (rule less_le_trans) simp
  have "d i div 2 ^ s AND m < 2 ^ w" for i using m' by (rule and_less_nat)
  then have r: "bit (digits w (\<lambda>i. d i div 2 ^ s AND m) n) j \<longleftrightarrow> j < w * n \<and> bit (d (j div w)) (j mod w + s) \<and> bit m (j mod w)"
    using s by (subst bit_digits) (auto simp: bit_and_iff bit_drop_bit_eq add.commute simp flip: drop_bit_eq_div)
  have l: "bit (digits w d n div 2 ^ s) j \<longleftrightarrow> j + s < w * n \<and> bit (d ((j + s) div w)) ((j + s) mod w)"
    using d s by (simp add: bit_digits bit_drop_bit_eq add.commute flip: drop_bit_eq_div)
  have k: "bit (digits w (\<lambda>_. m) n) j \<longleftrightarrow> j < w * n \<and> bit m (j mod w)"
    using m' s by (simp add: bit_digits)
  show "bit (digits w d n div 2 ^ s AND digits w (\<lambda>_. m) n) j = bit (digits w (\<lambda>i. d i div 2 ^ s AND m) n) j"
  proof (cases "j < w * n \<and> bit m (j mod w)")
    case True
    then have "j mod w < w - s" using bit_above [OF m] not_le by blast
    then have a: "j mod w + s < w" using s by simp
    have js: "j + s = w * (j div w) + (j mod w + s)" by simp
    have "w * (j div w) \<le> j + s" "j + s < w * Suc (j div w)"
      unfolding mult_Suc_right using a js by linarith+
    then have "(j + s) div w = j div w" by (intro div_nat_eqI) (simp_all add: mult.commute)
    moreover from this have "(j + s) mod w = j mod w + s" using js by (metis add_left_cancel mult_div_mod_eq)
    ultimately have dm: "(j + s) div w = j div w" "(j + s) mod w = j mod w + s" by auto
    have "j div w < n" using True by (simp add: less_mult_imp_div_less mult.commute)
    then have "w * (j div w) + w \<le> w * n" by (metis Suc_leI mult_Suc_right add.commute mult_le_mono2)
    then have "j + s < w * n" using a js by linarith
    then show ?thesis using True by (simp add: bit_and_iff l k r dm)
  next
    case False
    then show ?thesis by (auto simp: bit_and_iff k r)
  qed
qed

definition bitn :: "u32 \<Rightarrow> nat \<Rightarrow> nat" where
  "bitn x i = of_bool (bit x i)"

definition nbits :: "u32 \<Rightarrow> nat" where
  "nbits x = (\<Sum>i<32. bitn x i)"

lemma bitn_le: "bitn x i \<le> 1" by (simp add: bitn_def)

lemma unat_digits: "unat x = digits 1 (bitn x) 32"
proof (rule bit_eqI)
  fix j
  have "bitn x i < 2 ^ 1" for i by (simp add: bitn_def)
  then have "bit (digits 1 (bitn x) 32) j \<longleftrightarrow> j < 32 \<and> bit x j"
    by (subst bit_digits) (auto simp: bitn_def bit_0)
  moreover have "bit (unat x) j \<longleftrightarrow> j < 32 \<and> bit x j"
    using bit_imp_le_length [of x j] by (auto simp: bit_unsigned_iff)
  ultimately show "bit (unat x) j \<longleftrightarrow> bit (digits 1 (bitn x) 32) j" by blast
qed

text \<open>Grouping the digits in pairs.\<close>

lemma digits_pair: "digits w d (2 * n) = digits (2 * w) (\<lambda>i. d (2 * i) + 2 ^ w * d (2 * i + 1)) n"
  by (induction n) (simp_all add: digits_def power_add algebra_simps power_mult power2_eq_square)

lemma digits_add: "digits w d n + digits w e n = digits w (\<lambda>i. d i + e i) n"
  by (simp add: digits_def sum.distrib algebra_simps)

lemma digits_cong: "(\<And>i. i < n \<Longrightarrow> d i = e i) \<Longrightarrow> digits w d n = digits w e n"
  by (simp add: digits_def)

lemma digits_masks:
  "digits 2 (\<lambda>_. Suc 0) 16 = 0x55555555" "digits 4 (\<lambda>_. 3) 8 = 0x33333333" "digits 8 (\<lambda>_. 15) 4 = 0x0F0F0F0F"
  by (simp_all add: digits_def lessThan_nat_numeral)

text \<open>The three masked steps on natural numbers.\<close>

definition sum2 :: "(nat \<Rightarrow> nat) \<Rightarrow> nat \<Rightarrow> nat" where
  "sum2 d i = d (2 * i) + d (2 * i + 1)"

lemma popcount_unat: "unat x = digits 2 (\<lambda>i. bitn x (2 * i) + 2 * bitn x (2 * i + 1)) 16"
  using unat_digits [of x] digits_pair [of 1 "bitn x" 16] by simp

lemma popcount_odd_bits: "unat x div 2 AND 0x55555555 = digits 2 (\<lambda>i. bitn x (2 * i + 1)) 16"
proof -
  let ?d = "\<lambda>i. bitn x (2 * i) + 2 * bitn x (2 * i + 1)"
  have lt: "?d i < 2 ^ 2" for i using bitn_le [of x "2 * i"] bitn_le [of x "2 * i + 1"] by simp
  have "digits 2 ?d 16 div 2 ^ 1 AND digits 2 (\<lambda>_. 1) 16 = digits 2 (\<lambda>i. ?d i div 2 ^ 1 AND 1) 16"
    by (rule digits_shift_mask) (use lt in simp_all)
  also have "\<dots> = digits 2 (\<lambda>i. bitn x (2 * i + 1)) 16" by (rule digits_cong) (simp add: bitn_def)
  finally show ?thesis by (simp add: popcount_unat digits_masks)
qed

lemma popcount_pairs: "unat x - (unat x div 2 AND 0x55555555) = digits 2 (sum2 (bitn x)) 16"
proof -
  have "digits 2 (sum2 (bitn x)) 16 + digits 2 (\<lambda>i. bitn x (2 * i + 1)) 16 = unat x"
    unfolding popcount_unat digits_add by (rule digits_cong) (simp add: sum2_def)
  then show ?thesis unfolding popcount_odd_bits by linarith
qed

lemma popcount_nibbles:
  assumes "\<And>i. d i \<le> 2"
  shows "(digits 2 d 16 AND 0x33333333) + (digits 2 d 16 div 4 AND 0x33333333) = digits 4 (sum2 d) 8"
proof -
  let ?d = "\<lambda>i. d (2 * i) + 4 * d (2 * i + 1)"
  have x: "digits 2 d 16 = digits 4 ?d 8" using digits_pair [of 2 d 8] by simp
  have lt: "?d i < 2 ^ 4" for i using assms [of "2 * i"] assms [of "2 * i + 1"] by simp
  have l: "d j mod 4 = d j" "d j div 4 = 0" for j using assms [of j] by simp_all
  have a: "e AND 3 = e mod 4" for e :: nat using take_bit_eq_mask [of 2 e] by (simp add: take_bit_eq_mod mask_eq_exp_minus_1)
  have "digits 4 ?d 8 div 2 ^ s AND digits 4 (\<lambda>_. 3) 8 = digits 4 (\<lambda>i. ?d i div 2 ^ s AND 3) 8" if "s \<le> 2" for s
  proof (rule digits_shift_mask)
    have "(2 :: nat) ^ 2 \<le> 2 ^ (4 - s)" using that by (intro power_increasing) auto
    then show "(3 :: nat) < 2 ^ (4 - s)" by simp
  qed (use lt that in auto)
  from this [of 0] this [of 2] show ?thesis
    unfolding x by (simp add: digits_masks digits_add) (rule digits_cong, simp add: a l sum2_def)
qed

lemma digits_Suc_shift: "digits w d (Suc n) = d 0 + 2 ^ w * digits w (\<lambda>i. d (Suc i)) n"
  unfolding digits_def sum.lessThan_Suc_shift sum_distrib_left by (simp add: power_add ac_simps)

lemma popcount_bytes:
  assumes "\<And>i. d i \<le> 4"
  shows "(digits 4 d 8 + digits 4 d 8 div 16) AND 0x0F0F0F0F = digits 8 (sum2 d) 4"
proof -
  let ?e = "\<lambda>i. if i < 7 then d (Suc i) else 0"
  let ?f = "\<lambda>i. d i + ?e i"
  have "digits 4 d (Suc 7) = d 0 + 2 ^ 4 * digits 4 (\<lambda>i. d (Suc i)) 7" by (rule digits_Suc_shift)
  then have "digits 4 d 8 div 16 = digits 4 (\<lambda>i. d (Suc i)) 7" using assms [of 0] by simp
  also have "\<dots> = digits 4 ?e 7" by (rule digits_cong) simp
  also have "\<dots> = digits 4 ?e (Suc 7)" unfolding digits_Suc by simp
  finally have "digits 4 d 8 + digits 4 d 8 div 16 = digits 4 ?f 8" by (simp add: digits_add)
  also have "\<dots> = digits 8 (\<lambda>i. ?f (2 * i) + 16 * ?f (2 * i + 1)) 4" using digits_pair [of 4 ?f 4] by simp
  finally have x: "digits 4 d 8 + digits 4 d 8 div 16 = digits 8 (\<lambda>i. ?f (2 * i) + 16 * ?f (2 * i + 1)) 4" .
  have f: "?f i \<le> 8" for i using assms [of i] assms [of "Suc i"] by simp
  have a: "e AND 15 = e mod 16" for e :: nat using take_bit_eq_mask [of 4 e] by (simp add: take_bit_eq_mod mask_eq_exp_minus_1)
  have "digits 8 (\<lambda>i. ?f (2 * i) + 16 * ?f (2 * i + 1)) 4 div 2 ^ 0 AND digits 8 (\<lambda>_. 15) 4
      = digits 8 (\<lambda>i. (?f (2 * i) + 16 * ?f (2 * i + 1)) div 2 ^ 0 AND 15) 4"
  proof (rule digits_shift_mask)
    fix i
    have "?f (2 * i) + 16 * ?f (2 * i + 1) \<le> 8 + 16 * 8"
      by (intro add_le_mono mult_le_mono2 f)
    then show "?f (2 * i) + 16 * ?f (2 * i + 1) < 2 ^ 8" by (rule le_less_trans) simp
  qed simp_all
  also have "\<dots> = digits 8 (sum2 d) 4"
  proof (rule digits_cong)
    fix i :: nat assume "i < 4"
    then have "?f (2 * i) = sum2 d i" by (simp add: sum2_def)
    moreover from this have "sum2 d i < 16" using f [of "2 * i"] by simp
    ultimately show "(?f (2 * i) + 16 * ?f (2 * i + 1)) div 2 ^ 0 AND 15 = sum2 d i"
      by (simp only: a power_0 div_by_1 mod_mult_self2 mod_less)
  qed
  finally show ?thesis unfolding x by (simp add: digits_masks)
qed

lemma popcount_total:
  assumes "\<And>i. c i \<le> 8" and "t = digits 8 c 4" and "u = t + t div 256"
  shows "(u + u div 65536) AND 0x3F = c 0 + c 1 + c 2 + c 3" and "u + u div 65536 < 2 ^ 32" and "u < 2 ^ 32"
proof -
  have b: "c 0 \<le> 8" "c 1 \<le> 8" "c 2 \<le> 8" "c 3 \<le> 8" by (rule assms(1))+
  have t: "t = c 0 + 256 * (c 1 + 256 * c 2 + 65536 * c 3)"
    by (simp add: assms(2) digits_def lessThan_nat_numeral)
  then have "t div 256 = c 1 + 256 * c 2 + 65536 * c 3" using b(1) by simp
  then have u: "u = (c 0 + c 1 + 256 * (c 1 + c 2)) + 65536 * (c 2 + c 3 + 256 * c 3)" unfolding assms(3) t by simp
  have "c 0 + c 1 + 256 * (c 1 + c 2) < 65536" using b by simp
  then have "u div 65536 = c 2 + c 3 + 256 * c 3" unfolding u by simp
  then have v: "u + u div 65536 = (c 0 + c 1 + c 2 + c 3) + 64 * (4 * (c 1 + c 2) + 1024 * (c 2 + c 3 + 256 * c 3) + 4 * c 3)"
    unfolding u by simp
  have a: "e AND 63 = e mod 64" for e :: nat using take_bit_eq_mask [of 6 e] by (simp add: take_bit_eq_mod mask_eq_exp_minus_1)
  have "c 0 + c 1 + c 2 + c 3 < 64" using b by linarith
  then show "(u + u div 65536) AND 0x3F = c 0 + c 1 + c 2 + c 3" unfolding v by (simp only: a mod_mult_self2) simp
  show "u + u div 65536 < 2 ^ 32" unfolding v using b by simp
  show "u < 2 ^ 32" unfolding u using b by simp
qed

lemma unat_add_nowrap: "unat (a :: u32) + unat b < 2 ^ 32 \<Longrightarrow> unat (a + b) = unat a + unat b"
  by (subst unat_add_lem [THEN iffD1]) simp_all

lemma popcount32_nbits: "unat (popcount32 x) = nbits x"
proof -
  define y where "y = x - (drop_bit 1 x AND 0x55555555)"
  define z where "z = (y AND 0x33333333) + (drop_bit 2 y AND 0x33333333)"
  define w where "w = (z + drop_bit 4 z) AND 0x0F0F0F0F"
  define v where "v = w + drop_bit 8 w"
  let ?b = "bitn x"
  let ?b2 = "sum2 ?b" let ?b4 = "sum2 ?b2" let ?b8 = "sum2 ?b4"
  have l1: "?b i \<le> 1" for i by (rule bitn_le)
  have l2: "?b2 i \<le> 2" for i using l1 [of "2 * i"] l1 [of "2 * i + 1"] by (simp add: sum2_def)
  have l4: "?b4 i \<le> 4" for i using l2 [of "2 * i"] l2 [of "2 * i + 1"] by (simp add: sum2_def [of ?b2])
  have l8: "?b8 i \<le> 8" for i using l4 [of "2 * i"] l4 [of "2 * i + 1"] by (simp add: sum2_def [of ?b4])
  have m: "unat (drop_bit 1 x AND 0x55555555) = unat x div 2 AND 0x55555555"
    by (simp add: unsigned_and_eq unat_drop_bit_u32)
  have "unat x div 2 AND 0x55555555 \<le> unat x"
  proof -
    have "unat x div 2 AND 0x55555555 = digits 2 (\<lambda>i. bitn x (2 * i + 1)) 16"
      by (rule popcount_odd_bits)
    also have "\<dots> \<le> unat x" unfolding popcount_unat by (simp add: digits_def sum_mono)
    finally show ?thesis .
  qed
  then have y: "unat y = digits 2 ?b2 16"
    unfolding y_def by (subst unat_sub) (simp_all only: word_le_nat_alt m popcount_pairs)
  have y4: "(unat y AND 0x33333333) + (unat y div 4 AND 0x33333333) = digits 4 ?b4 8"
    unfolding y using l2 by (rule popcount_nibbles)
  have b8: "digits 4 ?b4 8 < 2 ^ 32" using digits_less [of 8 ?b4 4] le_less_trans [OF l4] by simp
  have z: "unat z = digits 4 ?b4 8"
    unfolding z_def using y4 b8 by (subst unat_add_nowrap) (simp_all add: unsigned_and_eq unat_drop_bit_u32)
  have d8: "digits 4 ?b4 8 \<le> 4 * digits 4 (\<lambda>_. 1) 8"
    unfolding digits_def sum_distrib_left by (rule sum_mono) (use l4 in simp)
  have "digits 4 (\<lambda>_. 1) 8 = 0x11111111" by (simp add: digits_def lessThan_nat_numeral)
  then have "digits 4 ?b4 8 + digits 4 ?b4 8 div 16 < 2 ^ 32" using d8 by simp
  then have w: "unat w = digits 8 ?b8 4"
    unfolding w_def using popcount_bytes [of ?b4] l4
    by (simp add: unsigned_and_eq unat_add_nowrap unat_drop_bit_u32 z)
  note t = popcount_total [of ?b8, OF l8 refl refl]
  have v: "unat v = digits 8 ?b8 4 + digits 8 ?b8 4 div 256"
    unfolding v_def using t(3) by (simp add: unat_add_nowrap unat_drop_bit_u32 w)
  have "unat (popcount32 x) = unat ((v + drop_bit 16 v) AND 0x3F)"
    by (simp add: popcount32_def Let_def v_def w_def z_def y_def)
  also have "\<dots> = ?b8 0 + ?b8 1 + ?b8 2 + ?b8 3"
    using t(1,2) by (simp add: unsigned_and_eq unat_add_nowrap unat_drop_bit_u32 v)
  also have "\<dots> = nbits x"
    by (simp add: nbits_def sum2_def lessThan_nat_numeral lessThan_Suc)
  finally show ?thesis .
qed

text \<open>the masked additions of \<open>popcount32\<close> count exactly the bits that are set, for every 32-bit word.\<close>

theorem popcount32_is_bit_count: "unat (popcount32 x) = card {i. i < 32 \<and> bit x i}"
proof -
  have "nbits x = card ({..<32} \<inter> {i. bit x i})" by (simp add: nbits_def bitn_def)
  also have "{..<32} \<inter> {i. bit x i} = {i. i < 32 \<and> bit x i}" by auto
  finally show ?thesis by (simp add: popcount32_nbits)
qed

end
