(* ===== verification/Hamming.thy ===== *)
theory Hamming
  imports Popcount
begin

text \<open>
  dev/hamming.c and dev/hamming.h: the 22-bit Hamming code over blocks of 256 bytes that protects NAND pages, its
  computation and the correction of a block.
\<close>

section \<open>Computing the code\<close>

definition odd_byte :: "u8 \<Rightarrow> bool" where
  "odd_byte c \<longleftrightarrow> popcount32 (ucast c) AND 1 = 1"

text \<open>The first loop: column sum, even and odd line codes.\<close>

definition line_step :: "u8 list \<Rightarrow> u8 \<times> u8 \<times> u8 \<Rightarrow> nat \<Rightarrow> u8 \<times> u8 \<times> u8" where
  "line_step data st i =
     (case st of (col, even_line, odd_line) \<Rightarrow>
       (let col = col XOR data ! i
        in if odd_byte (data ! i) then (col, even_line XOR of_nat (255 - i), odd_line XOR of_nat i)
           else (col, even_line, odd_line)))"

text \<open>The second loop: the parity groups of the column sum.\<close>

definition col_step :: "u8 \<times> u8 \<times> u8 \<Rightarrow> nat \<Rightarrow> u8 \<times> u8 \<times> u8" where
  "col_step st i =
     (case st of (col, even_col, odd_col) \<Rightarrow>
       (let (even_col, odd_col) =
              (if col AND 1 \<noteq> 0 then (even_col XOR of_nat (7 - i), odd_col XOR of_nat i) else (even_col, odd_col))
        in (drop_bit 1 col, even_col, odd_col)))"

text \<open>The third loop interleaves an odd and an even code, most significant bits first; \<open>msk\<close> selects the bit that
  is looked at: 0x80 and 0x08 for the lines, 0x04 for the columns.\<close>

definition ilv_step :: "u8 \<Rightarrow> u8 \<times> u8 \<times> u8 \<Rightarrow> u8 \<times> u8 \<times> u8" where
  "ilv_step msk st =
     (case st of (code, odd_c, even_c) \<Rightarrow>
       (let code = push_bit 2 code;
            code = (if odd_c AND msk \<noteq> 0 then code OR 2 else code);
            code = (if even_c AND msk \<noteq> 0 then code OR 1 else code)
        in (code, push_bit 1 odd_c, push_bit 1 even_c)))"

definition ilv :: "u8 \<Rightarrow> u8 \<Rightarrow> u8 \<Rightarrow> u8" where
  "ilv msk odd_c even_c = fst ((ilv_step msk ^^ 4) (0, odd_c, even_c))"

definition hamming_compute_256 :: "u8 list \<Rightarrow> u8 \<times> u8 \<times> u8" where
  "hamming_compute_256 data =
     (case foldl (line_step data) (0, 0, 0) [0..<256] of
        (col, even_line, odd_line) \<Rightarrow>
          (case foldl col_step (col, 0, 0) [0..<8] of
             (_, even_col, odd_col) \<Rightarrow>
               (NOT (ilv 0x80 odd_line even_line), NOT (ilv 0x08 odd_line even_line), NOT (ilv 0x04 odd_col even_col))))"

section \<open>Correcting a block\<close>

definition HAMMING_ERROR_SINGLEBIT :: u8 where "HAMMING_ERROR_SINGLEBIT = 1"
definition HAMMING_ERROR_ECC :: u8 where "HAMMING_ERROR_ECC = 2"
definition HAMMING_ERROR_MULTIPLEBITS :: u8 where "HAMMING_ERROR_MULTIPLEBITS = 3"

definition err_byte :: "u8 \<Rightarrow> u8 \<Rightarrow> u8" where
  "err_byte c0 c1 =
     (c0 AND 0x80) OR (push_bit 1 c0 AND 0x40) OR (push_bit 2 c0 AND 0x20) OR (push_bit 3 c0 AND 0x10)
     OR (drop_bit 4 c1 AND 0x08) OR (drop_bit 3 c1 AND 0x04) OR (drop_bit 2 c1 AND 0x02) OR (drop_bit 1 c1 AND 0x01)"

definition err_bit :: "u8 \<Rightarrow> u8" where
  "err_bit c2 = (drop_bit 5 c2 AND 0x04) OR (drop_bit 4 c2 AND 0x02) OR (drop_bit 3 c2 AND 0x01)"

definition code32 :: "u8 \<Rightarrow> u8 \<Rightarrow> u8 \<Rightarrow> u32" where
  "code32 c0 c1 c2 = ucast c0 OR push_bit 8 (ucast c1) OR push_bit 16 (ucast c2)"

definition hamming_correct_256 :: "u8 list \<Rightarrow> u8 \<times> u8 \<times> u8 \<Rightarrow> u8 \<times> u8 \<times> u8 \<Rightarrow> u8 \<times> u8 list" where
  "hamming_correct_256 data original computed =
     (case (original, computed) of ((o0, o1, o2), (p0, p1, p2)) \<Rightarrow>
       (let c0 = p0 XOR o0; c1 = p1 XOR o1; c2 = p2 XOR o2
        in if code32 c0 c1 c2 = 0 then (0, data)
           else if popcount32 (code32 c0 c1 c2) = 11 then
             (let byte = unat (err_byte c0 c1)
              in (HAMMING_ERROR_SINGLEBIT, data[byte := data ! byte XOR push_bit (unat (err_bit c2)) 1]))
           else if popcount32 (code32 c0 c1 c2) = 1 then (HAMMING_ERROR_ECC, data)
           else (HAMMING_ERROR_MULTIPLEBITS, data)))"

section \<open>Exclusive-or sums\<close>

definition xsum :: "(nat \<Rightarrow> u8) \<Rightarrow> nat list \<Rightarrow> u8" where
  "xsum g xs = foldr (\<lambda>i acc. g i XOR acc) xs 0"

lemma xsum_simps [simp]: "xsum g [] = 0" "xsum g (x # xs) = g x XOR xsum g xs"
  by (simp_all add: xsum_def)

lemma xsum_cong: "(\<And>i. i \<in> set xs \<Longrightarrow> g i = h i) \<Longrightarrow> xsum g xs = xsum h xs"
  by (induction xs) auto

lemma xsum_change:
  assumes "distinct xs" and "k \<in> set xs" and "h k = g k XOR d" and "\<And>i. i \<noteq> k \<Longrightarrow> h i = g i"
  shows "xsum h xs = xsum g xs XOR d"
  using assms(1,2)
proof (induction xs)
  case (Cons x xs)
  show ?case
  proof (cases "x = k")
    case True
    have "h i = g i" if "i \<in> set xs" for i using that True Cons.prems(1) by (intro assms(4)) auto
    then have "xsum h xs = xsum g xs" by (intro xsum_cong)
    then show ?thesis using True assms(3) by (simp add: ac_simps)
  next
    case False
    then show ?thesis using Cons assms(4) by (simp add: ac_simps)
  qed
qed simp

lemma line_fold:
  "foldl (line_step data) (c, e, d) xs =
    (c XOR xsum (\<lambda>i. data ! i) xs,
     e XOR xsum (\<lambda>i. if odd_byte (data ! i) then of_nat (255 - i) else 0) xs,
     d XOR xsum (\<lambda>i. if odd_byte (data ! i) then of_nat i else 0) xs)"
  by (induction xs arbitrary: c e d) (simp_all add: line_step_def Let_def ac_simps)

lemma and_1_u8: "(x :: u8) AND 1 \<noteq> 0 \<longleftrightarrow> bit x 0"
  by (simp add: bit_0 and_one_eq even_iff_mod_2_eq_zero odd_iff_mod_2_eq_one)

lemma col_fold:
  "foldl col_step (drop_bit k c, e, d) [k..<k + n] =
    (drop_bit (k + n) c,
     e XOR xsum (\<lambda>i. if bit c i then of_nat (7 - i) else 0) [k..<k + n],
     d XOR xsum (\<lambda>i. if bit c i then of_nat i else 0) [k..<k + n])"
proof (induction n arbitrary: k e d)
  case (Suc n)
  have up: "[k..<k + Suc n] = k # [Suc k..<Suc k + n]" by (simp add: upt_conv_Cons)
  have b: "drop_bit k c AND 1 \<noteq> 0 \<longleftrightarrow> bit c k" unfolding and_1_u8 by (simp add: bit_drop_bit_eq)
  have s: "col_step (drop_bit k c, e, d) k = (drop_bit (Suc k) c,
      e XOR (if bit c k then of_nat (7 - k) else 0), d XOR (if bit c k then of_nat k else 0))"
    using b by (simp add: col_step_def Let_def drop_bit_drop_bit)
  show ?case unfolding up foldl.simps s
    using Suc.IH [of "Suc k"] by (simp add: ac_simps)
qed simp


section \<open>The bits of the codes\<close>

definition ones8 :: "u8 \<Rightarrow> nat" where
  "ones8 c = (\<Sum>i<8. of_bool (bit c i))"

lemmas less8_cases = less_Suc_eq_0_disj

lemma sum8: "(\<Sum>i<8. f i) = f 0 + f 1 + f 2 + f 3 + f 4 + f 5 + f 6 + f (7 :: nat)" for f :: "nat \<Rightarrow> nat"
  by (simp add: lessThan_nat_numeral lessThan_Suc ac_simps)

lemma ones8_eq: "ones8 c = of_bool (bit c 0) + of_bool (bit c 1) + of_bool (bit c 2) + of_bool (bit c 3)
    + of_bool (bit c 4) + of_bool (bit c 5) + of_bool (bit c 6) + of_bool (bit c 7)"
  unfolding ones8_def by (rule sum8)

lemma sum_lessThan_add: "(\<Sum>i<n + m. f i) = (\<Sum>i<n. f i) + (\<Sum>i<m. f (n + i :: nat))" for f :: "nat \<Rightarrow> nat"
  by (induction m) simp_all

lemma bit_u8_less: "bit (c :: u8) i \<Longrightarrow> i < 8"
  using bit_imp_le_length [of c i] by simp

lemma bit_code32:
  "bit (code32 a b c) i \<longleftrightarrow> (if i < 8 then bit a i else if i < 16 then bit b (i - 8) else i < 24 \<and> bit c (i - 16))"
  using bit_u8_less [of a i] bit_u8_less [of b "i - 8"] bit_u8_less [of c "i - 16"]
  by (auto simp: code32_def bit_or_iff bit_push_bit_iff bit_ucast_iff)

lemma nbits_code32: "nbits (code32 a b c) = ones8 a + ones8 b + ones8 c"
proof -
  let ?f = "\<lambda>i. bitn (code32 a b c) i"
  have "nbits (code32 a b c) = (\<Sum>i<8 + (8 + (8 + 8)). ?f i)" by (simp add: nbits_def)
  also have "\<dots> = (\<Sum>i<8. ?f i) + ((\<Sum>i<8. ?f (8 + i)) + ((\<Sum>i<8. ?f (8 + (8 + i))) + (\<Sum>i<8. ?f (8 + (8 + (8 + i))))))"
    by (simp only: sum_lessThan_add)
  also have "\<dots> = ones8 a + (ones8 b + (ones8 c + (\<Sum>i<8. 0 :: nat)))"
    unfolding ones8_def by (intro arg_cong2 [where f = "(+)"] sum.cong) (simp_all add: bitn_def bit_code32)
  finally show ?thesis by simp
qed

lemma odd_byte_iff: "odd_byte c \<longleftrightarrow> odd (ones8 c)"
proof -
  let ?p = "popcount32 (ucast c)"
  have "odd_byte c \<longleftrightarrow> bit ?p 0"
    unfolding odd_byte_def by (simp add: bit_0 and_one_eq even_iff_mod_2_eq_zero odd_iff_mod_2_eq_one)
  also have "\<dots> \<longleftrightarrow> bit (unat ?p) 0" by (simp add: bit_unsigned_iff)
  also have "\<dots> \<longleftrightarrow> odd (unat ?p)" by (simp only: bit_0)
  also have "unat ?p = ones8 c"
    using nbits_code32 [of c 0 0] by (simp add: popcount32_nbits code32_def ones8_def)
  finally show ?thesis .
qed

lemma ones8_flip:
  assumes "b < 8"
  shows "odd (ones8 (c XOR push_bit b 1)) \<longleftrightarrow> even (ones8 c)"
proof -
  have s: "ones8 x = of_bool (bit x b) + (\<Sum>i\<in>{..<8} - {b}. of_bool (bit x i))" for x :: u8
    unfolding ones8_def using assms by (subst sum.remove [of _ b]) auto
  have "(\<Sum>i\<in>{..<8} - {b}. of_bool (bit (c XOR push_bit b 1) i)) = (\<Sum>i\<in>{..<8} - {b}. of_bool (bit c i) :: nat)"
    by (rule sum.cong) (auto simp: bit_xor_iff bit_push_bit_iff bit_1_iff bit_exp_iff)
  moreover have "bit (c XOR push_bit b 1) b \<longleftrightarrow> \<not> bit c b"
    using assms by (simp add: bit_xor_iff bit_push_bit_iff bit_exp_iff)
  ultimately show ?thesis by (simp add: s)
qed

lemma odd_byte_flip: "b < 8 \<Longrightarrow> odd_byte (c XOR push_bit b 1) \<longleftrightarrow> \<not> odd_byte c"
  unfolding odd_byte_iff using ones8_flip by blast

text \<open>Interleaving: the codes bit by bit.\<close>

lemma ilv_step_alt:
  "ilv_step (2 ^ p) (code, od, ev) =
    (push_bit 2 code OR (if bit od p then 2 else 0) OR (if bit ev p then 1 else 0), push_bit 1 od, push_bit 1 ev)"
  by (simp add: ilv_step_def Let_def and_exp_eq_0_iff_not_bit or.assoc)

lemma bit_2_u8: "bit (2 :: u8) n \<longleftrightarrow> n = 1"
  using bit_exp_iff [of 1 n, where 'a = u8] by auto

lemma bit_join:
  fixes c :: u8
  shows "bit (push_bit 2 c OR (if A then 2 else 0) OR (if B then 1 else 0)) 0 \<longleftrightarrow> B"
    and "bit (push_bit 2 c OR (if A then 2 else 0) OR (if B then 1 else 0)) 1 \<longleftrightarrow> A"
    and "bit (push_bit 2 c OR (if A then 2 else 0) OR (if B then 1 else 0)) (n + 2) \<longleftrightarrow> n < 6 \<and> bit c n"
  by (simp_all add: bit_or_iff bit_push_bit_iff bit_2_u8 bit_1_iff split: if_split)

lemma ilv_iterate:
  assumes "p < 8" and "(ilv_step (2 ^ p) ^^ n) (0, od, ev) = (c, od', ev')"
  shows "od' = push_bit n od \<and> ev' = push_bit n ev
    \<and> (\<forall>j. bit c (2 * j + 1) \<longleftrightarrow> j < 4 \<and> j < n \<and> n \<le> p + j + 1 \<and> bit od (p + j + 1 - n))
    \<and> (\<forall>j. bit c (2 * j) \<longleftrightarrow> j < 4 \<and> j < n \<and> n \<le> p + j + 1 \<and> bit ev (p + j + 1 - n))"
  using assms(2)
proof (induction n arbitrary: c od' ev')
  case (Suc n)
  obtain c0 od0 ev0 where r: "(ilv_step (2 ^ p) ^^ n) (0, od, ev) = (c0, od0, ev0)" by (metis prod_cases3)
  note IH = Suc.IH [OF r]
  have eq: "od' = push_bit 1 od0" "ev' = push_bit 1 ev0"
      "c = push_bit 2 c0 OR (if bit od0 p then 2 else 0) OR (if bit ev0 p then 1 else 0)"
    using Suc.prems r by (simp_all add: ilv_step_alt)
  have "bit c (2 * j + 1) \<longleftrightarrow> j < 4 \<and> j < Suc n \<and> Suc n \<le> p + j + 1 \<and> bit od (p + j + 1 - Suc n)" for j
  proof (cases j)
    case 0
    then have "bit c (2 * j + 1) \<longleftrightarrow> bit od0 p" unfolding eq by (simp add: bit_join [simplified])
    then show ?thesis using IH assms(1) 0 by (simp add: bit_push_bit_iff)
  next
    case (Suc i)
    have "bit c ((2 * i + 1) + 2) \<longleftrightarrow> 2 * i + 1 < 6 \<and> bit c0 (2 * i + 1)" unfolding eq by (rule bit_join)
    moreover have "2 * j + 1 = (2 * i + 1) + 2" using Suc by simp
    ultimately have "bit c (2 * j + 1) \<longleftrightarrow> 2 * i + 1 < 6 \<and> bit c0 (2 * i + 1)" by (simp only:)
    moreover have "bit c0 (2 * i + 1) \<longleftrightarrow> i < 4 \<and> i < n \<and> n \<le> p + i + 1 \<and> bit od (p + i + 1 - n)" using IH by blast
    ultimately show ?thesis using Suc by auto
  qed
  moreover have "bit c (2 * j) \<longleftrightarrow> j < 4 \<and> j < Suc n \<and> Suc n \<le> p + j + 1 \<and> bit ev (p + j + 1 - Suc n)" for j
  proof (cases j)
    case 0
    then have "bit c (2 * j) \<longleftrightarrow> bit ev0 p" unfolding eq by (simp add: bit_join [simplified])
    then show ?thesis using IH assms(1) 0 by (simp add: bit_push_bit_iff)
  next
    case (Suc i)
    have "bit c (2 * i + 2) \<longleftrightarrow> 2 * i < 6 \<and> bit c0 (2 * i)" unfolding eq by (rule bit_join)
    moreover have "2 * j = 2 * i + 2" using Suc by simp
    ultimately have "bit c (2 * j) \<longleftrightarrow> 2 * i < 6 \<and> bit c0 (2 * i)" by (simp only:)
    moreover have "bit c0 (2 * i) \<longleftrightarrow> i < 4 \<and> i < n \<and> n \<le> p + i + 1 \<and> bit ev (p + i + 1 - n)" using IH by blast
    ultimately show ?thesis using Suc by auto
  qed
  ultimately show ?case using IH by (simp add: eq)
qed auto

lemma bit_ilv:
  assumes "p < 8"
  shows "bit (ilv (2 ^ p) od ev) (2 * i + 1) \<longleftrightarrow> i < 4 \<and> 3 \<le> p + i \<and> bit od (p + i - 3)"
    and "bit (ilv (2 ^ p) od ev) (2 * i) \<longleftrightarrow> i < 4 \<and> 3 \<le> p + i \<and> bit ev (p + i - 3)"
proof -
  obtain c od' ev' where r: "(ilv_step (2 ^ p) ^^ 4) (0, od, ev) = (c, od', ev')" by (metis prod_cases3)
  show "bit (ilv (2 ^ p) od ev) (2 * i + 1) \<longleftrightarrow> i < 4 \<and> 3 \<le> p + i \<and> bit od (p + i - 3)"
    and "bit (ilv (2 ^ p) od ev) (2 * i) \<longleftrightarrow> i < 4 \<and> 3 \<le> p + i \<and> bit ev (p + i - 3)"
    using ilv_iterate [OF assms r] r by (auto simp: ilv_def)
qed

lemma ilv_xor:
  assumes "p < 8"
  shows "ilv (2 ^ p) od ev XOR ilv (2 ^ p) od' ev' = ilv (2 ^ p) (od XOR od') (ev XOR ev')"
proof (rule bit_word_eqI)
  fix n
  show "bit (ilv (2 ^ p) od ev XOR ilv (2 ^ p) od' ev') n = bit (ilv (2 ^ p) (od XOR od') (ev XOR ev')) n"
  proof (cases "even n")
    case True
    then obtain i where "n = 2 * i" by blast
    then show ?thesis by (auto simp: bit_xor_iff bit_ilv [OF assms])
  next
    case False
    then obtain i where "n = 2 * i + 1" by (metis oddE)
    then show ?thesis by (simp only: bit_xor_iff bit_ilv [OF assms]) auto
  qed
qed

section \<open>How the code depends on the block\<close>

definition col_sum :: "u8 list \<Rightarrow> u8" where
  "col_sum data = xsum (\<lambda>i. data ! i) [0..<256]"

definition odd_line :: "u8 list \<Rightarrow> u8" where
  "odd_line data = xsum (\<lambda>i. if odd_byte (data ! i) then of_nat i else 0) [0..<256]"

definition even_line :: "u8 list \<Rightarrow> u8" where
  "even_line data = xsum (\<lambda>i. if odd_byte (data ! i) then of_nat (255 - i) else 0) [0..<256]"

definition odd_col :: "u8 \<Rightarrow> u8" where
  "odd_col c = xsum (\<lambda>i. if bit c i then of_nat i else 0) [0..<8]"

definition even_col :: "u8 \<Rightarrow> u8" where
  "even_col c = xsum (\<lambda>i. if bit c i then of_nat (7 - i) else 0) [0..<8]"

lemma compute_eq:
  "hamming_compute_256 data =
    (NOT (ilv (2 ^ 7) (odd_line data) (even_line data)), NOT (ilv (2 ^ 3) (odd_line data) (even_line data)),
     NOT (ilv (2 ^ 2) (odd_col (col_sum data)) (even_col (col_sum data))))"
proof -
  have a: "foldl (line_step data) (0, 0, 0) [0..<256] = (col_sum data, even_line data, odd_line data)"
    by (simp add: line_fold col_sum_def even_line_def odd_line_def)
  have "foldl col_step (drop_bit 0 c, 0, 0) [0..<0 + 8] = (drop_bit (0 + 8) c, even_col c, odd_col c)" for c
    unfolding col_fold by (simp add: even_col_def odd_col_def)
  then have b: "foldl col_step (c, 0, 0) [0..<8] = (drop_bit 8 c, even_col c, odd_col c)" for c
    by (simp only: drop_bit_0 id_apply add_0)
  show ?thesis unfolding hamming_compute_256_def a b prod.case by simp
qed

text \<open>One flipped bit.\<close>

definition flip :: "u8 list \<Rightarrow> nat \<Rightarrow> nat \<Rightarrow> u8 list" where
  "flip data k b = data[k := data ! k XOR push_bit b 1]"

lemma flip_length [simp]: "length (flip data k b) = length data"
  by (simp add: flip_def)

lemma flip_flip: "k < length data \<Longrightarrow> flip (flip data k b) k b = data"
  by (simp add: flip_def xor.assoc)

lemma u8_complement:
  assumes "k < 256"
  shows "(of_nat (255 - k) :: u8) = NOT (of_nat k)"
proof -
  have "(of_nat (255 - k) :: u8) = of_nat 255 - of_nat k" using assms by (intro of_nat_diff) simp
  also have "of_nat 255 = (- 1 :: u8)" by simp
  finally show ?thesis by (simp add: not_eq_complement)
qed

lemma lines_flip:
  assumes "length data = 256" and "k < 256" and "b < 8"
  shows "odd_line (flip data k b) = odd_line data XOR of_nat k"
    and "even_line (flip data k b) = even_line data XOR NOT (of_nat k)"
    and "col_sum (flip data k b) = col_sum data XOR push_bit b 1"
proof -
  have k: "distinct [0..<256]" "k \<in> set [0..<256]" using assms(2) by simp_all
  obtain d :: u8 where d: "push_bit b 1 = d" by blast
  have f: "flip data k b ! k = data ! k XOR d" "i \<noteq> k \<Longrightarrow> flip data k b ! i = data ! i" for i
    using assms(1,2) by (simp_all add: flip_def flip: d)
  have od: "odd_byte (c XOR d) \<longleftrightarrow> \<not> odd_byte c" for c using odd_byte_flip [OF assms(3)] unfolding d .
  show "odd_line (flip data k b) = odd_line data XOR of_nat k"
    unfolding odd_line_def by (rule xsum_change [OF k]) (auto simp: f od)
  show "even_line (flip data k b) = even_line data XOR NOT (of_nat k)"
    unfolding even_line_def u8_complement [OF assms(2), symmetric]
    by (rule xsum_change [OF k]) (auto simp: f od)
  show "col_sum (flip data k b) = col_sum data XOR push_bit b 1"
    unfolding col_sum_def d by (rule xsum_change [OF k]) (auto simp: f)
qed

lemma cols_flip:
  assumes "b < 8"
  shows "odd_col (c XOR push_bit b 1) = odd_col c XOR of_nat b"
    and "even_col (c XOR push_bit b 1) = even_col c XOR of_nat (7 - b)"
proof -
  have k: "distinct [0..<8]" "b \<in> set [0..<8]" using assms by simp_all
  obtain d :: u8 where d: "push_bit b 1 = d" by blast
  have f: "bit (c XOR d) b \<longleftrightarrow> \<not> bit c b" "i \<noteq> b \<Longrightarrow> bit (c XOR d) i = bit c i" for i
    using assms by (auto simp: bit_xor_iff bit_push_bit_iff bit_exp_iff bit_1_iff simp flip: d)
  show "odd_col (c XOR push_bit b 1) = odd_col c XOR of_nat b"
    unfolding odd_col_def d by (rule xsum_change [OF k]) (auto simp: f)
  show "even_col (c XOR push_bit b 1) = even_col c XOR of_nat (7 - b)"
    unfolding even_col_def d by (rule xsum_change [OF k]) (auto simp: f)
qed

text \<open>The correction code of two blocks, from the differences of the sums.\<close>

lemma correct_diff:
  fixes dl el dc ec :: u8
  assumes "odd_line data' = odd_line data XOR dl" and "even_line data' = even_line data XOR el"
    and "odd_col (col_sum data') = odd_col (col_sum data) XOR dc"
    and "even_col (col_sum data') = even_col (col_sum data) XOR ec"
    and "c = code32 (ilv (2 ^ 7) dl el) (ilv (2 ^ 3) dl el) (ilv (2 ^ 2) dc ec)"
  shows "hamming_correct_256 x (hamming_compute_256 data) (hamming_compute_256 data') =
    (if c = 0 then (0, x)
     else if popcount32 c = 11 then
       (let byte = unat (err_byte (ilv (2 ^ 7) dl el) (ilv (2 ^ 3) dl el))
        in (HAMMING_ERROR_SINGLEBIT, x[byte := x ! byte XOR push_bit (unat (err_bit (ilv (2 ^ 2) dc ec))) 1]))
     else if popcount32 c = 1 then (HAMMING_ERROR_ECC, x) else (HAMMING_ERROR_MULTIPLEBITS, x))"
proof -
  have n: "NOT a XOR NOT b = b XOR a" for a b :: u8 by (rule bit_word_eqI) (auto simp: bit_xor_iff bit_not_iff)
  have i: "ilv (2 ^ p) od ev XOR ilv (2 ^ p) (od XOR a) (ev XOR b) = ilv (2 ^ p) a b" if "p < 8" for p od ev a b
    by (simp add: ilv_xor [OF that])
  show ?thesis
    unfolding hamming_correct_256_def compute_eq prod.case Let_def n assms(1-4) assms(5)
    by (simp only: i)
qed

section \<open>Counting the bits of the correction code\<close>

lemma ones8_ilv:
  assumes "p < 8"
  shows "ones8 (ilv (2 ^ p) od ev) =
    (\<Sum>i<4. if 3 \<le> p + i then of_bool (bit od (p + i - 3)) + of_bool (bit ev (p + i - 3)) else 0)"
proof -
  let ?c = "ilv (2 ^ p) od ev"
  have "ones8 ?c = (\<Sum>i<4. of_bool (bit ?c (2 * i)) + of_bool (bit ?c (2 * i + 1)))"
    by (simp add: ones8_eq lessThan_nat_numeral lessThan_Suc eval_nat_numeral)
  also have "\<dots> = (\<Sum>i<4. if 3 \<le> p + i then of_bool (bit od (p + i - 3)) + of_bool (bit ev (p + i - 3)) else 0)"
    by (rule sum.cong) (simp_all only: bit_ilv [OF assms], auto)
  finally show ?thesis .
qed

lemma ilv_balanced:
  assumes "p < 8" and "\<And>i. i < 4 \<Longrightarrow> 3 \<le> p + i \<Longrightarrow> bit ev (p + i - 3) \<longleftrightarrow> \<not> bit od (p + i - 3)"
  shows "ones8 (ilv (2 ^ p) od ev) = (if p < 3 then p + 1 else 4)"
proof -
  have "ones8 (ilv (2 ^ p) od ev) = (\<Sum>i<4. if 3 \<le> p + i then 1 else 0)"
    unfolding ones8_ilv [OF assms(1)] by (rule sum.cong) (use assms(2) in auto)
  then show ?thesis by (auto simp: lessThan_nat_numeral lessThan_Suc)
qed

lemma ilv_even: "p < 8 \<Longrightarrow> even (ones8 (ilv (2 ^ p) d d))"
  unfolding ones8_ilv by (rule dvd_sum) simp

lemma nbits_0_iff: "nbits x = 0 \<longleftrightarrow> x = 0"
proof
  assume "nbits x = 0"
  then have "\<not> bit x i" if "i < 32" for i using that by (simp only: nbits_def bitn_def) auto
  then show "x = 0" using bit_imp_le_length [of x] by (intro bit_word_eqI) auto
qed (simp add: nbits_def bitn_def)

lemma popcount32_eq_iff: "n < 2 ^ 32 \<Longrightarrow> popcount32 x = of_nat n \<longleftrightarrow> nbits x = n"
  by (simp add: word_unat_eq_iff popcount32_nbits unat_of_nat take_bit_nat_eq_self)

lemma popcount32_11: "popcount32 x = 11 \<longleftrightarrow> nbits x = 11"
  using popcount32_eq_iff [of 11 x] by simp

lemma popcount32_1: "popcount32 x = 1 \<longleftrightarrow> nbits x = 1"
  using popcount32_eq_iff [of 1 x] by simp

lemma bit_complement_7: "b < 8 \<Longrightarrow> i < 3 \<Longrightarrow> bit (of_nat (7 - b) :: u8) i \<longleftrightarrow> \<not> bit (of_nat b :: u8) i"
  by (auto simp: less_Suc_eq numeral_eq_Suc)

text \<open>Reading the position back.\<close>

lemma bit_err_byte:
  "bit (err_byte c0 c1) 7 = bit c0 7" "bit (err_byte c0 c1) 6 = bit c0 5"
  "bit (err_byte c0 c1) 5 = bit c0 3" "bit (err_byte c0 c1) 4 = bit c0 1"
  "bit (err_byte c0 c1) 3 = bit c1 7" "bit (err_byte c0 c1) 2 = bit c1 5"
  "bit (err_byte c0 c1) 1 = bit c1 3" "bit (err_byte c0 c1) 0 = bit c1 1"
  unfolding err_byte_def bit_or_iff bit_and_iff bit_push_bit_iff bit_drop_bit_eq by (simp_all add: bit_numeral_rec)

lemma bit_err_bit:
  "bit (err_bit c2) 2 = bit c2 7" "bit (err_bit c2) 1 = bit c2 5" "bit (err_bit c2) 0 = bit c2 3"
  unfolding err_bit_def bit_or_iff bit_and_iff bit_push_bit_iff bit_drop_bit_eq by (simp_all add: bit_numeral_rec)

lemma bit_err_bit_high: "3 \<le> n \<Longrightarrow> \<not> bit (err_bit c2) n"
  using bit_exp_iff [of 2 n, where 'a = u8] bit_2_u8 [of n]
  unfolding err_bit_def bit_or_iff bit_and_iff by (auto simp: bit_1_iff)

lemma nat_less8: "n < 8 \<Longrightarrow> n = 0 \<or> n = 1 \<or> n = 2 \<or> n = 3 \<or> n = 4 \<or> n = 5 \<or> n = 6 \<or> n = (7 :: nat)"
  by auto

lemma err_byte_ilv: "err_byte (ilv (2 ^ 7) k e) (ilv (2 ^ 3) k e) = k"
proof (rule bit_word_eqI)
  fix n assume "n < LENGTH(8)"
  then have n: "n < 8" by simp
  have b: "bit (ilv (2 ^ 7) k e) (2 * i + 1) = bit k (4 + i)" "bit (ilv (2 ^ 3) k e) (2 * i + 1) = bit k i" if "i < 4" for i
    using that by (simp_all only: bit_ilv) auto
  from b [of 0] b [of 1] b [of 2] b [of 3]
  show "bit (err_byte (ilv (2 ^ 7) k e) (ilv (2 ^ 3) k e)) n = bit k n"
    using nat_less8 [OF n] by (elim disjE) (simp_all add: bit_err_byte bit_err_byte [simplified] del: power_numeral)
qed

lemma small_bits:
  assumes "b < 8" and "3 \<le> n"
  shows "\<not> bit (of_nat b :: u8) n"
proof -
  have "take_bit 3 (of_nat b :: u8) = of_nat (take_bit 3 b)" by (simp add: take_bit_of_nat)
  also have "take_bit 3 b = b" using assms by (simp add: take_bit_nat_eq_self)
  finally have "bit (of_nat b :: u8) n = bit (take_bit 3 (of_nat b :: u8)) n" by simp
  then show ?thesis using assms(2) by (simp add: bit_take_bit_iff)
qed

lemma ones8_0: "ones8 x = 0 \<longleftrightarrow> x = 0"
proof
  assume "ones8 x = 0"
  then have "\<not> bit x i" if "i < 8" for i using that by (simp only: ones8_def) auto
  then show "x = 0" using bit_imp_le_length [of x] by (intro bit_word_eqI) auto
qed (simp add: ones8_def)

lemma xor_zero_u8: "x XOR y = 0 \<Longrightarrow> x = y" for x y :: u8
proof -
  assume "x XOR y = 0"
  moreover have "x = (x XOR y) XOR y" by (simp only: xor.assoc xor_self_eq xor.right_neutral)
  ultimately show ?thesis by simp
qed

lemma err_bit_ilv:
  assumes "b < 8"
  shows "unat (err_bit (ilv (2 ^ 2) (of_nat b) e)) = b"
proof -
  have c: "bit (ilv (2 ^ 2) (of_nat b) e) (2 * i + 1) \<longleftrightarrow> i < 4 \<and> 1 \<le> i \<and> bit (of_nat b :: u8) (i - 1)" for i
    by (simp only: bit_ilv) auto
  have "err_bit (ilv (2 ^ 2) (of_nat b) e) = of_nat b"
  proof (rule bit_word_eqI)
    fix n assume "n < LENGTH(8)"
    have "\<not> bit (of_nat b :: u8) n" if "3 \<le> n" by (rule small_bits [OF assms that])
    moreover have "n = 0 \<or> n = 1 \<or> n = 2 \<or> 3 \<le> n" by auto
    ultimately show "bit (err_bit (ilv (2 ^ 2) (of_nat b) e)) n = bit (of_nat b :: u8) n"
      using c [of 1] c [of 2] c [of 3] by (elim disjE) (simp_all add: bit_err_bit bit_err_bit [simplified] bit_err_bit_high del: power_numeral)
  qed
  then show ?thesis using assms by (simp add: unat_of_nat take_bit_nat_eq_self)
qed

section \<open>What the code detects and corrects\<close>

lemma hamming_correct_intact: "hamming_correct_256 data c c = (0, data)"
  by (cases c) (simp add: hamming_correct_256_def code32_def)

lemma single_error_corrected:
  assumes "length data = 256" and "k < 256" and "b < 8"
  shows "hamming_correct_256 (flip data k b) (hamming_compute_256 data) (hamming_compute_256 (flip data k b)) =
    (HAMMING_ERROR_SINGLEBIT, data)"
proof -
  let ?C0 = "ilv (2 ^ 7) (of_nat k) (NOT (of_nat k))"
  let ?C1 = "ilv (2 ^ 3) (of_nat k) (NOT (of_nat k))"
  let ?C2 = "ilv (2 ^ 2) (of_nat b) (of_nat (7 - b))"
  let ?c = "code32 ?C0 ?C1 ?C2"
  have "ones8 ?C0 = (if (7 :: nat) < 3 then 7 + 1 else 4)" by (rule ilv_balanced) (simp_all add: bit_not_iff)
  moreover have "ones8 ?C1 = (if (3 :: nat) < 3 then 3 + 1 else 4)" by (rule ilv_balanced) (simp_all add: bit_not_iff)
  moreover have "ones8 ?C2 = (if (2 :: nat) < 3 then 2 + 1 else 4)"
    by (rule ilv_balanced) (use bit_complement_7 [OF assms(3)] in simp_all)
  ultimately have n: "nbits ?c = 11" unfolding nbits_code32 by simp
  then have "?c \<noteq> 0" using nbits_0_iff [of ?c] by simp
  moreover have "err_byte ?C0 ?C1 = of_nat k" by (rule err_byte_ilv)
  moreover have "unat (err_bit ?C2) = b" by (rule err_bit_ilv [OF assms(3)])
  moreover have "unat (of_nat k :: u8) = k" using assms(2) by (simp add: unat_of_nat take_bit_nat_eq_self)
  moreover have "flip (flip data k b) k b = data" using assms(1,2) by (simp add: flip_flip)
  ultimately show ?thesis
    using correct_diff [OF lines_flip(1,2) [OF assms] _ _ refl, of "of_nat b" "of_nat (7 - b)" "flip data k b"] n
    unfolding lines_flip(3) [OF assms] cols_flip [OF assms(3)]
    by (simp only: refl popcount32_11 Let_def flip_def if_False if_True simp_thms)
qed

text \<open>C12: every single-bit error is corrected. Whichever of the 2048 bits of a block is flipped after its code was
  computed, correcting the damaged block with the stored code reports a single-bit error and restores the block.\<close>

theorem hamming_single_error_corrected:
  assumes "length data = 256" and "k < 256" and "b < 8"
  shows "hamming_correct_256 (flip data k b) (hamming_compute_256 data) (hamming_compute_256 (flip data k b)) =
    (HAMMING_ERROR_SINGLEBIT, data)"
  by (rule single_error_corrected [OF assms])

text \<open>C13: every double-bit error is detected. When two different bits of a block are flipped, the correction reports
  an error it cannot correct and leaves the block alone.\<close>

theorem hamming_double_error_detected:
  assumes "length data = 256" and "k < 256" and "b < 8" and "k' < 256" and "b' < 8" and "(k, b) \<noteq> (k', b')"
    and "bad = flip (flip data k b) k' b'"
  shows "hamming_correct_256 bad (hamming_compute_256 data) (hamming_compute_256 bad) = (HAMMING_ERROR_MULTIPLEBITS, bad)"
proof -
  have len: "length (flip data k b) = 256" using assms(1) by simp
  note one = lines_flip [OF assms(1-3)] and two = lines_flip [OF len assms(4,5)]
  obtain d :: u8 where d: "of_nat k XOR of_nat k' = d" by blast
  obtain c :: u8 where c: "of_nat b XOR of_nat b' = c" by blast
  have "NOT (of_nat k) XOR NOT (of_nat k') = d" unfolding d [symmetric]
    by (rule bit_word_eqI) (auto simp: bit_xor_iff bit_not_iff)
  then have line: "odd_line bad = odd_line data XOR d" "even_line bad = even_line data XOR d"
    unfolding assms(7) two one by (simp_all add: d xor.assoc)
  have "of_nat (7 - b) XOR of_nat (7 - b') = (of_nat b XOR of_nat b' :: u8)"
    using nat_less8 [OF assms(3)] nat_less8 [OF assms(5)] by (elim disjE) simp_all
  then have col: "odd_col (col_sum bad) = odd_col (col_sum data) XOR c"
      "even_col (col_sum bad) = even_col (col_sum data) XOR c"
    unfolding assms(7) two one cols_flip [OF assms(3)] cols_flip [OF assms(5)] by (simp_all add: c xor.assoc)
  let ?c = "code32 (ilv (2 ^ 7) d d) (ilv (2 ^ 3) d d) (ilv (2 ^ 2) c c)"
  have "even (nbits ?c)" unfolding nbits_code32 using ilv_even [of 7 d] ilv_even [of 3 d] ilv_even [of 2 c] by simp
  then have ne: "nbits ?c \<noteq> 11" "nbits ?c \<noteq> 1" by auto
  have "?c \<noteq> 0"
  proof
    assume "?c = 0"
    then have "nbits ?c = 0" by (simp only: nbits_0_iff)
    then have "ones8 (ilv (2 ^ 7) d d) = 0" "ones8 (ilv (2 ^ 3) d d) = 0" "ones8 (ilv (2 ^ 2) c c) = 0"
      unfolding nbits_code32 by simp_all
    then have z: "ilv (2 ^ 7) d d = 0" "ilv (2 ^ 3) d d = 0" "ilv (2 ^ 2) c c = 0" by (simp_all only: ones8_0)
    have "d = 0" using err_byte_ilv [of d d] unfolding z by (simp add: err_byte_def)
    moreover have "of_nat k = (of_nat k' :: u8) \<longleftrightarrow> k = k'"
      using assms(2,4) by (simp add: word_unat_eq_iff unat_of_nat take_bit_nat_eq_self)
    ultimately have "k = k'" using d xor_zero_u8 by metis
    moreover have "c = 0"
    proof (rule bit_word_eqI)
      fix n assume "n < LENGTH(8)"
      have "\<not> bit c n" if "n < 3"
        using bit_ilv(1) [of 2 c c "n + 1"] that unfolding z(3) by simp
      moreover have "\<not> bit c n" if "3 \<le> n"
        using small_bits [OF assms(3) that] small_bits [OF assms(5) that] unfolding c [symmetric] by (simp add: bit_xor_iff)
      ultimately show "bit c n = bit 0 n" by (cases "n < 3") auto
    qed
    then have "of_nat b = (of_nat b' :: u8)" using c xor_zero_u8 by metis
    then have "b = b'" using assms(3,5) by (simp add: word_unat_eq_iff unat_of_nat take_bit_nat_eq_self)
    ultimately show False using assms(6) by simp
  qed
  then show ?thesis
    unfolding correct_diff [OF line col refl] using ne by (simp only: if_False popcount32_11 popcount32_1)
qed

text \<open>an intact block is accepted, and a stored code with one flipped bit is reported as such; in both cases the
  block is left alone.\<close>

theorem hamming_intact_block:
  assumes "j < 8" and "i < (3 :: nat)" and "hamming_compute_256 data = (c0, c1, c2)"
  shows "hamming_correct_256 data (hamming_compute_256 data) (hamming_compute_256 data) = (0, data)
    \<and> hamming_correct_256 data
        (if i = 0 then (c0 XOR push_bit j 1, c1, c2) else if i = 1 then (c0, c1 XOR push_bit j 1, c2)
         else (c0, c1, c2 XOR push_bit j 1)) (hamming_compute_256 data) = (HAMMING_ERROR_ECC, data)"
proof -
  obtain d :: u8 where d: "push_bit j 1 = d" by blast
  have b: "bit d n \<longleftrightarrow> n = j" for n using assms(1) by (auto simp: bit_push_bit_iff bit_1_iff bit_exp_iff simp flip: d)
  have "ones8 d = (\<Sum>n<8. if n = j then 1 else 0)" unfolding ones8_def b by (rule sum.cong) auto
  then have o1: "ones8 d = 1" using assms(1) by simp
  have o0: "ones8 0 = 0" by (simp add: ones8_def)
  have x: "a XOR (a XOR d) = d" for a :: u8 by (simp flip: xor.assoc)
  have ecc: "hamming_correct_256 data (o0, o1, o2) (c0, c1, c2) = (HAMMING_ERROR_ECC, data)"
    if "nbits (code32 (c0 XOR o0) (c1 XOR o1) (c2 XOR o2)) = 1" for o0 o1 o2
  proof -
    have "code32 (c0 XOR o0) (c1 XOR o1) (c2 XOR o2) \<noteq> 0" using that nbits_0_iff [of 0] by (metis zero_neq_one)
    then show ?thesis using that by (simp add: hamming_correct_256_def popcount32_11 popcount32_1)
  qed
  have "i = 0 \<or> i = 1 \<or> i = 2" using assms(2) by auto
  then have "hamming_correct_256 data
        (if i = 0 then (c0 XOR d, c1, c2) else if i = 1 then (c0, c1 XOR d, c2)
         else (c0, c1, c2 XOR d)) (c0, c1, c2) = (HAMMING_ERROR_ECC, data)"
    by (elim disjE) (simp_all add: ecc nbits_code32 x o0 o1)
  moreover have "hamming_correct_256 data (c0, c1, c2) (c0, c1, c2) = (0, data)"
    by (simp add: hamming_correct_256_def code32_def)
  ultimately show ?thesis unfolding assms(3) d by blast
qed

section \<open>Witnesses\<close>

theorem hamming_single_error_corrected_witness:
  "hamming_correct_256 (flip (replicate 256 0x5A) 77 6) (hamming_compute_256 (replicate 256 0x5A))
     (hamming_compute_256 (flip (replicate 256 0x5A) 77 6)) = (HAMMING_ERROR_SINGLEBIT, replicate 256 0x5A)"
  by (rule hamming_single_error_corrected) simp_all

theorem hamming_double_error_detected_witness:
  "fst (hamming_correct_256 (flip (flip (replicate 256 0x5A) 77 6) 3 6) (hamming_compute_256 (replicate 256 0x5A))
     (hamming_compute_256 (flip (flip (replicate 256 0x5A) 77 6) 3 6))) = HAMMING_ERROR_MULTIPLEBITS"
  by (subst hamming_double_error_detected [of _ 77 6 3 6]) simp_all

theorem hamming_intact_block_witness:
  "\<exists>c0 c1 c2. hamming_compute_256 (replicate 256 0x5A) = (c0, c1, c2)
    \<and> hamming_correct_256 (replicate 256 0x5A) (c0, c1 XOR push_bit 2 1, c2) (c0, c1, c2) = (HAMMING_ERROR_ECC, replicate 256 0x5A)"
proof -
  obtain c0 c1 c2 where c: "hamming_compute_256 (replicate 256 0x5A) = (c0, c1, c2)" by (metis prod_cases3)
  show ?thesis using hamming_intact_block [OF _ _ c, of 2 1] c by simp
qed

end
