(* ===== verification/Nand.thy ===== *)
theory Nand
  imports Bus Hamming
begin

text \<open>
  dev/nand.c: the driver of the NAND flash, on a bus as in \<open>Bus\<close>. Buffers are byte lists. What is printed is not modelled,
  except that \<open>nand_read_page\<close> returns the result of the correction of each block, which the code prints.
\<close>

section \<open>Registers and commands\<close>

definition NAND_DATA :: addr where "NAND_DATA = 0x60000000"
definition NAND_CTRL :: addr where "NAND_CTRL = 0x60400000"
definition NAND_BUSY :: addr where "NAND_BUSY = 0x60800000"
definition NAND_CTRL_ALE :: u8 where "NAND_CTRL_ALE = 1"
definition NAND_CTRL_CLE :: u8 where "NAND_CTRL_CLE = 2"
definition NAND_CTRL_NCE :: u8 where "NAND_CTRL_NCE = 4"
definition NAND_CTRL_MASK :: u8 where "NAND_CTRL_MASK = 0x03"
definition NAND_BUSY_BIT :: u8 where "NAND_BUSY_BIT = 0x20"
definition NAND_CMD_READ :: u8 where "NAND_CMD_READ = 0x00"
definition NAND_CMD_RND_READ :: u8 where "NAND_CMD_RND_READ = 0x05"
definition NAND_CMD_PROGRAM_PAGE_CONFIRM :: u8 where "NAND_CMD_PROGRAM_PAGE_CONFIRM = 0x10"
definition NAND_CMD_READ_CONFIRM :: u8 where "NAND_CMD_READ_CONFIRM = 0x30"
definition NAND_CMD_BLOCK_ERASE :: u8 where "NAND_CMD_BLOCK_ERASE = 0x60"
definition NAND_CMD_READ_STATUS :: u8 where "NAND_CMD_READ_STATUS = 0x70"
definition NAND_CMD_PROGRAM_PAGE :: u8 where "NAND_CMD_PROGRAM_PAGE = 0x80"
definition NAND_CMD_RANDOM_DATA_INPUT :: u8 where "NAND_CMD_RANDOM_DATA_INPUT = 0x85"
definition NAND_CMD_READ_ID :: u8 where "NAND_CMD_READ_ID = 0x90"
definition NAND_CMD_BLOCK_ERASE_CONFIRM :: u8 where "NAND_CMD_BLOCK_ERASE_CONFIRM = 0xD0"
definition NAND_CMD_RND_READ_CONFIRM :: u8 where "NAND_CMD_RND_READ_CONFIRM = 0xE0"
definition NAND_CMD_RESET :: u8 where "NAND_CMD_RESET = 0xFF"
definition NAND_RAW_PAGE_SIZE :: nat where "NAND_RAW_PAGE_SIZE = 2112"
definition NAND_PAGE_SIZE :: nat where "NAND_PAGE_SIZE = 2048"
definition NAND_PAGES_PER_BLOCK :: u32 where "NAND_PAGES_PER_BLOCK = 64"

section \<open>Operations\<close>

definition nand_busy :: "u8 \<Rightarrow> bool" where
  "nand_busy v \<longleftrightarrow> v AND NAND_BUSY_BIT = 0"

definition nand_wait :: "'d bus \<Rightarrow> 'd \<Rightarrow> 'd option" where
  "nand_wait b = poll8 b NAND_BUSY nand_busy"

definition nand_select :: "'d bus \<Rightarrow> 'd \<Rightarrow> 'd" where
  "nand_select b = modb b NAND_CTRL (\<lambda>v. v OR NAND_CTRL_NCE)"

definition nand_deselect :: "'d bus \<Rightarrow> 'd \<Rightarrow> 'd" where
  "nand_deselect b = modb b NAND_CTRL (\<lambda>v. v AND NOT NAND_CTRL_NCE)"

definition nand_cmd :: "'d bus \<Rightarrow> u8 \<Rightarrow> 'd \<Rightarrow> 'd" where
  "nand_cmd b cmd d =
     (let d = modb b NAND_CTRL (\<lambda>v. v OR NAND_CTRL_CLE) d;
          d = outb b NAND_DATA cmd d
      in modb b NAND_CTRL (\<lambda>v. v AND NOT NAND_CTRL_CLE) d)"

text \<open>Writing bytes with the address latch enabled.\<close>

definition nand_addr :: "'d bus \<Rightarrow> u8 list \<Rightarrow> 'd \<Rightarrow> 'd" where
  "nand_addr b vs d =
     (let d = modb b NAND_CTRL (\<lambda>v. v OR NAND_CTRL_ALE) d;
          d = writeb b NAND_DATA vs d
      in modb b NAND_CTRL (\<lambda>v. v AND NOT NAND_CTRL_ALE) d)"

text \<open>The three bytes of a page number and the two of a column, lowest first.\<close>

primrec page_loop :: "nat \<Rightarrow> u32 \<Rightarrow> u8 list" where
  "page_loop 0 page = []"
| "page_loop (Suc n) page = ucast (page AND 0xFF) # page_loop n (drop_bit 8 page)"

definition col_bytes :: "u32 \<Rightarrow> u8 list" where
  "col_bytes col = [ucast (col AND 0xFF), ucast (drop_bit 8 col AND 0xFF)]"

definition nand_reset :: "'d bus \<Rightarrow> 'd \<Rightarrow> 'd option" where
  "nand_reset b d =
     (let d = modb b NAND_CTRL (\<lambda>v. v AND NOT NAND_CTRL_MASK) d;
          d = nand_select b d;
          d = nand_cmd b NAND_CMD_RESET d
      in map_option (nand_deselect b) (nand_wait b d))"

definition nand_read_id :: "'d bus \<Rightarrow> 'd \<Rightarrow> (u16 \<times> 'd) option" where
  "nand_read_id b d =
     (let d = nand_select b d;
          d = outb b NAND_DATA NAND_CMD_READ_ID d;
          d = nand_cmd b NAND_CMD_READ_ID d;
          d = nand_addr b [0] d
      in case nand_wait b d of
           None \<Rightarrow> None
         | Some d \<Rightarrow>
             (case inb b NAND_DATA d of (hi, d) \<Rightarrow> case inb b NAND_DATA d of (lo, d) \<Rightarrow>
                Some (push_bit 8 (ucast hi) OR ucast lo, nand_deselect b d)))"

definition nand_load_page :: "'d bus \<Rightarrow> u32 \<Rightarrow> 'd \<Rightarrow> 'd option" where
  "nand_load_page b page d =
     (let d = nand_cmd b NAND_CMD_READ d;
          d = nand_addr b ([0, 0] @ page_loop 3 page) d;
          d = nand_cmd b NAND_CMD_READ_CONFIRM d
      in nand_wait b d)"

text \<open>The check of block \<open>i\<close> of a page: the result of the correction, and the buffer with the corrected block.\<close>

definition page_block :: "u8 list \<Rightarrow> nat \<Rightarrow> u8 list" where
  "page_block buf i = take 256 (drop (i * 256) buf)"

definition page_code :: "u8 list \<Rightarrow> nat \<Rightarrow> u8 \<times> u8 \<times> u8" where
  "page_code buf i = (let k = NAND_PAGE_SIZE + 40 + i * 3 in (buf ! k, buf ! (k + 1), buf ! (k + 2)))"

definition ecc_step :: "u8 list \<times> u8 list \<Rightarrow> nat \<Rightarrow> u8 list \<times> u8 list" where
  "ecc_step st i =
     (case st of (rcs, buf) \<Rightarrow>
        (case hamming_correct_256 (page_block buf i) (page_code buf i) (hamming_compute_256 (page_block buf i)) of
           (rc, blk) \<Rightarrow> (rcs @ [rc], take (i * 256) buf @ blk @ drop (i * 256 + 256) buf)))"

definition nand_read_page :: "'d bus \<Rightarrow> u32 \<Rightarrow> 'd \<Rightarrow> (u8 list \<times> u8 list \<times> 'd) option" where
  "nand_read_page b page d =
     (case nand_load_page b page (nand_select b d) of
        None \<Rightarrow> None
      | Some d \<Rightarrow>
          (case readb b NAND_DATA NAND_RAW_PAGE_SIZE d of
             (buf, d) \<Rightarrow>
               (let d = nand_deselect b d
                in case foldl ecc_step ([], buf) [0..<8] of (rcs, buf) \<Rightarrow> Some (rcs, buf, d))))"

definition nand_read :: "'d bus \<Rightarrow> u32 \<Rightarrow> u32 \<Rightarrow> u32 \<Rightarrow> 'd \<Rightarrow> (u8 list \<times> 'd) option" where
  "nand_read b page col len d =
     (case nand_load_page b page (nand_select b d) of
        None \<Rightarrow> None
      | Some d \<Rightarrow>
          (let d = nand_cmd b NAND_CMD_RND_READ d;
               d = nand_addr b (col_bytes col) d;
               d = nand_cmd b NAND_CMD_RND_READ_CONFIRM d
           in case nand_wait b d of
                None \<Rightarrow> None
              | Some d \<Rightarrow>
                  (case readb b NAND_DATA (unat len) d of (buf, d) \<Rightarrow> Some (buf, nand_deselect b d))))"

definition nand_read_status :: "'d bus \<Rightarrow> 'd \<Rightarrow> u8 \<times> 'd" where
  "nand_read_status b d = inb b NAND_DATA (nand_cmd b NAND_CMD_READ_STATUS d)"

definition nand_erase :: "'d bus \<Rightarrow> u32 \<Rightarrow> 'd \<Rightarrow> (u8 \<times> 'd) option" where
  "nand_erase b block d =
     (let block = block * NAND_PAGES_PER_BLOCK;
          d = nand_select b d;
          d = nand_cmd b NAND_CMD_BLOCK_ERASE d;
          d = nand_addr b [ucast (block AND 0xFF), ucast (drop_bit 8 block AND 0xFF), ucast (drop_bit 16 block AND 0xFF)] d;
          d = nand_cmd b NAND_CMD_BLOCK_ERASE_CONFIRM d
      in case nand_wait b d of
           None \<Rightarrow> None
         | Some d \<Rightarrow> (case nand_read_status b d of (status, d) \<Rightarrow> Some (status, nand_deselect b d)))"

definition nand_random_data_input :: "'d bus \<Rightarrow> u32 \<Rightarrow> 'd \<Rightarrow> 'd" where
  "nand_random_data_input b col d =
     (let d = nand_cmd b NAND_CMD_RANDOM_DATA_INPUT d in nand_addr b (col_bytes col) d)"

definition code_list :: "u8 \<times> u8 \<times> u8 \<Rightarrow> u8 list" where
  "code_list c = (case c of (c0, c1, c2) \<Rightarrow> [c0, c1, c2])"

definition nand_write_sector :: "'d bus \<Rightarrow> u32 \<Rightarrow> u32 \<Rightarrow> u8 list \<Rightarrow> 'd \<Rightarrow> (u8 \<times> 'd) option" where
  "nand_write_sector b page sect buf d =
     (let ecc1 = hamming_compute_256 (take 256 buf);
          ecc2 = hamming_compute_256 (take 256 (drop 256 buf));
          d = nand_select b d;
          d = nand_cmd b NAND_CMD_PROGRAM_PAGE d;
          d = nand_addr b (col_bytes (sect * 512) @ page_loop 3 page) d;
          d = writeb b NAND_DATA (take 512 buf) d;
          d = nand_random_data_input b (of_nat NAND_PAGE_SIZE + 40 + sect * 6) d;
          d = writeb b NAND_DATA (code_list ecc1 @ code_list ecc2) d;
          d = nand_cmd b NAND_CMD_PROGRAM_PAGE_CONFIRM d
      in case nand_wait b d of
           None \<Rightarrow> None
         | Some d \<Rightarrow> (case nand_read_status b d of (status, d) \<Rightarrow> Some (status, nand_deselect b d)))"

section \<open>What the chip sees\<close>

text \<open>The traffic of the chip: what is latched depends on the control lines at the time of a data access, and a chip that
  is not selected takes part in none.\<close>

datatype nand_event = Cmd u8 | Adr u8 | Dat u8 | Rd u8

definition latched :: "u8 \<Rightarrow> u8 \<Rightarrow> nand_event list" where
  "latched ctrl v =
     (if ctrl AND NAND_CTRL_NCE = 0 then []
      else if ctrl AND NAND_CTRL_CLE \<noteq> 0 then [Cmd v] else if ctrl AND NAND_CTRL_ALE \<noteq> 0 then [Adr v] else [Dat v])"

definition fetched :: "u8 \<Rightarrow> u8 \<Rightarrow> nand_event list" where
  "fetched ctrl v = (if ctrl AND NAND_CTRL_NCE = 0 then [] else [Rd v])"

text \<open>The board's glue logic, as the driver relies on it: the control register reads back what was written and has no
  other effect, and every data access while the chip is selected is one event; \<open>ct\<close> and \<open>tr\<close> observe the control lines and the traffic. The chip
  answers \<open>ready\<close> after finitely many polls.\<close>

definition nand_glue :: "'d bus \<Rightarrow> ('d \<Rightarrow> u8) \<Rightarrow> ('d \<Rightarrow> nand_event list) \<Rightarrow> bool" where
  "nand_glue b ct tr \<longleftrightarrow>
     (\<forall>d. bus_rd8 b NAND_CTRL d = (ct d, d))
     \<and> (\<forall>d v. ct (bus_wr8 b NAND_CTRL v d) = v \<and> tr (bus_wr8 b NAND_CTRL v d) = tr d)
     \<and> (\<forall>d v. ct (bus_wr8 b NAND_DATA v d) = ct d \<and> tr (bus_wr8 b NAND_DATA v d) = tr d @ latched (ct d) v)
     \<and> (\<forall>d. ct (snd (bus_rd8 b NAND_DATA d)) = ct d
          \<and> tr (snd (bus_rd8 b NAND_DATA d)) = tr d @ fetched (ct d) (fst (bus_rd8 b NAND_DATA d)))
     \<and> (\<forall>d. ct (snd (bus_rd8 b NAND_BUSY d)) = ct d \<and> tr (snd (bus_rd8 b NAND_BUSY d)) = tr d)"

definition gets_ready :: "'d bus \<Rightarrow> bool" where
  "gets_ready b \<longleftrightarrow> (\<forall>d. \<exists>d'. nand_wait b d = Some d')"

text \<open>The driver's resting state: no latch enabled.\<close>

definition idle_ctrl :: "u8 \<Rightarrow> bool" where
  "idle_ctrl c \<longleftrightarrow> c AND NAND_CTRL_CLE = 0 \<and> c AND NAND_CTRL_ALE = 0"

text \<open>Selected, and no latch enabled: how the operations talk to the chip.\<close>

definition open_ctrl :: "u8 \<Rightarrow> bool" where
  "open_ctrl c \<longleftrightarrow> idle_ctrl c \<and> c AND NAND_CTRL_NCE \<noteq> 0"

lemma clear_set_u8: "c AND k = 0 \<Longrightarrow> (c OR k) AND NOT k = c" for c k :: u8
proof (rule bit_word_eqI)
  fix n assume h: "c AND k = 0"
  have "bit (c AND k) n \<longleftrightarrow> False" unfolding h by simp
  then have "\<not> (bit c n \<and> bit k n)" unfolding bit_and_iff by blast
  then show "bit ((c OR k) AND NOT k) n = bit c n" if "n < LENGTH(8)"
    using that by (auto simp: bit_and_iff bit_or_iff bit_not_iff)
qed

text \<open>The control lines as bits.\<close>

lemma ctrl_nonzero [simp]: "NAND_CTRL_ALE \<noteq> 0" "NAND_CTRL_CLE \<noteq> 0" "NAND_CTRL_NCE \<noteq> 0"
  by (simp_all add: NAND_CTRL_ALE_def NAND_CTRL_CLE_def NAND_CTRL_NCE_def)

lemma ctrl_bits:
  "c AND NAND_CTRL_ALE = 0 \<longleftrightarrow> \<not> bit c 0" "c AND NAND_CTRL_CLE = 0 \<longleftrightarrow> \<not> bit c 1" "c AND NAND_CTRL_NCE = 0 \<longleftrightarrow> \<not> bit c 2"
  "bit (c OR NAND_CTRL_ALE) n \<longleftrightarrow> bit c n \<or> n = 0" "bit (c OR NAND_CTRL_CLE) n \<longleftrightarrow> bit c n \<or> n = 1"
  "bit (c OR NAND_CTRL_NCE) n \<longleftrightarrow> bit c n \<or> n = 2" "bit (c AND NOT NAND_CTRL_NCE) n \<longleftrightarrow> bit c n \<and> n \<noteq> 2"
proof -
  have e: "NAND_CTRL_ALE = 2 ^ 0" "NAND_CTRL_CLE = 2 ^ 1" "NAND_CTRL_NCE = 2 ^ 2"
    by (simp_all add: NAND_CTRL_ALE_def NAND_CTRL_CLE_def NAND_CTRL_NCE_def)
  show "c AND NAND_CTRL_ALE = 0 \<longleftrightarrow> \<not> bit c 0" "c AND NAND_CTRL_CLE = 0 \<longleftrightarrow> \<not> bit c 1"
    "c AND NAND_CTRL_NCE = 0 \<longleftrightarrow> \<not> bit c 2"
    unfolding e by (simp_all only: and_exp_eq_0_iff_not_bit)
  have l: "bit c n \<Longrightarrow> n < 8" by (rule bit_u8_less)
  show "bit (c OR NAND_CTRL_ALE) n \<longleftrightarrow> bit c n \<or> n = 0" "bit (c OR NAND_CTRL_CLE) n \<longleftrightarrow> bit c n \<or> n = 1"
    "bit (c OR NAND_CTRL_NCE) n \<longleftrightarrow> bit c n \<or> n = 2"
    unfolding e by (simp_all only: bit_or_iff bit_exp_iff possible_bit_word) auto
  show "bit (c AND NOT NAND_CTRL_NCE) n \<longleftrightarrow> bit c n \<and> n \<noteq> 2"
    unfolding e using l by (simp only: bit_and_iff bit_not_iff bit_exp_iff possible_bit_word) auto
qed

lemma idle_ctrl_nce [simp]: "idle_ctrl c \<Longrightarrow> idle_ctrl (c OR NAND_CTRL_NCE)" "idle_ctrl c \<Longrightarrow> idle_ctrl (c AND NOT NAND_CTRL_NCE)"
  by (simp_all add: idle_ctrl_def ctrl_bits)

lemma open_ctrl_selected [simp]: "idle_ctrl c \<Longrightarrow> open_ctrl (c OR NAND_CTRL_NCE)"
  by (simp add: open_ctrl_def ctrl_bits)

lemma open_ctrlD: "open_ctrl c \<Longrightarrow> idle_ctrl c \<and> bit c 2"
  by (simp add: open_ctrl_def ctrl_bits)

text \<open>Each step of the driver as a step on the control lines and the traffic.\<close>

definition sees :: "('d \<Rightarrow> u8) \<Rightarrow> ('d \<Rightarrow> nand_event list) \<Rightarrow> 'd \<Rightarrow> 'd \<Rightarrow> u8 \<Rightarrow> nand_event list \<Rightarrow> bool" where
  "sees ct tr d d' c es \<longleftrightarrow> ct d' = c \<and> tr d' = tr d @ es"

lemma sees_trans: "sees ct tr d d' c es \<Longrightarrow> sees ct tr d' d'' c' es' \<Longrightarrow> sees ct tr d d'' c' (es @ es')"
  by (simp add: sees_def)

lemma glue_modb: "nand_glue b ct tr \<Longrightarrow> sees ct tr d (modb b NAND_CTRL f d) (f (ct d)) []"
  by (simp add: nand_glue_def modb_def inb_def outb_def sees_def)

lemma glue_outb: "nand_glue b ct tr \<Longrightarrow> sees ct tr d (outb b NAND_DATA v d) (ct d) (latched (ct d) v)"
  by (simp add: nand_glue_def outb_def sees_def)

lemma glue_inb: "nand_glue b ct tr \<Longrightarrow> sees ct tr d (snd (inb b NAND_DATA d)) (ct d) (fetched (ct d) (fst (inb b NAND_DATA d)))"
  by (simp add: nand_glue_def inb_def sees_def)

lemma glue_writeb: "nand_glue b ct tr \<Longrightarrow> sees ct tr d (writeb b NAND_DATA vs d) (ct d) (concat (map (latched (ct d)) vs))"
proof (induction vs arbitrary: d)
  case (Cons v vs)
  have 1: "sees ct tr d (outb b NAND_DATA v d) (ct d) (latched (ct d) v)" by (rule glue_outb [OF Cons.prems])
  then show ?case using sees_trans [OF 1 Cons.IH [OF Cons.prems]] by (simp add: sees_def)
qed (simp add: sees_def)

lemma glue_readb: "nand_glue b ct tr \<Longrightarrow> open_ctrl (ct d) \<Longrightarrow> sees ct tr d (snd (readb b NAND_DATA n d)) (ct d) (map Rd (fst (readb b NAND_DATA n d)))"
proof (induction n arbitrary: d)
  case (Suc n)
  have 1: "sees ct tr d (snd (inb b NAND_DATA d)) (ct d) [Rd (fst (inb b NAND_DATA d))]"
    using glue_inb [OF Suc.prems(1), of d] Suc.prems(2) by (simp add: fetched_def open_ctrl_def)
  then have "open_ctrl (ct (snd (inb b NAND_DATA d)))" using Suc.prems(2) by (simp add: sees_def)
  then show ?case using sees_trans [OF 1 Suc.IH [OF Suc.prems(1)]] 1 by (simp add: sees_def case_prod_beta)
qed (simp add: sees_def)

lemma glue_cmd:
  assumes "nand_glue b ct tr" and "open_ctrl (ct d)"
  shows "sees ct tr d (nand_cmd b v d) (ct d) [Cmd v]"
proof -
  let ?d1 = "modb b NAND_CTRL (\<lambda>v. v OR NAND_CTRL_CLE) d" let ?d2 = "outb b NAND_DATA v ?d1"
  have 1: "sees ct tr d ?d1 (ct d OR NAND_CTRL_CLE) []" by (rule glue_modb [OF assms(1)])
  have "latched (ct d OR NAND_CTRL_CLE) v = [Cmd v]"
    using open_ctrlD [OF assms(2)] by (simp add: latched_def ctrl_bits)
  then have 2: "sees ct tr ?d1 ?d2 (ct d OR NAND_CTRL_CLE) [Cmd v]"
    using glue_outb [OF assms(1), of ?d1 v] 1 by (simp add: sees_def)
  have "sees ct tr ?d2 (nand_cmd b v d) (ct d) []"
    using glue_modb [OF assms(1), of ?d2 "\<lambda>v. v AND NOT NAND_CTRL_CLE"] 2 assms(2)
    by (simp add: sees_def nand_cmd_def Let_def clear_set_u8 open_ctrl_def idle_ctrl_def)
  from sees_trans [OF sees_trans [OF 1 2] this] show ?thesis by simp
qed

lemma glue_addr:
  assumes "nand_glue b ct tr" and "open_ctrl (ct d)"
  shows "sees ct tr d (nand_addr b vs d) (ct d) (map Adr vs)"
proof -
  let ?d1 = "modb b NAND_CTRL (\<lambda>v. v OR NAND_CTRL_ALE) d" let ?d2 = "writeb b NAND_DATA vs ?d1"
  have 1: "sees ct tr d ?d1 (ct d OR NAND_CTRL_ALE) []" by (rule glue_modb [OF assms(1)])
  have "latched (ct d OR NAND_CTRL_ALE) = (\<lambda>v. [Adr v])"
    using open_ctrlD [OF assms(2)] by (simp add: latched_def idle_ctrl_def ctrl_bits fun_eq_iff)
  then have 2: "sees ct tr ?d1 ?d2 (ct d OR NAND_CTRL_ALE) (map Adr vs)"
    using glue_writeb [OF assms(1), of ?d1 vs] 1 by (simp add: sees_def concat_map_singleton)
  have "sees ct tr ?d2 (nand_addr b vs d) (ct d) []"
    using glue_modb [OF assms(1), of ?d2 "\<lambda>v. v AND NOT NAND_CTRL_ALE"] 2 assms(2)
    by (simp add: sees_def nand_addr_def Let_def clear_set_u8 open_ctrl_def idle_ctrl_def)
  from sees_trans [OF sees_trans [OF 1 2] this] show ?thesis by simp
qed

lemma glue_data:
  assumes "nand_glue b ct tr" and "open_ctrl (ct d)"
  shows "sees ct tr d (writeb b NAND_DATA vs d) (ct d) (map Dat vs)"
proof -
  have "latched (ct d) = (\<lambda>v. [Dat v])" using assms(2) by (simp add: latched_def open_ctrl_def idle_ctrl_def fun_eq_iff)
  then show ?thesis using glue_writeb [OF assms(1), of d vs] by (simp add: concat_map_singleton)
qed

lemma poll8_ind:
  assumes "poll8 b a busy d = Some d'" and step: "\<And>d. P d \<Longrightarrow> P (snd (inb b a d))" and "P d"
  shows "P d'"
proof -
  have "b = b \<longrightarrow> a = a \<longrightarrow> P d \<longrightarrow> P d'"
  proof (rule poll8.raw_induct [where P = "\<lambda>b' a' busy' d d'. b' = b \<longrightarrow> a' = a \<longrightarrow> P d \<longrightarrow> P d'", OF _ assms(1)], intro impI)
    fix poll and b' :: "'a bus" and a' busy' d d'
    assume IH: "\<And>b' a' busy' d d'. poll b' a' busy' d = Some d' \<Longrightarrow> b' = b \<longrightarrow> a' = a \<longrightarrow> P d \<longrightarrow> P d'"
      and r: "(case inb b' a' d of (v, d) \<Rightarrow> if busy' v then poll b' a' busy' d else Some d) = Some d'"
      and e: "b' = b" "a' = a" "P d"
    obtain v d1 where v: "inb b a d = (v, d1)" by fastforce
    then have "P d1" using step [OF e(3)] by simp
    then show "P d'" using r v e IH [of b a busy' d1 d'] by (auto split: if_splits)
  qed
  then show ?thesis using assms(3) by blast
qed

lemma glue_wait:
  assumes "nand_glue b ct tr" and "nand_wait b d = Some d'"
  shows "sees ct tr d d' (ct d) []"
proof -
  have "ct d' = ct d \<and> tr d' = tr d"
    by (rule poll8_ind [OF assms(2) [unfolded nand_wait_def], of "\<lambda>x. ct x = ct d \<and> tr x = tr d"])
      (use assms(1) in \<open>simp_all add: nand_glue_def inb_def\<close>)
  then show ?thesis by (simp add: sees_def)
qed

section \<open>The operations as the chip sees them\<close>

lemma glue_select:
  assumes "nand_glue b ct tr"
  shows "sees ct tr d (nand_select b d) (ct d OR NAND_CTRL_NCE) []"
    and "sees ct tr d (nand_deselect b d) (ct d AND NOT NAND_CTRL_NCE) []"
  using glue_modb [OF assms] by (simp_all add: nand_select_def nand_deselect_def)

lemma set_clear_u8: "(c OR k) AND NOT k = c AND NOT k" for c k :: u8
  by (rule bit_word_eqI) (auto simp: bit_and_iff bit_or_iff bit_not_iff)

definition load_events :: "u32 \<Rightarrow> nand_event list" where
  "load_events page = Cmd 0x00 # map Adr ([0, 0] @ page_loop 3 page) @ [Cmd 0x30]"

lemma glue_load_page:
  assumes g: "nand_glue b ct tr" and i: "open_ctrl (ct d)" and r: "gets_ready b"
  obtains d' where "nand_load_page b page d = Some d'" "sees ct tr d d' (ct d) (load_events page)"
proof -
  let ?d1 = "nand_cmd b NAND_CMD_READ d" let ?d2 = "nand_addr b ([0, 0] @ page_loop 3 page) ?d1"
  let ?d3 = "nand_cmd b NAND_CMD_READ_CONFIRM ?d2"
  obtain d' where w: "nand_wait b ?d3 = Some d'" using r by (auto simp: gets_ready_def)
  have 1: "sees ct tr d ?d1 (ct d) [Cmd 0x00]" using glue_cmd [OF g i] by (simp add: NAND_CMD_READ_def)
  have 2: "sees ct tr ?d1 ?d2 (ct d) (map Adr ([0, 0] @ page_loop 3 page))"
    using glue_addr [OF g, of ?d1] 1 i by (simp add: sees_def)
  have 3: "sees ct tr ?d2 ?d3 (ct d) [Cmd 0x30]"
    using glue_cmd [OF g, of ?d2 NAND_CMD_READ_CONFIRM] 2 i by (simp add: sees_def NAND_CMD_READ_CONFIRM_def)
  have 4: "sees ct tr ?d3 d' (ct d) []" using glue_wait [OF g w] 3 by (simp add: sees_def)
  from sees_trans [OF sees_trans [OF sees_trans [OF 1 2] 3] 4]
  show thesis using that [of d'] w by (simp add: nand_load_page_def load_events_def)
qed

text \<open>Programming a sector.\<close>

definition sector_events :: "u32 \<Rightarrow> u32 \<Rightarrow> u8 list \<Rightarrow> nand_event list" where
  "sector_events page sect buf =
     [Cmd 0x80] @ map Adr (col_bytes (sect * 512) @ page_loop 3 page) @ map Dat buf
     @ [Cmd 0x85] @ map Adr (col_bytes (2088 + sect * 6))
     @ map Dat (code_list (hamming_compute_256 (take 256 buf)) @ code_list (hamming_compute_256 (drop 256 buf)))
     @ [Cmd 0x10]"

text \<open>C27: programming a sector. On a board whose control register is a latch and whose chip gets ready and listens only
  while it is selected, \<open>nand_write_sector\<close> returns the status the chip reports, leaves the chip deselected, and sends exactly: the program
  command, the column and page address, the 512 data bytes, a column change to the sector's place in the spare area, the
  codes of its two blocks, the confirmation, and after the chip is ready the status command.\<close>

theorem nand_write_sector_protocol:
  assumes g: "nand_glue b ct tr" and i: "idle_ctrl (ct d)" and r: "gets_ready b" and l: "length buf = 512"
  shows "\<exists>st d'. nand_write_sector b page sect buf d = Some (st, d')
    \<and> tr d' = tr d @ sector_events page sect buf @ [Cmd 0x70, Rd st] \<and> ct d' = ct d AND NOT NAND_CTRL_NCE"
proof -
  let ?c = "ct d OR NAND_CTRL_NCE"
  let ?d1 = "nand_select b d" let ?d2 = "nand_cmd b NAND_CMD_PROGRAM_PAGE ?d1"
  let ?d3 = "nand_addr b (col_bytes (sect * 512) @ page_loop 3 page) ?d2" let ?d4 = "writeb b NAND_DATA buf ?d3"
  let ?d5 = "nand_cmd b NAND_CMD_RANDOM_DATA_INPUT ?d4" let ?d6 = "nand_addr b (col_bytes (2088 + sect * 6)) ?d5"
  let ?ecc = "code_list (hamming_compute_256 (take 256 buf)) @ code_list (hamming_compute_256 (drop 256 buf))"
  let ?d7 = "writeb b NAND_DATA ?ecc ?d6" let ?d8 = "nand_cmd b NAND_CMD_PROGRAM_PAGE_CONFIRM ?d7"
  obtain d9 where w: "nand_wait b ?d8 = Some d9" using r by (auto simp: gets_ready_def)
  obtain st d10 where st: "inb b NAND_DATA (nand_cmd b NAND_CMD_READ_STATUS d9) = (st, d10)" by fastforce
  have ic: "open_ctrl ?c" using i by simp
  have 1: "sees ct tr d ?d1 ?c []" by (rule glue_select(1) [OF g])
  have cmd: "sees ct tr x (nand_cmd b v x) ?c [Cmd v]" if "ct x = ?c" for x v using glue_cmd [OF g, of x v] ic that by simp
  have adr: "sees ct tr x (nand_addr b vs x) ?c (map Adr vs)" if "ct x = ?c" for x vs using glue_addr [OF g, of x vs] ic that by simp
  have dat: "sees ct tr x (writeb b NAND_DATA vs x) ?c (map Dat vs)" if "ct x = ?c" for x vs using glue_data [OF g, of x vs] ic that by simp
  have c1: "ct ?d1 = ?c" using 1 by (simp add: sees_def)
  have 2: "sees ct tr ?d1 ?d2 ?c [Cmd 0x80]" using cmd [OF c1] by (simp add: NAND_CMD_PROGRAM_PAGE_def)
  then have c2: "ct ?d2 = ?c" by (simp add: sees_def)
  note 3 = adr [OF c2, of "col_bytes (sect * 512) @ page_loop 3 page"]
  then have c3: "ct ?d3 = ?c" by (simp add: sees_def)
  note 4 = dat [OF c3, of buf]
  then have c4: "ct ?d4 = ?c" by (simp add: sees_def)
  have 5: "sees ct tr ?d4 ?d5 ?c [Cmd 0x85]" using cmd [OF c4] by (simp add: NAND_CMD_RANDOM_DATA_INPUT_def)
  then have c5: "ct ?d5 = ?c" by (simp add: sees_def)
  note 6 = adr [OF c5, of "col_bytes (2088 + sect * 6)"]
  then have c6: "ct ?d6 = ?c" by (simp add: sees_def)
  note 7 = dat [OF c6, of ?ecc]
  then have c7: "ct ?d7 = ?c" by (simp add: sees_def)
  have 8: "sees ct tr ?d7 ?d8 ?c [Cmd 0x10]" using cmd [OF c7] by (simp add: NAND_CMD_PROGRAM_PAGE_CONFIRM_def)
  have 9: "sees ct tr ?d8 d9 ?c []" using glue_wait [OF g w] 8 by (simp add: sees_def)
  then have c9: "ct d9 = ?c" by (simp add: sees_def)
  have 10: "sees ct tr d9 (nand_cmd b NAND_CMD_READ_STATUS d9) ?c [Cmd 0x70]"
    using cmd [OF c9] by (simp add: NAND_CMD_READ_STATUS_def)
  then have 11: "sees ct tr (nand_cmd b NAND_CMD_READ_STATUS d9) d10 ?c [Rd st]"
    using glue_inb [OF g, of "nand_cmd b NAND_CMD_READ_STATUS d9"] st ic by (simp add: sees_def fetched_def open_ctrl_def)
  then have 12: "sees ct tr d10 (nand_deselect b d10) (ct d AND NOT NAND_CTRL_NCE) []"
    using glue_select(2) [OF g, of d10] by (simp add: sees_def set_clear_u8)
  note 1 2 3 4 5 6 7 8 9 10 11 12
  then have "tr (nand_deselect b d10) = tr d @ sector_events page sect buf @ [Cmd 0x70, Rd st]"
    by (simp add: sees_def sector_events_def)
  moreover have "nand_write_sector b page sect buf d = Some (st, nand_deselect b d10)"
    using w st l by (simp add: nand_write_sector_def Let_def nand_random_data_input_def nand_read_status_def NAND_PAGE_SIZE_def)
  ultimately show ?thesis using 12 by (simp add: sees_def)
qed

section \<open>Reading a page\<close>

text \<open>A code with bit \<open>j\<close> of byte \<open>i\<close> flipped.\<close>

definition flip_code :: "u8 \<times> u8 \<times> u8 \<Rightarrow> nat \<Rightarrow> nat \<Rightarrow> u8 \<times> u8 \<times> u8" where
  "flip_code c i j =
     (case c of (c0, c1, c2) \<Rightarrow>
        (if i = 0 then (c0 XOR push_bit j 1, c1, c2) else if i = 1 then (c0, c1 XOR push_bit j 1, c2)
         else (c0, c1, c2 XOR push_bit j 1)))"

text \<open>\<open>raw\<close> is the page \<open>data\<close> with its codes in the spare area and, for each block, at most one flipped bit in the block and its
  code together.\<close>

definition worn :: "u8 list \<Rightarrow> u8 list \<Rightarrow> bool" where
  "worn data raw \<longleftrightarrow> length data = 2048 \<and> length raw = 2112
     \<and> (\<forall>i<8.
          (page_block raw i = page_block data i \<and> page_code raw i = hamming_compute_256 (page_block data i))
          \<or> (\<exists>k b. k < 256 \<and> b < 8 \<and> page_block raw i = flip (page_block data i) k b
               \<and> page_code raw i = hamming_compute_256 (page_block data i))
          \<or> (\<exists>k b. k < 3 \<and> b < 8 \<and> page_block raw i = page_block data i
               \<and> page_code raw i = flip_code (hamming_compute_256 (page_block data i)) k b))"

text \<open>What the correction of a block returns: nothing found, the block repaired, or the code found damaged.\<close>

definition block_rc :: "u8 list \<Rightarrow> u8 list \<Rightarrow> nat \<Rightarrow> u8" where
  "block_rc data raw i =
     (if page_block raw i \<noteq> page_block data i then HAMMING_ERROR_SINGLEBIT
      else if page_code raw i \<noteq> hamming_compute_256 (page_block data i) then HAMMING_ERROR_ECC else 0)"

lemma correct_flip_code:
  assumes "k < 3" and "b < 8"
  shows "hamming_correct_256 data (flip_code (hamming_compute_256 data) k b) (hamming_compute_256 data) = (HAMMING_ERROR_ECC, data)"
    and "flip_code (hamming_compute_256 data) k b \<noteq> hamming_compute_256 data"
proof -
  obtain c0 c1 c2 where c: "hamming_compute_256 data = (c0, c1, c2)" by (metis prod_cases3)
  show e: "hamming_correct_256 data (flip_code (hamming_compute_256 data) k b) (hamming_compute_256 data) = (HAMMING_ERROR_ECC, data)"
    using hamming_intact_block [OF assms(2,1) c] c by (simp add: flip_code_def)
  show "flip_code (hamming_compute_256 data) k b \<noteq> hamming_compute_256 data"
    using e hamming_intact_block [OF assms(2,1) c] by (auto simp: HAMMING_ERROR_ECC_def)
qed

lemma worn_block:
  assumes "worn data raw" and "i < 8"
  shows "hamming_correct_256 (page_block raw i) (page_code raw i) (hamming_compute_256 (page_block raw i)) =
    (block_rc data raw i, page_block data i)"
proof -
  have l: "length (page_block data i) = 256" using assms by (simp add: worn_def page_block_def)
  consider (intact) "page_block raw i = page_block data i" "page_code raw i = hamming_compute_256 (page_block data i)"
    | (data) k b where "k < 256" "b < 8" "page_block raw i = flip (page_block data i) k b" "page_block raw i \<noteq> page_block data i"
        "page_code raw i = hamming_compute_256 (page_block data i)"
    | (code) k b where "k < 3" "b < 8" "page_block raw i = page_block data i"
        "page_code raw i = flip_code (hamming_compute_256 (page_block data i)) k b"
    using assms unfolding worn_def by blast
  then show ?thesis
  proof cases
    case intact
    then show ?thesis by (simp add: block_rc_def hamming_correct_intact)
  next
    case (data k b)
    then show ?thesis using single_error_corrected [OF l data(1,2)] by (simp add: block_rc_def)
  next
    case (code k b)
    then show ?thesis using correct_flip_code [OF code(1,2), of "page_block data i"] by (simp add: block_rc_def)
  qed
qed

lemma ecc_fold:
  assumes "worn data raw" and "n \<le> 8"
  shows "foldl ecc_step ([], raw) [0..<n] = (map (block_rc data raw) [0..<n], take (n * 256) data @ drop (n * 256) raw)"
  using assms(2)
proof (induction n)
  case (Suc n)
  let ?b = "take (n * 256) data @ drop (n * 256) raw"
  have len: "length data = 2048" "length raw = 2112" using assms(1) by (simp_all add: worn_def)
  have n: "n * 256 \<le> 1792" using Suc.prems by simp
  then have tn: "length (take (n * 256) data) = n * 256" "min (length data) (n * 256) = n * 256" using len by simp_all
  have "page_block ?b n = page_block raw n" by (simp add: page_block_def tn)
  moreover have "page_code ?b n = page_code raw n"
    using n len by (simp add: page_code_def Let_def NAND_PAGE_SIZE_def nth_append tn ac_simps)
  moreover have "take (n * 256) ?b @ page_block data n @ drop (n * 256 + 256) ?b = take (Suc n * 256) data @ drop (Suc n * 256) raw"
  proof -
    have "take (n * 256) data @ page_block data n = take (n * 256 + 256) data" by (simp add: page_block_def take_add)
    moreover have "drop (n * 256 + 256) ?b = drop (n * 256 + 256) raw" using tn n len by (simp add: add.commute)
    ultimately show ?thesis using tn by (simp add: add.commute)
  qed
  ultimately have "ecc_step (map (block_rc data raw) [0..<n], ?b) n =
      (map (block_rc data raw) [0..<n] @ [block_rc data raw n], take (Suc n * 256) data @ drop (Suc n * 256) raw)"
    using worn_block [OF assms(1), of n] Suc.prems by (simp add: ecc_step_def)
  then show ?case using Suc by simp
qed simp

text \<open>C28: reading a page. Whatever page the chip delivers, with the codes that \<open>nand_write_sector\<close> programs and, for each block
  of 256 bytes, at most one flipped bit in the block or in its stored code, \<open>nand_read_page\<close> returns the data as they were
  written, reports for each block whether it was repaired, its code was damaged, or nothing was found, leaves the spare bytes as read, and has read every byte of the page once after loading it.\<close>

theorem nand_read_page_corrects:
  assumes g: "nand_glue b ct tr" and i: "idle_ctrl (ct d)" and r: "gets_ready b"
    and load: "nand_load_page b page (nand_select b d) = Some d1" and raw: "fst (readb b NAND_DATA 2112 d1) = raw"
    and worn: "worn data raw"
  shows "\<exists>buf d'. nand_read_page b page d = Some (map (block_rc data raw) [0..<8], buf, d')
    \<and> take 2048 buf = data \<and> drop 2048 buf = drop 2048 raw
    \<and> tr d' = tr d @ load_events page @ map Rd raw \<and> ct d' = ct d AND NOT NAND_CTRL_NCE"
proof -
  have 1: "sees ct tr d (nand_select b d) (ct d OR NAND_CTRL_NCE) []" by (rule glue_select(1) [OF g])
  then have c1: "ct (nand_select b d) = ct d OR NAND_CTRL_NCE" by (simp add: sees_def)
  obtain d2 where "nand_load_page b page (nand_select b d) = Some d2"
    "sees ct tr (nand_select b d) d2 (ct (nand_select b d)) (load_events page)"
    by (rule glue_load_page [OF g _ r, of "nand_select b d"]) (use i c1 in auto)
  then have 2: "sees ct tr (nand_select b d) d1 (ct d OR NAND_CTRL_NCE) (load_events page)" using load c1 by simp
  obtain d3 where rd: "readb b NAND_DATA 2112 d1 = (raw, d3)" using raw by (metis prod.collapse)
  have 3: "sees ct tr d1 d3 (ct d OR NAND_CTRL_NCE) (map Rd raw)"
    using glue_readb [OF g, of d1 2112] rd 2 i by (simp add: sees_def)
  have 4: "sees ct tr d3 (nand_deselect b d3) (ct d AND NOT NAND_CTRL_NCE) []"
    using glue_select(2) [OF g, of d3] 3 by (simp add: sees_def set_clear_u8)
  have len: "length data = 2048" "length raw = 2112" using worn by (simp_all add: worn_def)
  have "foldl ecc_step ([], raw) [0..<8] = (map (block_rc data raw) [0..<8], data @ drop 2048 raw)"
    using ecc_fold [OF worn, of 8] len by simp
  then have "nand_read_page b page d = Some (map (block_rc data raw) [0..<8], data @ drop 2048 raw, nand_deselect b d3)"
    using load rd by (simp add: nand_read_page_def NAND_RAW_PAGE_SIZE_def)
  moreover have "tr (nand_deselect b d3) = tr d @ load_events page @ map Rd raw"
    using sees_trans [OF sees_trans [OF sees_trans [OF 1 2] 3] 4] by (simp add: sees_def)
  ultimately show ?thesis using 4 len by (simp add: sees_def)
qed

section \<open>Witnesses\<close>

text \<open>A board for the witnesses: a latch, a chip that is always ready and delivers a given byte sequence, a log.\<close>

record board =
  bd_ctrl :: u8
  bd_log :: "nand_event list"
  bd_out :: "u8 list"

definition board_bus :: "board bus" where
  "board_bus = \<lparr>
     bus_rd8 = (\<lambda>a d. if a = NAND_CTRL then (bd_ctrl d, d)
       else if a = NAND_BUSY then (0xFF, d)
       else (hd (bd_out d), d\<lparr>bd_log := bd_log d @ fetched (bd_ctrl d) (hd (bd_out d)), bd_out := tl (bd_out d)\<rparr>)),
     bus_wr8 = (\<lambda>a v d. if a = NAND_CTRL then d\<lparr>bd_ctrl := v\<rparr> else d\<lparr>bd_log := bd_log d @ latched (bd_ctrl d) v\<rparr>),
     bus_rd16 = (\<lambda>a d. (0, d)), bus_wr16 = (\<lambda>a v d. d), bus_rd32 = (\<lambda>a d. (0, d)), bus_wr32 = (\<lambda>a v d. d)\<rparr>"

lemma board_glue: "nand_glue board_bus bd_ctrl bd_log"
  by (simp add: nand_glue_def board_bus_def NAND_CTRL_def NAND_DATA_def NAND_BUSY_def)

lemma board_wait: "nand_wait board_bus d = Some d"
  unfolding nand_wait_def by (subst poll8.simps) (simp add: board_bus_def inb_def NAND_CTRL_def NAND_BUSY_def nand_busy_def NAND_BUSY_BIT_def)

lemma board_ready: "gets_ready board_bus"
  by (simp add: gets_ready_def board_wait)

lemma board_readb: "n \<le> length (bd_out d) \<Longrightarrow> fst (readb board_bus NAND_DATA n d) = take n (bd_out d)"
proof (induction n arbitrary: d)
  case (Suc n)
  have "inb board_bus NAND_DATA d = (hd (bd_out d), d\<lparr>bd_log := bd_log d @ fetched (bd_ctrl d) (hd (bd_out d)), bd_out := tl (bd_out d)\<rparr>)"
    by (simp add: inb_def board_bus_def NAND_CTRL_def NAND_DATA_def NAND_BUSY_def)
  moreover obtain x xs where "bd_out d = x # xs" using Suc.prems by (cases "bd_out d") auto
  ultimately show ?case using Suc.IH Suc.prems by (simp add: case_prod_beta)
qed simp

lemma board_out:
  "bd_out (nand_cmd board_bus v d) = bd_out d" "bd_out (nand_addr board_bus vs d) = bd_out d" "bd_out (nand_select board_bus d) = bd_out d"
proof -
  have w: "bd_out (writeb board_bus NAND_DATA vs d) = bd_out d" for vs d
    by (induction vs arbitrary: d) (simp_all add: outb_def board_bus_def NAND_CTRL_def NAND_DATA_def)
  have m: "bd_out (modb board_bus NAND_CTRL f d) = bd_out d" for f d
    by (simp add: modb_def inb_def outb_def board_bus_def)
  have o: "bd_out (outb board_bus NAND_DATA v d) = bd_out d" for v d
    by (simp add: outb_def board_bus_def NAND_CTRL_def NAND_DATA_def)
  show "bd_out (nand_cmd board_bus v d) = bd_out d" "bd_out (nand_addr board_bus vs d) = bd_out d" "bd_out (nand_select board_bus d) = bd_out d"
    by (simp_all add: nand_cmd_def nand_addr_def nand_select_def Let_def w m o)
qed

theorem nand_write_sector_protocol_witness:
  "\<exists>st d'. nand_write_sector board_bus 0x123 2 (replicate 512 0x5A) \<lparr>bd_ctrl = 0, bd_log = [], bd_out = [0xC0]\<rparr> = Some (st, d')
    \<and> take 6 (bd_log d') = [Cmd 0x80, Adr 0, Adr 4, Adr 0x23, Adr 1, Adr 0] \<and> bd_ctrl d' = 0"
proof -
  have "idle_ctrl (bd_ctrl \<lparr>bd_ctrl = 0, bd_log = [], bd_out = [0xC0]\<rparr>)" by (simp add: idle_ctrl_def)
  from nand_write_sector_protocol [OF board_glue this board_ready, of "replicate 512 0x5A" "0x123" 2] show ?thesis
    by (auto simp: sector_events_def col_bytes_def numeral_3_eq_3)
qed

theorem nand_read_page_corrects_witness:
  "\<exists>c0 c1 c2 buf d'. hamming_compute_256 (replicate 256 0x5A) = (c0, c1, c2)
    \<and> nand_read_page board_bus 7 \<lparr>bd_ctrl = 0, bd_log = [],
        bd_out = flip (replicate 2048 0x5A) 300 6 @ replicate 40 0 @ concat (replicate 3 [c0, c1, c2])
          @ [c0, c1 XOR push_bit 2 1, c2] @ concat (replicate 4 [c0, c1, c2])\<rparr> =
        Some ([0, 1, 0, 2, 0, 0, 0, 0], buf, d')
    \<and> take 2048 buf = replicate 2048 0x5A"
proof -
  obtain c0 c1 c2 where c: "hamming_compute_256 (replicate 256 0x5A) = (c0, c1, c2)" by (metis prod_cases3)
  let ?data = "replicate 2048 0x5A :: u8 list" let ?c1 = "c1 XOR push_bit 2 1"
  let ?spare = "concat (replicate 3 [c0, c1, c2]) @ [c0, ?c1, c2] @ concat (replicate 4 [c0, c1, c2])"
  let ?raw = "flip ?data 300 6 @ replicate 40 0 @ ?spare"
  let ?d = "\<lparr>bd_ctrl = 0, bd_log = [], bd_out = ?raw\<rparr>"
  obtain d1 where d1: "nand_load_page board_bus 7 (nand_select board_bus ?d) = Some d1" "bd_out d1 = ?raw"
    by (simp add: nand_load_page_def Let_def board_wait board_out)
  have sp: "?spare = [c0, c1, c2, c0, c1, c2, c0, c1, c2, c0, ?c1, c2, c0, c1, c2, c0, c1, c2, c0, c1, c2, c0, c1, c2]"
    by (simp add: numeral_eq_Suc)
  have raw: "fst (readb board_bus NAND_DATA 2112 d1) = ?raw" using board_readb [of 2112 d1] d1(2) unfolding sp by simp
  have pb: "page_block ?data i = replicate 256 0x5A" if "i < 8" for i using that by (simp add: page_block_def)
  have pr: "page_block ?raw i = (if i = 1 then flip (replicate 256 0x5A) 44 6 else replicate 256 0x5A)" if "i < 8" for i
  proof -
    consider "i = 0" | "i = 1" | "2 \<le> i" by linarith
    then show ?thesis
    proof cases
      case 3
      then have "(300 :: nat) < i * 256" by simp
      then show ?thesis using that 3 by (simp add: page_block_def flip_def drop_update_cancel)
    qed (simp_all add: page_block_def flip_def drop_update_swap take_update_swap list_update_beyond)
  qed
  have pc: "page_code ?raw i = (if i = 3 then flip_code (c0, c1, c2) 1 2 else (c0, c1, c2))" if "i < 8" for i
    using nat_less8 [OF that] unfolding sp
    by (elim disjE) (simp_all add: page_code_def Let_def NAND_PAGE_SIZE_def nth_append flip_code_def)
  have worn: "worn ?data ?raw"
    unfolding worn_def
  proof (intro conjI allI impI)
    fix i :: nat assume i: "i < 8"
    consider "i = 1" | "i = 3" | "i \<noteq> 1" "i \<noteq> 3" by blast
    then show "(page_block ?raw i = page_block ?data i \<and> page_code ?raw i = hamming_compute_256 (page_block ?data i))
        \<or> (\<exists>k b. k < 256 \<and> b < 8 \<and> page_block ?raw i = flip (page_block ?data i) k b
             \<and> page_code ?raw i = hamming_compute_256 (page_block ?data i))
        \<or> (\<exists>k b. k < 3 \<and> b < 8 \<and> page_block ?raw i = page_block ?data i
             \<and> page_code ?raw i = flip_code (hamming_compute_256 (page_block ?data i)) k b)"
    proof cases
      case 1
      then show ?thesis unfolding pb [OF i] pr [OF i] pc [OF i] c by (intro disjI2 disjI1 exI [of _ 44] exI [of _ 6]) simp
    next
      case 2
      then show ?thesis unfolding pb [OF i] pr [OF i] pc [OF i] c by (intro disjI2 exI [of _ 1] exI [of _ 2]) simp
    next
      case 3
      then show ?thesis unfolding pb [OF i] pr [OF i] pc [OF i] c by (intro disjI1) simp
    qed
  qed (unfold sp, simp_all)
  have ne: "flip_code (c0, c1, c2) 1 2 \<noteq> (c0, c1, c2)" using correct_flip_code(2) [of 1 2 "replicate 256 0x5A"] c by simp
  have rc: "block_rc ?data ?raw i = (if i = 1 then 1 else if i = 3 then 2 else 0)" if i: "i < 8" for i
  proof -
    have "flip (replicate 256 0x5A) 44 6 ! 44 \<noteq> replicate 256 (0x5A :: u8) ! 44" by (simp add: flip_def)
    then have "flip (replicate 256 0x5A) 44 6 \<noteq> replicate 256 (0x5A :: u8)" by metis
    then show ?thesis
      unfolding block_rc_def pb [OF i] pr [OF i] pc [OF i] c using ne by (simp add: HAMMING_ERROR_SINGLEBIT_def HAMMING_ERROR_ECC_def)
  qed
  have "map (block_rc ?data ?raw) [0..<8] = map (\<lambda>i. if i = 1 then 1 else if i = 3 then 2 else 0) [0..<8]"
    by (rule map_cong) (use rc in auto)
  also have "\<dots> = [0, 1, 0, 2, 0, 0, 0, 0]" by (simp add: upt_rec)
  finally have rcs: "map (block_rc ?data ?raw) [0..<8] = [0, 1, 0, 2, 0, 0, 0, 0]" .
  have "idle_ctrl (bd_ctrl ?d)" by (simp add: idle_ctrl_def)
  from nand_read_page_corrects [OF board_glue this board_ready d1(1) raw worn]
  show ?thesis using c unfolding rcs by blast
qed

end
