(* ===== verification/Lists.thy ===== *)
theory Lists
  imports Prelude
begin

text \<open>
  include/sys/list.h and kernel/list.c: the intrusive doubly linked list that processes, packets,
  routes and ARP entries embed as their first member, and the bounded FIFO of pointers that the
  allocator and the wait queues are built on.
\<close>

section \<open>Intrusive lists\<close>

text \<open>\<open>struct list\<close>. A C structure that embeds it as its first member is an extension of this
  record, and a pointer to the structure is a pointer to the list node.\<close>

record list_node =
  l_next :: addr
  l_prev :: addr

definition list_add_after ::
  "(addr \<Rightarrow> 'a list_node_scheme) \<Rightarrow> addr \<Rightarrow> addr \<Rightarrow> (addr \<Rightarrow> 'a list_node_scheme)" where
  "list_add_after h l a =
     (let h = h(a := (h a)\<lparr>l_next := l_next (h l)\<rparr>);
          h = h(a := (h a)\<lparr>l_prev := l\<rparr>)
      in h(l := (h l)\<lparr>l_next := a\<rparr>))"

definition list_remove ::
  "(addr \<Rightarrow> 'a list_node_scheme) \<Rightarrow> addr \<Rightarrow> (addr \<Rightarrow> 'a list_node_scheme)" where
  "list_remove h l =
     (let h = (if l_prev (h l) \<noteq> NULL
               then h(l_prev (h l) := (h (l_prev (h l)))\<lparr>l_next := l_next (h l)\<rparr>) else h)
      in if l_next (h l) \<noteq> NULL
         then h(l_next (h l) := (h (l_next (h l)))\<lparr>l_prev := l_prev (h l)\<rparr>) else h)"

definition list_empty :: "(addr \<Rightarrow> 'a list_node_scheme) \<Rightarrow> addr \<Rightarrow> bool" where
  "list_empty h l \<longleftrightarrow> l_next (h l) = NULL"

text \<open>The search loops of the network stack, \<open>for (p = l.next; p != NULL; p = p->next)\<close> with an
  early return: the first node that satisfies the test, \<open>NULL\<close> if there is none, and \<open>None\<close> if
  the chain never ends.\<close>

partial_function (option) list_find ::
  "(addr \<Rightarrow> 'a list_node_scheme) \<Rightarrow> ('a list_node_scheme \<Rightarrow> bool) \<Rightarrow> addr \<Rightarrow> addr option" where
  "list_find h P p =
     (if p = NULL then Some NULL
      else if P (h p) then Some p
      else list_find h P (l_next (h p)))"

subsection \<open>Chains\<close>

text \<open>\<open>chain h p xs\<close>: the NULL-terminated chain that starts at \<open>p\<close> visits exactly \<open>xs\<close>.\<close>

fun chain :: "(addr \<Rightarrow> 'a list_node_scheme) \<Rightarrow> addr \<Rightarrow> addr list \<Rightarrow> bool" where
  "chain h p [] \<longleftrightarrow> p = NULL"
| "chain h p (x # xs) \<longleftrightarrow> p = x \<and> x \<noteq> NULL \<and> chain h (l_next (h x)) xs"

lemma chain_upd_other: "a \<notin> set xs \<Longrightarrow> chain (h(a := v)) p xs = chain h p xs"
  by (induction xs arbitrary: p) auto

lemma chain_cong: "(\<And>x. x \<in> set xs \<Longrightarrow> l_next (h x) = l_next (h' x)) \<Longrightarrow> chain h p xs = chain h' p xs"
  by (induction xs arbitrary: p) auto

lemma chain_unique: "chain h p xs \<Longrightarrow> chain h p ys \<Longrightarrow> xs = ys"
proof (induction xs arbitrary: p ys)
  case Nil
  then show ?case by (cases ys) auto
next
  case (Cons x xs)
  then show ?case by (cases ys) auto
qed

lemma chain_tail_subset: "chain h p (xs @ y # ys) \<Longrightarrow> chain h y (y # ys)"
  by (induction xs arbitrary: p) auto

lemma chain_distinct: "chain h p xs \<Longrightarrow> distinct xs"
proof (induction xs arbitrary: p)
  case (Cons x xs)
  have "x \<notin> set xs"
  proof
    assume "x \<in> set xs"
    then obtain us vs where xs: "xs = us @ x # vs" by (metis split_list)
    with Cons.prems have "chain h x (x # vs)" using chain_tail_subset [of h p "x # us"] by simp
    moreover have "chain h x (x # us @ x # vs)" using Cons.prems xs by auto
    ultimately have "x # vs = x # us @ x # vs" by (rule chain_unique)
    then show False by simp
  qed
  with Cons show ?case by auto
qed simp

lemma list_add_after_next [step_simps]:
  "l \<noteq> a \<Longrightarrow> l_next (list_add_after h l a x) =
    (if x = l then a else if x = a then l_next (h l) else l_next (h x))"
  by (simp add: list_add_after_def Let_def)

lemma list_add_after_prev [step_simps]:
  "l \<noteq> a \<Longrightarrow> l_prev (list_add_after h l a x) = (if x = a then l else l_prev (h x))"
  by (simp add: list_add_after_def Let_def)

lemma list_add_after_more [step_simps]:
  "list_node.more (list_add_after h l a x) = list_node.more (h x)"
  by (simp add: list_add_after_def Let_def)

lemma list_add_after_chain:
  assumes "chain h (l_next (h l)) xs" and "l \<notin> set xs" and "a \<notin> set xs" and "a \<noteq> l" and "a \<noteq> NULL"
  shows "chain (list_add_after h l a) (l_next (list_add_after h l a l)) (a # xs)"
proof -
  have "chain (list_add_after h l a) (l_next (h l)) xs"
    using assms(1) by (rule chain_cong [THEN iffD1, rotated]) (use assms in \<open>auto simp: step_simps\<close>)
  then show ?thesis using assms(4,5) by (simp add: step_simps)
qed

lemma list_remove_first_chain:
  assumes "chain h (l_next (h l)) (x # xs)" and "l_prev (h x) = l" and "l \<noteq> NULL" and "l \<notin> set (x # xs)"
  shows "chain (list_remove h x) (l_next (list_remove h x l)) xs"
proof -
  have d: "distinct (x # xs)" using assms(1) by (rule chain_distinct)
  have nx: "l_next (list_remove h x y) = (if y = l then l_next (h x) else l_next (h y))" for y
    using assms d by (auto simp: list_remove_def Let_def)
  have "chain h (l_next (h x)) xs" using assms(1) by simp
  then have "chain (list_remove h x) (l_next (h x)) xs"
    by (rule chain_cong [THEN iffD1, rotated]) (use assms(4) in \<open>auto simp: nx\<close>)
  then show ?thesis by (simp add: nx)
qed

lemma chain_mem_nonnull: "chain h p xs \<Longrightarrow> x \<in> set xs \<Longrightarrow> x \<noteq> NULL"
  by (induction xs arbitrary: p) auto

lemma find_not_null: "find P xs = Some x \<Longrightarrow> chain h p xs \<Longrightarrow> x \<noteq> NULL"
  by (metis chain_mem_nonnull find_Some_iff nth_mem)

lemma list_find_chain:
  assumes "chain h p xs"
  shows "list_find h P p = Some (case find (\<lambda>x. P (h x)) xs of None \<Rightarrow> NULL | Some x \<Rightarrow> x)"
  using assms by (induction xs arbitrary: p) (subst list_find.simps, auto)+

section \<open>The bounded FIFO\<close>

record bfifo =
  b_head :: int
  b_tail :: int
  b_free :: int
  b_size :: int
  b_elems :: "addr list"

definition bfifo_queue :: "bfifo \<Rightarrow> addr \<Rightarrow> int \<times> bfifo" where
  "bfifo_queue f elem =
     (if b_free f \<le> 0 then (- 1, f)
      else (let f = f\<lparr>b_elems := (b_elems f)[nat (b_tail f) := elem]\<rparr>;
                f = f\<lparr>b_tail := b_tail f + 1\<rparr>;
                f = (if b_tail f \<ge> b_size f then f\<lparr>b_tail := 0\<rparr> else f)
            in (0, f\<lparr>b_free := b_free f - 1\<rparr>)))"

definition bfifo_dequeue :: "bfifo \<Rightarrow> addr \<times> bfifo" where
  "bfifo_dequeue f =
     (if b_free f \<ge> b_size f then (NULL, f)
      else (let elem = b_elems f ! nat (b_head f);
                f = f\<lparr>b_head := b_head f + 1\<rparr>;
                f = (if b_head f \<ge> b_size f then f\<lparr>b_head := 0\<rparr> else f)
            in (elem, f\<lparr>b_free := b_free f + 1\<rparr>)))"

text \<open>The state \<open>bfifo_alloc\<close> leaves in the zeroed block: empty, with room for \<open>nelems\<close>.\<close>

definition bfifo_init :: "int \<Rightarrow> bfifo" where
  "bfifo_init nelems =
     \<lparr>b_head = 0, b_tail = 0, b_free = nelems, b_size = nelems, b_elems = replicate (nat nelems) 0\<rparr>"

definition bfifo_ok :: "bfifo \<Rightarrow> bool" where
  "bfifo_ok f \<longleftrightarrow> 0 < b_size f \<and> length (b_elems f) = nat (b_size f)
     \<and> 0 \<le> b_head f \<and> b_head f < b_size f \<and> 0 \<le> b_free f \<and> b_free f \<le> b_size f
     \<and> b_tail f = (b_head f + (b_size f - b_free f)) mod b_size f"

text \<open>The elements in the order in which they will leave.\<close>

definition bfifo_list :: "bfifo \<Rightarrow> addr list" where
  "bfifo_list f = map (\<lambda>i. b_elems f ! nat ((b_head f + int i) mod b_size f))
     [0..<nat (b_size f - b_free f)]"

definition bfifo_cap :: "bfifo \<Rightarrow> nat" where
  "bfifo_cap f = nat (b_size f)"

subsection \<open>The FIFO contract\<close>

text \<open>What a client of a bounded FIFO of pointers relies on. The drain loop
  \<open>while (NULL != (p = dequeue(q))) f(p);\<close> is the one of \<open>sys_wake\<close>.\<close>

partial_function (option) drain ::
  "('q \<Rightarrow> addr \<times> 'q) \<Rightarrow> ('s \<Rightarrow> addr \<Rightarrow> 's) \<Rightarrow> 'q \<Rightarrow> 's \<Rightarrow> ('s \<times> 'q) option" where
  "drain deq f q s =
     (case deq q of (p, q') \<Rightarrow> if p = NULL then Some (s, q') else drain deq f q' (f s p))"

fun enq_all :: "('q \<Rightarrow> addr \<Rightarrow> int \<times> 'q) \<Rightarrow> 'q \<Rightarrow> addr list \<Rightarrow> 'q" where
  "enq_all enq q [] = q"
| "enq_all enq q (x # xs) = enq_all enq (snd (enq q x)) xs"

locale bounded_fifo =
  fixes enq :: "'q \<Rightarrow> addr \<Rightarrow> int \<times> 'q"
    and deq :: "'q \<Rightarrow> addr \<times> 'q"
    and abs :: "'q \<Rightarrow> addr list"
    and cap :: "'q \<Rightarrow> nat"
    and inv :: "'q \<Rightarrow> bool"
  assumes abs_le_cap: "inv q \<Longrightarrow> length (abs q) \<le> cap q"
    and enq_room: "inv q \<Longrightarrow> length (abs q) < cap q \<Longrightarrow>
      fst (enq q x) = 0 \<and> inv (snd (enq q x)) \<and> abs (snd (enq q x)) = abs q @ [x]
        \<and> cap (snd (enq q x)) = cap q"
    and enq_full: "inv q \<Longrightarrow> length (abs q) = cap q \<Longrightarrow> enq q x = (- 1, q)"
    and deq_some: "inv q \<Longrightarrow> abs q = x # xs \<Longrightarrow>
      fst (deq q) = x \<and> inv (snd (deq q)) \<and> abs (snd (deq q)) = xs \<and> cap (snd (deq q)) = cap q"
    and deq_none: "inv q \<Longrightarrow> abs q = [] \<Longrightarrow> deq q = (NULL, q)"
begin

lemma enq_inv: "inv q \<Longrightarrow> inv (snd (enq q x)) \<and> cap (snd (enq q x)) = cap q"
  using abs_le_cap [of q] enq_room [of q x] enq_full [of q x] by (cases "length (abs q) < cap q") auto

lemma deq_inv: "inv q \<Longrightarrow> inv (snd (deq q)) \<and> cap (snd (deq q)) = cap q"
  using deq_some [of q] deq_none [of q] by (cases "abs q") auto

lemma deq_null_iff:
  assumes "inv q" and "NULL \<notin> set (abs q)"
  shows "fst (deq q) = NULL \<longleftrightarrow> abs q = []"
  using deq_some [of q] deq_none [of q] assms by (cases "abs q") auto

lemma enq_all_abs:
  assumes "inv q" and "length (abs q) + length xs \<le> cap q"
  shows "inv (enq_all enq q xs) \<and> abs (enq_all enq q xs) = abs q @ xs \<and> cap (enq_all enq q xs) = cap q"
  using assms
proof (induction xs arbitrary: q)
  case (Cons x xs)
  then show ?case using enq_room [of q x] by simp
qed simp

lemma drain_all:
  assumes "inv q" and "NULL \<notin> set (abs q)"
  shows "\<exists>q'. drain deq f q s = Some (foldl f s (abs q), q') \<and> inv q' \<and> abs q' = [] \<and> cap q' = cap q"
  using assms
proof (induction "abs q" arbitrary: q s)
  case Nil
  then show ?case using deq_none [of q] by (subst drain.simps) auto
next
  case (Cons x xs)
  obtain p q' where pq: "deq q = (p, q')" by fastforce
  with deq_some [OF Cons.prems(1) Cons.hyps(2) [symmetric]]
  have d: "p = x" "inv q'" "abs q' = xs" "cap q' = cap q" by auto
  have "x \<noteq> NULL" "NULL \<notin> set xs" using Cons.prems(2) Cons.hyps(2) [symmetric] by auto
  moreover from this have "\<exists>q''. drain deq f q' (f s x) = Some (foldl f (f s x) (abs q'), q'')
      \<and> inv q'' \<and> abs q'' = [] \<and> cap q'' = cap q'"
    using Cons.hyps(1) [of q'] d by auto
  moreover have "foldl f s (abs q) = foldl f (f s x) xs" by (simp add: Cons.hyps(2) [symmetric])
  ultimately show ?case using pq d by (subst drain.simps) auto
qed

end

subsection \<open>The FIFO of kernel/list.c implements the contract\<close>

lemma mod_inj_window:
  fixes h s :: int
  assumes "(h + int i) mod s = (h + int j) mod s" and "int i < s" and "int j < s"
  shows "i = j"
proof -
  have "s dvd int i - int j"
    using assms(1) by (metis add_diff_cancel_left mod_eq_dvd_iff)
  moreover have "\<bar>int i - int j\<bar> < s" using assms by auto
  ultimately have "int i - int j = 0" by (metis zdvd_not_zless abs_dvd_iff dvd_abs_iff zero_less_abs_iff)
  then show ?thesis by simp
qed

lemma wrap_mod:
  fixes t s :: int
  assumes "0 \<le> t" and "t < s"
  shows "(if t + 1 \<ge> s then 0 else t + 1) = (t + 1) mod s"
proof (cases "t + 1 = s")
  case False
  with assms show ?thesis by simp
qed (use assms in auto)

lemma bfifo_tail_range: "bfifo_ok f \<Longrightarrow> 0 \<le> b_tail f \<and> b_tail f < b_size f"
  by (simp add: bfifo_ok_def)

lemma length_bfifo_list [simp]: "length (bfifo_list f) = nat (b_size f - b_free f)"
  by (simp add: bfifo_list_def)

lemma bfifo_queue_ok:
  assumes ok: "bfifo_ok f" and room: "0 < b_free f"
  shows "fst (bfifo_queue f x) = 0 \<and> bfifo_ok (snd (bfifo_queue f x))
    \<and> bfifo_list (snd (bfifo_queue f x)) = bfifo_list f @ [x] \<and> b_size (snd (bfifo_queue f x)) = b_size f"
proof -
  let ?u = "nat (b_size f - b_free f)"
  let ?g = "f\<lparr>b_elems := (b_elems f)[nat (b_tail f) := x], b_tail := (b_tail f + 1) mod b_size f, b_free := b_free f - 1\<rparr>"
  have q: "bfifo_queue f x = (0, ?g)"
    using room wrap_mod [of "b_tail f" "b_size f"] bfifo_tail_range [OF ok]
    by (auto simp: bfifo_queue_def Let_def)
  have t: "b_tail f = (b_head f + int ?u) mod b_size f" and u: "int ?u < b_size f"
    using ok room by (auto simp: bfifo_ok_def)
  have "(b_tail f + 1) mod b_size f = (b_head f + (b_size f - (b_free f - 1))) mod b_size f"
    using ok unfolding bfifo_ok_def by (simp add: mod_simps algebra_simps)
  then have "bfifo_ok ?g" using ok room by (auto simp: bfifo_ok_def)
  moreover have "bfifo_list ?g = bfifo_list f @ [x]"
  proof -
    have s: "nat (b_size f - (b_free f - 1)) = Suc ?u" using ok room by (auto simp: bfifo_ok_def)
    have "nat (b_tail f) \<noteq> nat ((b_head f + int i) mod b_size f)" if "i < ?u" for i
    proof
      assume e: "nat (b_tail f) = nat ((b_head f + int i) mod b_size f)"
      moreover have "0 \<le> (b_head f + int i) mod b_size f" using ok by (simp add: bfifo_ok_def)
      ultimately have "(b_head f + int i) mod b_size f = (b_head f + int ?u) mod b_size f"
        using t e bfifo_tail_range [OF ok] by (simp add: eq_nat_nat_iff)
      then show False using mod_inj_window [of "b_head f" i "b_size f" ?u] that u by simp
    qed
    then have old: "map (\<lambda>i. (b_elems f)[nat (b_tail f) := x] ! nat ((b_head f + int i) mod b_size f)) [0..<?u]
        = bfifo_list f"
      unfolding bfifo_list_def by (intro map_cong refl nth_list_update_neq) simp
    have "nat (b_tail f) < length (b_elems f)"
      using bfifo_tail_range [OF ok] ok by (auto simp: bfifo_ok_def)
    then have new: "(b_elems f)[nat (b_tail f) := x] ! nat ((b_head f + int ?u) mod b_size f) = x"
      by (simp only: t [symmetric] nth_list_update_eq)
    have "bfifo_list ?g =
        map (\<lambda>i. (b_elems f)[nat (b_tail f) := x] ! nat ((b_head f + int i) mod b_size f)) [0..<Suc ?u]"
      by (simp add: bfifo_list_def s del: upt_Suc)
    then show ?thesis by (simp only: upt_Suc_append le0 map_append list.map old new)
  qed
  ultimately show ?thesis using q by simp
qed

lemma bfifo_dequeue_ok:
  assumes ok: "bfifo_ok f" and some: "b_free f < b_size f"
  shows "bfifo_ok (snd (bfifo_dequeue f)) \<and> bfifo_list f = fst (bfifo_dequeue f) # bfifo_list (snd (bfifo_dequeue f))
    \<and> b_size (snd (bfifo_dequeue f)) = b_size f"
proof -
  let ?g = "f\<lparr>b_head := (b_head f + 1) mod b_size f, b_free := b_free f + 1\<rparr>"
  have d: "bfifo_dequeue f = (b_elems f ! nat (b_head f), ?g)"
    using some wrap_mod [of "b_head f" "b_size f"] ok by (auto simp: bfifo_dequeue_def bfifo_ok_def Let_def)
  have "b_head f + (b_size f - b_free f) = (b_head f + 1) + (b_size f - (b_free f + 1))" by simp
  then have "(b_head f + (b_size f - b_free f)) mod b_size f
      = ((b_head f + 1) mod b_size f + (b_size f - (b_free f + 1))) mod b_size f"
    by (simp only: mod_add_left_eq)
  then have "bfifo_ok ?g" using ok some by (auto simp: bfifo_ok_def)
  moreover have "bfifo_list f = b_elems f ! nat (b_head f) # bfifo_list ?g"
  proof -
    have s: "nat (b_size f - b_free f) = Suc (nat (b_size f - (b_free f + 1)))" using some by simp
    have "b_head f mod b_size f = b_head f" using ok by (auto simp: bfifo_ok_def)
    moreover have "(b_head f + int (Suc i)) mod b_size f = ((b_head f + 1) mod b_size f + int i) mod b_size f" for i
      by (simp add: mod_simps algebra_simps)
    moreover have "bfifo_list ?g = map (\<lambda>i. b_elems f ! nat (((b_head f + 1) mod b_size f + int i) mod b_size f))
        [0..<nat (b_size f - (b_free f + 1))]"
      by (simp add: bfifo_list_def)
    ultimately show ?thesis
      by (simp add: bfifo_list_def [of f] s map_upt_Suc del: upt_Suc of_nat_Suc)
  qed
  ultimately show ?thesis using d by simp
qed

interpretation bq: bounded_fifo bfifo_queue bfifo_dequeue bfifo_list bfifo_cap bfifo_ok
proof (unfold_locales, goal_cases)
  case (1 q)
  then show ?case by (auto simp: bfifo_cap_def bfifo_ok_def)
next
  case (2 q x)
  then have "0 < b_free q" by (auto simp: bfifo_cap_def)
  with 2 bfifo_queue_ok [of q x] show ?case by (auto simp: bfifo_cap_def)
next
  case (3 q x)
  then have "b_free q \<le> 0" by (auto simp: bfifo_cap_def bfifo_ok_def)
  then show ?case by (simp add: bfifo_queue_def)
next
  case (4 q x xs)
  then have "0 < length (bfifo_list q)" by simp
  then have "b_free q < b_size q" by simp
  with 4 bfifo_dequeue_ok [of q] show ?case by (auto simp: bfifo_cap_def)
next
  case (5 q)
  then have "length (bfifo_list q) = 0" by simp
  then have "b_free q \<ge> b_size q" by simp
  then show ?case by (simp add: bfifo_dequeue_def)
qed

lemma bfifo_init_ok: "0 < n \<Longrightarrow> bfifo_ok (bfifo_init n) \<and> bfifo_list (bfifo_init n) = []
    \<and> bfifo_cap (bfifo_init n) = nat n"
  by (simp add: bfifo_init_def bfifo_ok_def bfifo_list_def bfifo_cap_def)

section \<open>Properties\<close>

text \<open>C6: the bounded FIFO keeps the order and never exceeds its size, wherever its head stands. From any
  well-formed state, as many pointers as there is room for are accepted and leave behind those queued before, in order; the
  drain loop then empties the queue, and once the queue is full one more pointer is refused without an effect.\<close>

theorem bfifo_fifo_order:
  assumes "bfifo_ok f" and "length (bfifo_list f) + length xs \<le> bfifo_cap f"
    and "NULL \<notin> set (bfifo_list f) \<union> set xs"
  shows "bfifo_ok (enq_all bfifo_queue f xs) \<and> bfifo_list (enq_all bfifo_queue f xs) = bfifo_list f @ xs
    \<and> (\<exists>f'. drain bfifo_dequeue g (enq_all bfifo_queue f xs) s = Some (foldl g s (bfifo_list f @ xs), f')
         \<and> bfifo_ok f' \<and> bfifo_list f' = [])
    \<and> (length (bfifo_list f) + length xs = bfifo_cap f \<longrightarrow>
         bfifo_queue (enq_all bfifo_queue f xs) x = (- 1, enq_all bfifo_queue f xs))"
proof -
  have e: "bfifo_ok (enq_all bfifo_queue f xs)" "bfifo_list (enq_all bfifo_queue f xs) = bfifo_list f @ xs"
    "bfifo_cap (enq_all bfifo_queue f xs) = bfifo_cap f"
    using bq.enq_all_abs [OF assms(1,2)] by auto
  moreover have "NULL \<notin> set (bfifo_list (enq_all bfifo_queue f xs))" using assms(3) by (simp add: e(2))
  ultimately show ?thesis
    using bq.drain_all [OF e(1), of g s] bq.enq_full [OF e(1), of x] by (auto simp del: length_bfifo_list)
qed

theorem bfifo_fifo_order_witness:
  "\<exists>f'. drain bfifo_dequeue (\<lambda>acc p. acc @ [p]) (enq_all bfifo_queue (bfifo_init 2) [8, 4]) [] = Some ([8, 4], f')"
  using bfifo_fifo_order [of "bfifo_init 2" "[8, 4]" "\<lambda>acc p. acc @ [p]" "[]"] bfifo_init_ok [of 2] by auto

text \<open>the intrusive list as the code uses it. Adding behind a node puts the new node first in the chain that
  starts there, and removing that node again gives the old chain back; only the next pointers are followed by the code,
  and they stay a NULL-terminated chain without repetitions.\<close>

theorem list_add_remove_first:
  assumes "chain h (l_next (h l)) xs" and "l \<notin> set xs" and "a \<notin> set xs" and "a \<noteq> l" and "a \<noteq> NULL" and "l \<noteq> NULL"
  shows "chain (list_add_after h l a) (l_next (list_add_after h l a l)) (a # xs) \<and> distinct (a # xs)
    \<and> chain (list_remove (list_add_after h l a) a) (l_next (list_remove (list_add_after h l a) a l)) xs
    \<and> list_find (list_add_after h l a) P (l_next (list_add_after h l a l)) =
        Some (case find (\<lambda>x. P (list_add_after h l a x)) (a # xs) of None \<Rightarrow> NULL | Some x \<Rightarrow> x)"
proof -
  have c: "chain (list_add_after h l a) (l_next (list_add_after h l a l)) (a # xs)"
    using assms(1-5) by (rule list_add_after_chain)
  have "l_prev (list_add_after h l a a) = l" using assms(4) by (simp add: step_simps)
  then have "chain (list_remove (list_add_after h l a) a) (l_next (list_remove (list_add_after h l a) a l)) xs"
    using c assms by (intro list_remove_first_chain) auto
  then show ?thesis using c chain_distinct [OF c] list_find_chain [OF c] by blast
qed

theorem list_add_remove_first_witness:
  "chain (list_remove (list_add_after (\<lambda>_. \<lparr>l_next = 0, l_prev = 0\<rparr>) 16 32) 32)
     (l_next (list_remove (list_add_after (\<lambda>_. \<lparr>l_next = 0, l_prev = 0\<rparr>) 16 32) 32 16)) []"
  using list_add_remove_first [of "\<lambda>_. \<lparr>l_next = 0, l_prev = 0\<rparr>" 16 "[]" 32] by simp

end
