(* ===== verification/Mem.thy ===== *)
theory Mem
  imports Lists
begin

text \<open>
  kernel/mem.c: the bootstrap allocator \<open>smalloc\<close>, which only ever advances, and the chunk
  allocator \<open>malloc\<close>/\<open>free\<close> that \<open>mem_init\<close> builds on top of it, nine size classes of 128 chunks
  each with a bounded FIFO of free chunks; and \<open>bfifo_alloc\<close>/\<open>bfifo_free\<close> of kernel/list.c, which
  allocate FIFOs from it. Descriptors and their FIFOs are values of the state and not bytes of the
  heap; their addresses never overlap the chunks, because \<open>smalloc\<close> hands them out first.
\<close>

section \<open>State\<close>

definition ALLOC_MIN :: nat where "ALLOC_MIN = 32"
definition ALLOC_STEPS :: nat where "ALLOC_STEPS = 9"
definition ALLOC_NUM :: nat where "ALLOC_NUM = 128"
definition SMALLOC_SIZE :: nat where "SMALLOC_SIZE = 0x100000"

lemmas alloc_consts = ALLOC_MIN_def ALLOC_STEPS_def ALLOC_NUM_def SMALLOC_SIZE_def

text \<open>\<open>sizeof(struct bfifo)\<close> and \<open>sizeof(struct mem_desc)\<close> on the 32-bit target: five words each.\<close>

definition sizeof_bfifo :: nat where "sizeof_bfifo = 20"
definition sizeof_mem_desc :: nat where "sizeof_mem_desc = 20"

record mem_desc =
  md_least_free :: int
  md_size :: int
  md_start :: addr
  md_end :: addr
  md_allocations :: bfifo

record kmem =
  heap_start :: addr
  heap_size :: u32
  heap_cur :: addr
  mem_descs :: "mem_desc list"
  dmalloc_enabled :: bool

section \<open>Operations\<close>

definition smalloc :: "kmem \<Rightarrow> u32 \<Rightarrow> addr \<times> kmem" where
  "smalloc m sz =
     (if heap_size m - (heap_cur m - heap_start m) \<ge> sz
      then (let p = heap_cur m;
                m = m\<lparr>heap_cur := heap_cur m + sz\<rparr>;
                m = (if heap_cur m mod 4 \<noteq> 0
                     then m\<lparr>heap_cur := heap_cur m + (4 - heap_cur m mod 4)\<rparr> else m)
            in (p, m))
      else (NULL, m))"

text \<open>The search loop of \<open>malloc\<close>, over the descriptors in increasing chunk size. The comparison
  of the chunk size with the request is unsigned.\<close>

fun malloc_scan :: "mem_desc list \<Rightarrow> u32 \<Rightarrow> addr \<times> mem_desc list" where
  "malloc_scan [] sz = (NULL, [])"
| "malloc_scan (d # ds) sz =
     (if word_of_int (md_size d) < sz
      then (case malloc_scan ds sz of (p, ds') \<Rightarrow> (p, d # ds'))
      else (case bfifo_dequeue (md_allocations d) of
              (p, f) \<Rightarrow>
                (let d = d\<lparr>md_allocations := f\<rparr>
                 in if p \<noteq> NULL
                    then (p, (if b_free f < md_least_free d then d\<lparr>md_least_free := b_free f\<rparr> else d) # ds)
                    else (case malloc_scan ds sz of (p, ds') \<Rightarrow> (p, d # ds')))))"

definition malloc :: "kmem \<Rightarrow> u32 \<Rightarrow> addr \<times> kmem" where
  "malloc m sz =
     (if \<not> dmalloc_enabled m then smalloc m sz
      else (case malloc_scan (mem_descs m) sz of (p, ds) \<Rightarrow> (p, m\<lparr>mem_descs := ds\<rparr>)))"

definition free_desc :: "addr \<Rightarrow> mem_desc \<Rightarrow> mem_desc" where
  "free_desc ptr d =
     (if ptr \<ge> md_start d \<and> ptr \<le> md_end d
      then d\<lparr>md_allocations := snd (bfifo_queue (md_allocations d) ptr)\<rparr> else d)"

definition free :: "kmem \<Rightarrow> addr \<Rightarrow> kmem" where
  "free m ptr =
     (if \<not> dmalloc_enabled m then m else m\<lparr>mem_descs := map (free_desc ptr) (mem_descs m)\<rparr>)"

text \<open>The loops of \<open>mem_init\<close>: the descriptors, the chunks of one class, the classes. Each says
  whether it reached its end or took the early return. A descriptor left half filled by an early
  return is never read, because \<open>dmalloc_enabled\<close> stays clear.\<close>

definition fsize :: nat where
  "fsize = sizeof_bfifo + 4 * (ALLOC_NUM - 1)"

fun desc_loop :: "nat list \<Rightarrow> kmem \<Rightarrow> bool \<times> kmem" where
  "desc_loop [] m = (True, m)"
| "desc_loop (i # is) m =
     (case smalloc m (of_nat sizeof_mem_desc) of
        (d, m) \<Rightarrow> if d = NULL then (False, m)
          else (case smalloc m (of_nat fsize) of
            (a, m) \<Rightarrow> if a = NULL then (False, m)
              else desc_loop is (m\<lparr>mem_descs := mem_descs m @
                [\<lparr>md_least_free = int ALLOC_NUM, md_size = int (ALLOC_MIN * 2 ^ i), md_start = 0, md_end = 0,
                  md_allocations = bfifo_init (int ALLOC_NUM)\<rparr>]\<rparr>)))"

fun chunk_loop :: "nat \<Rightarrow> nat \<Rightarrow> addr \<Rightarrow> mem_desc \<Rightarrow> kmem \<Rightarrow> bool \<times> addr \<times> mem_desc \<times> kmem" where
  "chunk_loop 0 j p d m = (True, p, d, m)"
| "chunk_loop (Suc n) j p d m =
     (case smalloc m (word_of_int (md_size d)) of
        (p, m) \<Rightarrow> if p = NULL then (False, p, d, m)
          else (let d = d\<lparr>md_allocations := snd (bfifo_queue (md_allocations d) p)\<rparr>;
                    d = (if j = 0 then d\<lparr>md_start := p\<rparr> else d)
                in chunk_loop n (Suc j) p d m))"

fun class_loop :: "nat list \<Rightarrow> kmem \<Rightarrow> bool \<times> kmem" where
  "class_loop [] m = (True, m)"
| "class_loop (i # is) m =
     (case chunk_loop ALLOC_NUM 0 NULL (mem_descs m ! i) m of
        (ok, p, d, m) \<Rightarrow>
          if \<not> ok then (False, m\<lparr>mem_descs := (mem_descs m)[i := d]\<rparr>)
          else class_loop is
            (m\<lparr>mem_descs := (mem_descs m)[i := d\<lparr>md_end := p + word_of_int (md_size d)\<rparr>]\<rparr>))"

definition mem_init_heap_size :: nat where
  "mem_init_heap_size =
     SMALLOC_SIZE + (fsize + sizeof_mem_desc) * ALLOC_STEPS
       + (\<Sum>i\<leftarrow>[0..<ALLOC_STEPS]. ALLOC_MIN * 2 ^ i * ALLOC_NUM)"

text \<open>\<open>mem_init\<close>, from the zeroed static state; \<open>heap_end\<close> is the linker's \<open>&__end__\<close>.\<close>

definition mem_init :: "addr \<Rightarrow> kmem" where
  "mem_init heap_end =
     (let m = \<lparr>heap_start = heap_end, heap_size = of_nat mem_init_heap_size, heap_cur = heap_end,
               mem_descs = [], dmalloc_enabled = False\<rparr>;
          steps = [0..<ALLOC_STEPS]
      in case desc_loop steps m of
           (ok, m) \<Rightarrow> if \<not> ok then m
             else (case class_loop steps m of
               (ok, m) \<Rightarrow> if \<not> ok then m else m\<lparr>dmalloc_enabled := True\<rparr>))"

text \<open>\<open>bfifo_alloc\<close> and \<open>bfifo_free\<close>; the FIFO is found in the store under its address.\<close>

definition bfifo_alloc :: "kmem \<Rightarrow> (addr \<Rightarrow> bfifo) \<Rightarrow> int \<Rightarrow> addr \<times> kmem \<times> (addr \<Rightarrow> bfifo)" where
  "bfifo_alloc m s nelems =
     (case malloc m (word_of_int (int sizeof_bfifo + 4 * (nelems - 1))) of
        (f, m) \<Rightarrow> if f = NULL then (NULL, m, s) else (f, m, s(f := bfifo_init nelems)))"

definition bfifo_free :: "kmem \<Rightarrow> addr \<Rightarrow> kmem" where
  "bfifo_free m f = free m f"

section \<open>The bootstrap allocator\<close>

lemma word_le_diff_iff: "off \<le> h \<Longrightarrow> (sz \<le> h - off) = (unat off + unat sz \<le> unat (h :: u32))"
  by (simp add: word_le_nat_alt unat_sub le_diff_conv2 add.commute)

lemma word_mod_4: "(of_nat n :: u32) mod 4 = of_nat (n mod 2 ^ 32 mod 4)"
  by (simp add: word_unat_eq_iff unat_mod_distrib unat_of_nat)

text \<open>A request for whole words from a word-aligned heap position takes exactly the bytes asked for.\<close>

lemma smalloc_step:
  assumes hs: "heap_start m = of_nat B" and hc: "heap_cur m = of_nat (B + off)"
    and al: "4 dvd B" "4 dvd off" "4 dvd s"
    and room: "off + s \<le> unat (heap_size m)" and top: "B + unat (heap_size m) < 2 ^ 32"
  shows "smalloc m (of_nat s) = (of_nat (B + off), m\<lparr>heap_cur := of_nat (B + off + s)\<rparr>)"
proof -
  have off: "off < 2 ^ 32" "s < 2 ^ 32" using room top by auto
  have d: "heap_cur m - heap_start m = of_nat off" using hs hc by simp
  have "unat (heap_size m - of_nat off) = unat (heap_size m) - off"
    using room off by (subst unat_sub) (auto simp: word_le_nat_alt unat_of_nat)
  then have "of_nat s \<le> heap_size m - of_nat off"
    using room off by (simp add: word_le_nat_alt unat_of_nat)
  moreover have "heap_cur m + of_nat s = of_nat (B + off + s)" using hc by simp
  moreover have "(of_nat (B + off + s) :: u32) mod 4 = 0"
  proof -
    have "B + off + s < 2 ^ 32" using room top by linarith
    moreover have "4 dvd B + off + s" using al by (intro dvd_add)
    ultimately show ?thesis by (simp add: word_mod_4 mod_eq_0_iff_dvd del: of_nat_add)
  qed
  ultimately show ?thesis using hc by (simp add: smalloc_def d [simplified hc] Let_def del: of_nat_add)
qed

text \<open>A sufficient condition that the linker can meet: the heap starts at a non-null word boundary
  and fits below the top of the address space.\<close>

definition heap_ok :: "nat \<Rightarrow> bool" where
  "heap_ok B \<longleftrightarrow> 0 < B \<and> 4 dvd B \<and> B + mem_init_heap_size < 2 ^ 32"

lemma fsize_eq: "fsize = 528"
  by (simp add: fsize_def sizeof_bfifo_def ALLOC_NUM_def)

lemma mem_init_heap_size_eq: "mem_init_heap_size = 3146564"
  by (simp add: mem_init_heap_size_def alloc_consts fsize_eq sizeof_mem_desc_def upt_rec)

section \<open>The layout of the chunks\<close>

text \<open>Class \<open>i\<close> starts at offset \<open>coff i\<close> of the heap; its chunk \<open>k\<close> is the address \<open>caddr B i k\<close>.\<close>

definition csize :: "nat \<Rightarrow> nat" where
  "csize i = ALLOC_MIN * 2 ^ i"

definition coff :: "nat \<Rightarrow> nat" where
  "coff i = (sizeof_mem_desc + fsize) * ALLOC_STEPS + ALLOC_NUM * ALLOC_MIN * (2 ^ i - 1)"

definition cpos :: "nat \<Rightarrow> nat \<Rightarrow> nat \<Rightarrow> nat" where
  "cpos B i k = B + coff i + k * csize i"

definition caddr :: "nat \<Rightarrow> nat \<Rightarrow> nat \<Rightarrow> addr" where
  "caddr B i k = of_nat (cpos B i k)"

definition chunks :: "nat \<Rightarrow> nat \<Rightarrow> addr list" where
  "chunks B i = map (caddr B i) [0..<ALLOC_NUM]"

lemma csize_eq: "csize i = 32 * 2 ^ i" and coff_eq: "coff i = 4932 + 4096 * (2 ^ i - 1)"
  by (simp_all add: csize_def coff_def alloc_consts fsize_eq sizeof_mem_desc_def)

lemma coff_Suc: "coff (Suc i) = coff i + 128 * csize i"
proof -
  have "(1::nat) \<le> 2 ^ i" by simp
  then show ?thesis unfolding coff_eq csize_eq power_Suc by linarith
qed

lemma coff_mono: "i \<le> j \<Longrightarrow> coff i \<le> coff j"
  by (rule lift_Suc_mono_le [of coff]) (simp add: coff_Suc)

lemma cpos_next_class: "cpos B i 128 = cpos B (Suc i) 0"
  by (simp add: cpos_def coff_Suc)

lemma cpos_bound:
  assumes "heap_ok B" and "i < 9" and "k \<le> 128"
  shows "cpos B i k \<le> B + 2097988" and "0 < cpos B i k" and "4 dvd cpos B i k"
proof -
  have "k * csize i \<le> 128 * csize i" using assms(3) by simp
  moreover have "coff (Suc i) \<le> coff 9" using assms(2) by (intro coff_mono) simp
  moreover have "coff 9 = 2097988" by (simp add: coff_eq)
  ultimately show "cpos B i k \<le> B + 2097988" unfolding cpos_def using coff_Suc [of i] by linarith
  show "0 < cpos B i k" using assms(1) by (simp add: cpos_def heap_ok_def)
  have "4 dvd coff i" by (simp add: coff_eq)
  moreover have "4 dvd csize i" by (simp add: csize_eq)
  ultimately show "4 dvd cpos B i k" using assms(1) unfolding cpos_def heap_ok_def by (intro dvd_add dvd_mult) auto
qed

lemma unat_caddr: "heap_ok B \<Longrightarrow> i < 9 \<Longrightarrow> k \<le> 128 \<Longrightarrow> unat (caddr B i k) = cpos B i k"
  using cpos_bound(1) [of B i k]
  by (simp add: caddr_def unat_of_nat heap_ok_def mem_init_heap_size_eq)

text \<open>Chunks are disjoint: each ends before the next of its class, and classes follow each other.\<close>

lemma cpos_less_class: "i < j \<Longrightarrow> k < 128 \<Longrightarrow> cpos B i k + csize i \<le> cpos B j l"
proof -
  assume "i < j" "k < 128"
  then have "coff (Suc i) \<le> coff j" by (intro coff_mono) simp
  moreover have "k * csize i + csize i \<le> 128 * csize i"
    using \<open>k < 128\<close> mult_le_mono1 [of "Suc k" 128 "csize i"] by simp
  ultimately show ?thesis unfolding cpos_def using coff_Suc [of i] by linarith
qed

lemma cpos_less_chunk: "k < l \<Longrightarrow> cpos B i k + csize i \<le> cpos B i l"
  using mult_le_mono1 [of "Suc k" l "csize i"] by (simp add: cpos_def)

lemma cpos_disjoint:
  assumes "k < 128" and "l < 128" and "(i, k) \<noteq> (j, l)"
  shows "cpos B i k + csize i \<le> cpos B j l \<or> cpos B j l + csize j \<le> cpos B i k"
proof (cases "i = j")
  case True
  then have "k < l \<or> l < k" using assms(3) by auto
  then show ?thesis using True cpos_less_chunk by blast
next
  case False
  then have "i < j \<or> j < i" by auto
  then show ?thesis using cpos_less_class assms(1,2) by blast
qed

lemma csize_pos [simp]: "0 < csize i"
  by (simp add: csize_eq)

lemma caddr_inj:
  assumes "heap_ok B" and "i < 9" "j < 9" "k < 128" "l < 128" and "caddr B i k = caddr B j l"
  shows "i = j \<and> k = l"
proof (rule ccontr)
  assume "\<not> (i = j \<and> k = l)"
  then have "cpos B i k + csize i \<le> cpos B j l \<or> cpos B j l + csize j \<le> cpos B i k"
    using assms cpos_disjoint [of k l i j] by auto
  moreover have "cpos B i k = cpos B j l"
    using assms unat_caddr [of B i k] unat_caddr [of B j l] by simp
  ultimately show False using csize_pos [of i] csize_pos [of j] by linarith
qed

lemma distinct_chunks: "heap_ok B \<Longrightarrow> i < 9 \<Longrightarrow> distinct (chunks B i)"
  unfolding chunks_def ALLOC_NUM_def distinct_map
  by (auto intro!: inj_onI dest: caddr_inj)

lemma length_chunks: "length (chunks B i) = 128"
  by (simp add: chunks_def ALLOC_NUM_def)

lemma null_notin_chunks: "heap_ok B \<Longrightarrow> i < 9 \<Longrightarrow> NULL \<notin> set (chunks B i)"
proof
  assume a: "heap_ok B" "i < 9" "NULL \<in> set (chunks B i)"
  then obtain k where "k < 128" "caddr B i k = NULL" by (auto simp: chunks_def ALLOC_NUM_def)
  with unat_caddr [of B i k] a cpos_bound(2) [of B i k] show False by simp
qed

section \<open>What \<open>mem_init\<close> builds\<close>

lemma of_nat_nonnull: "0 < x \<Longrightarrow> x < 2 ^ 32 \<Longrightarrow> (of_nat x :: addr) \<noteq> NULL"
  by (simp add: word_unat_eq_iff unat_of_nat)

definition desc_new :: "nat \<Rightarrow> mem_desc" where
  "desc_new i = \<lparr>md_least_free = 128, md_size = int (csize i), md_start = 0, md_end = 0,
     md_allocations = bfifo_init 128\<rparr>"

lemma desc_loop_eq:
  assumes "heap_start m = of_nat B" and "heap_cur m = of_nat (B + off)" and "4 dvd off"
    and "off + length is * 548 \<le> unat (heap_size m)" and "heap_ok B"
    and "B + unat (heap_size m) < 2 ^ 32"
  shows "desc_loop is m = (True, m\<lparr>heap_cur := of_nat (B + off + length is * 548),
           mem_descs := mem_descs m @ map desc_new is\<rparr>)"
  using assms
proof (induction "is" arbitrary: m off)
  case (Cons i "is")
  let ?m1 = "m\<lparr>heap_cur := of_nat (B + off + 20)\<rparr>"
  let ?m2 = "?m1\<lparr>heap_cur := of_nat (B + (off + 20) + 528)\<rparr>"
  let ?m3 = "?m2\<lparr>mem_descs := mem_descs m @ [desc_new i]\<rparr>"
  have "4 dvd B" "0 < B" using Cons.prems(5) by (auto simp: heap_ok_def)
  moreover have b: "off + 548 + length is * 548 \<le> unat (heap_size m)" using Cons.prems(4) by simp
  ultimately have s1: "smalloc m (of_nat 20) = (of_nat (B + off), ?m1)"
    using Cons.prems by (intro smalloc_step) auto
  have "smalloc ?m1 (of_nat 528) = (of_nat (B + (off + 20)), ?m1\<lparr>heap_cur := of_nat (B + (off + 20) + 528)\<rparr>)"
    using \<open>4 dvd B\<close> b Cons.prems by (intro smalloc_step) (auto simp: add.assoc)
  then have s2: "smalloc ?m1 (of_nat 528) = (of_nat (B + (off + 20)), ?m2)" .
  have "(of_nat (B + off) :: addr) \<noteq> NULL"
    by (rule of_nat_nonnull) (use \<open>0 < B\<close> Cons.prems(6) b in linarith)+
  moreover have "(of_nat (B + (off + 20)) :: addr) \<noteq> NULL"
    by (rule of_nat_nonnull) (use \<open>0 < B\<close> Cons.prems(6) b in linarith)+
  ultimately have "desc_loop (i # is) m = desc_loop is ?m3"
    using s1 s2 by (simp add: sizeof_mem_desc_def fsize_eq desc_new_def csize_def ALLOC_NUM_def
        of_nat_numeral [where ?'a = int] del: of_nat_add of_nat_numeral)
  also have "\<dots> = (True, ?m3\<lparr>heap_cur := of_nat (B + (off + 548) + length is * 548),
      mem_descs := mem_descs ?m3 @ map desc_new is\<rparr>)"
    using Cons.prems b by (intro Cons.IH) (auto simp: algebra_simps simp del: of_nat_add)
  finally show ?case by (simp add: algebra_simps del: of_nat_add)
qed simp

lemma csize_bound: "i < 9 \<Longrightarrow> csize i \<le> 8192 \<and> 4 dvd csize i"
proof -
  assume "i < 9"
  then have "(2::nat) ^ i \<le> 2 ^ 8" by (intro power_increasing) auto
  then show ?thesis by (simp add: csize_eq)
qed

text \<open>One class: \<open>n\<close> chunks from the current heap position are queued in address order.\<close>

lemma chunk_loop_eq:
  assumes "heap_start m = of_nat B" and "heap_cur m = of_nat (B + off)" and "4 dvd off"
    and "off + n * csize i \<le> unat (heap_size m)" and "heap_ok B"
    and "B + unat (heap_size m) < 2 ^ 32" and "i < 9" and "md_size d = int (csize i)"
  shows "chunk_loop n j p d m =
    (True, if n = 0 then p else of_nat (B + off + (n - 1) * csize i),
     d\<lparr>md_allocations := enq_all bfifo_queue (md_allocations d) (map (\<lambda>k. of_nat (B + off + k * csize i)) [0..<n]),
       md_start := if j = 0 \<and> 0 < n then of_nat (B + off) else md_start d\<rparr>,
     m\<lparr>heap_cur := of_nat (B + off + n * csize i)\<rparr>)"
  using assms
proof (induction n arbitrary: j p d m off)
  case (Suc n)
  let ?s = "csize i"
  let ?m1 = "m\<lparr>heap_cur := of_nat (B + off + ?s)\<rparr>"
  let ?a = "of_nat (B + off) :: addr"
  let ?d1 = "d\<lparr>md_allocations := snd (bfifo_queue (md_allocations d) ?a),
    md_start := if j = 0 then ?a else md_start d\<rparr>"
  have B: "4 dvd B" "0 < B" using Suc.prems(5) by (auto simp: heap_ok_def)
  have s: "4 dvd ?s" using csize_bound [OF Suc.prems(7)] by simp
  have b: "(off + ?s) + n * ?s \<le> unat (heap_size m)" using Suc.prems(4) by simp
  have "smalloc m (of_nat ?s) = (?a, ?m1)"
    using B s b Suc.prems by (intro smalloc_step) auto
  moreover have "?a \<noteq> NULL"
    by (rule of_nat_nonnull) (use B b Suc.prems(6) in linarith)+
  ultimately have "chunk_loop (Suc n) j p d m = chunk_loop n (Suc j) ?a ?d1 ?m1"
    using Suc.prems(8) by (simp add: Let_def del: of_nat_add)
  also have "\<dots> = (True, if n = 0 then ?a else of_nat (B + (off + ?s) + (n - 1) * ?s),
     ?d1\<lparr>md_allocations := enq_all bfifo_queue (md_allocations ?d1)
          (map (\<lambda>k. of_nat (B + (off + ?s) + k * ?s)) [0..<n]),
       md_start := if Suc j = 0 \<and> 0 < n then of_nat (B + (off + ?s)) else md_start ?d1\<rparr>,
     ?m1\<lparr>heap_cur := of_nat (B + (off + ?s) + n * ?s)\<rparr>)"
    using Suc.prems b s by (intro Suc.IH) (auto simp: add.assoc simp del: of_nat_add)
  also have "map (\<lambda>k. of_nat (B + (off + ?s) + k * ?s) :: addr) [0..<n]
      = map (\<lambda>k. of_nat (B + off + Suc k * ?s)) [0..<n]"
    by (simp add: algebra_simps)
  also have "enq_all bfifo_queue (md_allocations ?d1) \<dots>
      = enq_all bfifo_queue (md_allocations d) (map (\<lambda>k. of_nat (B + off + k * ?s)) [0..<Suc n])"
    by (simp add: map_upt_Suc del: upt_Suc of_nat_add)
  finally show ?case
    by (cases n) (simp_all add: algebra_simps del: upt_Suc of_nat_add)
qed simp

definition desc_full :: "nat \<Rightarrow> nat \<Rightarrow> mem_desc" where
  "desc_full B i = \<lparr>md_least_free = 128, md_size = int (csize i), md_start = caddr B i 0,
     md_end = caddr B i 128, md_allocations = enq_all bfifo_queue (bfifo_init 128) (chunks B i)\<rparr>"

lemma class_loop_eq:
  assumes "heap_start m = of_nat B" and "heap_cur m = of_nat (B + coff (9 - n))"
    and "heap_size m = of_nat mem_init_heap_size" and "heap_ok B" and "n \<le> 9"
    and "mem_descs m = map (desc_full B) [0..<9 - n] @ map desc_new [9 - n..<9]"
  shows "class_loop [9 - n..<9] m =
    (True, m\<lparr>heap_cur := of_nat (B + coff 9), mem_descs := map (desc_full B) [0..<9]\<rparr>)"
  using assms
proof (induction n arbitrary: m)
  case (Suc n)
  define k where "k = 9 - Suc n"
  let ?ds = "map (desc_full B) [0..<9 - n] @ map desc_new [9 - n..<9]"
  let ?m1 = "m\<lparr>heap_cur := of_nat (B + coff (9 - n))\<rparr>"
  have i: "Suc k = 9 - n" and i9: "k < 9" and k: "9 - Suc n = k" using Suc.prems(5) by (auto simp: k_def)
  then have up: "[k..<9] = k # [9 - n..<9]" by (simp add: upt_conv_Cons)
  note prems = Suc.prems [unfolded k]
  have hs: "unat (heap_size m) = 3146564" using prems(3) by (simp add: mem_init_heap_size_eq)
  have di: "mem_descs m ! k = desc_new k" using up by (simp add: prems(6) nth_append)
  have "coff k + 128 * csize k \<le> 3146564"
    using cpos_bound(1) [OF prems(4) i9, of 128] by (simp add: cpos_def)
  then have r: "coff k + 128 * csize k \<le> unat (heap_size m)" by (simp only: hs)
  have "4 dvd coff k" by (simp add: coff_eq)
  moreover have t: "B + unat (heap_size m) < 2 ^ 32"
    using prems(4) hs by (simp add: heap_ok_def mem_init_heap_size_eq)
  moreover have z: "md_size (desc_new k) = int (csize k)" by (simp add: desc_new_def)
  ultimately have cl: "chunk_loop 128 0 NULL (desc_new k) m =
    (True, if (128::nat) = 0 then NULL else of_nat (B + coff k + (128 - 1) * csize k),
     (desc_new k)\<lparr>md_allocations := enq_all bfifo_queue (md_allocations (desc_new k))
         (map (\<lambda>j. of_nat (B + coff k + j * csize k)) [0..<128]),
       md_start := if (0::nat) = 0 \<and> (0::nat) < 128 then of_nat (B + coff k) else md_start (desc_new k)\<rparr>,
     m\<lparr>heap_cur := of_nat (B + coff k + 128 * csize k)\<rparr>)"
    using chunk_loop_eq [OF prems(1,2) _ r prems(4) t i9 z] by blast
  have cur: "B + coff k + 128 * csize k = B + coff (9 - n)"
    using coff_Suc [of k] by (simp only: i add.assoc)
  have ch: "map (\<lambda>j. of_nat (B + coff k + j * csize k)) [0..<128] = chunks B k"
    by (simp only: chunks_def caddr_def [abs_def] cpos_def ALLOC_NUM_def)
  have st: "(of_nat (B + coff k) :: addr) = caddr B k 0" by (simp add: caddr_def cpos_def)
  have "chunk_loop 128 0 NULL (desc_new k) m =
    (True, of_nat (B + coff k + 127 * csize k),
     (desc_new k)\<lparr>md_allocations := enq_all bfifo_queue (bfifo_init 128) (chunks B k), md_start := caddr B k 0\<rparr>,
     ?m1)"
    unfolding cl cur ch st by (simp add: desc_new_def del: of_nat_add)
  moreover have "of_nat (B + coff k + 127 * csize k) + word_of_int (int (csize k)) = caddr B k 128"
    by (simp add: caddr_def cpos_def algebra_simps)
  moreover have "(mem_descs m)[k := desc_full B k] = ?ds"
    using map_upt_update [OF i9, of "desc_full B" desc_new] by (simp only: prems(6) i)
  ultimately have "class_loop [k..<9] m = class_loop [9 - n..<9] (?m1\<lparr>mem_descs := ?ds\<rparr>)"
    using di by (simp add: up ALLOC_NUM_def desc_full_def desc_new_def del: of_nat_add)
  also have "\<dots> = (True, ?m1\<lparr>mem_descs := ?ds, heap_cur := of_nat (B + coff 9), mem_descs := map (desc_full B) [0..<9]\<rparr>)"
    using prems by (subst Suc.IH) auto
  finally show ?case unfolding k by simp
qed simp

lemma mem_init_eq:
  assumes "heap_ok B"
  shows "mem_init (of_nat B) = \<lparr>heap_start = of_nat B, heap_size = of_nat mem_init_heap_size,
    heap_cur = of_nat (B + coff 9), mem_descs = map (desc_full B) [0..<9], dmalloc_enabled = True\<rparr>"
proof -
  let ?m0 = "\<lparr>heap_start = of_nat B, heap_size = of_nat mem_init_heap_size, heap_cur = of_nat B,
    mem_descs = [], dmalloc_enabled = False\<rparr>"
  let ?m1 = "?m0\<lparr>heap_cur := of_nat (B + coff 0), mem_descs := map desc_new [0..<9]\<rparr>"
  have "desc_loop [0..<9] ?m0 = (True, ?m1)"
    using assms by (subst desc_loop_eq [where B = B and off = 0])
      (auto simp: mem_init_heap_size_eq heap_ok_def coff_eq)
  moreover have "class_loop [0..<9] ?m1 =
      (True, ?m1\<lparr>heap_cur := of_nat (B + coff 9), mem_descs := map (desc_full B) [0..<9]\<rparr>)"
    using class_loop_eq [of ?m1 B 9] assms by simp
  ultimately show ?thesis by (simp add: mem_init_def Let_def ALLOC_STEPS_def)
qed

section \<open>Invariant\<close>

text \<open>Each class keeps its geometry, its FIFO is well formed and holds different chunks of the class.\<close>

definition free_list :: "kmem \<Rightarrow> nat \<Rightarrow> addr list" where
  "free_list m i = bfifo_list (md_allocations (mem_descs m ! i))"

definition desc_ok :: "nat \<Rightarrow> nat \<Rightarrow> mem_desc \<Rightarrow> bool" where
  "desc_ok B i d \<longleftrightarrow> md_size d = int (csize i) \<and> md_start d = caddr B i 0 \<and> md_end d = caddr B i 128
     \<and> bfifo_ok (md_allocations d) \<and> bfifo_cap (md_allocations d) = 128
     \<and> distinct (bfifo_list (md_allocations d)) \<and> set (bfifo_list (md_allocations d)) \<subseteq> set (chunks B i)"

definition mem_ok :: "nat \<Rightarrow> kmem \<Rightarrow> bool" where
  "mem_ok B m \<longleftrightarrow> heap_ok B \<and> dmalloc_enabled m \<and> length (mem_descs m) = 9
     \<and> (\<forall>i<9. desc_ok B i (mem_descs m ! i))"

lemma mem_ok_null [inv_dests]: "mem_ok B m \<Longrightarrow> i < 9 \<Longrightarrow> NULL \<notin> set (free_list m i)"
  using null_notin_chunks [of B i] by (auto simp: mem_ok_def desc_ok_def free_list_def)

lemma desc_full_ok:
  assumes "heap_ok B" and "i < 9"
  shows "desc_ok B i (desc_full B i) \<and> bfifo_list (md_allocations (desc_full B i)) = chunks B i"
proof -
  have "bfifo_ok (bfifo_init 128)" "bfifo_list (bfifo_init 128) = []" "bfifo_cap (bfifo_init 128) = 128"
    using bfifo_init_ok [of 128] by auto
  then show ?thesis
    using bq.enq_all_abs [of "bfifo_init 128" "chunks B i"] assms
    by (simp add: desc_ok_def desc_full_def length_chunks distinct_chunks)
qed

text \<open>The search of \<open>malloc\<close>: the first class that is large enough and not empty gives its oldest
  chunk, every other class is untouched.\<close>

definition fit :: "u32 \<Rightarrow> mem_desc \<Rightarrow> bool" where
  "fit sz d \<longleftrightarrow> sz \<le> word_of_int (md_size d) \<and> bfifo_list (md_allocations d) \<noteq> []"

lemma malloc_scan_none:
  assumes "\<forall>d\<in>set ds. bfifo_ok (md_allocations d) \<and> \<not> fit sz d"
  shows "malloc_scan ds sz = (NULL, ds)"
  using assms
proof (induction ds)
  case (Cons d ds)
  then show ?case using bq.deq_none [of "md_allocations d"]
    by (cases "word_of_int (md_size d) < sz") (auto simp: fit_def Let_def)
qed simp

definition take_chunk :: "mem_desc \<Rightarrow> mem_desc" where
  "take_chunk d =
     (let f = snd (bfifo_dequeue (md_allocations d))
      in d\<lparr>md_allocations := f, md_least_free := min (b_free f) (md_least_free d)\<rparr>)"

lemma malloc_scan_some:
  assumes "\<forall>d\<in>set ds. bfifo_ok (md_allocations d) \<and> \<not> fit sz d"
    and "fit sz d" and "bfifo_ok (md_allocations d)" and "bfifo_list (md_allocations d) = x # xs" and "x \<noteq> NULL"
  shows "malloc_scan (ds @ d # ds') sz = (x, ds @ take_chunk d # ds')"
  using assms(1)
proof (induction ds)
  case Nil
  obtain f where f: "bfifo_dequeue (md_allocations d) = (x, f)"
    using bq.deq_some [OF assms(3,4)] by (cases "bfifo_dequeue (md_allocations d)") auto
  have "\<not> word_of_int (md_size d) < sz" using assms(2) by (simp add: fit_def not_less)
  then show ?case using assms(5) f by (simp add: take_chunk_def Let_def min_def)
next
  case (Cons e ds)
  then show ?case using bq.deq_none [of "md_allocations e"]
    by (cases "word_of_int (md_size e) < sz") (auto simp: fit_def Let_def)
qed

text \<open>\<open>malloc_class m sz\<close>: the class that serves a request, if there is one.\<close>

definition malloc_class :: "kmem \<Rightarrow> u32 \<Rightarrow> nat option" where
  "malloc_class m sz = find (\<lambda>i. unat sz \<le> csize i \<and> free_list m i \<noteq> []) [0..<9]"

lemma fit_iff:
  assumes "mem_ok B m" and "i < 9"
  shows "fit sz (mem_descs m ! i) \<longleftrightarrow> unat sz \<le> csize i \<and> free_list m i \<noteq> []"
proof -
  have "md_size (mem_descs m ! i) = int (csize i)" using assms by (simp add: mem_ok_def desc_ok_def)
  then have w: "word_of_int (md_size (mem_descs m ! i)) = (of_nat (csize i) :: u32)" by simp
  have "unat (of_nat (csize i) :: u32) = csize i"
    using csize_bound [OF assms(2)] by (simp add: unat_of_nat)
  then show ?thesis unfolding fit_def free_list_def w word_le_nat_alt by simp
qed

lemma malloc_none_eq:
  assumes ok: "mem_ok B m" and c: "malloc_class m sz = None"
  shows "malloc m sz = (NULL, m)"
proof -
  have "\<not> fit sz d \<and> bfifo_ok (md_allocations d)" if d: "d \<in> set (mem_descs m)" for d
  proof -
    obtain i where "i < length (mem_descs m)" "d = mem_descs m ! i"
      using d by (auto simp: in_set_conv_nth)
    then have i: "i < 9" "d = mem_descs m ! i" using ok by (auto simp: mem_ok_def)
    then have "\<not> (unat sz \<le> csize i \<and> free_list m i \<noteq> [])"
      using c by (auto simp: malloc_class_def find_None_iff)
    then show ?thesis using fit_iff [OF ok i(1)] i ok by (auto simp: mem_ok_def desc_ok_def)
  qed
  then have "malloc_scan (mem_descs m) sz = (NULL, mem_descs m)" by (intro malloc_scan_none) auto
  then show ?thesis using ok by (simp add: malloc_def mem_ok_def)
qed

lemma malloc_some_eq:
  assumes ok: "mem_ok B m" and c: "malloc_class m sz = Some i"
  shows "i < 9 \<and> unat sz \<le> csize i \<and> free_list m i \<noteq> [] \<and> malloc m sz =
    (hd (free_list m i), m\<lparr>mem_descs := (mem_descs m)[i := take_chunk (mem_descs m ! i)]\<rparr>)"
proof -
  have i: "i < 9" "unat sz \<le> csize i" "free_list m i \<noteq> []"
    and before: "\<forall>j<i. \<not> (unat sz \<le> csize j \<and> free_list m j \<noteq> [])"
    using c by (auto simp: malloc_class_def find_Some_iff)
  let ?ds = "mem_descs m"
  have len: "length ?ds = 9" using ok by (simp add: mem_ok_def)
  have split: "?ds = take i ?ds @ ?ds ! i # drop (Suc i) ?ds" using i len by (simp add: id_take_nth_drop)
  have ok_d: "bfifo_ok (md_allocations (?ds ! j))" if "j < 9" for j
    using that ok by (simp add: mem_ok_def desc_ok_def)
  have "\<forall>d\<in>set (take i ?ds). bfifo_ok (md_allocations d) \<and> \<not> fit sz d"
  proof
    fix d assume "d \<in> set (take i ?ds)"
    then obtain j where j: "j < i" "d = ?ds ! j" by (auto simp: in_set_conv_nth)
    then have "j < 9" using i by simp
    then show "bfifo_ok (md_allocations d) \<and> \<not> fit sz d"
      using before j fit_iff [OF ok, of j sz] ok_d by auto
  qed
  moreover have "fit sz (?ds ! i)" using fit_iff [OF ok i(1)] i by simp
  moreover obtain x xs where x: "free_list m i = x # xs" using i(3) by (cases "free_list m i") auto
  moreover have "x \<noteq> NULL" using mem_ok_null [OF ok i(1)] x by auto
  ultimately have "malloc_scan (take i ?ds @ ?ds ! i # drop (Suc i) ?ds) sz
      = (x, take i ?ds @ take_chunk (?ds ! i) # drop (Suc i) ?ds)"
    using ok_d i by (intro malloc_scan_some) (auto simp: free_list_def)
  then have "malloc_scan ?ds sz = (x, ?ds[i := take_chunk (?ds ! i)])"
    using i len by (simp add: id_take_nth_drop [symmetric] upd_conv_take_nth_drop)
  then show ?thesis using i x ok by (simp add: malloc_def mem_ok_def)
qed

lemma take_chunk_ok:
  assumes "desc_ok B i d" and "bfifo_list (md_allocations d) = x # xs"
  shows "desc_ok B i (take_chunk d) \<and> bfifo_list (md_allocations (take_chunk d)) = xs"
  using bq.deq_some [of "md_allocations d" x xs] assms by (auto simp: desc_ok_def take_chunk_def Let_def)

lemma malloc_ok:
  assumes ok: "mem_ok B m" and m': "malloc m sz = (p, m')"
  shows "mem_ok B m' \<and> (if malloc_class m sz = None then p = NULL \<and> m' = m
    else (let i = the (malloc_class m sz) in i < 9 \<and> unat sz \<le> csize i \<and> free_list m i = p # free_list m' i
      \<and> p \<noteq> NULL \<and> (\<forall>j<9. j \<noteq> i \<longrightarrow> free_list m' j = free_list m j)))"
proof (cases "malloc_class m sz")
  case None
  then show ?thesis using malloc_none_eq [OF ok None] ok m' by simp
next
  case (Some i)
  note s = malloc_some_eq [OF ok Some]
  obtain x xs where x: "free_list m i = x # xs" using s by (cases "free_list m i") auto
  have d: "desc_ok B i (mem_descs m ! i)" and len: "length (mem_descs m) = 9"
    using ok s by (auto simp: mem_ok_def)
  have e: "p = x" "m' = m\<lparr>mem_descs := (mem_descs m)[i := take_chunk (mem_descs m ! i)]\<rparr>"
    using s m' x by auto
  have t: "desc_ok B i (take_chunk (mem_descs m ! i))" "free_list m' i = xs"
    using take_chunk_ok [OF d, of x xs] x s len by (auto simp: free_list_def e)
  have o: "free_list m' j = free_list m j" if "j \<noteq> i" for j
    using that by (simp add: free_list_def e)
  have "mem_ok B m'" using ok t(1) s by (auto simp: mem_ok_def e nth_list_update)
  moreover have "p \<noteq> NULL" using mem_ok_null [OF ok, of i] s x e by auto
  ultimately show ?thesis using Some s x t o e by (simp add: Let_def)
qed

section \<open>Freeing\<close>

text \<open>The end address of a class is the start address of the next one, and \<open>free\<close> compares with it
  inclusively.\<close>

lemma caddr_in_class_iff:
  assumes "heap_ok B" and "i < 9" and "j < 9" and "k < 128"
  shows "caddr B j 0 \<le> caddr B i k \<and> caddr B i k \<le> caddr B j 128 \<longleftrightarrow> i = j \<or> (k = 0 \<and> i = Suc j)"
proof -
  have w: "caddr B j 0 \<le> caddr B i k \<and> caddr B i k \<le> caddr B j 128 \<longleftrightarrow>
      cpos B j 0 \<le> cpos B i k \<and> cpos B i k \<le> cpos B (Suc j) 0"
    using assms by (simp add: word_le_nat_alt unat_caddr cpos_next_class [symmetric])
  consider "i < j" | "i = j" | "i = Suc j" | "Suc j < i" by linarith
  then show ?thesis
  proof cases
    case 1
    then have "cpos B i k < cpos B j 0"
      using cpos_less_class [of i j k B 0] assms(4) csize_pos [of i] by linarith
    then show ?thesis unfolding w using 1 by auto
  next
    case 2
    then show ?thesis unfolding w using assms(4) cpos_less_class [of i "Suc i" k B 0] by (auto simp: cpos_def)
  next
    case 3
    have "cpos B i 0 < cpos B i k" if "k \<noteq> 0"
      using cpos_less_chunk [of 0 k B i] csize_pos [of i] that by linarith
    then show ?thesis unfolding w
      using 3 cpos_less_class [of j i 0 B 0] by (cases "k = 0") auto
  next
    case 4
    then have "cpos B (Suc j) 0 < cpos B i k"
      using cpos_less_class [of "Suc j" i 0 B k] csize_pos [of "Suc j"] by linarith
    then show ?thesis unfolding w using 4 by auto
  qed
qed

lemma free_desc_ok:
  assumes "desc_ok B j d" and "heap_ok B" and "j < 9" and "i < 9" and "k < 128"
  shows "bfifo_list (md_allocations (free_desc (caddr B i k) d)) =
    bfifo_list (md_allocations d) @
      (if (i = j \<or> (k = 0 \<and> i = Suc j)) \<and> length (bfifo_list (md_allocations d)) < 128 then [caddr B i k] else [])"
proof -
  have d: "md_start d = caddr B j 0" "md_end d = caddr B j 128" "bfifo_ok (md_allocations d)"
    "bfifo_cap (md_allocations d) = 128" using assms(1) by (auto simp: desc_ok_def)
  show ?thesis
  proof (cases "length (bfifo_list (md_allocations d)) < 128")
    case True
    then show ?thesis
      using bq.enq_room [OF d(3), of "caddr B i k"] d(4) caddr_in_class_iff [of B i j k] assms
      by (simp add: free_desc_def d)
  next
    case False
    then have "length (bfifo_list (md_allocations d)) = bfifo_cap (md_allocations d)"
      using bq.abs_le_cap [OF d(3)] d(4) by simp
    then show ?thesis using bq.enq_full [OF d(3), of "caddr B i k"] False by (simp add: free_desc_def)
  qed
qed

lemma length_less_of_missing:
  assumes "distinct xs" and "set xs \<subseteq> set ys" and "y \<in> set ys" and "y \<notin> set xs"
  shows "length xs < length ys"
proof -
  have "card (set xs) < card (set ys)" using assms by (intro psubset_card_mono) auto
  then show ?thesis using assms(1) distinct_card [of xs] card_length [of ys] by simp
qed

lemma free_ok:
  assumes ok: "mem_ok B m" and i: "i < 9" and k: "k < 128" and nb: "k \<noteq> 0 \<or> i = 0"
    and new: "caddr B i k \<notin> set (free_list m i)"
  shows "mem_ok B (free m (caddr B i k)) \<and> free_list (free m (caddr B i k)) i = free_list m i @ [caddr B i k]
    \<and> (\<forall>j<9. j \<noteq> i \<longrightarrow> free_list (free m (caddr B i k)) j = free_list m j)"
proof -
  let ?p = "caddr B i k" and ?m = "free m (caddr B i k)"
  have B: "heap_ok B" and d: "\<And>j. j < 9 \<Longrightarrow> desc_ok B j (mem_descs m ! j)" and len: "length (mem_descs m) = 9"
    using ok by (auto simp: mem_ok_def)
  have p: "?p \<in> set (chunks B i)" using k by (simp add: chunks_def ALLOC_NUM_def)
  have room: "length (free_list m i) < 128"
    using length_less_of_missing [of "free_list m i" "chunks B i" ?p] d [OF i] p new
    by (simp add: desc_ok_def free_list_def length_chunks)
  have m: "mem_descs ?m ! j = free_desc ?p (mem_descs m ! j)" if "j < 9" for j
    using that ok by (simp add: free_def mem_ok_def)
  have fl: "free_list ?m j = free_list m j @ (if i = j then [?p] else [])" if "j < 9" for j
    using free_desc_ok [OF d [OF that] B that i k] nb room by (auto simp: free_list_def m [OF that])
  have "desc_ok B j (mem_descs ?m ! j)" if "j < 9" for j
  proof -
    have "free_desc ?p (mem_descs m ! j) = mem_descs m ! j \<or> free_desc ?p (mem_descs m ! j) =
      (mem_descs m ! j)\<lparr>md_allocations := snd (bfifo_queue (md_allocations (mem_descs m ! j)) ?p)\<rparr>"
      by (simp add: free_desc_def)
    moreover have "distinct (free_list ?m j)" "set (free_list ?m j) \<subseteq> set (chunks B j)"
      using d [OF that] fl [OF that] new p by (auto simp: desc_ok_def free_list_def)
    ultimately show ?thesis
      using d [OF that] bq.enq_inv [of "md_allocations (mem_descs m ! j)" ?p]
      unfolding m [OF that] free_list_def by (auto simp: desc_ok_def)
  qed
  then have "mem_ok B ?m" using ok by (simp add: mem_ok_def free_def)
  then show ?thesis using fl i by auto
qed

section \<open>Clients of the allocator\<close>

text \<open>The state of the allocator together with the live allocations (pointer and requested size).
  A client frees what it owns; \<open>boundary\<close> are the pointers at which two classes meet, where \<open>free\<close> does not
  behave (see below).\<close>

definition boundary :: "kmem \<Rightarrow> addr \<Rightarrow> bool" where
  "boundary m p \<longleftrightarrow> p \<in> md_start ` set (tl (mem_descs m))"

inductive alloc_step :: "kmem \<times> (addr \<times> u32) list \<Rightarrow> kmem \<times> (addr \<times> u32) list \<Rightarrow> bool" where
  step_malloc: "malloc m sz = (p, m') \<Longrightarrow> p \<noteq> NULL \<Longrightarrow> alloc_step (m, live) (m', (p, sz) # live)"
| step_malloc_null: "malloc m sz = (NULL, m') \<Longrightarrow> alloc_step (m, live) (m', live)"
| step_free: "p \<in> fst ` set live \<Longrightarrow> \<not> boundary m p \<Longrightarrow>
    alloc_step (m, live) (free m p, filter (\<lambda>(q, _). q \<noteq> p) live)"

inductive_cases alloc_step_elim: "alloc_step (m, live) s'"

definition live_ok :: "nat \<Rightarrow> kmem \<times> (addr \<times> u32) list \<Rightarrow> bool" where
  "live_ok B s \<longleftrightarrow> mem_ok B (fst s) \<and> distinct (map fst (snd s))
     \<and> (\<forall>(p, n)\<in>set (snd s). \<exists>i<9. p \<in> set (chunks B i) \<and> unat n \<le> csize i)
     \<and> (\<forall>i<9. set (free_list (fst s) i) = set (chunks B i) - fst ` set (snd s))"

lemma chunks_disjoint_classes:
  "heap_ok B \<Longrightarrow> i < 9 \<Longrightarrow> j < 9 \<Longrightarrow> p \<in> set (chunks B i) \<Longrightarrow> p \<in> set (chunks B j) \<Longrightarrow> i = j"
  by (auto simp: chunks_def ALLOC_NUM_def dest: caddr_inj)

lemma live_ok_malloc:
  assumes ok: "live_ok B (m, live)" and m: "malloc m sz = (p, m')" and p: "p \<noteq> NULL"
  shows "live_ok B (m', (p, sz) # live)"
proof -
  have mo: "mem_ok B m" using ok by (simp add: live_ok_def)
  note r = malloc_ok [OF mo m]
  obtain i where c: "malloc_class m sz = Some i" using r p by (cases "malloc_class m sz") auto
  have i: "i < 9" "unat sz \<le> csize i" "free_list m i = p # free_list m' i"
    "\<forall>j<9. j \<noteq> i \<longrightarrow> free_list m' j = free_list m j" and mo': "mem_ok B m'"
    using r c by (auto simp: Let_def)
  have fl: "set (free_list m j) = set (chunks B j) - fst ` set live" if "j < 9" for j
    using ok that by (simp add: live_ok_def)
  have pi: "p \<in> set (chunks B i)" "p \<notin> fst ` set live" using fl [OF i(1)] i(3) by auto
  have "distinct (free_list m i)" using mo i(1) by (simp add: mem_ok_def desc_ok_def free_list_def)
  then have "set (free_list m' i) = set (free_list m i) - {p}" using i(3) by auto
  moreover have "p \<notin> set (chunks B j)" if "j < 9" "j \<noteq> i" for j
    using chunks_disjoint_classes [of B i j p] mo pi i(1) that by (auto simp: mem_ok_def)
  ultimately have "set (free_list m' j) = set (chunks B j) - fst ` set ((p, sz) # live)" if "j < 9" for j
    using fl [OF that] i(4) that by (cases "j = i") auto
  then show ?thesis using ok mo' pi i(1,2) by (auto simp: live_ok_def)
qed

lemma live_ok_free:
  assumes ok: "live_ok B (m, live)" and p: "p \<in> fst ` set live" and nb: "\<not> boundary m p"
  shows "live_ok B (free m p, filter (\<lambda>(q, _). q \<noteq> p) live)"
proof -
  have mo: "mem_ok B m" using ok by (simp add: live_ok_def)
  obtain i where i: "i < 9" "p \<in> set (chunks B i)" using ok p by (force simp: live_ok_def)
  obtain k where k: "k < 128" "p = caddr B i k" using i(2) by (auto simp: chunks_def ALLOC_NUM_def)
  have fl: "set (free_list m j) = set (chunks B j) - fst ` set live" if "j < 9" for j
    using ok that by (simp add: live_ok_def)
  have "k \<noteq> 0 \<or> i = 0"
  proof (rule ccontr)
    assume a: "\<not> (k \<noteq> 0 \<or> i = 0)"
    have "length (mem_descs m) = 9" "md_start (mem_descs m ! i) = p"
      using mo i(1) k a by (auto simp: mem_ok_def desc_ok_def)
    moreover from this a i(1) have "tl (mem_descs m) ! (i - 1) = mem_descs m ! i" "i - 1 < length (tl (mem_descs m))"
      by (auto simp: nth_tl)
    ultimately show False using nb unfolding boundary_def by (metis imageI nth_mem)
  qed
  moreover have "p \<notin> set (free_list m i)" using fl [OF i(1)] p by blast
  ultimately have f: "mem_ok B (free m p)" "free_list (free m p) i = free_list m i @ [p]"
    "\<And>j. j < 9 \<Longrightarrow> j \<noteq> i \<Longrightarrow> free_list (free m p) j = free_list m j"
    using free_ok [OF mo i(1) k(1)] k(2) by auto
  have l: "fst ` set (filter (\<lambda>(q, _). q \<noteq> p) live) = fst ` set live - {p}" by force
  have "p \<notin> set (chunks B j)" if "j < 9" "j \<noteq> i" for j
    using chunks_disjoint_classes [of B i j p] mo i that by (auto simp: mem_ok_def)
  then have "set (free_list (free m p) j) = set (chunks B j) - fst ` set (filter (\<lambda>(q, _). q \<noteq> p) live)"
    if "j < 9" for j
    using fl [OF that] f(2,3) i(2) that unfolding l by (cases "j = i") auto
  moreover have "distinct (map fst (filter (\<lambda>(q, _). q \<noteq> p) live))"
    using ok by (simp add: live_ok_def distinct_map_filter)
  ultimately show ?thesis using ok f(1) by (auto simp: live_ok_def)
qed

lemma mem_init_ok:
  assumes "heap_ok B"
  shows "mem_ok B (mem_init (of_nat B))" and "i < 9 \<Longrightarrow> free_list (mem_init (of_nat B)) i = chunks B i"
  using desc_full_ok [OF assms] assms by (auto simp: mem_ok_def mem_init_eq free_list_def)

lemma chunks_cons: "chunks B i = caddr B i 0 # map (caddr B i) [1..<128]"
  by (simp add: chunks_def ALLOC_NUM_def upt_conv_Cons)

lemma malloc_class_init:
  assumes "heap_ok B" and "i < 9" and "unat sz \<le> csize i" and "\<And>j. j < i \<Longrightarrow> csize j < unat sz"
  shows "malloc_class (mem_init (of_nat B)) sz = Some i"
  unfolding malloc_class_def find_Some_iff
proof (intro exI [of _ i] conjI allI impI)
  show "free_list (mem_init (of_nat B)) ([0..<9] ! i) \<noteq> []"
    using mem_init_ok(2) [OF assms(1,2)] assms(2) chunks_cons [of B i] by simp
  show "\<not> (unat sz \<le> csize ([0..<9] ! j) \<and> free_list (mem_init (of_nat B)) ([0..<9] ! j) \<noteq> [])" if "j < i" for j
    using assms(2) assms(4) [OF that] that by simp
qed (use assms(2,3) in simp_all)

lemma live_ok_init: "heap_ok B \<Longrightarrow> live_ok B (mem_init (of_nat B), [])"
  using mem_init_ok [of B] by (auto simp: live_ok_def)

lemma live_ok_reachable:
  assumes "alloc_step\<^sup>*\<^sup>* (mem_init (of_nat B), []) s" and "heap_ok B"
  shows "live_ok B s"
  using assms(1)
proof (induction rule: rtranclp_induct)
  case (step s s')
  from step.hyps(2) step.IH show ?case
  proof (cases rule: alloc_step.cases)
    case (step_malloc_null m sz m' live)
    then show ?thesis using step.IH malloc_ok [of B m sz NULL m'] by (auto simp: live_ok_def split: if_splits)
  qed (auto intro: live_ok_malloc live_ok_free)
qed (rule live_ok_init [OF assms(2)])

lemma live_ok_disjoint:
  assumes "live_ok B (m, live)" and "(p, n) \<in> set live" and "(q, k) \<in> set live" and "p \<noteq> q"
  shows "unat p + unat n \<le> unat q \<or> unat q + unat k \<le> unat p"
proof -
  have B: "heap_ok B" using assms(1) by (simp add: live_ok_def mem_ok_def)
  obtain i u where i: "i < 9" "u < 128" "p = caddr B i u" "unat n \<le> csize i"
    using assms(1,2) by (force simp: live_ok_def chunks_def ALLOC_NUM_def)
  obtain j v where j: "j < 9" "v < 128" "q = caddr B j v" "unat k \<le> csize j"
    using assms(1,3) by (force simp: live_ok_def chunks_def ALLOC_NUM_def)
  have "cpos B i u + csize i \<le> cpos B j v \<or> cpos B j v + csize j \<le> cpos B i u"
    by (rule cpos_disjoint [OF i(2) j(2)]) (use assms(4) i(3) j(3) in auto)
  then show ?thesis using i j B by (auto simp: unat_caddr)
qed

lemma round4_eq: "\<exists>k. (s :: nat) + (4 - s mod 4) mod 4 = 4 * k \<and> 4 * k < s + 4"
proof (cases "s mod 4 = 0")
  case True
  then have "s = 4 * (s div 4)" by (metis add_0_right mult_div_mod_eq)
  then show ?thesis using True by (intro exI [of _ "s div 4"]) simp
next
  case False
  have *: "s = 4 * q + r \<Longrightarrow> r < 4 \<Longrightarrow> 0 < r \<Longrightarrow> s + (4 - r) = 4 * Suc q \<and> 4 * Suc q < s + 4" for q r
    by auto
  have "s = 4 * (s div 4) + s mod 4" by simp
  from * [OF this] False show ?thesis by (intro exI [of _ "Suc (s div 4)"]) simp
qed

lemma round4: "4 dvd (s :: nat) + (4 - s mod 4) mod 4"
  using round4_eq [of s] by auto

lemma round4_le:
  assumes "4 dvd h - (off :: nat)" and "s \<le> h - off" and "off \<le> h"
  shows "off + s + (4 - s mod 4) mod 4 \<le> h"
proof -
  obtain q where q: "h - off = 4 * q" using assms(1) by (elim dvdE)
  obtain k where k: "s + (4 - s mod 4) mod 4 = 4 * k" "4 * k < s + 4" using round4_eq by blast
  then have "k \<le> q" using assms(2) q by linarith
  then show ?thesis using k q assms(3) by linarith
qed

section \<open>The allocator as an interface\<close>

lemma boundary_iff:
  assumes "mem_ok B m"
  shows "boundary m q \<longleftrightarrow> (\<exists>i. 0 < i \<and> i < 9 \<and> q = caddr B i 0)"
proof -
  have len: "length (mem_descs m) = 9" and st: "\<And>i. i < 9 \<Longrightarrow> md_start (mem_descs m ! i) = caddr B i 0"
    using assms by (auto simp: mem_ok_def desc_ok_def)
  show ?thesis
  proof
    assume "boundary m q"
    then obtain d where d: "d \<in> set (tl (mem_descs m))" "q = md_start d" by (auto simp: boundary_def)
    then obtain j where "j < length (tl (mem_descs m))" "tl (mem_descs m) ! j = d" by (auto simp: in_set_conv_nth)
    then show "\<exists>i. 0 < i \<and> i < 9 \<and> q = caddr B i 0"
      using st [of "Suc j"] d(2) len by (intro exI [of _ "Suc j"]) (simp add: nth_tl)
  next
    assume "\<exists>i. 0 < i \<and> i < 9 \<and> q = caddr B i 0"
    then obtain i where i: "0 < i" "i < 9" "q = caddr B i 0" by blast
    then have "tl (mem_descs m) ! (i - 1) \<in> set (tl (mem_descs m))" using len by (intro nth_mem) auto
    moreover have "tl (mem_descs m) ! (i - 1) = mem_descs m ! i" using i len by (simp add: nth_tl)
    ultimately show "boundary m q" unfolding boundary_def using st [OF i(2)] i(3) by force
  qed
qed

lemma boundary_cong: "mem_ok B m \<Longrightarrow> mem_ok B m' \<Longrightarrow> boundary m' q = boundary m q"
  by (simp add: boundary_iff)

text \<open>Every chunk at a class boundary is in use, so that no later \<open>free\<close> can hit one.\<close>

definition guarded :: "kmem \<Rightarrow> (addr \<times> u32) list \<Rightarrow> bool" where
  "guarded m live \<longleftrightarrow> (\<forall>q. boundary m q \<longrightarrow> q \<in> fst ` set live)"

lemma live_ok_block:
  assumes "live_ok B (m, live)" and "(p, n) \<in> set live"
  obtains i u where "i < 9" and "u < 128" and "p = caddr B i u" and "unat n \<le> csize i"
proof -
  have "\<forall>(p, n)\<in>set live. \<exists>i<9. p \<in> set (chunks B i) \<and> unat n \<le> csize i"
    using assms(1) unfolding live_ok_def snd_conv by (elim conjE)
  then obtain i where "i < 9" "p \<in> set (chunks B i)" "unat n \<le> csize i" using assms(2) by blast
  moreover from this obtain u where "u < 128" "p = caddr B i u" by (auto simp: chunks_def ALLOC_NUM_def)
  ultimately show thesis by (rule_tac that)
qed

text \<open>A live block lies inside the heap.\<close>

lemma live_ok_inside:
  assumes "live_ok B (m, live)" and "(p, n) \<in> set live"
  shows "p \<noteq> NULL" and "B \<le> unat p" and "unat p + unat n \<le> B + mem_init_heap_size" and "unat p + unat n < 2 ^ 32"
proof -
  have B: "heap_ok B" using assms(1) by (simp add: live_ok_def mem_ok_def)
  obtain i u where i: "i < 9" "u < 128" "p = caddr B i u" "unat n \<le> csize i" by (rule live_ok_block [OF assms])
  then have u: "unat p = cpos B i u" using unat_caddr [OF B i(1)] by simp
  have "cpos B i u + csize i \<le> cpos B i 128" using cpos_less_chunk [OF i(2)] .
  moreover have "cpos B i 128 \<le> B + 2097988" using cpos_bound(1) [OF B i(1), of 128] by simp
  ultimately have e: "unat p + unat n \<le> B + 2097988" using u i(4) by linarith
  then show "unat p + unat n \<le> B + mem_init_heap_size" by (simp add: mem_init_heap_size_eq)
  then show "unat p + unat n < 2 ^ 32" using B by (simp add: heap_ok_def)
  show le: "B \<le> unat p" unfolding u by (simp add: cpos_def)
  then show "p \<noteq> NULL" using B by (auto simp: heap_ok_def)
qed

text \<open>What the invariant says of the live blocks.\<close>

lemma live_ok_consistent:
  assumes lo: "live_ok B (m, live)"
  shows "distinct (map fst live)
    \<and> (\<forall>(p, n)\<in>set live. \<forall>(q, k)\<in>set live. p \<noteq> q \<longrightarrow>
         unat p + unat n \<le> unat q \<or> unat q + unat k \<le> unat p)
    \<and> (\<forall>(p, n)\<in>set live. p \<noteq> NULL \<and> B \<le> unat p \<and> unat p + unat n \<le> B + mem_init_heap_size
         \<and> (\<exists>i<9. p \<in> set (chunks B i) \<and> unat n \<le> csize i))
    \<and> (\<forall>i<9. set (free_list m i) = set (chunks B i) - fst ` set live)"
proof -
  have "p \<noteq> NULL \<and> B \<le> unat p \<and> unat p + unat n \<le> B + mem_init_heap_size
         \<and> (\<exists>i<9. p \<in> set (chunks B i) \<and> unat n \<le> csize i)" if e: "(p, n) \<in> set live" for p n
  proof -
    obtain i u where "i < 9" "u < 128" "p = caddr B i u" "unat n \<le> csize i" by (rule live_ok_block [OF lo e])
    then have "\<exists>i<9. p \<in> set (chunks B i) \<and> unat n \<le> csize i" by (auto simp: chunks_def ALLOC_NUM_def)
    then show ?thesis using live_ok_inside [OF lo e] by simp
  qed
  moreover have "unat p + unat n \<le> unat q \<or> unat q + unat k \<le> unat p"
    if "(p, n) \<in> set live" "(q, k) \<in> set live" "p \<noteq> q" for p n q k by (rule live_ok_disjoint [OF lo that])
  moreover have "distinct (map fst live)" "\<forall>i<9. set (free_list m i) = set (chunks B i) - fst ` set live"
    using lo by (simp_all add: live_ok_def)
  ultimately show ?thesis by (intro conjI ballI case_prodI2; blast)
qed

lemma live_ok_mem_ok: "live_ok B (m, live) \<Longrightarrow> mem_ok B m"
  by (simp add: live_ok_def)

lemma live_ok_null: "live_ok B (m, live) \<Longrightarrow> malloc m sz = (NULL, m') \<Longrightarrow> m' = m"
  using malloc_ok [of B m sz NULL m'] by (auto simp: live_ok_def Let_def split: if_splits)

text \<open>
  What clients of the allocator rely on: blocks that are live at the same time do not overlap, a fresh block is new, and
  an owned block that is not \<open>pinned\<close> can be given back.
\<close>

locale allocator =
  fixes alloc :: "'s \<Rightarrow> u32 \<Rightarrow> addr \<times> 's"
    and release :: "'s \<Rightarrow> addr \<Rightarrow> 's"
    and ok :: "'s \<Rightarrow> (addr \<times> u32) list \<Rightarrow> bool"
    and pinned :: "addr \<Rightarrow> bool"
  assumes alloc_ok: "ok m live \<Longrightarrow> alloc m n = (p, m') \<Longrightarrow> p \<noteq> NULL \<Longrightarrow> ok m' ((p, n) # live)"
    and alloc_null: "ok m live \<Longrightarrow> alloc m n = (NULL, m') \<Longrightarrow> m' = m"
    and alloc_unpinned: "ok m live \<Longrightarrow> alloc m n = (p, m') \<Longrightarrow> p \<noteq> NULL \<Longrightarrow> \<not> pinned p"
    and release_ok: "ok m live \<Longrightarrow> p \<in> fst ` set live \<Longrightarrow> \<not> pinned p \<Longrightarrow> ok (release m p) (filter (\<lambda>(q, _). q \<noteq> p) live)"
    and release_null: "ok m live \<Longrightarrow> release m NULL = m"
    and blocks_distinct: "ok m live \<Longrightarrow> distinct (map fst live)"
    and blocks_apart: "ok m live \<Longrightarrow> (p, n) \<in> set live \<Longrightarrow> (q, k) \<in> set live \<Longrightarrow> p \<noteq> q \<Longrightarrow>
      unat p + unat n \<le> unat q \<or> unat q + unat k \<le> unat p"
    and blocks_fit: "ok m live \<Longrightarrow> (p, n) \<in> set live \<Longrightarrow> p \<noteq> NULL \<and> unat p + unat n < 2 ^ 32"
begin

lemma fresh:
  assumes "ok m live" and "alloc m n = (p, m')" and "p \<noteq> NULL"
  shows "p \<notin> fst ` set live" and "unat p + unat n < 2 ^ 32"
    and "(q, k) \<in> set live \<Longrightarrow> unat p + unat n \<le> unat q \<or> unat q + unat k \<le> unat p"
proof -
  note ok' = alloc_ok [OF assms]
  show p: "p \<notin> fst ` set live" using blocks_distinct [OF ok'] by auto
  show "unat p + unat n < 2 ^ 32" using blocks_fit [OF ok', of p n] by simp
  show "unat p + unat n \<le> unat q \<or> unat q + unat k \<le> unat p" if "(q, k) \<in> set live"
    by (rule blocks_apart [OF ok']) (use that p in \<open>force+\<close>)
qed

text \<open>Replacing a block by a fresh one, the way buffers grow.\<close>

lemma replace:
  assumes "ok m live" and "alloc m n = (p, m')" and "p \<noteq> NULL" and "q = NULL \<or> q \<in> fst ` set live \<and> \<not> pinned q"
  shows "ok (release m' q) ((p, n) # filter (\<lambda>(x, _). x \<noteq> q) live)"
proof (cases "q = NULL")
  case True
  have "filter (\<lambda>(x, _). x \<noteq> NULL) live = live"
    by (rule filter_True) (use blocks_fit [OF assms(1)] in fastforce)
  then show ?thesis using True alloc_ok [OF assms(1-3)] release_null [OF alloc_ok [OF assms(1-3)]] by simp
next
  case False
  then have q: "q \<in> fst ` set live" "\<not> pinned q" using assms(4) by auto
  then have "p \<noteq> q" using fresh(1) [OF assms(1-3)] by blast
  then show ?thesis using release_ok [OF alloc_ok [OF assms(1-3)], of q] q by simp
qed

lemma undo:
  assumes "ok m live" and "alloc m n = (p, m')" and "p \<noteq> NULL"
  shows "ok (release m' p) live"
proof -
  have "filter (\<lambda>(x, _). x \<noteq> p) live = live"
    by (rule filter_True) (use fresh(1) [OF assms] in force)
  then show ?thesis
    using release_ok [OF alloc_ok [OF assms] _ alloc_unpinned [OF assms]] by simp
qed

end

text \<open>The heap provides it. The first chunk of every class but the smallest is pinned: \<open>free\<close> does not behave on
  these pointers (see below), so the interface holds as long as they stay in use.\<close>

definition class_start :: "nat \<Rightarrow> addr \<Rightarrow> bool" where
  "class_start B q \<longleftrightarrow> (\<exists>i. 0 < i \<and> i < 9 \<and> q = caddr B i 0)"

definition heap_live :: "nat \<Rightarrow> kmem \<Rightarrow> (addr \<times> u32) list \<Rightarrow> bool" where
  "heap_live B m live \<longleftrightarrow> live_ok B (m, live) \<and> (\<forall>q. class_start B q \<longrightarrow> q \<in> fst ` set live)"

lemma class_start_boundary: "live_ok B (m, live) \<Longrightarrow> boundary m q \<longleftrightarrow> class_start B q"
  using boundary_iff [of B m q] by (simp add: live_ok_def class_start_def)

lemma heap_live_guarded: "heap_live B m live \<Longrightarrow> guarded m live"
  by (auto simp: heap_live_def guarded_def class_start_boundary)

lemma free_NULL:
  assumes "mem_ok B m"
  shows "free m NULL = m"
proof -
  have B: "heap_ok B" using assms by (simp add: mem_ok_def)
  have "free_desc NULL d = d" if d: "d \<in> set (mem_descs m)" for d
  proof -
    obtain i where i: "i < length (mem_descs m)" "d = mem_descs m ! i" using d by (metis in_set_conv_nth)
    then have "i < 9" "md_start d = caddr B i 0" using assms by (auto simp: mem_ok_def desc_ok_def)
    then have "0 < unat (md_start d)" using unat_caddr [OF B, of i 0] cpos_bound(2) [of B i 0] B by simp
    then show ?thesis by (auto simp: free_desc_def word_le_nat_alt)
  qed
  then show ?thesis by (simp add: free_def map_idI)
qed

interpretation heap: allocator malloc free "heap_live B" "class_start B" for B :: nat
proof
  fix m :: kmem and live :: "(addr \<times> u32) list" and n k :: u32 and p q :: addr and m' :: kmem
  assume ok: "heap_live B m live"
  then have lo: "live_ok B (m, live)" and cs: "\<And>q. class_start B q \<Longrightarrow> q \<in> fst ` set live"
    by (auto simp: heap_live_def)
  have B: "heap_ok B" using lo by (simp add: live_ok_def mem_ok_def)
  show "heap_live B m' ((p, n) # live)" if "malloc m n = (p, m')" "p \<noteq> NULL"
    unfolding heap_live_def
  proof (intro conjI allI impI)
    show "live_ok B (m', (p, n) # live)" by (rule live_ok_malloc [OF lo that])
    show "q \<in> fst ` set ((p, n) # live)" if "class_start B q" for q using cs [OF that] by simp
  qed
  show "m' = m" if "malloc m n = (NULL, m')" by (rule live_ok_null [OF lo that])
  show "\<not> class_start B p" if "malloc m n = (p, m')" "p \<noteq> NULL"
  proof -
    have "distinct (map fst ((p, n) # live))" using live_ok_malloc [OF lo that] by (simp only: live_ok_def snd_conv)
    then have "p \<notin> fst ` set live" by simp
    then show ?thesis using cs [of p] by blast
  qed
  show "heap_live B (free m p) (filter (\<lambda>(q, _). q \<noteq> p) live)" if "p \<in> fst ` set live" "\<not> class_start B p"
  proof -
    have "\<not> boundary m p" using class_start_boundary [OF lo] that(2) by simp
    then have "live_ok B (free m p, filter (\<lambda>(q, _). q \<noteq> p) live)" by (rule live_ok_free [OF lo that(1)])
    moreover have "q \<in> fst ` set (filter (\<lambda>(q, _). q \<noteq> p) live)" if "class_start B q" for q
      using cs [OF that] that \<open>\<not> class_start B p\<close> by force
    ultimately show ?thesis by (simp add: heap_live_def)
  qed
  show "free m NULL = m" using free_NULL [of B m] lo by (simp add: live_ok_def)
  show "distinct (map fst live)" using lo by (simp add: live_ok_def)
  show "unat p + unat n \<le> unat q \<or> unat q + unat k \<le> unat p" if "(p, n) \<in> set live" "(q, k) \<in> set live" "p \<noteq> q"
    by (rule live_ok_disjoint [OF lo that])
  show "p \<noteq> NULL \<and> unat p + unat n < 2 ^ 32" if "(p, n) \<in> set live"
    using live_ok_inside [OF lo that] by simp
qed

text \<open>As long as fewer than 128 blocks are live, every class has a chunk to give.\<close>

lemma malloc_succeeds:
  assumes lo: "live_ok B (m, live)" and few: "length live < 128" and i: "i < 9" "unat n \<le> csize i"
    and m: "malloc m n = (p, m')"
  shows "p \<noteq> NULL"
proof -
  have "card (set (chunks B i)) = 128"
    using lo i(1) by (simp add: distinct_card distinct_chunks length_chunks live_ok_def mem_ok_def)
  moreover have "card (fst ` set live) < 128"
    by (rule le_less_trans [OF _ few]) (metis card_image_le card_length finite_set le_trans)
  ultimately have "\<not> set (chunks B i) \<subseteq> fst ` set live"
    using card_mono [of "fst ` set live" "set (chunks B i)"] by auto
  moreover have "set (free_list m i) = set (chunks B i) - fst ` set live" using lo i(1) by (simp add: live_ok_def)
  ultimately have "free_list m i \<noteq> []" by auto
  then have "malloc_class m n \<noteq> None" using i by (auto simp: malloc_class_def find_None_iff)
  then show ?thesis using malloc_ok [OF live_ok_mem_ok [OF lo] m] by (auto simp: Let_def)
qed

text \<open>A heap on which the pinned chunks, and nothing else, are in use.\<close>

lemma pin_classes:
  assumes "heap_ok B" and "j \<le> 8"
  shows "\<exists>m live. live_ok B (m, live) \<and> length live = j \<and> (\<forall>i. 0 < i \<and> i \<le> j \<longrightarrow> caddr B i 0 \<in> fst ` set live)
    \<and> (\<forall>i. j < i \<and> i < 9 \<longrightarrow> free_list m i = chunks B i)"
  using assms(2)
proof (induction j)
  case 0
  show ?case using live_ok_init [OF assms(1)] mem_init_ok(2) [OF assms(1)] by (intro exI) auto
next
  case (Suc j)
  then obtain m live where s: "live_ok B (m, live)" "length live = j"
      "\<And>i. 0 < i \<Longrightarrow> i \<le> j \<Longrightarrow> caddr B i 0 \<in> fst ` set live"
      "\<And>i. j < i \<Longrightarrow> i < 9 \<Longrightarrow> free_list m i = chunks B i"
    by auto
  have j: "Suc j < 9" using Suc.prems by simp
  let ?n = "of_nat (csize (Suc j)) :: u32"
  have n: "unat ?n = csize (Suc j)" using csize_bound [OF j] by (simp add: unat_of_nat)
  obtain p m' where m: "malloc m ?n = (p, m')" by fastforce
  have fj: "free_list m (Suc j) = chunks B (Suc j)" using s(4) j by simp
  have small: "csize i < csize (Suc j)" if "i < Suc j" for i
    using power_strict_increasing [OF that, of "2 :: nat"] by (simp add: csize_eq)
  have "malloc_class m ?n = Some (Suc j)"
    unfolding malloc_class_def find_Some_iff
  proof (intro exI [of _ "Suc j"] conjI allI impI)
    show "free_list m ([0..<9] ! Suc j) \<noteq> []" using fj chunks_cons [of B "Suc j"] j by simp
    show "\<not> (unat ?n \<le> csize ([0..<9] ! i) \<and> free_list m ([0..<9] ! i) \<noteq> [])" if "i < Suc j" for i
      using small [OF that] that j n by simp
  qed (use j n in simp_all)
  then have r: "free_list m (Suc j) = p # free_list m' (Suc j)" "p \<noteq> NULL"
      "\<forall>i<9. i \<noteq> Suc j \<longrightarrow> free_list m' i = free_list m i"
    using malloc_ok [OF live_ok_mem_ok [OF s(1)] m] by (auto simp: Let_def)
  have p: "p = caddr B (Suc j) 0" using r(1) fj chunks_cons [of B "Suc j"] by simp
  show ?case
  proof (intro exI conjI allI impI)
    show "live_ok B (m', (p, ?n) # live)" by (rule live_ok_malloc [OF s(1) m r(2)])
    show "caddr B i 0 \<in> fst ` set ((p, ?n) # live)" if "0 < i \<and> i \<le> Suc j" for i
      using s(3) [of i] that p by (cases "i = Suc j") auto
    show "free_list m' i = chunks B i" if "Suc j < i \<and> i < 9" for i using r(3) s(4) that by simp
  qed (use s(2) in simp)
qed

lemma pinned_heap:
  assumes "heap_ok B"
  shows "\<exists>m live. heap_live B m live \<and> length live = 8"
proof -
  obtain m live where s: "live_ok B (m, live)" "length live = 8"
      "\<And>i. 0 < i \<Longrightarrow> i \<le> 8 \<Longrightarrow> caddr B i 0 \<in> fst ` set live"
    using pin_classes [OF assms, of 8] by auto
  have "q \<in> fst ` set live" if "class_start B q" for q using that s(3) by (auto simp: class_start_def)
  then have "heap_live B m live" using s(1) by (simp add: heap_live_def)
  then show ?thesis using s(2) by blast
qed

section \<open>Properties\<close>

text \<open>\<open>smalloc\<close> on a word-aligned heap below the top of the address space: a request that fits in
  what is left gets the current position, the next position is the following word boundary and stays
  inside the heap; a request that does not fit gets NULL and changes nothing. No wrap-around occurs.\<close>

theorem smalloc_bounds:
  assumes "4 dvd unat (heap_start m)" and "4 dvd unat (heap_size m)"
    and "unat (heap_start m) + unat (heap_size m) < 2 ^ 32"
    and "heap_cur m = heap_start m + off" and "off \<le> heap_size m" and "4 dvd unat off"
    and "smalloc m sz = (p, m')"
  shows "if unat off + unat sz \<le> unat (heap_size m)
    then p = heap_cur m \<and> (\<exists>off'. m' = m\<lparr>heap_cur := heap_start m + off'\<rparr> \<and> 4 dvd unat off'
      \<and> unat off + unat sz \<le> unat off' \<and> unat off' < unat off + unat sz + 4 \<and> off' \<le> heap_size m)
    else p = NULL \<and> m' = m"
proof -
  let ?B = "unat (heap_start m)" and ?o = "unat off" and ?s = "unat sz" and ?h = "unat (heap_size m)"
  have oh: "?o \<le> ?h" using assms(5) by (simp add: word_le_nat_alt)
  have "unat (heap_size m - (heap_cur m - heap_start m)) = ?h - ?o"
    using unat_sub [OF assms(5)] by (simp add: assms(4))
  then have test: "sz \<le> heap_size m - (heap_cur m - heap_start m) \<longleftrightarrow> ?o + ?s \<le> ?h"
    using word_le_diff_iff [OF assms(5), of sz] by (simp add: assms(4))
  show ?thesis
  proof (cases "?o + ?s \<le> ?h")
    case False
    then show ?thesis using assms(7) test by (simp add: smalloc_def)
  next
    case fits: True
    let ?c = "?B + ?o + ?s"
    have cur: "heap_cur m + sz = of_nat ?c" by (simp add: assms(4))
    have rem: "(of_nat ?c :: u32) mod 4 = of_nat (?c mod 4)"
      using fits assms(3) by (simp add: word_mod_4 del: of_nat_add)
    have cm: "?c mod 4 = ?s mod 4"
      using assms(1,6) by (metis dvd_add mod_0_imp_dvd mod_add_left_eq add_0 dvd_imp_mod_0)
    define r where "r = (4 - ?s mod 4) mod 4"
    have sr: "4 dvd ?s + r" "r < 4" unfolding r_def by (rule round4, simp)
    have "4 dvd ?h - ?o" using assms(2,6) by (rule dvd_diff_nat)
    moreover have "?s \<le> ?h - ?o" using fits by simp
    ultimately have rr: "?o + ?s + r \<le> ?h" unfolding r_def using oh by (intro round4_le)
    have lt: "?s mod 4 < 2 ^ 32" by (rule less_trans [of _ 4]) simp_all
    have z: "(of_nat (?c mod 4) :: u32) = 0 \<longleftrightarrow> ?s mod 4 = 0"
      using lt unfolding cm by (simp add: word_unat_eq_iff unat_of_nat)
    have "heap_cur (snd (smalloc m sz)) = of_nat (?c + r)"
    proof (cases "?s mod 4 = 0")
      case True
      then show ?thesis using test fits z by (simp add: smalloc_def Let_def cur rem r_def del: of_nat_add)
    next
      case False
      then have "r = 4 - ?s mod 4" by (simp add: r_def)
      then have "(of_nat r :: u32) = 4 - of_nat (?s mod 4)"
        using mod_less_divisor [of 4 ?s] by (simp add: of_nat_diff)
      then have "of_nat ?c + (4 - (of_nat (?c mod 4) :: u32)) = of_nat (?c + r)" unfolding cm by simp
      then show ?thesis using test fits z False by (simp add: smalloc_def Let_def cur rem del: of_nat_add)
    qed
    also have "(of_nat (?c + r) :: addr) = heap_start m + of_nat (?o + ?s + r)" by simp
    finally have cur': "heap_cur m' = heap_start m + of_nat (?o + ?s + r)" using assms(7) by simp
    have p: "p = heap_cur m" and "\<exists>c. m' = m\<lparr>heap_cur := c\<rparr>"
      using assms(7) test fits by (auto simp: smalloc_def Let_def split: if_splits)
    then have m': "m' = m\<lparr>heap_cur := heap_start m + of_nat (?o + ?s + r)\<rparr>" using cur' by auto
    have u: "unat (of_nat (?o + ?s + r) :: u32) = ?o + ?s + r"
      using rr unat_u32_bound [of "heap_size m"] by (simp add: unat_of_nat del: of_nat_add)
    have "4 dvd unat (of_nat (?o + ?s + r) :: u32)"
      unfolding u using assms(6) sr(1) by (simp add: add.assoc)
    moreover have "?o + ?s \<le> unat (of_nat (?o + ?s + r) :: u32)" "unat (of_nat (?o + ?s + r) :: u32) < ?o + ?s + 4"
      unfolding u using sr(2) by simp_all
    moreover have "(of_nat (?o + ?s + r) :: u32) \<le> heap_size m" unfolding word_le_nat_alt u by (rule rr)
    ultimately show ?thesis using fits p m' by auto
  qed
qed

theorem smalloc_bounds_witness:
  "snd (smalloc \<lparr>heap_start = 0x8000, heap_size = 0x100, heap_cur = 0x8004, mem_descs = [], dmalloc_enabled = False\<rparr> 5)
    = \<lparr>heap_start = 0x8000, heap_size = 0x100, heap_cur = 0x800C, mem_descs = [], dmalloc_enabled = False\<rparr>
   \<and> fst (smalloc \<lparr>heap_start = 0x8000, heap_size = 0x100, heap_cur = 0x8004, mem_descs = [], dmalloc_enabled = False\<rparr> 5)
    = 0x8004"
  using smalloc_bounds [of "\<lparr>heap_start = 0x8000, heap_size = 0x100, heap_cur = 0x8004, mem_descs = [],
      dmalloc_enabled = False\<rparr>" 4 5 "0x8004" "\<lparr>heap_start = 0x8000, heap_size = 0x100, heap_cur = 0x800C,
      mem_descs = [], dmalloc_enabled = False\<rparr>"]
  by (simp add: smalloc_def Let_def)

text \<open>C5: \<open>mem_init\<close> succeeds on every heap that starts at a non-null word boundary and fits below the
  top of the address space: the chunk allocator is enabled, its invariant holds, and every class owns its 128
  chunks, in address order and back to back.\<close>

theorem mem_init_layout:
  assumes "heap_ok B"
  shows "mem_ok B (mem_init (of_nat B)) \<and> (\<forall>i<9. free_list (mem_init (of_nat B)) i = chunks B i
    \<and> map unat (chunks B i) = map (\<lambda>k. B + coff i + k * csize i) [0..<128])"
proof -
  have "map unat (chunks B i) = map (\<lambda>k. B + coff i + k * csize i) [0..<128]" if "i < 9" for i
    using assms that by (simp add: chunks_def ALLOC_NUM_def unat_caddr cpos_def)
  then show ?thesis using mem_init_ok [OF assms] by auto
qed

lemma heap_ok_8000: "heap_ok 0x8000"
  by (simp add: heap_ok_def mem_init_heap_size_eq)

theorem mem_init_layout_witness:
  "free_list (mem_init 0x8000) 0 = map (\<lambda>k. of_nat (0x8000 + 4932 + k * 32)) [0..<128]"
  using mem_init_layout [OF heap_ok_8000]
  by (simp add: chunks_def caddr_def [abs_def] cpos_def coff_eq csize_eq ALLOC_NUM_def)

text \<open>\<open>malloc\<close> serves a request from the smallest class that is large enough and not exhausted: it
  returns that class's oldest free chunk, leaves every other class alone and keeps the invariant; it returns NULL,
  with the state unchanged, exactly when no such class exists.\<close>

theorem malloc_smallest_fit:
  assumes "mem_ok B m" and "malloc m sz = (p, m')"
  shows "mem_ok B m' \<and>
    (p = NULL \<longleftrightarrow> (\<forall>i<9. unat sz \<le> csize i \<longrightarrow> free_list m i = [])) \<and> (p = NULL \<longrightarrow> m' = m) \<and>
    (p \<noteq> NULL \<longrightarrow> (\<exists>i<9. unat sz \<le> csize i \<and> free_list m i = p # free_list m' i
       \<and> (\<forall>j<i. unat sz \<le> csize j \<longrightarrow> free_list m j = [])
       \<and> (\<forall>j<9. j \<noteq> i \<longrightarrow> free_list m' j = free_list m j)))"
proof (cases "malloc_class m sz")
  case None
  then have "\<forall>i<9. unat sz \<le> csize i \<longrightarrow> free_list m i = []"
    by (auto simp: malloc_class_def find_None_iff)
  then show ?thesis using malloc_ok [OF assms] None assms(1) by auto
next
  case (Some i)
  then have "\<forall>j<i. unat sz \<le> csize j \<longrightarrow> free_list m j = []" and "free_list m i \<noteq> []" "i < 9" "unat sz \<le> csize i"
    by (auto simp: malloc_class_def find_Some_iff)
  then show ?thesis using malloc_ok [OF assms] Some by (auto simp: Let_def)
qed

lemma malloc_100_witness: "malloc_class (mem_init (of_nat 0x8000)) 100 = Some 2"
proof (rule malloc_class_init [OF heap_ok_8000])
  show "csize j < unat (100 :: u32)" if "j < 2" for j
  proof -
    have "j = 0 \<or> j = 1" using that by linarith
    then show ?thesis by (auto simp: csize_eq)
  qed
qed (simp_all add: csize_eq)

theorem malloc_smallest_fit_witness:
  "\<exists>p m'. malloc (mem_init 0x8000) 100 = (p, m') \<and> (\<exists>i<9. 100 \<le> csize i \<and> free_list (mem_init 0x8000) i = p # free_list m' i)"
proof -
  obtain p m' where m: "malloc (mem_init (of_nat 0x8000)) 100 = (p, m')" by fastforce
  moreover from this have "p \<noteq> NULL"
    using malloc_ok [OF mem_init_ok(1) [OF heap_ok_8000] m] malloc_100_witness by (auto simp: Let_def)
  ultimately show ?thesis using malloc_smallest_fit [OF mem_init_ok(1) [OF heap_ok_8000] m] by auto
qed

text \<open>C4: whatever sequence of \<open>malloc\<close> and \<open>free\<close> calls a well-behaved client makes (it frees only what
  it owns, and no chunk at the boundary of two classes), no chunk is ever handed out twice: every live allocation is a chunk
  of a class large enough for the request and lies inside the heap, live allocations are pairwise disjoint byte ranges, and
  each chunk is either live or free, so that none is lost.\<close>

theorem live_allocations_disjoint:
  assumes "heap_ok B" and "alloc_step\<^sup>*\<^sup>* (mem_init (of_nat B), []) (m, live)"
  shows "distinct (map fst live)
    \<and> (\<forall>(p, n)\<in>set live. \<forall>(q, k)\<in>set live. p \<noteq> q \<longrightarrow>
         unat p + unat n \<le> unat q \<or> unat q + unat k \<le> unat p)
    \<and> (\<forall>(p, n)\<in>set live. p \<noteq> NULL \<and> B \<le> unat p \<and> unat p + unat n \<le> B + mem_init_heap_size
         \<and> (\<exists>i<9. p \<in> set (chunks B i) \<and> unat n \<le> csize i))
    \<and> (\<forall>i<9. set (free_list m i) = set (chunks B i) - fst ` set live)"
  by (rule live_ok_consistent [OF live_ok_reachable [OF assms(2,1)]])

theorem live_allocations_disjoint_witness:
  "\<exists>m p. alloc_step\<^sup>*\<^sup>* (mem_init 0x8000, []) (m, [(p, 100)])
    \<and> set (free_list m 2) = set (chunks 0x8000 2) - {p} \<and> 0x8000 \<le> unat p \<and> unat p + 100 \<le> 0x8000 + mem_init_heap_size"
proof -
  let ?m = "mem_init (of_nat 0x8000)"
  obtain p m' where m: "malloc ?m 100 = (p, m')" by fastforce
  have "p \<noteq> NULL"
    using malloc_ok [OF mem_init_ok(1) [OF heap_ok_8000] m] malloc_100_witness by (auto simp: Let_def)
  then have r: "alloc_step\<^sup>*\<^sup>* (?m, []) (m', [(p, 100)])"
    using step_malloc [OF m] by (intro r_into_rtranclp) simp
  moreover have "set (free_list m' 2) = set (chunks 0x8000 2) - {p}" "0x8000 \<le> unat p" "unat p + 100 \<le> 0x8000 + mem_init_heap_size"
    using live_allocations_disjoint [OF heap_ok_8000 r] by simp_all
  ultimately show ?thesis by auto
qed

text \<open>at the boundary of two classes \<open>free\<close> does not return a chunk to its class only. The first
  chunk of the second class starts where the first class ends, the comparison with the end is inclusive and the
  loop does not stop at the first hit, so once the first class has a free slot, freeing that chunk queues it in
  both classes and two later requests can be given the same memory.\<close>

theorem free_boundary_chunk_double_listed:
  assumes "heap_ok B" and "unat s0 \<le> 32" and "32 < unat s1" and "unat s1 \<le> 64"
    and "malloc (mem_init (of_nat B)) s0 = (a, m1)" and "malloc m1 s1 = (b, m2)"
  shows "b \<in> set (free_list (free m2 b) 0) \<and> b \<in> set (free_list (free m2 b) 1)"
proof -
  let ?m = "mem_init (of_nat B)"
  note ok = mem_init_ok(1) [OF assms(1)] and fl = mem_init_ok(2) [OF assms(1)]
  have ne: "chunks B i \<noteq> []" for i by (simp add: chunks_cons)
  have "malloc_class ?m s0 = Some 0" using assms(2) by (intro malloc_class_init [OF assms(1)]) (simp_all add: csize_eq)
  with malloc_ok [OF ok assms(5)] have m1: "mem_ok B m1" "chunks B 0 = a # free_list m1 0"
    "\<And>j. 0 < j \<Longrightarrow> j < 9 \<Longrightarrow> free_list m1 j = chunks B j" using fl by (auto simp: Let_def)
  have "malloc_class m1 s1 = Some 1" using assms(3,4) m1(3) ne by (simp add: malloc_class_def upt_rec csize_eq)
  with malloc_ok [OF m1(1) assms(6)] have m2: "mem_ok B m2" "chunks B 1 = b # free_list m2 1"
    "free_list m2 0 = free_list m1 0" using m1(3) [of 1] by (auto simp: Let_def)
  have b: "b = caddr B 1 0" using m2(2) by (simp add: chunks_cons)
  have len: "length (free_list m2 0) < 128" "length (free_list m2 1) < 128"
    using m1(2) m2(2,3) length_chunks [of B 0] length_chunks [of B 1] by auto
  have d: "desc_ok B 0 (mem_descs m2 ! 0)" "desc_ok B 1 (mem_descs m2 ! 1)" using m2(1) by (auto simp: mem_ok_def)
  have "free_list (free m2 b) j = bfifo_list (md_allocations (free_desc b (mem_descs m2 ! j)))" if "j < 9" for j
    using m2(1) that by (simp add: free_list_def free_def mem_ok_def)
  then show ?thesis
    using free_desc_ok [OF d(1) assms(1), of 1 0] free_desc_ok [OF d(2) assms(1), of 1 0] len b
    by (simp add: free_list_def)
qed

theorem free_boundary_chunk_double_listed_witness:
  "\<exists>b m. b \<in> set (free_list m 0) \<and> b \<in> set (free_list m 1)
    \<and> (\<exists>a m1 m2. malloc (mem_init 0x8000) 32 = (a, m1) \<and> malloc m1 64 = (b, m2) \<and> m = free m2 b)"
proof -
  obtain a m1 where 1: "malloc (mem_init (of_nat 0x8000)) 32 = (a, m1)" by fastforce
  obtain b m2 where 2: "malloc m1 64 = (b, m2)" by fastforce
  show ?thesis
    using free_boundary_chunk_double_listed [OF heap_ok_8000 _ _ _ 1 2] 1 2 by auto
qed

end
