(* ===== verification/Proc.thy ===== *)
theory Proc
  imports Mem
begin

text \<open>
  include/sys/proc.h, include/proc.h, include/sleep.h, and the process half of kernel/sched.c:
  processes, their creation (\<open>do_spawn\<close>, \<open>spawn\<close>), and the parts of the boot sequence that concern them; \<open>main\<close> itself, which
  calls the board and the drivers, is in \<open>Boot\<close>. The kernel's global variables are the fields of one record; processes, their
  \<open>self\<close> blocks and the wait FIFOs of completions are stores indexed by address.
\<close>

section \<open>Data\<close>

datatype proc_state = PROC_ACTIVE | PROC_RUN | PROC_SLEEP | PROC_KILLED

datatype proc_mode = PROC_USER | PROC_SYSTEM

text \<open>The enumeration values of \<open>enum proc_state\<close>, which order the states.\<close>

fun proc_state_num :: "proc_state \<Rightarrow> nat" where
  "proc_state_num PROC_ACTIVE = 0"
| "proc_state_num PROC_RUN = 1"
| "proc_state_num PROC_SLEEP = 2"
| "proc_state_num PROC_KILLED = 3"

instantiation proc_state :: linorder
begin

definition less_eq_proc_state :: "proc_state \<Rightarrow> proc_state \<Rightarrow> bool" where
  "s \<le> t \<longleftrightarrow> proc_state_num s \<le> proc_state_num t"

definition less_proc_state :: "proc_state \<Rightarrow> proc_state \<Rightarrow> bool" where
  "s < t \<longleftrightarrow> proc_state_num s < proc_state_num t"

instance
proof
  fix s t :: proc_state
  show "s \<le> t \<Longrightarrow> t \<le> s \<Longrightarrow> s = t"
    by (cases s; cases t) (simp_all add: less_eq_proc_state_def)
qed (auto simp: less_eq_proc_state_def less_proc_state_def)

end

text \<open>The anonymous \<open>timer\<close> member of \<open>struct proc\<close>. Its three flags are only ever tested.\<close>

record proc_timer =
  t_handler :: addr
  t_next :: u32
  t_period :: u32
  t_oneshot :: bool
  t_done :: bool
  t_active :: bool
  t_last_state :: proc_state
  t_ticks_wakeup :: u32
  t_last_ticks_wakeup :: u32

record proc = list_node +
  p_pid :: u32
  p_state :: proc_state
  p_regs :: "u32 list"
  p_backup_regs :: "u32 list"
  p_mode :: proc_mode
  p_stack :: addr
  p_stack_base :: addr
  p_name :: "u8 list"
  p_event_mask :: u32
  p_timer :: proc_timer
  p_self :: addr

text \<open>\<open>struct self\<close>: the output buffer of a process.\<close>

record self =
  so_ptr :: addr
  so_idx :: int
  so_buf_enable :: int
  so_buf_last :: int

record alarm =
  a_msec :: u32
  a_handler :: addr
  a_oneshot :: bool

text \<open>
  The kernel state. \<open>k_completions\<close> and \<open>k_alarms\<close> are the structures in user memory that system
  calls receive pointers to (\<open>struct completion\<close> is the address of its wait FIFO);
  \<open>k_utt\<close> is the address of \<open>user_timer_trampoline\<close>, \<open>k_kernel_self\<close> that of the kernel's own
  \<open>self\<close>; \<open>k_kstat\<close> is the kernel's \<open>struct kstat\<close> (one counter) and \<open>k_user_kstat\<close> the copies in user
  memory; \<open>k_irq\<close> says whether interrupts are enabled.
\<close>

record kern =
  k_mem :: kmem
  k_bfifos :: "addr \<Rightarrow> bfifo"
  k_ptab :: "addr \<Rightarrow> proc"
  k_selfs :: "addr \<Rightarrow> self"
  k_completions :: "addr \<Rightarrow> addr"
  k_alarms :: "addr \<Rightarrow> alarm"
  k_user_kstat :: "addr \<Rightarrow> u32"
  k_kstat :: u32
  k_procs :: addr
  k_idle_task :: addr
  k_cur :: addr
  k_next_pid :: u32
  k_self :: addr
  k_kernel_self :: addr
  k_need_reschedule :: bool
  k_sched_enabled :: bool
  k_clkticks :: u32
  k_irq :: bool
  k_utt :: addr

definition upd_proc :: "addr \<Rightarrow> (proc \<Rightarrow> proc) \<Rightarrow> kern \<Rightarrow> kern" where
  "upd_proc p f s = s\<lparr>k_ptab := (k_ptab s)(p := f (k_ptab s p))\<rparr>"

definition cur_proc :: "kern \<Rightarrow> proc" where
  "cur_proc s = k_ptab s (k_cur s)"

section \<open>Creating processes\<close>

definition PROC_STACK_SIZE :: u32 where "PROC_STACK_SIZE = 4096"
definition STDOUT_SIZE :: u32 where "STDOUT_SIZE = 1024"

text \<open>\<open>sizeof(struct proc)\<close> and \<open>sizeof(struct self)\<close> on the target.\<close>

definition sizeof_proc :: u32 where "sizeof_proc = 224"
definition sizeof_self :: u32 where "sizeof_self = 16"

definition timer_zero :: proc_timer where
  "timer_zero = \<lparr>t_handler = 0, t_next = 0, t_period = 0, t_oneshot = False, t_done = False, t_active = False,
     t_last_state = PROC_ACTIVE, t_ticks_wakeup = 0, t_last_ticks_wakeup = 0\<rparr>"

text \<open>A process structure after \<open>memset(proc, 0, sizeof(struct proc))\<close>.\<close>

definition proc_zero :: proc where
  "proc_zero = \<lparr>l_next = 0, l_prev = 0, p_pid = 0, p_state = PROC_ACTIVE, p_regs = replicate 17 0,
     p_backup_regs = replicate 17 0, p_mode = PROC_USER, p_stack = 0, p_stack_base = 0, p_name = replicate 16 0,
     p_event_mask = 0, p_timer = timer_zero, p_self = 0\<rparr>"

text \<open>What \<open>strncpy(proc->name, name, sizeof(proc->name))\<close> leaves in the zeroed 16-byte field for the
  NUL-terminated string \<open>name\<close>: no terminator when the name has 16 characters or more.\<close>

definition strncpy16 :: "u8 list \<Rightarrow> u8 list" where
  "strncpy16 name = take 16 (name @ replicate 16 0)"

definition init_self :: "kern \<Rightarrow> addr \<Rightarrow> bool \<times> kern" where
  "init_self s sf =
     (case malloc (k_mem s) STDOUT_SIZE of
        (p, m) \<Rightarrow>
          (let s = s\<lparr>k_mem := m, k_selfs := (k_selfs s)(sf := (k_selfs s sf)\<lparr>so_ptr := p\<rparr>)\<rparr>
           in if p = NULL then (True, s)
              else (False, s\<lparr>k_selfs := (k_selfs s)(sf := (k_selfs s sf)
                \<lparr>so_idx := 0, so_buf_enable := 1, so_buf_last := 1\<rparr>)\<rparr>)))"

text \<open>The \<open>out_err\<close> exit of \<open>do_spawn\<close>.\<close>

definition spawn_out_err :: "kern \<Rightarrow> addr \<Rightarrow> addr \<times> kern" where
  "spawn_out_err s p =
     (let pr = k_ptab s p;
          m = k_mem s;
          m = (if p_stack_base pr \<noteq> NULL then free m (p_stack_base pr) else m);
          m = (if p_self pr \<noteq> NULL then free m (p_self pr) else m);
          m = free m p
      in (NULL, s\<lparr>k_mem := m\<rparr>))"

text \<open>The initial register set: spsr, the return address of the interrupt, r0 to r12, sp and lr.\<close>

definition spawn_regs :: "u32 \<Rightarrow> addr \<Rightarrow> addr \<Rightarrow> u32 list" where
  "spawn_regs spsr entry stack =
     [spsr, entry] @ replicate 13 0 @ [stack + PROC_STACK_SIZE - 4, entry]"

definition do_spawn :: "kern \<Rightarrow> addr \<Rightarrow> u8 list \<Rightarrow> proc_mode \<Rightarrow> addr \<times> kern" where
  "do_spawn s entry name mode =
     (let spsr = (if mode = PROC_SYSTEM then 0x1F else 0x10)
      in case malloc (k_mem s) sizeof_proc of
        (p, m) \<Rightarrow>
          let s = s\<lparr>k_mem := m\<rparr>
          in if p = NULL then (NULL, s)
          else
            let s = upd_proc p (\<lambda>_. proc_zero) s;
                s = s\<lparr>k_next_pid := k_next_pid s + 1\<rparr>;
                s = upd_proc p (\<lambda>pr. pr\<lparr>p_pid := k_next_pid s, p_state := PROC_RUN,
                      p_timer := (p_timer pr)\<lparr>t_ticks_wakeup := 0xFFFFFFFF\<rparr>, p_name := strncpy16 name\<rparr>) s
            in case malloc (k_mem s) PROC_STACK_SIZE of
              (sb, m) \<Rightarrow>
                let s = upd_proc p (\<lambda>pr. pr\<lparr>p_stack_base := sb\<rparr>) (s\<lparr>k_mem := m\<rparr>)
                in if sb = NULL then spawn_out_err s p
                else
                  let stack = sb + PROC_STACK_SIZE - 4;
                      s = upd_proc p (\<lambda>pr. pr\<lparr>p_stack := stack, p_regs := spawn_regs spsr entry stack\<rparr>) s
                  in case malloc (k_mem s) sizeof_self of
                    (sf, m) \<Rightarrow>
                      let s = upd_proc p (\<lambda>pr. pr\<lparr>p_self := sf\<rparr>) (s\<lparr>k_mem := m\<rparr>)
                      in if sf = NULL then spawn_out_err s p
                      else case init_self s sf of
                        (err, s) \<Rightarrow>
                          if err then spawn_out_err s p
                          else (p, upd_proc p (\<lambda>pr. pr\<lparr>l_next := p, l_prev := p\<rparr>) s))"

definition spawn :: "kern \<Rightarrow> addr \<Rightarrow> u8 list \<Rightarrow> proc_mode \<Rightarrow> addr \<times> kern" where
  "spawn s entry name mode =
     (case do_spawn s entry name mode of
        (p, s) \<Rightarrow>
          if p \<noteq> NULL then
            (let s = s\<lparr>k_irq := False\<rparr>;
                 s = (if k_procs s = NULL then s\<lparr>k_procs := p\<rparr>
                      else s\<lparr>k_ptab := list_add_after (k_ptab s) (k_procs s) p\<rparr>)
             in (p, s\<lparr>k_irq := True\<rparr>))
          else (p, s))"

section \<open>Booting\<close>

definition enable_scheduler :: "kern \<Rightarrow> kern" where
  "enable_scheduler s = s\<lparr>k_sched_enabled := True\<rparr>"

definition disable_scheduler :: "kern \<Rightarrow> kern" where
  "disable_scheduler s = s\<lparr>k_sched_enabled := False\<rparr>"

datatype kern_error = Null_Deref | Bad_Jump | No_Ring | Halted

text \<open>\<open>sched_init\<close> writes through \<open>idle_task\<close> before it tests it for NULL, so a failed spawn faults
  there and never reaches the error message. \<open>idle_fn\<close> is the address of \<open>idle\<close>.\<close>

definition idle_name :: "u8 list" where
  "idle_name = [0x5B, 0x69, 0x64, 0x6C, 0x65, 0x5D]"

definition sched_init :: "kern \<Rightarrow> addr \<Rightarrow> kern_error + kern" where
  "sched_init s idle_fn =
     (let s = s\<lparr>k_self := k_kernel_self s\<rparr>
      in case do_spawn s idle_fn idle_name PROC_SYSTEM of
        (p, s) \<Rightarrow>
          (let s = s\<lparr>k_idle_task := p\<rparr>
           in if p = NULL then Inl Null_Deref
              else (let s = upd_proc p (\<lambda>pr. pr\<lparr>p_state := PROC_SLEEP\<rparr>) s
                    in Inr (s\<lparr>k_cur := p\<rparr>))))"

text \<open>The boot table ends at the first entry without a main function. A failed spawn is reported and
  skipped.\<close>

fun run_boot_processes :: "kern \<Rightarrow> (addr \<times> u8 list) list \<Rightarrow> kern" where
  "run_boot_processes s [] = s"
| "run_boot_processes s ((main, name) # ps) =
     (if main = NULL then s else run_boot_processes (snd (spawn s main name PROC_USER)) ps)"

section \<open>Memory owned by a process\<close>

lemma filter_not_owned: "x \<notin> fst ` set live \<Longrightarrow> filter (\<lambda>(q, _). q \<noteq> x) live = live"
  by (induction live) auto

text \<open>Giving back the most recent of some allocations.\<close>

lemma live_ok_pop:
  assumes "live_ok B (m, new @ (x, sz) # live)" and "mem_ok B m0" and "\<not> boundary m0 x"
  shows "live_ok B (free m x, new @ live)"
proof -
  have d: "x \<notin> fst ` set live" "x \<notin> fst ` set new" using assms(1) by (auto simp: live_ok_def rev_image_eqI)
  have "\<not> boundary m x"
    using assms boundary_cong [of B m0 m x] by (auto dest: live_ok_mem_ok)
  then have "live_ok B (free m x, filter (\<lambda>(q, _). q \<noteq> x) (new @ (x, sz) # live))"
    using assms(1) by (intro live_ok_free) auto
  then show ?thesis using d by (simp add: filter_not_owned)
qed

text \<open>The chunks that \<open>do_spawn\<close> takes before the output buffer, up to the request that fails: what the error exit gives back. It can do
  so properly unless one of them is the first chunk of a class (see Mem).\<close>

definition spawn_takes :: "kmem \<Rightarrow> addr list" where
  "spawn_takes m =
     (case malloc m sizeof_proc of (p, m) \<Rightarrow> if p = NULL then []
      else p # (case malloc m PROC_STACK_SIZE of (sb, m) \<Rightarrow> if sb = NULL then []
      else sb # (case malloc m sizeof_self of (sf, m) \<Rightarrow> if sf = NULL then [] else [sf])))"

definition spawn_clean :: "kmem \<Rightarrow> bool" where
  "spawn_clean m \<longleftrightarrow> (\<forall>q\<in>set (spawn_takes m). \<not> boundary m q)"

lemma do_spawn_cases:
  assumes ok: "live_ok B (k_mem s, live)" and r: "do_spawn s entry name mode = (p, s')"
  obtains (success) out sb sf where "p \<noteq> NULL"
      "live_ok B (k_mem s', (out, STDOUT_SIZE) # (sf, sizeof_self) # (sb, PROC_STACK_SIZE) # (p, sizeof_proc) # live)"
      "s' = s\<lparr>k_mem := k_mem s', k_next_pid := k_next_pid s + 1,
         k_ptab := (k_ptab s)(p := proc_zero\<lparr>l_next := p, l_prev := p, p_pid := k_next_pid s + 1, p_state := PROC_RUN,
           p_regs := spawn_regs (if mode = PROC_SYSTEM then 0x1F else 0x10) entry (sb + PROC_STACK_SIZE - 4),
           p_stack := sb + PROC_STACK_SIZE - 4, p_stack_base := sb, p_name := strncpy16 name,
           p_timer := timer_zero\<lparr>t_ticks_wakeup := 0xFFFFFFFF\<rparr>, p_self := sf\<rparr>),
         k_selfs := (k_selfs s)(sf := (k_selfs s sf)\<lparr>so_ptr := out, so_idx := 0, so_buf_enable := 1, so_buf_last := 1\<rparr>)\<rparr>"
  | (fail) "p = NULL" "spawn_clean (k_mem s) \<Longrightarrow> live_ok B (k_mem s', live)"
      "s' = s\<lparr>k_mem := k_mem s', k_ptab := k_ptab s', k_selfs := k_selfs s', k_next_pid := k_next_pid s'\<rparr>"
      "\<And>q. q \<in> fst ` set live \<Longrightarrow> k_ptab s' q = k_ptab s q"
proof -
  note defs = do_spawn_def spawn_out_err_def upd_proc_def Let_def proc_zero_def init_self_def
  obtain a m1 where 1: "malloc (k_mem s) sizeof_proc = (a, m1)" by fastforce
  show thesis
  proof (cases "a = NULL")
    case True
    with live_ok_null [OF ok] 1 have "m1 = k_mem s" by simp
    then have "p = NULL" "s' = s" using r 1 True by (auto simp: do_spawn_def)
    then show thesis using ok by (intro fail) simp_all
  next
    case a: False
    note l1 = live_ok_malloc [OF ok 1 a]
    have "distinct (map fst ((a, sizeof_proc) # live))" using l1 unfolding live_ok_def by (simp only: snd_conv)
    then have an: "(a, b) \<notin> set live" for b by force
    obtain sb m2 where 2: "malloc m1 PROC_STACK_SIZE = (sb, m2)" by fastforce
    show thesis
    proof (cases "sb = NULL")
      case True
      with live_ok_null [OF l1] 2 have m2: "m2 = m1" by simp
      have "spawn_clean (k_mem s) \<Longrightarrow> live_ok B (free m1 a, [] @ live)"
        using l1 ok 1 a by - (rule live_ok_pop [where ?m0.0 = "k_mem s"],
          auto dest: live_ok_mem_ok simp: spawn_clean_def spawn_takes_def split: prod.splits)
      then show thesis using r 1 2 a True m2 by (intro fail) (auto simp: defs an)
    next
      case sb: False
      note l2 = live_ok_malloc [OF l1 2 sb]
      obtain sf m3 where 3: "malloc m2 sizeof_self = (sf, m3)" by fastforce
      show thesis
      proof (cases "sf = NULL")
        case True
        with live_ok_null [OF l2] 3 have m3: "m3 = m2" by simp
        have "live_ok B (free (free m2 sb) a, [] @ live)" if g: "spawn_clean (k_mem s)"
        proof -
          have nb: "\<not> boundary (k_mem s) a" "\<not> boundary (k_mem s) sb"
            using g 1 2 a sb by (auto simp: spawn_clean_def spawn_takes_def split: prod.splits)
          have "live_ok B (free m2 sb, [] @ (a, sizeof_proc) # live)"
            using l2 ok nb by - (rule live_ok_pop [where ?m0.0 = "k_mem s"], auto dest: live_ok_mem_ok)
          then show ?thesis using ok nb by - (rule live_ok_pop [where ?m0.0 = "k_mem s"], auto dest: live_ok_mem_ok)
        qed
        then show thesis using r 1 2 3 a sb True m3 by (intro fail) (auto simp: defs an)
      next
        case sf: False
        note l3 = live_ok_malloc [OF l2 3 sf]
        obtain out m4 where 4: "malloc m3 STDOUT_SIZE = (out, m4)" by fastforce
        show thesis
        proof (cases "out = NULL")
          case True
          with live_ok_null [OF l3] 4 have m4: "m4 = m3" by simp
          have "live_ok B (free (free (free m3 sb) sf) a, [] @ live)" if g: "spawn_clean (k_mem s)"
          proof -
            have nb: "\<not> boundary (k_mem s) a" "\<not> boundary (k_mem s) sb" "\<not> boundary (k_mem s) sf"
              using g 1 2 3 a sb sf by (auto simp: spawn_clean_def spawn_takes_def split: prod.splits)
            have "live_ok B (free m3 sb, [(sf, sizeof_self)] @ (a, sizeof_proc) # live)"
              using l3 ok nb by - (rule live_ok_pop [where ?m0.0 = "k_mem s"], auto dest: live_ok_mem_ok)
            then have "live_ok B (free (free m3 sb) sf, [] @ (a, sizeof_proc) # live)"
              using ok nb by - (rule live_ok_pop [where ?m0.0 = "k_mem s" and sz = sizeof_self], auto dest: live_ok_mem_ok)
            then show ?thesis using ok nb by - (rule live_ok_pop [where ?m0.0 = "k_mem s"], auto dest: live_ok_mem_ok)
          qed
          then show thesis using r 1 2 3 4 a sb sf True m4 by (intro fail) (auto simp: defs an)
        next
          case out: False
          note l4 = live_ok_malloc [OF l3 4 out]
          show thesis
            using r 1 2 3 4 a sb sf out l4 by (intro success) (auto simp: defs)
        qed
      qed
    qed
  qed
qed

section \<open>Properties\<close>

text \<open>C9: creating a process is all or nothing. On success the four blocks it allocated (process
  structure, stack, \<open>self\<close>, output buffer) are owned by it, disjoint from each other and from everything that
  was live before; the process is runnable with a fresh pid, linked to itself, and starts at its entry point in the
  requested processor mode. On failure NULL is returned, the run list, the current process and the processes that
  were live are untouched, and every block it had taken is back in the allocator, provided that none of them is the first
  chunk of a size class: \<open>free\<close> would list such a chunk in two classes. This exception cannot be dropped, and a
  kernel that has just booted does not exclude it for classes it has not used yet.\<close>

theorem do_spawn_all_or_nothing:
  assumes "live_ok B (k_mem s, live)" and "do_spawn s entry name mode = (p, s')"
  shows "if p = NULL
    then ((\<forall>q\<in>set (spawn_takes (k_mem s)). \<not> boundary (k_mem s) q) \<longrightarrow> live_ok B (k_mem s', live))
      \<and> (\<forall>q\<in>fst ` set live. k_ptab s' q = k_ptab s q) \<and> k_procs s' = k_procs s \<and> k_cur s' = k_cur s
    else (let pr = k_ptab s' p in
      live_ok B (k_mem s', (so_ptr (k_selfs s' (p_self pr)), 1024) # (p_self pr, 16) # (p_stack_base pr, 4096) # (p, 224) # live)
      \<and> l_next pr = p \<and> l_prev pr = p \<and> p_state pr = PROC_RUN \<and> p_pid pr = k_next_pid s + 1
      \<and> p_regs pr ! 0 = (if mode = PROC_SYSTEM then 0x1F else 0x10) \<and> p_regs pr ! 1 = entry \<and> p_regs pr ! 16 = entry
      \<and> k_next_pid s' = k_next_pid s + 1
      \<and> (\<forall>q. q \<noteq> p \<longrightarrow> k_ptab s' q = k_ptab s q)
      \<and> k_procs s' = k_procs s \<and> k_cur s' = k_cur s)"
  using assms(1,2)
proof (cases rule: do_spawn_cases)
  case (success out sb sf)
  then obtain m where "s' = s\<lparr>k_mem := m, k_next_pid := k_next_pid s + 1,
         k_ptab := (k_ptab s)(p := proc_zero\<lparr>l_next := p, l_prev := p, p_pid := k_next_pid s + 1, p_state := PROC_RUN,
           p_regs := spawn_regs (if mode = PROC_SYSTEM then 0x1F else 0x10) entry (sb + PROC_STACK_SIZE - 4),
           p_stack := sb + PROC_STACK_SIZE - 4, p_stack_base := sb, p_name := strncpy16 name,
           p_timer := timer_zero\<lparr>t_ticks_wakeup := 0xFFFFFFFF\<rparr>, p_self := sf\<rparr>),
         k_selfs := (k_selfs s)(sf := (k_selfs s sf)\<lparr>so_ptr := out, so_idx := 0, so_buf_enable := 1, so_buf_last := 1\<rparr>)\<rparr>"
      "live_ok B (m, (out, STDOUT_SIZE) # (sf, sizeof_self) # (sb, PROC_STACK_SIZE) # (p, sizeof_proc) # live)"
    by blast
  then show ?thesis using success(1)
    by (simp add: Let_def STDOUT_SIZE_def sizeof_self_def PROC_STACK_SIZE_def sizeof_proc_def spawn_regs_def nth_append)
next
  case fail
  have "k_procs s' = k_procs s" "k_cur s' = k_cur s" by (subst fail(3), simp)+
  then show ?thesis using fail(1,2,4) by (simp add: spawn_clean_def)
qed

lemma guarded_by_class_starts:
  "mem_ok B m \<Longrightarrow> (\<forall>i\<in>{1..<9}. caddr B i 0 \<in> fst ` set live) \<Longrightarrow> guarded m live"
  by (auto simp: guarded_def boundary_iff)

text \<open>the stack pointer a new process starts with is not inside its stack: \<open>do_spawn\<close> adds the stack
  size twice, so that it lies 8184 bytes above the base of a 4096-byte block.\<close>

theorem initial_sp_outside_stack:
  assumes "live_ok B (k_mem s, live)" and "do_spawn s entry name mode = (p, s')" and "p \<noteq> NULL"
  shows "unat (p_regs (k_ptab s' p) ! 15) = unat (p_stack_base (k_ptab s' p)) + 8184"
  using assms(1,2)
proof (cases rule: do_spawn_cases)
  case (success out sb sf)
  obtain i where i: "i < 9" "sb \<in> set (chunks B i)" using success(2) by (auto simp: live_ok_def)
  then obtain k where k: "k < 128" "sb = caddr B i k" by (auto simp: chunks_def ALLOC_NUM_def)
  have B: "heap_ok B" using assms(1) by (simp add: live_ok_def mem_ok_def)
  then have "unat sb + 8184 < 2 ^ 32"
    using cpos_bound(1) [OF B i(1), of k] k i(1) by (simp add: unat_caddr heap_ok_def mem_init_heap_size_eq)
  then have u: "unat (sb + 8184) = unat sb + 8184" by (subst unat_add_lem [THEN iffD1]) auto
  have "k_ptab s' p = proc_zero\<lparr>l_next := p, l_prev := p, p_pid := k_next_pid s + 1, p_state := PROC_RUN,
           p_regs := spawn_regs (if mode = PROC_SYSTEM then 0x1F else 0x10) entry (sb + PROC_STACK_SIZE - 4),
           p_stack := sb + PROC_STACK_SIZE - 4, p_stack_base := sb, p_name := strncpy16 name,
           p_timer := timer_zero\<lparr>t_ticks_wakeup := 0xFFFFFFFF\<rparr>, p_self := sf\<rparr>"
    by (subst success(3)) simp
  then show ?thesis by (simp add: spawn_regs_def nth_append PROC_STACK_SIZE_def u add.commute [of _ sb])
qed (use assms(3) in simp)

definition kern0 :: kern where
  "kern0 = \<lparr>k_mem = mem_init 0x8000, k_bfifos = (\<lambda>_. bfifo_init 0), k_ptab = (\<lambda>_. proc_zero),
     k_selfs = (\<lambda>_. \<lparr>so_ptr = 0, so_idx = 0, so_buf_enable = 0, so_buf_last = 0\<rparr>), k_completions = (\<lambda>_. 0),
     k_alarms = (\<lambda>_. \<lparr>a_msec = 0, a_handler = 0, a_oneshot = False\<rparr>), k_user_kstat = (\<lambda>_. 0),
     k_kstat = 0, k_procs = 0, k_idle_task = 0, k_cur = 0,
     k_next_pid = 0, k_self = 0, k_kernel_self = 0x4000, k_need_reschedule = False, k_sched_enabled = False,
     k_clkticks = 0, k_irq = False, k_utt = 0x6000\<rparr>"

text \<open>A request of at most 8192 bytes succeeds as long as fewer than 128 blocks are live.\<close>

lemma live_ok_malloc_some:
  assumes "live_ok B (m, live)" and "malloc m sz = (p, m')" and "length live < 128" and "unat sz \<le> 8192"
  shows "p \<noteq> NULL"
proof
  assume "p = NULL"
  have mo: "mem_ok B m" using assms(1) by (rule live_ok_mem_ok)
  have "card (fst ` set live) < 128"
    using assms(3) card_image_le [of "set live" fst] card_length [of live] by simp
  moreover have "distinct (chunks B 8)" using mo by (simp add: distinct_chunks mem_ok_def)
  then have "card (set (chunks B 8)) = 128" using distinct_card length_chunks by metis
  ultimately have "\<not> set (chunks B 8) \<subseteq> fst ` set live"
    using card_mono [of "fst ` set live" "set (chunks B 8)"] by auto
  moreover have "set (free_list m 8) = set (chunks B 8) - fst ` set live" using assms(1) by (simp add: live_ok_def)
  ultimately have "free_list m 8 \<noteq> []" by auto
  moreover have "malloc_class m sz = None"
    using malloc_ok [OF mo assms(2)] \<open>p = NULL\<close> by (auto simp: Let_def split: if_splits)
  ultimately show False using assms(4) by (auto simp: malloc_class_def find_None_iff csize_eq)
qed

lemma do_spawn_succeeds:
  assumes "live_ok B (k_mem s, live)" and "length live < 125" and "do_spawn s entry name mode = (p, s')"
  shows "p \<noteq> NULL"
proof -
  obtain a m1 where 1: "malloc (k_mem s) sizeof_proc = (a, m1)" by fastforce
  have a: "a \<noteq> NULL" using assms(1,2) 1 by (intro live_ok_malloc_some) (auto simp: sizeof_proc_def)
  note l1 = live_ok_malloc [OF assms(1) 1 a]
  obtain sb m2 where 2: "malloc m1 PROC_STACK_SIZE = (sb, m2)" by fastforce
  have sb: "sb \<noteq> NULL" using l1 assms(2) 2 by (intro live_ok_malloc_some) (auto simp: PROC_STACK_SIZE_def)
  note l2 = live_ok_malloc [OF l1 2 sb]
  obtain sf m3 where 3: "malloc m2 sizeof_self = (sf, m3)" by fastforce
  have sf: "sf \<noteq> NULL" using l2 assms(2) 3 by (intro live_ok_malloc_some) (auto simp: sizeof_self_def)
  note l3 = live_ok_malloc [OF l2 3 sf]
  obtain out m4 where 4: "malloc m3 STDOUT_SIZE = (out, m4)" by fastforce
  have out: "out \<noteq> NULL" using l3 assms(2) 4 by (intro live_ok_malloc_some) (auto simp: STDOUT_SIZE_def)
  show ?thesis
    using assms(3) a sb sf out 1 2 3 4
    by (auto simp: do_spawn_def upd_proc_def init_self_def Let_def)
qed

lemma kern0_live: "live_ok 0x8000 (k_mem kern0, [])"
  using live_ok_init [OF heap_ok_8000] by (simp add: kern0_def)

text \<open>A heap that has no chunk left for a stack, but one for a process structure, which is not the first of its class.\<close>

lemma exhaust:
  assumes "live_ok B (m, live)"
  shows "\<exists>m' live'. live_ok B (m', live') \<and> malloc_class m' sz = None
    \<and> (\<forall>i<9. csize i < unat sz \<longrightarrow> free_list m' i = free_list m i)"
  using assms
proof (induction "\<Sum>i<9. length (free_list m i)" arbitrary: m live rule: less_induct)
  case less
  obtain p m1 where m1: "malloc m sz = (p, m1)" by fastforce
  note r = malloc_ok [OF live_ok_mem_ok [OF less.prems] m1]
  show ?case
  proof (cases "malloc_class m sz")
    case None
    then show ?thesis using less.prems by blast
  next
    case (Some i)
    then have i: "i < 9" "unat sz \<le> csize i" "p \<noteq> NULL" "free_list m i = p # free_list m1 i"
      "\<forall>j<9. j \<noteq> i \<longrightarrow> free_list m1 j = free_list m j" using r by (auto simp: Let_def)
    have "(\<Sum>j<9. length (free_list m1 j)) < (\<Sum>j<9. length (free_list m j))"
      by (rule sum_strict_mono_ex1) (use i in \<open>auto intro!: bexI [of _ i] simp: le_Suc_eq\<close>)
    from less.hyps [OF this live_ok_malloc [OF less.prems m1 i(3)]] obtain m' live' where
      "live_ok B (m', live')" "malloc_class m' sz = None" "\<forall>j<9. csize j < unat sz \<longrightarrow> free_list m' j = free_list m1 j" by blast
    moreover have "\<forall>j<9. csize j < unat sz \<longrightarrow> free_list m1 j = free_list m j" using i(2,5) by auto
    ultimately show ?thesis by metis
  qed
qed

lemma no_stack_heap:
  "\<exists>m live. live_ok 0x8000 (m, live) \<and> malloc_class m PROC_STACK_SIZE = None \<and> hd (free_list m 3) = caddr 0x8000 3 1
    \<and> malloc_class m sizeof_proc = Some 3"
proof -
  obtain a m1 where m1: "malloc (mem_init (of_nat 0x8000)) sizeof_proc = (a, m1)" by fastforce
  have c: "malloc_class (mem_init (of_nat 0x8000)) sizeof_proc = Some 3"
    by (rule malloc_class_init [OF heap_ok_8000]) (auto simp: sizeof_proc_def csize_eq numeral_3_eq_3 less_Suc_eq)
  have f: "chunks 0x8000 3 = a # free_list m1 3" "a \<noteq> NULL"
    using malloc_ok [OF mem_init_ok(1) [OF heap_ok_8000] m1] c mem_init_ok(2) [OF heap_ok_8000] by (auto simp: Let_def)
  then have t: "free_list m1 3 = map (caddr 0x8000 3) [1..<128]" by (simp add: chunks_cons)
  obtain m live where m: "live_ok 0x8000 (m, live)" "malloc_class m PROC_STACK_SIZE = None"
    "\<forall>i<9. csize i < unat PROC_STACK_SIZE \<longrightarrow> free_list m i = free_list m1 i"
    using exhaust [OF live_ok_malloc [OF live_ok_init [OF heap_ok_8000] m1 f(2)], of PROC_STACK_SIZE] by blast
  have "free_list m 3 = free_list m1 3" using m(3) by (simp add: csize_eq PROC_STACK_SIZE_def)
  then have l: "free_list m 3 = map (caddr 0x8000 3) [1..<128]" using t by simp
  then have "hd (free_list m 3) = caddr 0x8000 3 1" "free_list m 3 \<noteq> []" by (simp_all add: upt_conv_Cons)
  moreover have "malloc_class m sizeof_proc = Some 3" using \<open>free_list m 3 \<noteq> []\<close>
    by (simp add: malloc_class_def upt_rec csize_eq sizeof_proc_def numeral_3_eq_3)
  ultimately show ?thesis using m(1,2) by blast
qed

text \<open>On a fresh heap the process is created; when no chunk is left for its stack, its structure is given back.\<close>

theorem do_spawn_all_or_nothing_witness:
  "(\<exists>p s'. do_spawn kern0 0x9000 [0x61] PROC_USER = (p, s') \<and> p \<noteq> NULL \<and> p_regs (k_ptab s' p) ! 0 = 0x10
     \<and> p_regs (k_ptab s' p) ! 1 = 0x9000 \<and> p_state (k_ptab s' p) = PROC_RUN \<and> p_pid (k_ptab s' p) = 1)
   \<and> (\<exists>s live s'. live_ok 0x8000 (k_mem s, live) \<and> fst (malloc (k_mem s) 224) \<noteq> NULL
     \<and> do_spawn s 0x9000 [0x61] PROC_USER = (NULL, s') \<and> live_ok 0x8000 (k_mem s', live))"
proof (intro conjI)
  obtain p s' where r: "do_spawn kern0 0x9000 [0x61] PROC_USER = (p, s')" by fastforce
  moreover have "p \<noteq> NULL" using do_spawn_succeeds [OF kern0_live _ r] by simp
  ultimately show "\<exists>p s'. do_spawn kern0 0x9000 [0x61] PROC_USER = (p, s') \<and> p \<noteq> NULL \<and> p_regs (k_ptab s' p) ! 0 = 0x10
     \<and> p_regs (k_ptab s' p) ! 1 = 0x9000 \<and> p_state (k_ptab s' p) = PROC_RUN \<and> p_pid (k_ptab s' p) = 1"
    using do_spawn_all_or_nothing [OF kern0_live r] by (auto simp: Let_def kern0_def)
next
  obtain m live where m: "live_ok 0x8000 (m, live)" "malloc_class m PROC_STACK_SIZE = None"
    "hd (free_list m 3) = caddr 0x8000 3 1" "malloc_class m sizeof_proc = Some 3" using no_stack_heap by blast
  let ?s = "kern0\<lparr>k_mem := m\<rparr>"
  obtain q m1 where q: "malloc m sizeof_proc = (q, m1)" by fastforce
  note mo = live_ok_mem_ok [OF m(1)]
  have q1: "q \<noteq> NULL" "free_list m 3 = q # free_list m1 3" "\<forall>j<9. j \<noteq> 3 \<longrightarrow> free_list m1 j = free_list m j"
    using malloc_ok [OF mo q] m(4) by (auto simp: Let_def)
  have "malloc_class m1 PROC_STACK_SIZE = malloc_class m PROC_STACK_SIZE"
    using q1(3) by (simp add: malloc_class_def upt_rec csize_eq PROC_STACK_SIZE_def)
  then obtain m2 where sb: "malloc m1 PROC_STACK_SIZE = (NULL, m2)"
    using malloc_ok [OF live_ok_mem_ok [OF live_ok_malloc [OF m(1) q q1(1)]], of PROC_STACK_SIZE] m(2)
    by (cases "malloc m1 PROC_STACK_SIZE") auto
  have "q = caddr 0x8000 3 1" using q1(2) m(3) by simp
  then have nb: "\<not> boundary m q" using caddr_inj [OF heap_ok_8000, of 3 _ 1 0] by (auto simp: boundary_iff [OF mo])
  have takes: "spawn_takes (k_mem ?s) = [q]" using q q1(1) sb by (simp add: spawn_takes_def)
  obtain p s' where r: "do_spawn ?s 0x9000 [0x61] PROC_USER = (p, s')" by fastforce
  have p: "p = NULL" using r q q1(1) sb by (auto simp: do_spawn_def spawn_out_err_def Let_def upd_proc_def split: prod.splits)
  have lo: "live_ok 0x8000 (k_mem ?s, live)" using m(1) by simp
  have "live_ok 0x8000 (k_mem s', live)" using do_spawn_all_or_nothing [OF lo r] p takes nb by simp
  moreover have "fst (malloc (k_mem ?s) 224) \<noteq> NULL" using q q1(1) by (simp add: sizeof_proc_def)
  ultimately show "\<exists>s live s'. live_ok 0x8000 (k_mem s, live) \<and> fst (malloc (k_mem s) 224) \<noteq> NULL
     \<and> do_spawn s 0x9000 [0x61] PROC_USER = (NULL, s') \<and> live_ok 0x8000 (k_mem s', live)"
    using lo r p by blast
qed

theorem initial_sp_outside_stack_witness:
  "\<exists>p s'. do_spawn kern0 0x9000 [0x61] PROC_USER = (p, s') \<and> p \<noteq> NULL \<and>
     unat (p_regs (k_ptab s' p) ! 15) = unat (p_stack_base (k_ptab s' p)) + 8184"
proof -
  obtain p s' where r: "do_spawn kern0 0x9000 [0x61] PROC_USER = (p, s')" by fastforce
  moreover have "p \<noteq> NULL" using do_spawn_succeeds [OF kern0_live _ r] by simp
  ultimately show ?thesis using initial_sp_outside_stack [OF kern0_live r] by auto
qed

end
