(* ===== verification/Sched.thy ===== *)
theory Sched
  imports Proc
begin

text \<open>
  kernel/timers.c and the scheduling half of kernel/sched.c: the timer interrupt, the task timers
  that run a handler inside the task they interrupt, and \<open>schedule\<close>, which walks the circular list of
  processes from the one after the current process and picks the first that is runnable, or the idle task.
\<close>

section \<open>Timers\<close>

definition request_schedule :: "kern \<Rightarrow> kern" where
  "request_schedule s = (if k_sched_enabled s then s\<lparr>k_need_reschedule := True\<rparr> else s)"

definition timer_int :: "kern \<Rightarrow> kern" where
  "timer_int s = request_schedule (s\<lparr>k_clkticks := k_clkticks s + 1\<rparr>)"

text \<open>The two functions change one process only, so they are functions on processes; \<open>now\<close> is
  \<open>clkticks\<close> and \<open>utt\<close> the address of \<open>user_timer_trampoline\<close>. Registers 1, 2 and 16 are
  the resume address, r0 and lr.\<close>

definition handle_task_timer_done :: "proc \<Rightarrow> proc" where
  "handle_task_timer_done p =
     (let t = p_timer p
      in p\<lparr>p_regs := p_backup_regs p, p_state := t_last_state t,
           p_timer := t\<lparr>t_active := False, t_ticks_wakeup := t_last_ticks_wakeup t\<rparr>\<rparr>)"

definition handle_task_timer :: "u32 \<Rightarrow> addr \<Rightarrow> proc \<Rightarrow> proc" where
  "handle_task_timer now utt p =
     (let t = p_timer p;
          regs = ((p_regs p)[1 := utt])[2 := t_handler t];
          regs = regs[16 := utt];
          t' = t\<lparr>t_done := False, t_active := True, t_next := (if t_oneshot t then 0 else now + t_period t),
                 t_last_state := p_state p, t_last_ticks_wakeup := t_ticks_wakeup t\<rparr>
      in p\<lparr>p_backup_regs := p_regs p, p_regs := regs, p_timer := t', p_state := PROC_RUN\<rparr>)"

text \<open>The part of \<open>check_timers\<close> after the timer tests.\<close>

definition check_sleep :: "u32 \<Rightarrow> proc \<Rightarrow> proc" where
  "check_sleep now p =
     (if p_state p = PROC_SLEEP \<and> now \<ge> t_ticks_wakeup (p_timer p)
      then p\<lparr>p_timer := (p_timer p)\<lparr>t_ticks_wakeup := 0xFFFFFFFF\<rparr>, p_state := PROC_RUN\<rparr> else p)"

definition check_timers :: "u32 \<Rightarrow> addr \<Rightarrow> proc \<Rightarrow> proc" where
  "check_timers now utt p =
     (if t_next (p_timer p) > 0 \<and> \<not> t_active (p_timer p)
      then (if now \<ge> t_next (p_timer p) then handle_task_timer now utt p else check_sleep now p)
      else if t_active (p_timer p) \<and> t_done (p_timer p) then check_sleep now (handle_task_timer_done p)
      else check_sleep now p)"

section \<open>The scheduler\<close>

definition swtch :: "addr \<Rightarrow> kern \<Rightarrow> kern" where
  "swtch next s =
     (let s = upd_proc next (\<lambda>p. p\<lparr>p_state := PROC_ACTIVE\<rparr>) s;
          s = s\<lparr>k_cur := next\<rparr>
      in s\<lparr>k_self := p_self (cur_proc s)\<rparr>)"

text \<open>The loop that looks for a task that is not waiting, from \<open>p\<close> until it is back at \<open>op\<close>; it never
  returns on a list that does not lead back to \<open>op\<close>.\<close>

partial_function (option) sched_scan :: "kern \<Rightarrow> addr \<Rightarrow> addr \<Rightarrow> (kern \<times> addr) option" where
  "sched_scan s op p =
     (let s = upd_proc p (check_timers (k_clkticks s) (k_utt s)) s
      in if p_state (k_ptab s p) = PROC_RUN then Some (s, p)
         else (let p = l_next (k_ptab s p)
               in if p \<noteq> op then sched_scan s op p else Some (s, k_idle_task s)))"

text \<open>What \<open>schedule\<close> does to the current task, and where the search starts.\<close>

definition sched_start :: "kern \<Rightarrow> kern \<times> addr" where
  "sched_start s =
     (if k_cur s = NULL then (s, k_procs s)
      else if k_cur s \<noteq> k_idle_task s
      then (let s = (if p_state (cur_proc s) = PROC_ACTIVE
                     then upd_proc (k_cur s) (\<lambda>p. p\<lparr>p_state := PROC_RUN\<rparr>) s else s)
            in (s, l_next (cur_proc s)))
      else (upd_proc (k_cur s) (\<lambda>p. p\<lparr>p_state := PROC_SLEEP\<rparr>) s, k_procs s))"

definition schedule :: "kern \<Rightarrow> kern option" where
  "schedule s =
     (if k_procs s = NULL then Some ((swtch (k_idle_task s) s)\<lparr>k_need_reschedule := False\<rparr>)
      else (case sched_start s of
        (s, p) \<Rightarrow> (case sched_scan s p p of
          None \<Rightarrow> None
        | Some (s, next) \<Rightarrow> Some ((swtch next s)\<lparr>k_need_reschedule := False\<rparr>))))"

text \<open>The end of an interrupt: the entry code calls \<open>schedule\<close> when a reschedule was requested.\<close>

definition irq_exit :: "kern \<Rightarrow> kern option" where
  "irq_exit s = (if k_need_reschedule s then schedule s else Some s)"

section \<open>Rings\<close>

text \<open>\<open>seg h p xs q\<close>: following next pointers from \<open>p\<close> visits \<open>xs\<close> and arrives at \<open>q\<close>.\<close>

fun seg :: "(addr \<Rightarrow> 'a list_node_scheme) \<Rightarrow> addr \<Rightarrow> addr list \<Rightarrow> addr \<Rightarrow> bool" where
  "seg h p [] q \<longleftrightarrow> p = q"
| "seg h p (x # xs) q \<longleftrightarrow> p = x \<and> seg h (l_next (h x)) xs q"

definition ring :: "(addr \<Rightarrow> 'a list_node_scheme) \<Rightarrow> addr list \<Rightarrow> bool" where
  "ring h xs \<longleftrightarrow> xs \<noteq> [] \<and> distinct xs \<and> NULL \<notin> set xs \<and> seg h (hd xs) xs (hd xs)"

lemma seg_append: "seg h p (xs @ ys) q \<longleftrightarrow> (\<exists>r. seg h p xs r \<and> seg h r ys q)"
  by (induction xs arbitrary: p) auto

lemma seg_cong: "(\<And>x. x \<in> set xs \<Longrightarrow> l_next (h x) = l_next (h' x)) \<Longrightarrow> seg h p xs q = seg h' p xs q"
  by (induction xs arbitrary: p) auto

lemma ring_cong: "(\<And>x. x \<in> set xs \<Longrightarrow> l_next (h x) = l_next (h' x)) \<Longrightarrow> ring h xs = ring h' xs"
  using seg_cong [of xs h h'] by (simp add: ring_def)

lemma seg_hd: "seg h p xs q \<Longrightarrow> xs \<noteq> [] \<Longrightarrow> p = hd xs"
  by (cases xs) auto

lemma ring_rotate:
  assumes "ring h (xs @ ys)" and "ys \<noteq> []"
  shows "ring h (ys @ xs)"
proof (cases "xs = []")
  case False
  from assms(1) obtain r where r: "seg h (hd xs) xs r" "seg h r ys (hd xs)"
    using False by (auto simp: ring_def seg_append)
  moreover have "r = hd ys" using seg_hd [OF r(2) assms(2)] .
  ultimately show ?thesis using assms False by (auto simp: ring_def seg_append)
qed (use assms in simp)

text \<open>The order in which the scheduler visits a ring after \<open>c\<close>: from its successor, ending with \<open>c\<close> itself.\<close>

fun after :: "addr \<Rightarrow> addr list \<Rightarrow> addr list" where
  "after c xs = tl (dropWhile (\<lambda>x. x \<noteq> c) xs) @ takeWhile (\<lambda>x. x \<noteq> c) xs @ [c]"

declare after.simps [simp del]

lemma after_split: "c \<notin> set us \<Longrightarrow> after c (us @ c # vs) = vs @ us @ [c]"
  by (simp add: after.simps dropWhile_append1 takeWhile_append1)
    (simp add: dropWhile_append takeWhile_append)

lemma after_obtain:
  assumes "c \<in> set xs"
  obtains us vs where "xs = us @ c # vs" and "c \<notin> set us" and "after c xs = vs @ us @ [c]"
  using split_list_first [OF assms] after_split by metis

lemma set_after [simp]: "c \<in> set xs \<Longrightarrow> set (after c xs) = set xs"
  by (erule after_obtain) auto

lemma ring_after:
  assumes "ring h xs" and "c \<in> set xs"
  shows "ring h (after c xs) \<and> hd (after c xs) = l_next (h c)"
proof -
  obtain us vs where xs: "xs = us @ c # vs" "c \<notin> set us" "after c xs = vs @ us @ [c]"
    using assms(2) by (rule after_obtain)
  have "ring h ((us @ [c]) @ vs)" using assms(1) xs(1) by simp
  then have r: "ring h (vs @ us @ [c])" using ring_rotate [of h "us @ [c]" vs] by (cases "vs = []") auto
  moreover have "hd (vs @ us @ [c]) = l_next (h c)"
  proof -
    have "seg h (hd (vs @ us @ [c])) ((vs @ us) @ [c]) (hd (vs @ us @ [c]))" using r by (simp add: ring_def)
    then show ?thesis by (auto simp only: seg_append seg.simps)
  qed
  ultimately show ?thesis using xs(3) by simp
qed

lemma ring_add_after:
  assumes "ring h (p # xs)" and "a \<notin> set (p # xs)" and "a \<noteq> NULL"
  shows "ring (list_add_after h p a) (p # a # xs)"
proof -
  have s: "seg h (l_next (h p)) xs p" using assms(1) by (simp add: ring_def)
  have "p \<noteq> a" "p \<notin> set xs" using assms(1,2) by (auto simp: ring_def)
  then have "seg (list_add_after h p a) (l_next (h p)) xs p"
    using s assms(2) by (subst seg_cong [where h' = h]) (auto simp: step_simps)
  then show ?thesis using assms \<open>p \<noteq> a\<close> by (auto simp: ring_def step_simps)
qed

section \<open>The search as a function on the visiting order\<close>

fun scan_list :: "kern \<Rightarrow> addr list \<Rightarrow> kern \<times> addr" where
  "scan_list s [] = (s, k_idle_task s)"
| "scan_list s (x # xs) =
     (let s = upd_proc x (check_timers (k_clkticks s) (k_utt s)) s
      in if p_state (k_ptab s x) = PROC_RUN then (s, x) else scan_list s xs)"

lemma check_timers_next [simp]: "l_next (check_timers now utt p) = l_next p"
  by (simp add: check_timers_def check_sleep_def handle_task_timer_def handle_task_timer_done_def Let_def)

lemma upd_proc_sel [step_simps]:
  "k_ptab (upd_proc p f s) = (k_ptab s)(p := f (k_ptab s p))"
  "k_cur (upd_proc p f s) = k_cur s" "k_procs (upd_proc p f s) = k_procs s"
  "k_idle_task (upd_proc p f s) = k_idle_task s" "k_clkticks (upd_proc p f s) = k_clkticks s"
  "k_utt (upd_proc p f s) = k_utt s" "k_mem (upd_proc p f s) = k_mem s"
  "k_sched_enabled (upd_proc p f s) = k_sched_enabled s"
  "k_bfifos (upd_proc p f s) = k_bfifos s" "k_completions (upd_proc p f s) = k_completions s"
  "k_need_reschedule (upd_proc p f s) = k_need_reschedule s"
  by (simp_all add: upd_proc_def)

lemma sched_scan_list:
  assumes "seg (k_ptab s) p xs op" and "xs \<noteq> []" and "distinct xs" and "op \<notin> set (tl xs)"
  shows "sched_scan s op p = Some (scan_list s xs)"
  using assms
proof (induction xs arbitrary: s p)
  case (Cons x xs)
  let ?s = "upd_proc x (check_timers (k_clkticks s) (k_utt s)) s"
  have p: "p = x" and sg: "seg (k_ptab s) (l_next (k_ptab s x)) xs op" using Cons.prems(1) by auto
  have sg': "seg (k_ptab ?s) (l_next (k_ptab ?s x)) xs op"
    using sg Cons.prems(3) by (subst seg_cong [where h' = "k_ptab s"]) (auto simp: step_simps)
  show ?case
  proof (cases "p_state (k_ptab ?s x) = PROC_RUN")
    case True
    then show ?thesis by (subst sched_scan.simps) (simp add: p Let_def)
  next
    case nr: False
    show ?thesis
    proof (cases xs)
      case Nil
      then have "l_next (k_ptab ?s x) = op" using sg' by simp
      then show ?thesis using nr Nil by (subst sched_scan.simps) (simp add: p Let_def)
    next
      case (Cons y ys)
      then have y: "l_next (k_ptab ?s x) = y" "y \<noteq> op" using sg' Cons.prems(4) by auto
      have "sched_scan ?s op (l_next (k_ptab ?s x)) = Some (scan_list ?s xs)"
        using sg' Cons.prems Cons by (intro Cons.IH) auto
      then show ?thesis using nr y by (subst sched_scan.simps) (simp add: p Let_def)
    qed
  qed
qed simp

text \<open>\<open>tick s q\<close>: process \<open>q\<close> after its timers were checked; \<open>scanned s xs\<close>: the processes the search looks
  at, up to and including the first runnable one.\<close>

definition tick :: "kern \<Rightarrow> addr \<Rightarrow> proc" where
  "tick s q = check_timers (k_clkticks s) (k_utt s) (k_ptab s q)"

definition runnable :: "kern \<Rightarrow> addr \<Rightarrow> bool" where
  "runnable s q \<longleftrightarrow> p_state (tick s q) = PROC_RUN"

definition scanned :: "kern \<Rightarrow> addr list \<Rightarrow> addr set" where
  "scanned s xs = (case find (runnable s) xs of
     None \<Rightarrow> set xs | Some q \<Rightarrow> insert q (set (takeWhile (\<lambda>x. \<not> runnable s x) xs)))"

definition pick :: "kern \<Rightarrow> addr list \<Rightarrow> addr" where
  "pick s xs = (case find (runnable s) xs of None \<Rightarrow> k_idle_task s | Some q \<Rightarrow> q)"

lemma scan_list_eq:
  assumes "distinct xs"
  shows "scan_list s xs =
    (s\<lparr>k_ptab := (\<lambda>q. if q \<in> scanned s xs then tick s q else k_ptab s q)\<rparr>, pick s xs)"
  using assms
proof (induction xs arbitrary: s)
  case Nil
  then show ?case by (simp add: scanned_def pick_def)
next
  case (Cons x xs)
  let ?s = "upd_proc x (check_timers (k_clkticks s) (k_utt s)) s"
  have x: "k_ptab ?s x = tick s x" by (simp add: step_simps tick_def)
  show ?case
  proof (cases "runnable s x")
    case True
    then show ?thesis using x
      by (auto simp: runnable_def scanned_def pick_def Let_def upd_proc_def tick_def fun_eq_iff)
  next
    case False
    have t: "tick ?s q = tick s q" if "q \<noteq> x" for q using that by (simp add: step_simps tick_def)
    have r: "runnable ?s q = runnable s q" if "q \<in> set xs" for q
      using t [of q] that Cons.prems by (cases "q = x") (simp_all add: runnable_def)
    have f: "find (runnable ?s) xs = find (runnable s) xs"
      using r by (intro find_cong) auto
    have w: "takeWhile (\<lambda>x. \<not> runnable ?s x) xs = takeWhile (\<lambda>x. \<not> runnable s x) xs"
      using r by (intro takeWhile_cong) auto
    have sc: "scanned s (x # xs) = insert x (scanned ?s xs)" "pick s (x # xs) = pick ?s xs"
      using False by (auto simp: scanned_def pick_def f w step_simps split: option.splits)
    have sub: "scanned ?s xs \<subseteq> set xs"
      by (auto simp: scanned_def find_Some_iff dest: set_takeWhileD split: option.splits)
    have "scan_list s (x # xs) = scan_list ?s xs"
      using False x by (simp add: runnable_def Let_def)
    also have "\<dots> = (?s\<lparr>k_ptab := (\<lambda>q. if q \<in> scanned ?s xs then tick ?s q else k_ptab ?s q)\<rparr>, pick ?s xs)"
      using Cons.prems by (intro Cons.IH) simp
    also have "(\<lambda>q. if q \<in> scanned ?s xs then tick ?s q else k_ptab ?s q)
        = (\<lambda>q. if q \<in> scanned s (x # xs) then tick s q else k_ptab s q)"
    proof (rule ext)
      fix q
      have "x \<notin> scanned ?s xs" using sub Cons.prems by auto
      then show "(if q \<in> scanned ?s xs then tick ?s q else k_ptab ?s q)
        = (if q \<in> scanned s (x # xs) then tick s q else k_ptab s q)"
        using t [of q] x sc(1) by (cases "q = x") (simp_all add: step_simps)
    qed
    finally show ?thesis using sc(2) by (simp add: upd_proc_def)
  qed
qed

section \<open>Invariants\<close>

text \<open>The shape of the process list: a ring through the head of the list, which the idle task is not part of;
  the current process is on it or is the idle task.\<close>

definition sched_inv :: "kern \<Rightarrow> addr list \<Rightarrow> bool" where
  "sched_inv s xs \<longleftrightarrow> ring (k_ptab s) xs \<and> hd xs = k_procs s \<and> k_idle_task s \<notin> set xs
     \<and> k_idle_task s \<noteq> NULL \<and> k_cur s \<in> insert (k_idle_task s) (set xs)"

text \<open>At most one process is active, the current one, and a process interrupted by its timer was not.\<close>

definition active_ok :: "kern \<Rightarrow> addr list \<Rightarrow> bool" where
  "active_ok s xs \<longleftrightarrow> (\<forall>q\<in>insert (k_idle_task s) (set xs).
     (p_state (k_ptab s q) = PROC_ACTIVE \<longrightarrow> q = k_cur s)
     \<and> (t_active (p_timer (k_ptab s q)) \<longrightarrow> t_last_state (p_timer (k_ptab s q)) \<noteq> PROC_ACTIVE))"

lemma active_okD [inv_dests]:
  "active_ok s xs \<Longrightarrow> q \<in> insert (k_idle_task s) (set xs) \<Longrightarrow>
    (p_state (k_ptab s q) = PROC_ACTIVE \<longrightarrow> q = k_cur s)
     \<and> (t_active (p_timer (k_ptab s q)) \<longrightarrow> t_last_state (p_timer (k_ptab s q)) \<noteq> PROC_ACTIVE)"
  unfolding active_ok_def by blast

definition parked :: "kern \<Rightarrow> kern" where
  "parked s = fst (sched_start s)"

definition visit_order :: "kern \<Rightarrow> addr list \<Rightarrow> addr list" where
  "visit_order s xs = (if k_cur s = k_idle_task s then xs else after (k_cur s) xs)"

lemma procs_nonnull: "sched_inv s xs \<Longrightarrow> k_procs s \<noteq> NULL \<and> k_cur s \<noteq> NULL"
  by (cases xs) (auto simp: sched_inv_def ring_def)

lemma parked_sel [step_simps]:
  "k_idle_task (parked s) = k_idle_task s" "k_clkticks (parked s) = k_clkticks s" "k_utt (parked s) = k_utt s"
  "k_cur (parked s) = k_cur s" "k_procs (parked s) = k_procs s"
  "q \<noteq> k_cur s \<Longrightarrow> k_ptab (parked s) q = k_ptab s q"
  by (auto simp: parked_def sched_start_def Let_def step_simps)

lemma parked_cur:
  "k_cur s \<noteq> NULL \<Longrightarrow> k_ptab (parked s) (k_cur s) = (cur_proc s)\<lparr>p_state :=
     (if k_cur s = k_idle_task s then PROC_SLEEP
      else if p_state (cur_proc s) = PROC_ACTIVE then PROC_RUN else p_state (cur_proc s))\<rparr>"
  by (simp add: parked_def sched_start_def Let_def step_simps cur_proc_def)

lemma parked_next [simp]: "l_next (k_ptab (parked s) q) = l_next (k_ptab s q)"
  by (simp add: parked_def sched_start_def Let_def step_simps)

lemma parked_ptab: "parked s = s\<lparr>k_ptab := k_ptab (parked s)\<rparr>"
  by (simp add: parked_def sched_start_def Let_def upd_proc_def)

lemma sched_start_eq:
  assumes "sched_inv s xs"
  shows "sched_start s = (parked s, hd (visit_order s xs))"
    and "ring (k_ptab (parked s)) (visit_order s xs)" and "set (visit_order s xs) = set xs"
proof -
  have r: "ring (k_ptab s) xs" and p: "hd xs = k_procs s" and c: "k_cur s \<in> insert (k_idle_task s) (set xs)"
    using assms by (auto simp: sched_inv_def)
  have v: "ring (k_ptab s) (visit_order s xs)"
    using r c ring_after [of "k_ptab s" xs "k_cur s"] by (auto simp: visit_order_def)
  then show "ring (k_ptab (parked s)) (visit_order s xs)"
    by (subst ring_cong [where h' = "k_ptab s"]) auto
  show "set (visit_order s xs) = set xs" using c by (auto simp: visit_order_def)
  have "hd (visit_order s xs) = (if k_cur s = k_idle_task s then k_procs s else l_next (k_ptab s (k_cur s)))"
    using r p c ring_after [of "k_ptab s" xs "k_cur s"] by (auto simp: visit_order_def)
  then show "sched_start s = (parked s, hd (visit_order s xs))"
    using procs_nonnull [OF assms]
    by (simp add: sched_start_def parked_def Let_def step_simps cur_proc_def)
qed

lemma schedule_eq:
  assumes "sched_inv s xs"
  defines "n \<equiv> pick (parked s) (visit_order s xs)"
    and "tab \<equiv> (\<lambda>q. if q \<in> scanned (parked s) (visit_order s xs) then tick (parked s) q else k_ptab (parked s) q)"
  shows "schedule s = Some (s\<lparr>k_ptab := tab(n := (tab n)\<lparr>p_state := PROC_ACTIVE\<rparr>), k_cur := n,
    k_self := p_self (tab n), k_need_reschedule := False\<rparr>)"
proof -
  let ?v = "visit_order s xs"
  note st = sched_start_eq [OF assms(1)]
  have v: "?v \<noteq> []" "distinct ?v" "seg (k_ptab (parked s)) (hd ?v) ?v (hd ?v)" using st(2) by (auto simp: ring_def)
  then have "hd ?v \<notin> set (tl ?v)" by (cases ?v) auto
  then have "sched_scan (parked s) (hd ?v) (hd ?v) = Some (scan_list (parked s) ?v)"
    using v by (intro sched_scan_list)
  also have "scan_list (parked s) ?v = ((parked s)\<lparr>k_ptab := tab\<rparr>, n)"
    unfolding tab_def n_def using v(2) by (rule scan_list_eq)
  finally have "schedule s = Some ((swtch n ((parked s)\<lparr>k_ptab := tab\<rparr>))\<lparr>k_need_reschedule := False\<rparr>)"
    using procs_nonnull [OF assms(1)] st(1) by (simp add: schedule_def)
  then show ?thesis
    by (subst (asm) parked_ptab) (simp add: swtch_def upd_proc_def cur_proc_def Let_def)
qed

section \<open>What schedule preserves\<close>

lemma pick_in: "pick (parked s) xs \<in> insert (k_idle_task s) (set xs)"
  by (auto simp: pick_def step_simps find_Some_iff split: option.splits)

lemma check_timers_not_active:
  assumes "p_state p \<noteq> PROC_ACTIVE" and "t_active (p_timer p) \<longrightarrow> t_last_state (p_timer p) \<noteq> PROC_ACTIVE"
  shows "p_state (check_timers now utt p) \<noteq> PROC_ACTIVE
    \<and> (t_active (p_timer (check_timers now utt p)) \<longrightarrow> t_last_state (p_timer (check_timers now utt p)) \<noteq> PROC_ACTIVE)"
  using assms
  by (auto simp: check_timers_def check_sleep_def handle_task_timer_def handle_task_timer_done_def Let_def)

lemma schedule_inv:
  assumes inv: "sched_inv s xs" and act: "active_ok s xs" and s': "schedule s = Some s'"
  shows "sched_inv s' xs" and "active_ok s' xs"
proof -
  let ?v = "visit_order s xs"
  let ?n = "pick (parked s) ?v"
  let ?tab = "\<lambda>q. if q \<in> scanned (parked s) ?v then tick (parked s) q else k_ptab (parked s) q"
  have e: "s' = s\<lparr>k_ptab := ?tab(?n := (?tab ?n)\<lparr>p_state := PROC_ACTIVE\<rparr>), k_cur := ?n,
    k_self := p_self (?tab ?n), k_need_reschedule := False\<rparr>"
    using schedule_eq [OF inv] s' by simp
  have nx: "l_next (k_ptab s' q) = l_next (k_ptab s q)" for q
    by (simp add: e tick_def)
  have n: "?n \<in> insert (k_idle_task s) (set xs)" using pick_in [of s ?v] sched_start_eq(3) [OF inv] by simp
  show "sched_inv s' xs"
    using inv n unfolding sched_inv_def by (subst ring_cong [where h' = "k_ptab s"]) (auto simp: nx, simp_all add: e)
  have pk: "p_state (k_ptab (parked s) q) \<noteq> PROC_ACTIVE \<and> (t_active (p_timer (k_ptab (parked s) q)) \<longrightarrow>
      t_last_state (p_timer (k_ptab (parked s) q)) \<noteq> PROC_ACTIVE)"
    if "q \<in> insert (k_idle_task s) (set xs)" for q
  proof (cases "q = k_cur s")
    case True
    then have "k_ptab (parked s) q = (cur_proc s)\<lparr>p_state :=
     (if k_cur s = k_idle_task s then PROC_SLEEP
      else if p_state (cur_proc s) = PROC_ACTIVE then PROC_RUN else p_state (cur_proc s))\<rparr>"
      using procs_nonnull [OF inv] parked_cur by simp
    then show ?thesis using active_okD [OF act that] True by (auto simp: cur_proc_def)
  next
    case False
    then show ?thesis using active_okD [OF act that] by (simp add: step_simps)
  qed
  have tk: "p_state (?tab q) \<noteq> PROC_ACTIVE \<and> (t_active (p_timer (?tab q)) \<longrightarrow> t_last_state (p_timer (?tab q)) \<noteq> PROC_ACTIVE)"
    if "q \<in> insert (k_idle_task s) (set xs)" for q
    using pk [OF that] check_timers_not_active [of "k_ptab (parked s) q"] by (simp add: tick_def)
  show "active_ok s' xs"
    unfolding active_ok_def
  proof
    fix q assume "q \<in> insert (k_idle_task s') (set xs)"
    then have q: "q \<in> insert (k_idle_task s) (set xs)" by (simp add: e)
    have "k_cur s' = ?n" by (simp add: e)
    moreover have "k_ptab s' q = (if q = ?n then (?tab q)\<lparr>p_state := PROC_ACTIVE\<rparr> else ?tab q)" by (simp add: e)
    ultimately show "(p_state (k_ptab s' q) = PROC_ACTIVE \<longrightarrow> q = k_cur s') \<and>
      (t_active (p_timer (k_ptab s' q)) \<longrightarrow> t_last_state (p_timer (k_ptab s' q)) \<noteq> PROC_ACTIVE)"
      using tk [OF q] by (cases "q = ?n") simp_all
  qed
qed

section \<open>Waiting for the processor\<close>

text \<open>The number of processes that are looked at before \<open>q\<close> when the search starts behind \<open>c\<close>.\<close>

definition turns :: "addr list \<Rightarrow> addr \<Rightarrow> nat" where
  "turns xs q = length (takeWhile (\<lambda>x. x \<noteq> q) xs)"

lemma turns_split: "q \<notin> set us \<Longrightarrow> turns (us @ q # vs) q = length us"
  by (simp add: turns_def takeWhile_append)

lemma turns_less: "q \<in> set xs \<Longrightarrow> turns xs q < length xs"
  unfolding turns_def by (induction xs) auto

lemma after_rotate:
  assumes "distinct (us @ vs)" and "n \<in> set (us @ vs)"
  shows "after n (us @ vs) = after n (vs @ us)"
proof (cases "n \<in> set us")
  case True
  then obtain a b where u: "us = a @ n # b" "n \<notin> set a" using split_list_first by metis
  have "after n (a @ n # (b @ vs)) = (b @ vs) @ a @ [n]" by (rule after_split [OF u(2)])
  moreover have "after n ((vs @ a) @ n # b) = b @ (vs @ a) @ [n]"
    by (rule after_split) (use assms(1) u in auto)
  ultimately show ?thesis using u by simp
next
  case False
  then obtain a b where v: "vs = a @ n # b" "n \<notin> set a" using assms(2) split_list_first [of n vs] by auto
  have "after n ((us @ a) @ n # b) = b @ (us @ a) @ [n]" by (rule after_split) (use False v in auto)
  moreover have "after n (a @ n # (b @ us)) = (b @ us) @ a @ [n]" by (rule after_split [OF v(2)])
  ultimately show ?thesis using v by simp
qed

lemma after_visit:
  assumes "sched_inv s xs" and "n \<in> set xs"
  shows "after n (visit_order s xs) = after n xs"
proof (cases "k_cur s = k_idle_task s")
  case False
  then have c: "k_cur s \<in> set xs" using assms(1) by (auto simp: sched_inv_def)
  then obtain us vs where xs: "xs = us @ k_cur s # vs" "after (k_cur s) xs = vs @ us @ [k_cur s]"
    by (rule after_obtain)
  moreover have "distinct xs" using assms(1) by (simp add: sched_inv_def ring_def)
  ultimately show ?thesis
    using after_rotate [of "us @ [k_cur s]" vs n] assms(2) False by (simp add: visit_order_def)
qed (simp add: visit_order_def)

lemma schedule_progress:
  assumes inv: "sched_inv s xs" and q: "q \<in> set xs" and run: "runnable (parked s) q" and s': "schedule s = Some s'"
  shows "k_cur s' = q \<or> (k_cur s' \<in> set xs \<and> turns (after (k_cur s') xs) q < turns (visit_order s xs) q)"
proof -
  let ?v = "visit_order s xs"
  have set_v: "set ?v = set xs" and dist: "distinct ?v" using sched_start_eq [OF inv] by (auto simp: ring_def)
  have cur: "k_cur s' = pick (parked s) ?v" using schedule_eq [OF inv] s' by auto
  obtain n where n: "find (runnable (parked s)) ?v = Some n"
    using q run set_v by (cases "find (runnable (parked s)) ?v") (auto simp: find_None_iff)
  then have cn: "k_cur s' = n" by (simp add: cur pick_def)
  from n obtain i where i: "i < length ?v" "?v ! i = n" "\<forall>j<i. \<not> runnable (parked s) (?v ! j)"
    by (auto simp: find_Some_iff)
  let ?a = "take i ?v" and ?b = "drop (Suc i) ?v"
  have v: "?v = ?a @ n # ?b" using id_take_nth_drop [OF i(1)] i(2) by simp
  show ?thesis
  proof (cases "q = n")
    case False
    have "q \<notin> set ?a" using run i by (auto simp: in_set_conv_nth)
    then have "q \<in> set ?b" using q set_v v False by (metis Un_iff insert_iff list.set(2) set_append)
    then obtain b c where b: "?b = b @ q # c" "q \<notin> set b" using split_list_first by metis
    have nv: "n \<in> set xs" using i set_v nth_mem by metis
    have na: "n \<notin> set ?a" using dist v by (metis disjoint_iff distinct_append list.set_intros(1))
    have "after n xs = after n ?v" using after_visit [OF inv nv] by simp
    also have "\<dots> = ?b @ ?a @ [n]" using after_split [OF na, of ?b] v by simp
    finally have "turns (after n xs) q = length b" using b turns_split [of q b "c @ ?a @ [n]"] by simp
    moreover have "?v = (?a @ n # b) @ q # c" using v b by simp
    then have "turns ?v q = length (?a @ n # b)"
      using turns_split [of q "?a @ n # b" c] \<open>q \<notin> set ?a\<close> b(2) False by simp
    ultimately show ?thesis using cn nv by simp
  qed (simp add: cn)
qed

section \<open>Properties\<close>

text \<open>C2: \<open>schedule\<close> always returns, and it is round robin: after the current process has been parked it
  selects the first process in ring order behind it (from the head of the list when the idle task was running)
  that is runnable once its timers were checked, and the idle task exactly when there is none. The selected
  process is the active one, its \<open>self\<close> is installed, the request is cleared, and processes that were not
  looked at are unchanged.\<close>

theorem schedule_round_robin:
  assumes "sched_inv s xs"
  shows "\<exists>s'. schedule s = Some s'
    \<and> k_cur s' = (case find (runnable (parked s)) (visit_order s xs) of None \<Rightarrow> k_idle_task s | Some q \<Rightarrow> q)
    \<and> p_state (cur_proc s') = PROC_ACTIVE \<and> k_self s' = p_self (cur_proc s') \<and> \<not> k_need_reschedule s'
    \<and> (\<forall>q. q \<noteq> k_cur s' \<and> q \<notin> scanned (parked s) (visit_order s xs) \<longrightarrow> k_ptab s' q = k_ptab (parked s) q)"
proof -
  have "(case find (runnable (parked s)) (visit_order s xs) of None \<Rightarrow> k_idle_task s | Some q \<Rightarrow> q)
      = pick (parked s) (visit_order s xs)"
    by (simp add: pick_def parked_sel(1) cong: option.case_cong)
  then show ?thesis using schedule_eq [OF assms] by (simp only:) (simp add: cur_proc_def)
qed

text \<open>A kernel with two processes, at \<open>0x100\<close> and \<open>0x200\<close>, one of them running and the other runnable.\<close>

definition kern2 :: "addr \<Rightarrow> kern" where
  "kern2 c = kern0\<lparr>k_procs := 0x100, k_idle_task := 0x300, k_cur := c, k_sched_enabled := True,
     k_ptab := (\<lambda>a. proc_zero\<lparr>l_next := (if a = 0x100 then 0x200 else if a = 0x200 then 0x100 else a),
       p_pid := a, p_state := (if a = c then PROC_ACTIVE else if a = 0x300 then PROC_SLEEP else PROC_RUN),
       p_timer := timer_zero\<lparr>t_ticks_wakeup := 0xFFFFFFFF\<rparr>, p_regs := map of_nat [0..<17]\<rparr>)\<rparr>"

lemma kern2_sel:
  "k_cur (kern2 c) = c" "k_idle_task (kern2 c) = 0x300" "k_procs (kern2 c) = 0x100"
  "l_next (k_ptab (kern2 c) a) = (if a = 0x100 then 0x200 else if a = 0x200 then 0x100 else a)"
  "p_state (k_ptab (kern2 c) a) = (if a = c then PROC_ACTIVE else if a = 0x300 then PROC_SLEEP else PROC_RUN)"
  "p_timer (k_ptab (kern2 c) a) = timer_zero\<lparr>t_ticks_wakeup := 0xFFFFFFFF\<rparr>"
  by (simp_all add: kern2_def)

lemma kern2_inv: "c = 0x100 \<or> c = 0x200 \<Longrightarrow> sched_inv (kern2 c) [0x100, 0x200]"
  by (elim disjE) (simp_all add: sched_inv_def ring_def kern2_sel)

lemma kern2_active: "active_ok (kern2 c) [0x100, 0x200]"
  by (simp add: active_ok_def kern2_sel timer_zero_def)

lemma kern2_runnable:
  assumes "c = 0x100 \<or> c = 0x200" and "q = 0x100 \<or> q = 0x200"
  shows "runnable (parked (kern2 c)) q"
proof -
  have t: "p_timer (k_ptab (parked (kern2 c)) q) = timer_zero\<lparr>t_ticks_wakeup := 0xFFFFFFFF\<rparr>"
    and s: "p_state (k_ptab (parked (kern2 c)) q) = PROC_RUN"
    using assms parked_cur [of "kern2 c"] parked_sel(6) [of q "kern2 c"]
    by (cases "q = c"; auto simp: kern2_sel cur_proc_def)+
  show ?thesis by (simp add: runnable_def tick_def check_timers_def check_sleep_def t s timer_zero_def)
qed

lemma kern2_order:
  "visit_order (kern2 0x100) [0x100, 0x200] = [0x200, 0x100]" "visit_order (kern2 0x200) [0x100, 0x200] = [0x100, 0x200]"
  by (simp_all add: kern2_sel visit_order_def after.simps)

theorem schedule_round_robin_witness:
  "\<exists>s'. schedule (kern2 0x100) = Some s' \<and> k_cur s' = 0x200 \<and> p_state (cur_proc s') = PROC_ACTIVE"
  using schedule_round_robin [OF kern2_inv [of "0x100"]] kern2_runnable [of "0x100" "0x200"]
  by (auto simp: kern2_order)

text \<open>C3: no process starves. Along any run in which the ring stays the same and a process is runnable each
  time the scheduler is called, whatever happens to the other processes in between, that process is selected
  within as many calls as there are processes.\<close>

theorem schedule_no_starvation:
  assumes "\<And>i. sched_inv (f i) xs" and "\<And>i. schedule (f i) = Some (g i)"
    and "\<And>i. k_cur (f (Suc i)) = k_cur (g i)" and "\<And>i. k_idle_task (f i) = idle"
    and "q \<in> set xs" and "\<And>i. runnable (parked (f i)) q"
  shows "\<exists>i<length xs. k_cur (g i) = q"
proof (rule ccontr)
  assume no: "\<not> (\<exists>i<length xs. k_cur (g i) = q)"
  have *: "turns (visit_order (f i) xs) q + i < length xs" if "i < length xs" for i
    using that
  proof (induction i)
    case 0
    have "length (visit_order (f 0) xs) = length xs"
      using sched_start_eq [OF assms(1) [of 0]] assms(1) [of 0]
      by (metis distinct_card ring_def sched_inv_def)
    then show ?case using turns_less [of q "visit_order (f 0) xs"] sched_start_eq(3) [OF assms(1) [of 0]] assms(5) by simp
  next
    case (Suc i)
    have "k_cur (g i) \<noteq> q" using no Suc.prems by auto
    then have p: "k_cur (g i) \<in> set xs" "turns (after (k_cur (g i)) xs) q < turns (visit_order (f i) xs) q"
      using schedule_progress [OF assms(1) assms(5) assms(6) assms(2), of i] by auto
    then have "k_cur (g i) \<noteq> k_idle_task (f (Suc i))"
      using assms(1) [of "Suc i"] by (auto simp: sched_inv_def)
    then have "visit_order (f (Suc i)) xs = after (k_cur (g i)) xs" using assms(3) by (simp add: visit_order_def)
    then show ?case using p Suc.IH Suc.prems by simp
  qed
  have n: "length xs \<noteq> 0" using assms(5) by auto
  have last: "turns (visit_order (f (length xs - 1)) xs) q = 0" using * [of "length xs - 1"] n by linarith
  have "k_cur (g (length xs - 1)) \<noteq> q" using no n by (metis diff_less gr0I zero_less_one)
  then show False
    using schedule_progress [OF assms(1) assms(5) assms(6) assms(2), of "length xs - 1"] last by auto
qed

theorem schedule_no_starvation_witness:
  "\<exists>i<length [0x100, 0x200 :: addr]. k_cur (the (schedule (kern2 (if even i then 0x100 else 0x200)))) = 0x200"
proof -
  let ?c = "\<lambda>i :: nat. if even i then 0x100 else 0x200 :: addr"
  have c: "?c i = 0x100 \<or> ?c i = 0x200" for i by simp
  have "\<exists>s'. schedule (kern2 (?c i)) = Some s' \<and> k_cur s' = ?c (Suc i)" for i
    using schedule_eq [OF kern2_inv [OF c [of i]]] kern2_runnable [OF c [of i]]
    by (cases "even i") (simp_all add: kern2_order pick_def)
  then have s: "schedule (kern2 (?c i)) = Some (the (schedule (kern2 (?c i))))"
    and n: "k_cur (kern2 (?c (Suc i))) = k_cur (the (schedule (kern2 (?c i))))" for i
    unfolding kern2_sel by (metis option.sel)+
  show ?thesis
    by (rule schedule_no_starvation [where f = "\<lambda>i. kern2 (?c i)" and idle = "0x300", OF kern2_inv [OF c] s n])
      (simp_all add: kern2_sel kern2_runnable)
qed

text \<open>a task timer is transparent to the task it interrupts. Whatever registers the handler leaves, once
  it is done the task has its registers, its scheduling state and its wake-up time back; while the handler is
  pending the task is runnable and starts at the trampoline with the handler as its argument.\<close>

theorem task_timer_round_trip:
  assumes "length (p_regs p) = 17"
  shows "p_state (handle_task_timer now utt p) = PROC_RUN
    \<and> p_regs (handle_task_timer now utt p) ! 1 = utt \<and> p_regs (handle_task_timer now utt p) ! 2 = t_handler (p_timer p)
    \<and> (let q = handle_task_timer_done ((handle_task_timer now utt p)\<lparr>p_regs := regs, p_state := st\<rparr>)
       in p_regs q = p_regs p \<and> p_state q = p_state p \<and> \<not> t_active (p_timer q)
          \<and> t_ticks_wakeup (p_timer q) = t_ticks_wakeup (p_timer p)
          \<and> t_next (p_timer q) = (if t_oneshot (p_timer p) then 0 else now + t_period (p_timer p)))"
  using assms by (simp add: handle_task_timer_def handle_task_timer_done_def Let_def)

theorem task_timer_round_trip_witness:
  "p_state (handle_task_timer_done ((handle_task_timer 7 0x6000 (k_ptab (kern2 0x100) 0x200))
      \<lparr>p_regs := [], p_state := PROC_ACTIVE\<rparr>)) = PROC_RUN"
proof -
  have "length (p_regs (k_ptab (kern2 0x100) 0x200)) = 17" "p_state (k_ptab (kern2 0x100) 0x200) = PROC_RUN"
    by (simp_all add: kern2_def)
  from task_timer_round_trip [OF this(1), where now = 7 and utt = "0x6000" and regs = "[]" and st = PROC_ACTIVE] this(2)
  show ?thesis by (simp add: Let_def)
qed

text \<open>when does a killed process run again? Exactly when a task timer of it fires that was armed before it
  was killed, or when it was killed inside a timer handler that had already reported completion while the interrupted task was
  runnable (or asleep with its time come): killing clears neither the timer nor the saved state. Without a timer it
  stays killed for ever.\<close>

theorem killed_runs_again_iff:
  "p_state p = PROC_KILLED \<Longrightarrow>
    p_state (check_timers now utt p) = PROC_RUN \<longleftrightarrow>
      (let t = p_timer p in
        (0 < t_next t \<and> \<not> t_active t \<and> t_next t \<le> now) \<or>
        (t_active t \<and> t_done t \<and>
          (t_last_state t = PROC_RUN \<or> (t_last_state t = PROC_SLEEP \<and> t_last_ticks_wakeup t \<le> now))))"
  by (auto simp: check_timers_def check_sleep_def handle_task_timer_def handle_task_timer_done_def Let_def)

theorem killed_runs_again_iff_witness:
  "p_state (check_timers 10 0x6000 (proc_zero\<lparr>p_state := PROC_KILLED, p_timer := timer_zero\<lparr>t_next := 5\<rparr>\<rparr>)) = PROC_RUN"
  using killed_runs_again_iff [of "proc_zero\<lparr>p_state := PROC_KILLED, p_timer := timer_zero\<lparr>t_next := 5\<rparr>\<rparr>" 10 "0x6000"]
  by (simp add: timer_zero_def)

end
