(* ===== verification/Syscall.thy ===== *)
theory Syscall
  imports Sched
begin

text \<open>
  kernel/syscall.c, the wrappers of lib/sleep.c and lib/kstat.c, \<open>user_page_fault\<close> of kernel/mem.c, \<open>c_irq\<close>
  of kernel/irq.c and kernel/sem.c: every system call on the kernel state, the dispatcher \<open>c_svc\<close>, and the step
  relation of the running system.
\<close>

section \<open>System calls\<close>

text \<open>A call receives its argument word and returns the result with the new state. Where a loop of the
  code may not end the result is \<open>None\<close>.\<close>

definition sys_wait :: "kern \<Rightarrow> u32 \<Rightarrow> int \<times> kern" where
  "sys_wait s arg =
     (if arg = NULL then (- 1, s)
      else (let w = k_completions s arg in
        case bfifo_queue (k_bfifos s w) (k_cur s) of
          (rc, f) \<Rightarrow>
            (let s = s\<lparr>k_bfifos := (k_bfifos s)(w := f)\<rparr>
             in if rc = 0
                then (0, request_schedule (upd_proc (k_cur s) (\<lambda>p. p\<lparr>p_state := PROC_SLEEP\<rparr>) s))
                else (- 1, s))))"

definition make_run :: "kern \<Rightarrow> addr \<Rightarrow> kern" where
  "make_run s p = upd_proc p (\<lambda>q. q\<lparr>p_state := PROC_RUN\<rparr>) s"

definition sys_wake :: "kern \<Rightarrow> u32 \<Rightarrow> (int \<times> kern) option" where
  "sys_wake s arg =
     (let w = k_completions s arg in
      case drain bfifo_dequeue make_run (k_bfifos s w) s of
        None \<Rightarrow> None
      | Some (s, f) \<Rightarrow> Some (0, s\<lparr>k_bfifos := (k_bfifos s)(w := f)\<rparr>))"

definition sys_sleep :: "kern \<Rightarrow> u32 \<Rightarrow> int \<times> kern" where
  "sys_sleep s arg =
     (0, request_schedule (upd_proc (k_cur s) (\<lambda>p. p\<lparr>p_state := PROC_SLEEP,
        p_timer := (p_timer p)\<lparr>t_ticks_wakeup := k_clkticks s + arg\<rparr>\<rparr>) s))"

definition sys_yield :: "kern \<Rightarrow> u32 \<Rightarrow> int \<times> kern" where
  "sys_yield s arg = (0, request_schedule s)"

definition event_hit :: "u32 \<Rightarrow> proc \<Rightarrow> bool" where
  "event_hit evm p \<longleftrightarrow> p_event_mask p AND evm \<noteq> 0"

definition event_deliver :: "u32 \<Rightarrow> proc \<Rightarrow> proc" where
  "event_deliver evm p = p\<lparr>p_state := PROC_RUN, p_event_mask := p_event_mask p AND NOT evm\<rparr>"

text \<open>The walk of \<open>sys_event_set\<close> over the other processes of the list; the flag is \<open>hit\<close>.\<close>

partial_function (option) event_walk :: "u32 \<Rightarrow> addr \<Rightarrow> kern \<Rightarrow> bool \<Rightarrow> (kern \<times> bool) option" where
  "event_walk evm p s hit =
     (if p = k_cur s then Some (s, hit)
      else if event_hit evm (k_ptab s p)
      then (let s = upd_proc p (event_deliver evm) s in event_walk evm (l_next (k_ptab s p)) s True)
      else event_walk evm (l_next (k_ptab s p)) s hit)"

definition sys_event_set :: "kern \<Rightarrow> u32 \<Rightarrow> (int \<times> kern) option" where
  "sys_event_set s evm =
     (case event_walk evm (l_next (cur_proc s)) s False of
        None \<Rightarrow> None
      | Some (s, hit) \<Rightarrow> Some (0, if hit then request_schedule s else s))"

definition sys_event_wait :: "kern \<Rightarrow> u32 \<Rightarrow> int \<times> kern" where
  "sys_event_wait s evm =
     (0, request_schedule (upd_proc (k_cur s) (\<lambda>p. p\<lparr>p_event_mask := p_event_mask p OR evm,
        p_state := PROC_SLEEP\<rparr>) s))"

definition ms_to_clkticks :: "u32 \<Rightarrow> u32" where
  "ms_to_clkticks x = x div 10"

definition sys_alarm :: "kern \<Rightarrow> u32 \<Rightarrow> int \<times> kern" where
  "sys_alarm s arg =
     (let a = k_alarms s arg
      in (0, upd_proc (k_cur s) (\<lambda>p. p\<lparr>p_timer := (p_timer p)\<lparr>t_handler := a_handler a,
            t_period := ms_to_clkticks (a_msec a), t_next := k_clkticks s + ms_to_clkticks (a_msec a),
            t_oneshot := a_oneshot a\<rparr>\<rparr>) s))"

definition sys_utt_done :: "kern \<Rightarrow> u32 \<Rightarrow> int \<times> kern" where
  "sys_utt_done s arg =
     (0, request_schedule (upd_proc (k_cur s) (\<lambda>p. p\<lparr>p_timer := (p_timer p)\<lparr>t_done := True\<rparr>\<rparr>) s))"

definition sys_kstat :: "kern \<Rightarrow> u32 \<Rightarrow> int \<times> kern" where
  "sys_kstat s arg = (0, s\<lparr>k_user_kstat := (k_user_kstat s)(arg := 0)\<rparr>)"

text \<open>\<open>syscall_table\<close> without \<open>CONFIG_NET\<close>: ten entries. \<open>sys_reset\<close> does not return, and whatever
  lies behind the table is called as if it were a function.\<close>

definition syscall_table_len :: nat where
  "syscall_table_len = 10"

definition opt_result :: "(int \<times> kern) option \<Rightarrow> kern_error + int \<times> kern" where
  "opt_result r = (case r of None \<Rightarrow> Inl No_Ring | Some x \<Rightarrow> Inr x)"

definition syscall_func :: "nat \<Rightarrow> kern \<Rightarrow> u32 \<Rightarrow> kern_error + int \<times> kern" where
  "syscall_func n s arg =
     (if n = 0 then Inr (sys_wait s arg)
      else if n = 1 then opt_result (sys_wake s arg)
      else if n = 2 then Inr (sys_sleep s arg)
      else if n = 3 then Inr (sys_yield s arg)
      else if n = 4 then opt_result (sys_event_set s arg)
      else if n = 5 then Inr (sys_event_wait s arg)
      else if n = 6 then Inr (sys_alarm s arg)
      else if n = 7 then Inr (sys_utt_done s arg)
      else if n = 8 then Inl Halted
      else if n = 9 then Inr (sys_kstat s arg)
      else Inl Bad_Jump)"

text \<open>\<open>c_svc\<close>: the number and the argument are the first two saved registers.\<close>

definition c_svc :: "kern \<Rightarrow> u32 \<Rightarrow> u32 \<Rightarrow> kern_error + int \<times> kern" where
  "c_svc s real_num arg =
     (let s = s\<lparr>k_self := k_kernel_self s\<rparr>
      in case (if unat real_num > syscall_table_len then Inr (- 1, s)
               else syscall_func (unat real_num) s arg) of
           Inl e \<Rightarrow> Inl e
         | Inr (rc, s) \<Rightarrow> Inr (rc, s\<lparr>k_self := p_self (cur_proc s)\<rparr>))"

section \<open>The user-side wrappers\<close>

definition SYS_WAIT :: u32 where "SYS_WAIT = 0"
definition SYS_WAKE :: u32 where "SYS_WAKE = 1"
definition SYS_SLEEP :: u32 where "SYS_SLEEP = 2"
definition SYS_YIELD :: u32 where "SYS_YIELD = 3"
definition SYS_EVENT_SET :: u32 where "SYS_EVENT_SET = 4"
definition SYS_EVENT_WAIT :: u32 where "SYS_EVENT_WAIT = 5"
definition SYS_ALARM :: u32 where "SYS_ALARM = 6"
definition SYS_UTT_DONE :: u32 where "SYS_UTT_DONE = 7"
definition SYS_RESET :: u32 where "SYS_RESET = 8"
definition SYS_KSTAT :: u32 where "SYS_KSTAT = 9"
definition SYS_NETSTAT :: u32 where "SYS_NETSTAT = 10"

lemmas syscall_nums = SYS_WAIT_def SYS_WAKE_def SYS_SLEEP_def SYS_YIELD_def SYS_EVENT_SET_def
  SYS_EVENT_WAIT_def SYS_ALARM_def SYS_UTT_DONE_def SYS_RESET_def SYS_KSTAT_def SYS_NETSTAT_def

text \<open>\<open>__syscall\<close> (lib/syscall_arm.s): the trap's exit code and the epilogue restore the first argument register, so the caller
  gets the number of the call back, whatever \<open>c_svc\<close> returned.\<close>

definition syscall_arm :: "kern \<Rightarrow> u32 \<Rightarrow> u32 \<Rightarrow> kern_error + int \<times> kern" where
  "syscall_arm s num arg = (case c_svc s num arg of Inl e \<Rightarrow> Inl e | Inr (rc, s) \<Rightarrow> Inr (sint num, s))"

definition wait :: "kern \<Rightarrow> addr \<Rightarrow> kern_error + int \<times> kern" where
  "wait s c = syscall_arm s SYS_WAIT c"

definition wake :: "kern \<Rightarrow> addr \<Rightarrow> kern_error + int \<times> kern" where
  "wake s c = syscall_arm s SYS_WAKE c"

definition sleep :: "kern \<Rightarrow> u32 \<Rightarrow> kern_error + int \<times> kern" where
  "sleep s period = syscall_arm s SYS_SLEEP (ms_to_clkticks period)"

definition yield :: "kern \<Rightarrow> kern_error + int \<times> kern" where
  "yield s = syscall_arm s SYS_YIELD 0"

definition event_set :: "kern \<Rightarrow> u32 \<Rightarrow> kern_error + int \<times> kern" where
  "event_set s evm = syscall_arm s SYS_EVENT_SET evm"

definition event_wait :: "kern \<Rightarrow> u32 \<Rightarrow> kern_error + int \<times> kern" where
  "event_wait s evm = syscall_arm s SYS_EVENT_WAIT evm"

definition alarm_set :: "kern \<Rightarrow> addr \<Rightarrow> kern_error + int \<times> kern" where
  "alarm_set s a = syscall_arm s SYS_ALARM a"

definition user_timer_trampoline_done :: "kern \<Rightarrow> kern_error + int \<times> kern" where
  "user_timer_trampoline_done s = syscall_arm s SYS_UTT_DONE 0"

definition reset :: "kern \<Rightarrow> kern_error + int \<times> kern" where
  "reset s = syscall_arm s SYS_RESET 0"

definition kstat_get :: "kern \<Rightarrow> addr \<Rightarrow> kern_error + int \<times> kern" where
  "kstat_get s p = syscall_arm s SYS_KSTAT p"

definition netstat_get :: "kern \<Rightarrow> addr \<Rightarrow> kern_error + int \<times> kern" where
  "netstat_get s p = syscall_arm s SYS_NETSTAT p"

section \<open>Faults, interrupts and semaphores\<close>

definition user_page_fault :: "kern \<Rightarrow> kern" where
  "user_page_fault s =
     request_schedule (upd_proc (k_cur s) (\<lambda>p. p\<lparr>p_state := PROC_KILLED,
       p_timer := (p_timer p)\<lparr>t_ticks_wakeup := 0xFFFFFFFF\<rparr>, p_event_mask := 0\<rparr>) s)"

text \<open>What the vectored interrupt controller reports: no handler, the entry point itself, or a handler.\<close>

datatype irq_vector = No_Handler | Entry_Handler | Handler "kern \<Rightarrow> kern"

definition c_irq :: "kern \<Rightarrow> irq_vector \<Rightarrow> kern" where
  "c_irq s v =
     (let s = s\<lparr>k_self := k_kernel_self s\<rparr>;
          s = (case v of
                 Entry_Handler \<Rightarrow> s\<lparr>k_kstat := k_kstat s + 1\<rparr>
               | No_Handler \<Rightarrow> s
               | Handler h \<Rightarrow> h s)
      in s\<lparr>k_self := p_self (cur_proc s)\<rparr>)"

record sem_t =
  sem_cur :: int
  sem_max :: int
  sem_id :: "u8 list"
  sem_wait :: addr

text \<open>\<open>sem_try_down\<close> and \<open>sem_up\<close> are the exclusive-access sequences of arch/sem.S; \<open>ok\<close> says whether
  the exclusive store succeeded.\<close>

definition sem_init :: "int \<Rightarrow> int \<Rightarrow> u8 list \<Rightarrow> sem_t" where
  "sem_init cur mx name =
     \<lparr>sem_cur = cur, sem_max = mx, sem_id = take 15 (name @ replicate 15 0) @ [0], sem_wait = NULL\<rparr>"

definition sem_try_down :: "bool \<Rightarrow> sem_t \<Rightarrow> int \<times> sem_t" where
  "sem_try_down ok m = (if sem_cur m = 0 \<or> \<not> ok then (1, m) else (0, m\<lparr>sem_cur := 0\<rparr>))"

definition sem_down :: "bool \<Rightarrow> kern \<Rightarrow> sem_t \<Rightarrow> kern \<times> sem_t" where
  "sem_down ok s m =
     (case sem_try_down ok m of
        (rc, m) \<Rightarrow>
          if rc \<noteq> 0 then
            (if sem_wait m \<noteq> NULL then (s\<lparr>k_ptab := list_add_after (k_ptab s) (sem_wait m) (k_cur s)\<rparr>, m)
             else (s, m\<lparr>sem_wait := k_cur s\<rparr>))
          else (s, m))"

definition sem_up :: "sem_t \<Rightarrow> sem_t" where
  "sem_up m = m\<lparr>sem_cur := 1\<rparr>"

section \<open>Waiting and waking\<close>

lemma request_schedule_sel [step_simps]:
  "k_ptab (request_schedule s) = k_ptab s" "k_cur (request_schedule s) = k_cur s"
  "k_procs (request_schedule s) = k_procs s" "k_idle_task (request_schedule s) = k_idle_task s"
  "k_mem (request_schedule s) = k_mem s" "k_bfifos (request_schedule s) = k_bfifos s"
  "k_completions (request_schedule s) = k_completions s" "k_clkticks (request_schedule s) = k_clkticks s"
  by (simp_all add: request_schedule_def)

text \<open>Waking a list of processes one after the other is waking the set.\<close>

definition wake_set :: "addr set \<Rightarrow> kern \<Rightarrow> kern" where
  "wake_set A s = s\<lparr>k_ptab := (\<lambda>q. if q \<in> A then (k_ptab s q)\<lparr>p_state := PROC_RUN\<rparr> else k_ptab s q)\<rparr>"

lemma foldl_make_run: "foldl make_run s xs = wake_set (set xs) s"
proof (induction xs arbitrary: s)
  case Nil
  then show ?case by (simp add: wake_set_def)
next
  case (Cons x xs)
  have "foldl make_run s (x # xs) = wake_set (set xs) (make_run s x)" by (simp add: Cons.IH)
  also have "\<dots> = wake_set (set (x # xs)) s"
    by (auto simp: wake_set_def make_run_def upd_proc_def fun_eq_iff)
  finally show ?case .
qed

lemma sys_wake_eq:
  assumes "bfifo_ok (k_bfifos s w)" and "NULL \<notin> set (bfifo_list (k_bfifos s w))" and "w = k_completions s c"
  shows "\<exists>f. sys_wake s c = Some (0, (wake_set (set (bfifo_list (k_bfifos s w))) s)\<lparr>k_bfifos := (k_bfifos s)(w := f)\<rparr>)
    \<and> bfifo_ok f \<and> bfifo_list f = [] \<and> bfifo_cap f = bfifo_cap (k_bfifos s w)"
proof -
  obtain f where "drain bfifo_dequeue make_run (k_bfifos s w) s = Some (foldl make_run s (bfifo_list (k_bfifos s w)), f)"
    "bfifo_ok f" "bfifo_list f = []" "bfifo_cap f = bfifo_cap (k_bfifos s w)"
    using bq.drain_all [OF assms(1,2), of make_run s] by blast
  then show ?thesis using assms(3) by (auto simp: sys_wake_def Let_def foldl_make_run wake_set_def)
qed

section \<open>Events\<close>

definition event_step :: "u32 \<Rightarrow> kern \<Rightarrow> addr set \<Rightarrow> kern" where
  "event_step evm s A = s\<lparr>k_ptab := (\<lambda>q. if q \<in> A \<and> event_hit evm (k_ptab s q) then event_deliver evm (k_ptab s q)
     else k_ptab s q)\<rparr>"

lemma event_deliver_next [simp]: "l_next (event_deliver evm p) = l_next p"
  by (simp add: event_deliver_def)

lemma event_walk_eq:
  assumes "seg (k_ptab s) p xs (k_cur s)" and "distinct xs" and "k_cur s \<notin> set xs"
  shows "event_walk evm p s hit =
    Some (event_step evm s (set xs), hit \<or> (\<exists>q\<in>set xs. event_hit evm (k_ptab s q)))"
  using assms
proof (induction xs arbitrary: s p hit)
  case Nil
  then show ?case by (subst event_walk.simps) (simp add: event_step_def)
next
  case (Cons x xs)
  let ?s = "if event_hit evm (k_ptab s x) then upd_proc x (event_deliver evm) s else s"
  let ?hit = "hit \<or> event_hit evm (k_ptab s x)"
  have x: "p = x" "x \<noteq> k_cur s" "x \<notin> set xs" and sg: "seg (k_ptab s) (l_next (k_ptab s x)) xs (k_cur s)"
    using Cons.prems by auto
  have sel: "k_cur ?s = k_cur s" "l_next (k_ptab ?s q) = l_next (k_ptab s q)" for q by (simp_all add: step_simps)
  have "event_walk evm p s hit = event_walk evm (l_next (k_ptab s x)) ?s ?hit"
    using x by (subst event_walk.simps) (simp add: step_simps)
  also have "\<dots> = Some (event_step evm ?s (set xs), ?hit \<or> (\<exists>q\<in>set xs. event_hit evm (k_ptab ?s q)))"
    using Cons.prems sg by (intro Cons.IH) (simp_all only: sel seg_cong [of xs "k_ptab ?s" "k_ptab s"], simp_all)
  also have "event_step evm ?s (set xs) = event_step evm s (set (x # xs))"
  proof -
    have "k_ptab (event_step evm ?s (set xs)) q = k_ptab (event_step evm s (set (x # xs))) q" for q
      using x(3) by (auto simp: event_step_def step_simps)
    then have "k_ptab (event_step evm ?s (set xs)) = k_ptab (event_step evm s (set (x # xs)))" by (rule ext)
    moreover have "event_step evm ?s (set xs) = s\<lparr>k_ptab := k_ptab (event_step evm ?s (set xs))\<rparr>"
      by (simp add: event_step_def upd_proc_def)
    ultimately show ?thesis by (simp add: event_step_def)
  qed
  also have "(\<exists>q\<in>set xs. event_hit evm (k_ptab ?s q)) \<longleftrightarrow> (\<exists>q\<in>set xs. event_hit evm (k_ptab s q))"
    using x(3) by (auto simp: step_simps)
  finally show ?case by auto
qed

lemma sys_event_set_eq:
  fixes evm :: u32 and s :: kern
  assumes "ring (k_ptab s) xs" and "k_cur s \<in> set xs"
  defines "hit \<equiv> \<exists>q\<in>set xs - {k_cur s}. event_hit evm (k_ptab s q)"
  shows "sys_event_set s evm = Some (0, if hit then request_schedule (event_step evm s (set xs - {k_cur s}))
    else event_step evm s (set xs - {k_cur s}))"
proof -
  obtain us vs where xs: "xs = us @ k_cur s # vs" "k_cur s \<notin> set us" "after (k_cur s) xs = vs @ us @ [k_cur s]"
    using assms(2) by (rule after_obtain)
  have d: "distinct xs" using assms(1) by (simp add: ring_def)
  have "ring (k_ptab s) ((vs @ us) @ [k_cur s])" "hd ((vs @ us) @ [k_cur s]) = l_next (cur_proc s)"
    using ring_after [OF assms(1,2)] xs(3) by (auto simp: cur_proc_def)
  then have "seg (k_ptab s) (l_next (cur_proc s)) (vs @ us) (k_cur s)"
    by (auto simp only: ring_def seg_append seg.simps)
  then have "event_walk evm (l_next (cur_proc s)) s False =
      Some (event_step evm s (set (vs @ us)), False \<or> (\<exists>q\<in>set (vs @ us). event_hit evm (k_ptab s q)))"
    using d xs by (intro event_walk_eq) auto
  moreover have "set (vs @ us) = set xs - {k_cur s}" using d xs by auto
  ultimately show ?thesis by (simp add: sys_event_set_def hit_def)
qed

section \<open>The running system\<close>

text \<open>
  What can happen between two instructions of a user process: a system call, a page fault, the timer interrupt, an
  interrupt without a usable handler, the wake-up of a completion by a device's handler, the exit of an
  interrupt, where the scheduler runs if it was asked to, and the creation of a process. The second component is the list of
  live allocations. A creation that fails is only followed when none of the chunks it had taken is the first of its class (see Proc).
\<close>

definition new_blocks :: "kern \<Rightarrow> addr \<Rightarrow> (addr \<times> u32) list" where
  "new_blocks s p = [(so_ptr (k_selfs s (p_self (k_ptab s p))), STDOUT_SIZE), (p_self (k_ptab s p), sizeof_self),
     (p_stack_base (k_ptab s p), PROC_STACK_SIZE), (p, sizeof_proc)]"

inductive kstep :: "kern \<times> (addr \<times> u32) list \<Rightarrow> kern \<times> (addr \<times> u32) list \<Rightarrow> bool" where
  k_svc: "c_svc s num arg = Inr (rc, s') \<Longrightarrow> kstep (s, live) (s', live)"
| k_fault: "kstep (s, live) (user_page_fault s, live)"
| k_timer: "kstep (s, live) (c_irq s (Handler timer_int), live)"
| k_spurious: "v = No_Handler \<or> v = Entry_Handler \<Longrightarrow> kstep (s, live) (c_irq s v, live)"
| k_device: "sys_wake s c = Some (rc, s') \<Longrightarrow> kstep (s, live) (c_irq s (Handler (\<lambda>_. s')), live)"
| k_exit: "irq_exit s = Some s' \<Longrightarrow> kstep (s, live) (s', live)"
| k_spawn: "spawn s entry name mode = (p, s') \<Longrightarrow> p \<noteq> NULL \<Longrightarrow> kstep (s, live) (s', new_blocks s' p @ live)"
| k_spawn_fail: "spawn s entry name mode = (NULL, s') \<Longrightarrow> spawn_clean (k_mem s) \<Longrightarrow> kstep (s, live) (s', live)"

inductive_cases kstep_elim: "kstep (s, live) s'"

inductive_simps kstep_simps: "kstep (s, live) (s', live')"

definition kinv :: "nat \<Rightarrow> kern \<times> (addr \<times> u32) list \<Rightarrow> addr list \<Rightarrow> bool" where
  "kinv B c xs \<longleftrightarrow> sched_inv (fst c) xs \<and> active_ok (fst c) xs \<and> live_ok B (k_mem (fst c), snd c)
     \<and> insert (k_idle_task (fst c)) (set xs) \<subseteq> fst ` set (snd c)"

text \<open>An operation that only touches the state of processes, without making one active.\<close>

definition calm :: "kern \<Rightarrow> kern \<Rightarrow> bool" where
  "calm s s' \<longleftrightarrow> k_procs s' = k_procs s \<and> k_idle_task s' = k_idle_task s \<and> k_cur s' = k_cur s \<and> k_mem s' = k_mem s
     \<and> (\<forall>q. l_next (k_ptab s' q) = l_next (k_ptab s q)
          \<and> (p_state (k_ptab s' q) = p_state (k_ptab s q) \<or> p_state (k_ptab s' q) \<noteq> PROC_ACTIVE)
          \<and> t_active (p_timer (k_ptab s' q)) = t_active (p_timer (k_ptab s q))
          \<and> t_last_state (p_timer (k_ptab s' q)) = t_last_state (p_timer (k_ptab s q)))"

lemma calm_kinv:
  assumes "calm s s'" and "kinv B (s, live) xs"
  shows "kinv B (s', live) xs"
proof -
  have "ring (k_ptab s') xs = ring (k_ptab s) xs" using assms(1) by (intro ring_cong) (simp add: calm_def)
  moreover have "active_ok s' xs"
    unfolding active_ok_def
  proof
    fix q assume "q \<in> insert (k_idle_task s') (set xs)"
    then have "q \<in> insert (k_idle_task s) (set xs)" using assms(1) by (simp add: calm_def)
    moreover have "active_ok s xs" using assms(2) by (simp add: kinv_def)
    moreover have "(p_state (k_ptab s' q) = p_state (k_ptab s q) \<or> p_state (k_ptab s' q) \<noteq> PROC_ACTIVE)
        \<and> t_active (p_timer (k_ptab s' q)) = t_active (p_timer (k_ptab s q))
        \<and> t_last_state (p_timer (k_ptab s' q)) = t_last_state (p_timer (k_ptab s q)) \<and> k_cur s' = k_cur s"
      using assms(1) by (simp add: calm_def)
    ultimately show "(p_state (k_ptab s' q) = PROC_ACTIVE \<longrightarrow> q = k_cur s') \<and>
      (t_active (p_timer (k_ptab s' q)) \<longrightarrow> t_last_state (p_timer (k_ptab s' q)) \<noteq> PROC_ACTIVE)"
      using active_okD [of s xs q] by auto
  qed
  ultimately show ?thesis using assms by (simp add: kinv_def sched_inv_def calm_def)
qed

lemma calm_refl [simp]: "calm s s"
  by (simp add: calm_def)

lemma calm_trans: "calm s t \<Longrightarrow> calm t u \<Longrightarrow> calm s u"
  unfolding calm_def by (metis (no_types, lifting))

lemma calm_self [simp]: "calm s (t\<lparr>k_self := x\<rparr>) = calm s t" "calm (t\<lparr>k_self := x\<rparr>) s = calm t s"
  by (simp_all add: calm_def)

lemma calm_request [simp]: "calm s (request_schedule t) = calm s t"
  by (simp add: calm_def step_simps)

lemma calm_upd_proc:
  assumes "l_next (f (k_ptab s p)) = l_next (k_ptab s p)"
    and "p_state (f (k_ptab s p)) = p_state (k_ptab s p) \<or> p_state (f (k_ptab s p)) \<noteq> PROC_ACTIVE"
    and "t_active (p_timer (f (k_ptab s p))) = t_active (p_timer (k_ptab s p))"
    and "t_last_state (p_timer (f (k_ptab s p))) = t_last_state (p_timer (k_ptab s p))"
  shows "calm s (upd_proc p f s)"
  using assms by (simp add: calm_def step_simps)

lemma calm_event_deliver: "calm s (upd_proc p (event_deliver evm) s)"
  by (rule calm_upd_proc) (simp_all add: event_deliver_def)

lemma calm_make_run: "calm s (make_run s p)"
  unfolding make_run_def by (rule calm_upd_proc) simp_all

lemma calm_event_walk:
  assumes "event_walk evm p s hit = Some r"
  shows "calm s (fst r)"
proof (rule event_walk.raw_induct [where P = "\<lambda>evm p s hit r. calm s (fst r)", OF _ assms])
  fix ew evm p s hit r
  assume IH: "\<And>evm p s hit r. ew evm p s hit = Some r \<Longrightarrow> calm s (fst r)"
    and r: "(if p = k_cur s then Some (s, hit)
      else if event_hit evm (k_ptab s p)
      then let s = upd_proc p (event_deliver evm) s in ew evm (l_next (k_ptab s p)) s True
      else ew evm (l_next (k_ptab s p)) s hit) = Some r"
  show "calm s (fst r)"
    using r calm_trans [OF calm_event_deliver [of s p evm]] by (auto simp: Let_def split: if_splits dest!: IH)
qed

lemma calm_drain:
  assumes "drain deq make_run q s = Some r"
  shows "calm s (fst r)"
proof -
  have "f = make_run \<longrightarrow> calm s (fst r)" if "drain deq f q s = Some r" for f
  proof (rule drain.raw_induct [where P = "\<lambda>deq f q s r. f = make_run \<longrightarrow> calm s (fst r)", OF _ that])
    fix dr deq f q s and r :: "kern \<times> _"
    assume IH: "\<And>deq f q s r. dr deq f q s = Some r \<Longrightarrow> f = make_run \<longrightarrow> calm s (fst r)"
      and r: "(case deq q of (p, q') \<Rightarrow> if p = NULL then Some (s, q') else dr deq f q' (f s p)) = Some r"
    show "f = make_run \<longrightarrow> calm s (fst r)"
    proof
      assume f: "f = make_run"
      show "calm s (fst r)"
        using r f calm_trans [OF calm_make_run] by (auto split: prod.splits if_splits dest!: IH)
    qed
  qed
  then show ?thesis using assms by simp
qed

lemma calm_cur_only:
  "calm s (upd_proc (k_cur s) (\<lambda>p. p\<lparr>p_state := PROC_SLEEP\<rparr>) s)"
  by (rule calm_upd_proc) simp_all

lemma calm_bfifos: "calm s t \<Longrightarrow> calm s (t\<lparr>k_bfifos := f\<rparr>)" "calm (s\<lparr>k_bfifos := f\<rparr>) t \<Longrightarrow> calm s t"
  by (simp_all add: calm_def)

lemma calm_sys_wake: "sys_wake s c = Some (rc, s') \<Longrightarrow> calm s s'"
  by (auto simp: sys_wake_def Let_def split: option.splits dest!: calm_drain intro: calm_bfifos)

lemma calm_syscall_func:
  assumes "syscall_func n s arg = Inr (rc, s')"
  shows "calm s s'"
proof -
  have wait: "calm s (snd (sys_wait s arg))"
    by (auto simp: sys_wait_def Let_def split: prod.splits
        intro: calm_bfifos(2) [OF calm_upd_proc] calm_bfifos(1))
  have "calm s (snd (sys_sleep s arg))" "calm s (snd (sys_yield s arg))" "calm s (snd (sys_event_wait s arg))"
    "calm s (snd (sys_alarm s arg))" "calm s (snd (sys_utt_done s arg))"
    by (simp_all add: sys_sleep_def sys_yield_def sys_event_wait_def sys_alarm_def sys_utt_done_def Let_def calm_upd_proc)
  moreover have "calm s (snd (sys_kstat s arg))" by (simp add: sys_kstat_def calm_def)
  moreover have "calm s t" if "sys_event_set s arg = Some (r, t)" for r t
    using that by (auto simp: sys_event_set_def split: option.splits dest!: calm_event_walk)
  moreover have "calm s t" if "sys_wake s arg = Some (r, t)" for r t
    using that by (rule calm_sys_wake)
  ultimately show ?thesis
    using assms wait unfolding syscall_func_def opt_result_def
    by (fastforce split: if_splits option.splits)
qed

lemma calm_c_svc:
  assumes "c_svc s num arg = Inr (rc, s')"
  shows "calm s s'"
proof -
  let ?s = "s\<lparr>k_self := k_kernel_self s\<rparr>"
  show ?thesis
    using assms calm_syscall_func [of "unat num" ?s arg rc]
    by (auto simp: c_svc_def Let_def split: if_splits sum.splits)
qed

lemma calm_user_page_fault: "calm s (user_page_fault s)"
  unfolding user_page_fault_def by (simp add: calm_upd_proc)

lemma calm_c_irq: "calm s (h s) \<Longrightarrow> (\<And>x t. h (t\<lparr>k_self := x\<rparr>) = (h t)\<lparr>k_self := x\<rparr>) \<Longrightarrow> calm s (c_irq s (Handler h))"
  by (simp add: c_irq_def Let_def)

lemma list_add_after_other [step_simps]: "q \<noteq> a \<Longrightarrow> q \<noteq> l \<Longrightarrow> list_add_after h l a q = h q"
  by (simp add: list_add_after_def Let_def)

lemma list_add_after_fields [step_simps]:
  fixes h :: "addr \<Rightarrow> proc"
  shows "p_state (list_add_after h l a q) = p_state (h q)" "p_timer (list_add_after h l a q) = p_timer (h q)"
    "p_self (list_add_after h l a q) = p_self (h q)" "p_stack_base (list_add_after h l a q) = p_stack_base (h q)"
  by (simp_all add: list_add_after_def Let_def)

lemma spawn_kinv:
  assumes inv: "kinv B (s, live) xs" and r: "spawn s entry name mode = (p, s')" and p: "p \<noteq> NULL"
  shows "kinv B (s', new_blocks s' p @ live) (hd xs # p # tl xs)"
proof -
  have lo: "live_ok B (k_mem s, live)" and si: "sched_inv s xs" and ao: "active_ok s xs"
    and own: "insert (k_idle_task s) (set xs) \<subseteq> fst ` set live" using inv by (auto simp: kinv_def)
  obtain t where t: "do_spawn s entry name mode = (p, t)"
    using r by (auto simp: spawn_def Let_def split: prod.splits if_splits)
  obtain h xt where xs: "xs = h # xt" using si by (cases xs) (auto simp: sched_inv_def ring_def)
  then have h: "k_procs s = h" using si by (simp add: sched_inv_def)
  from lo t show ?thesis
  proof (cases rule: do_spawn_cases)
    case (success out sb sf)
    define pr where "pr = k_ptab t p"
    have tk: "k_procs t = h" "k_idle_task t = k_idle_task s" "k_cur t = k_cur s"
      "so_ptr (k_selfs t sf) = out"
      by (subst success(3), simp add: h)+
    have "k_ptab t = (k_ptab s)(p := k_ptab t p)" by (subst (1 2) success(3)) simp
    then have tt: "k_ptab t = (k_ptab s)(p := pr)" by (simp add: pr_def)
    have prs: "p_state pr = PROC_RUN" "\<not> t_active (p_timer pr)" "p_self pr = sf" "p_stack_base pr = sb"
      unfolding pr_def by (subst success(3), simp add: timer_zero_def proc_zero_def)+
    have pn: "p \<notin> fst ` set live" using success(2) by (auto simp: live_ok_def)
    then have px: "p \<notin> set xs" "p \<noteq> k_idle_task s" using own by auto
    have "h \<noteq> NULL" using si xs by (auto simp: sched_inv_def ring_def)
    then have s': "s' = t\<lparr>k_irq := True, k_ptab := list_add_after (k_ptab t) h p\<rparr>"
      using r t p tk(1) by (auto simp: spawn_def Let_def)
    have nb: "new_blocks s' p = [(out, STDOUT_SIZE), (sf, sizeof_self), (sb, PROC_STACK_SIZE), (p, sizeof_proc)]"
      using prs tk tt by (simp add: new_blocks_def s' step_simps)
    have "ring (k_ptab t) (h # xt)" using si xs px by (subst ring_cong [where h' = "k_ptab s"]) (auto simp: tt sched_inv_def)
    then have ring: "ring (k_ptab s') (h # p # xt)" using ring_add_after [of "k_ptab t" h xt p] px p by (simp add: s' xs)
    have st: "p_state (k_ptab s' q) = p_state (k_ptab s q)" "p_timer (k_ptab s' q) = p_timer (k_ptab s q)" if "q \<noteq> p" for q
      using that by (simp_all add: s' step_simps tk tt)
    have sp: "p_state (k_ptab s' p) = PROC_RUN" "\<not> t_active (p_timer (k_ptab s' p))"
      using prs by (simp_all add: s' step_simps tk tt)
    have k: "k_idle_task s' = k_idle_task s" "k_cur s' = k_cur s" "k_procs s' = h" "k_mem s' = k_mem t"
      by (simp_all add: s' tk)
    have "active_ok s' (h # p # xt)"
      unfolding active_ok_def k
    proof
      fix q assume "q \<in> insert (k_idle_task s) (set (h # p # xt))"
      then have "q = p \<or> q \<in> insert (k_idle_task s) (set xs)" by (auto simp: xs)
      then show "(p_state (k_ptab s' q) = PROC_ACTIVE \<longrightarrow> q = k_cur s) \<and>
        (t_active (p_timer (k_ptab s' q)) \<longrightarrow> t_last_state (p_timer (k_ptab s' q)) \<noteq> PROC_ACTIVE)"
        using active_okD [OF ao, of q] st [of q] sp by (cases "q = p") auto
    qed
    moreover have "sched_inv s' (h # p # xt)"
      using ring si px by (auto simp: sched_inv_def k xs)
    moreover have "live_ok B (k_mem s', new_blocks s' p @ live)" using success(2) by (simp add: nb k)
    moreover have "insert (k_idle_task s') (set (h # p # xt)) \<subseteq> fst ` set (new_blocks s' p @ live)"
      using own by (auto simp: nb k xs)
    ultimately show ?thesis by (simp add: kinv_def xs)
  qed (use p in simp)
qed

lemma spawn_fail_kinv:
  assumes inv: "kinv B (s, live) xs" and r: "spawn s entry name mode = (NULL, s')" and g: "spawn_clean (k_mem s)"
  shows "kinv B (s', live) xs"
proof -
  have lo: "live_ok B (k_mem s, live)" and own: "insert (k_idle_task s) (set xs) \<subseteq> fst ` set live"
    and si: "sched_inv s xs" and ao: "active_ok s xs" using inv by (auto simp: kinv_def)
  have t: "do_spawn s entry name mode = (NULL, s')"
    using r by (auto simp: spawn_def Let_def split: prod.splits if_splits)
  have f: "live_ok B (k_mem s', live) \<and> (\<forall>q\<in>fst ` set live. k_ptab s' q = k_ptab s q)
    \<and> k_procs s' = k_procs s \<and> k_idle_task s' = k_idle_task s \<and> k_cur s' = k_cur s"
    using lo t
  proof (cases rule: do_spawn_cases)
    case fail
    have "k_procs s' = k_procs s" "k_idle_task s' = k_idle_task s" "k_cur s' = k_cur s"
      by (subst fail(3), simp)+
    then show ?thesis using fail g by simp
  qed simp
  note p = f [THEN conjunct2, THEN conjunct2]
  have same: "k_ptab s' q = k_ptab s q" if "q \<in> insert (k_idle_task s) (set xs)" for q
    using own that f by blast
  have "ring (k_ptab s') xs = ring (k_ptab s) xs" using same by (intro ring_cong) simp
  then have "sched_inv s' xs" using si p by (simp add: sched_inv_def)
  moreover have "active_ok s' xs" using ao same p unfolding active_ok_def by (metis (no_types, lifting))
  ultimately show ?thesis using f own by (simp add: kinv_def)
qed

lemma kstep_kinv:
  assumes "kstep c c'" and "kinv B c xs"
  shows "\<exists>ys. kinv B c' ys"
  using assms(1)
proof (cases rule: kstep.cases)
  case (k_svc s num arg rc s' live)
  then show ?thesis using assms(2) calm_kinv [OF calm_c_svc] by blast
next
  case (k_fault s live)
  then show ?thesis using assms(2) calm_kinv [OF calm_user_page_fault] by blast
next
  case (k_timer s live)
  have "calm s (c_irq s (Handler timer_int))"
    by (simp add: c_irq_def Let_def timer_int_def calm_def request_schedule_def)
  then show ?thesis using k_timer assms(2) calm_kinv by blast
next
  case (k_spurious v s live)
  have "calm s (c_irq s v)" using k_spurious(3) by (auto simp: c_irq_def Let_def calm_def)
  then show ?thesis using k_spurious assms(2) calm_kinv by blast
next
  case (k_device s c rc s' live)
  have "calm s (c_irq s (Handler (\<lambda>_. s')))" using calm_sys_wake [OF k_device(3)] by (simp add: c_irq_def Let_def)
  then show ?thesis using k_device assms(2) calm_kinv by blast
next
  case (k_exit s s' live)
  have sc: "sched_inv s xs" "active_ok s xs" "live_ok B (k_mem s, live)"
    "insert (k_idle_task s) (set xs) \<subseteq> fst ` set live" using assms(2) k_exit(1) by (auto simp: kinv_def)
  have "kinv B (s', live) xs" if "schedule s = Some s'"
  proof -
    have "k_mem s' = k_mem s" "k_idle_task s' = k_idle_task s" using schedule_eq [OF sc(1)] that by auto
    then show ?thesis using schedule_inv [OF sc(1,2) that] sc(3,4) by (simp add: kinv_def)
  qed
  then show ?thesis using k_exit assms(2) by (auto simp: irq_exit_def split: if_splits)
next
  case (k_spawn s entry name mode p s' live)
  then show ?thesis using assms(2) spawn_kinv by blast
next
  case (k_spawn_fail s entry name mode s' live)
  then show ?thesis using assms(2) spawn_fail_kinv by blast
qed

lemma kreach_kinv: "kstep\<^sup>*\<^sup>* c c' \<Longrightarrow> kinv B c xs \<Longrightarrow> \<exists>ys. kinv B c' ys"
proof (induction rule: rtranclp_induct)
  case (step c1 c2)
  then show ?case using kstep_kinv by blast
qed auto

section \<open>Properties\<close>

text \<open>C7: waiting and waking. A process that waits on a completion with room in its queue goes to sleep, and a
  later wake makes it and every earlier waiter runnable, changes no other process, and leaves the queue empty; when the
  queue is full, or the completion is NULL, the call fails and changes nothing.\<close>

theorem wait_wake_round_trip:
  assumes "c \<noteq> NULL" and "w = k_completions s c" and "bfifo_ok (k_bfifos s w)"
    and "NULL \<notin> set (bfifo_list (k_bfifos s w))" and "k_cur s \<noteq> NULL"
  shows "sys_wait s NULL = (- 1, s) \<and>
    (if length (bfifo_list (k_bfifos s w)) < bfifo_cap (k_bfifos s w)
     then (\<exists>s1 s2. sys_wait s c = (0, s1) \<and> p_state (k_ptab s1 (k_cur s)) = PROC_SLEEP
       \<and> sys_wake s1 c = Some (0, s2)
       \<and> (\<forall>q\<in>insert (k_cur s) (set (bfifo_list (k_bfifos s w))). p_state (k_ptab s2 q) = PROC_RUN)
       \<and> (\<forall>q. q \<notin> insert (k_cur s) (set (bfifo_list (k_bfifos s w))) \<longrightarrow> k_ptab s2 q = k_ptab s q)
       \<and> bfifo_list (k_bfifos s2 w) = [] \<and> bfifo_cap (k_bfifos s2 w) = bfifo_cap (k_bfifos s w))
     else sys_wait s c = (- 1, s))"
proof -
  let ?f = "k_bfifos s w"
  show ?thesis
  proof (cases "length (bfifo_list ?f) < bfifo_cap ?f")
    case True
    obtain g where g: "bfifo_queue ?f (k_cur s) = (0, g)" "bfifo_ok g" "bfifo_list g = bfifo_list ?f @ [k_cur s]"
      "bfifo_cap g = bfifo_cap ?f"
      using bq.enq_room [OF assms(3) True, of "k_cur s"] by (cases "bfifo_queue ?f (k_cur s)") auto
    define s1 where "s1 = request_schedule (upd_proc (k_cur s) (\<lambda>p. p\<lparr>p_state := PROC_SLEEP\<rparr>)
      (s\<lparr>k_bfifos := (k_bfifos s)(w := g)\<rparr>))"
    have w1: "sys_wait s c = (0, s1)" using assms(1,2) g(1) by (simp add: sys_wait_def Let_def s1_def)
    have s1: "k_bfifos s1 w = g" "k_completions s1 c = w" "p_state (k_ptab s1 (k_cur s)) = PROC_SLEEP"
      by (simp_all add: s1_def step_simps assms(2))
    obtain f where f: "sys_wake s1 c = Some (0, (wake_set (set (bfifo_list g)) s1)\<lparr>k_bfifos := (k_bfifos s1)(w := f)\<rparr>)"
      "bfifo_list f = []" "bfifo_cap f = bfifo_cap g"
    proof -
      have "bfifo_ok (k_bfifos s1 w)" "NULL \<notin> set (bfifo_list (k_bfifos s1 w))" "w = k_completions s1 c"
        using s1(1,2) g(2,3) assms(4,5) by simp_all
      from sys_wake_eq [OF this] that show ?thesis unfolding s1(1) by blast
    qed
    define s2 where "s2 = (wake_set (set (bfifo_list g)) s1)\<lparr>k_bfifos := (k_bfifos s1)(w := f)\<rparr>"
    have "p_state (k_ptab s2 q) = PROC_RUN" if "q \<in> insert (k_cur s) (set (bfifo_list ?f))" for q
      using that g(3) by (auto simp: s2_def wake_set_def)
    moreover have "k_ptab s2 q = k_ptab s q" if "q \<notin> insert (k_cur s) (set (bfifo_list ?f))" for q
      using that g(3) by (simp add: s2_def wake_set_def s1_def step_simps)
    moreover have "sys_wake s1 c = Some (0, s2)" "bfifo_list (k_bfifos s2 w) = []" "bfifo_cap (k_bfifos s2 w) = bfifo_cap ?f"
      using f g(4) by (simp_all add: s2_def)
    moreover have "sys_wait s NULL = (- 1, s)" by (simp add: sys_wait_def)
    ultimately show ?thesis unfolding if_P [OF True] using w1 s1(3) by blast
  next
    case False
    then have "length (bfifo_list ?f) = bfifo_cap ?f" using bq.abs_le_cap [OF assms(3)] by simp
    then have "bfifo_queue ?f (k_cur s) = (- 1, ?f)" using bq.enq_full [OF assms(3)] by simp
    moreover have "s\<lparr>k_bfifos := (k_bfifos s)(w := ?f)\<rparr> = s" by simp
    ultimately show ?thesis unfolding if_not_P [OF False] using assms(1,2) by (simp add: sys_wait_def Let_def)
  qed
qed

text \<open>C8: \<open>sys_event_set\<close> delivers an event to exactly the other processes that wait for it: each of them
  becomes runnable and stops waiting for the delivered bits, every other process is unchanged, and a reschedule is
  requested only if there was somebody to wake. The walk over the process list always ends.\<close>

theorem sys_event_set_delivers:
  assumes "ring (k_ptab s) xs" and "k_cur s \<in> set xs"
  shows "\<exists>s'. sys_event_set s evm = Some (0, s') \<and>
    (\<forall>q. k_ptab s' q =
       (if q \<in> set xs \<and> q \<noteq> k_cur s \<and> p_event_mask (k_ptab s q) AND evm \<noteq> 0
        then (k_ptab s q)\<lparr>p_state := PROC_RUN, p_event_mask := p_event_mask (k_ptab s q) AND NOT evm\<rparr>
        else k_ptab s q)) \<and>
    (k_need_reschedule s' \<longleftrightarrow> k_need_reschedule s \<or>
       (k_sched_enabled s \<and> (\<exists>q\<in>set xs. q \<noteq> k_cur s \<and> p_event_mask (k_ptab s q) AND evm \<noteq> 0)))"
proof -
  let ?e = "event_step evm s (set xs - {k_cur s})"
  let ?hit = "\<exists>q\<in>set xs - {k_cur s}. event_hit evm (k_ptab s q)"
  have "k_ptab ?e q = (if q \<in> set xs \<and> q \<noteq> k_cur s \<and> p_event_mask (k_ptab s q) AND evm \<noteq> 0
        then (k_ptab s q)\<lparr>p_state := PROC_RUN, p_event_mask := p_event_mask (k_ptab s q) AND NOT evm\<rparr>
        else k_ptab s q)" for q
    by (simp add: event_step_def event_hit_def event_deliver_def)
  moreover have "?hit \<longleftrightarrow> (\<exists>q\<in>set xs. q \<noteq> k_cur s \<and> p_event_mask (k_ptab s q) AND evm \<noteq> 0)"
    by (auto simp: event_hit_def)
  moreover have "k_need_reschedule ?e = k_need_reschedule s" "k_sched_enabled ?e = k_sched_enabled s"
    by (simp_all add: event_step_def)
  ultimately show ?thesis
    using sys_event_set_eq [OF assms, of evm]
    by (intro exI [of _ "if ?hit then request_schedule ?e else ?e"]) (cases ?hit; simp add: request_schedule_def; blast)
qed

text \<open>the dispatcher. Numbers above the size of the table are refused without an effect; the number that
  equals its size passes the test and calls through the word behind the table, and that is what
  \<open>netstat_get\<close> does in a kernel without networking.\<close>

theorem c_svc_out_of_range:
  "c_svc s 10 arg = Inl Bad_Jump \<and> netstat_get s arg = Inl Bad_Jump \<and>
   (10 < unat num \<longrightarrow> c_svc s num arg = Inr (- 1, s\<lparr>k_self := p_self (cur_proc s)\<rparr>))"
  by (simp add: c_svc_def netstat_get_def syscall_arm_def syscall_table_len_def syscall_func_def syscall_nums cur_proc_def Let_def)

text \<open>how long \<open>sleep\<close> sleeps. The process is asleep afterwards, and when the scheduler looks at it at
  a later tick it is runnable exactly when the tenth part of the requested milliseconds has passed. The comparison
  is of absolute 32-bit times: when the wake-up time wraps around, the process does not sleep at all.\<close>

theorem sleep_wake_time:
  assumes "sleep s ms = Inr (rc, s')" and "k_clkticks s \<le> now"
  shows "p_state (k_ptab s' (k_cur s)) = PROC_SLEEP \<and>
    (p_state (check_sleep now (k_ptab s' (k_cur s))) = PROC_RUN \<longleftrightarrow>
      (if unat (k_clkticks s) + unat ms div 10 < 2 ^ 32
       then unat (k_clkticks s) + unat ms div 10 \<le> unat now else True))"
proof -
  have e: "k_ptab s' (k_cur s) = (k_ptab s (k_cur s))\<lparr>p_state := PROC_SLEEP,
      p_timer := (p_timer (k_ptab s (k_cur s)))\<lparr>t_ticks_wakeup := k_clkticks s + ms div 10\<rparr>\<rparr>"
    using assms(1)
    by (auto simp: sleep_def syscall_arm_def c_svc_def syscall_nums syscall_table_len_def syscall_func_def sys_sleep_def
        ms_to_clkticks_def step_simps Let_def)
  have d: "unat (ms div 10) = unat ms div 10" by (simp add: unat_div)
  have "k_clkticks s + ms div 10 \<le> now \<longleftrightarrow> (if unat (k_clkticks s) + unat ms div 10 < 2 ^ 32
       then unat (k_clkticks s) + unat ms div 10 \<le> unat now else True)"
  proof (cases "unat (k_clkticks s) + unat ms div 10 < 2 ^ 32")
    case True
    then have "unat (k_clkticks s + ms div 10) = unat (k_clkticks s) + unat ms div 10"
      unfolding d [symmetric] by (subst unat_add_lem [THEN iffD1]) auto
    then show ?thesis using True by (simp add: word_le_nat_alt)
  next
    case False
    have "unat (k_clkticks s + ms div 10) = (unat (k_clkticks s) + unat ms div 10) mod 2 ^ 32"
      by (simp add: unat_word_ariths(1) d mod_simps)
    also have "\<dots> = unat (k_clkticks s) + unat ms div 10 - 2 ^ 32"
      using False unat_u32_bound [of "k_clkticks s"] unat_u32_bound [of "ms div 10"] d by (simp add: mod_if)
    finally have "k_clkticks s + ms div 10 < k_clkticks s"
      using False unat_u32_bound [of "ms div 10"] d by (simp add: word_less_nat_alt)
    then show ?thesis using False assms(2) by simp
  qed
  then show ?thesis by (simp add: e check_sleep_def)
qed

text \<open>Whatever the kernel has counted, the caller of \<open>kstat_get\<close> is told zero: the system call clears the caller's structure
  and never copies the counters. The result is the number of the call.\<close>

theorem kstat_get_reports_zero:
  "\<exists>s'. kstat_get s p = Inr (9, s') \<and> k_user_kstat s' p = 0 \<and> k_kstat s' = k_kstat s"
  by (simp add: kstat_get_def syscall_arm_def c_svc_def syscall_nums syscall_table_len_def syscall_func_def sys_kstat_def Let_def)

text \<open>\<open>sem_down\<close> does not block. The second process that finds the semaphore taken is linked behind
  the first waiter with the list node the scheduler uses, and keeps running: when it is the first waiter's successor on
  the run list, its node then points to itself and the list is not a ring of the processes any more.\<close>

theorem sem_down_breaks_ring:
  assumes "sem_cur m = 0" and "sem_wait m = a" and "a \<noteq> NULL" and "l_next (k_ptab s a) = k_cur s"
    and "a \<noteq> k_cur s" and "sem_down ok s m = (s', m')"
  shows "l_next (k_ptab s' (k_cur s)) = k_cur s \<and> p_state (k_ptab s' (k_cur s)) = p_state (k_ptab s (k_cur s))
    \<and> (\<forall>xs. {a, k_cur s} \<subseteq> set xs \<longrightarrow> \<not> ring (k_ptab s') xs)"
proof -
  have s': "s' = s\<lparr>k_ptab := list_add_after (k_ptab s) a (k_cur s)\<rparr>"
    using assms by (simp add: sem_down_def sem_try_down_def)
  then have nx: "l_next (k_ptab s' (k_cur s)) = k_cur s" using assms(4,5) by (simp add: step_simps)
  have "\<not> ring (k_ptab s') xs" if xs: "{a, k_cur s} \<subseteq> set xs" for xs
  proof
    assume r: "ring (k_ptab s') xs"
    have c: "k_cur s \<in> set xs" using xs by simp
    obtain us vs where o: "xs = us @ k_cur s # vs" "k_cur s \<notin> set us" "after (k_cur s) xs = vs @ us @ [k_cur s]"
      using c by (rule after_obtain)
    have "hd ((vs @ us) @ [k_cur s]) = k_cur s" using ring_after [OF r c] nx o(3) by simp
    moreover have "k_cur s \<notin> set (vs @ us)" using r o(1) by (simp add: ring_def)
    ultimately have "vs @ us = []" by (metis hd_append2 hd_in_set)
    then show False using xs o(1) assms(5) by auto
  qed
  then show ?thesis using nx by (simp add: s' step_simps)
qed

text \<open>Witnesses on the two-process kernel of Sched: with a completion at \<open>0x50\<close> whose queue is at \<open>0x60\<close>,
  and with the second process waiting for event 1.\<close>

definition kern2w :: kern where
  "kern2w = (kern2 0x100)\<lparr>k_completions := (\<lambda>_. 0x60), k_bfifos := (\<lambda>_. bfifo_init 4),
     k_ptab := (\<lambda>a. (k_ptab (kern2 0x100) a)\<lparr>p_event_mask := 1\<rparr>)\<rparr>"

lemma kern2w_sel: "k_cur kern2w = 0x100" "k_completions kern2w c = 0x60" "k_bfifos kern2w w = bfifo_init 4"
  "k_sched_enabled kern2w" "p_event_mask (k_ptab kern2w a) = 1" "l_next (k_ptab kern2w a) = l_next (k_ptab (kern2 0x100) a)"
  by (simp_all add: kern2w_def kern2_sel kern2_def)

theorem wait_wake_round_trip_witness:
  "\<exists>s1 s2. sys_wait kern2w 0x50 = (0, s1) \<and> sys_wake s1 0x50 = Some (0, s2) \<and> p_state (k_ptab s2 0x100) = PROC_RUN"
proof -
  have "bfifo_ok (bfifo_init 4)" "bfifo_list (bfifo_init 4) = []" "bfifo_cap (bfifo_init 4) = 4"
    using bfifo_init_ok [of 4] by auto
  then show ?thesis using wait_wake_round_trip [of "0x50" "0x60" kern2w] by (auto simp: kern2w_sel)
qed

theorem sys_event_set_delivers_witness:
  "\<exists>s'. sys_event_set kern2w 3 = Some (0, s') \<and> p_state (k_ptab s' 0x200) = PROC_RUN \<and> k_need_reschedule s'"
proof -
  have "ring (k_ptab kern2w) [0x100, 0x200]"
    using kern2_inv [of "0x100"] by (subst ring_cong [where h' = "k_ptab (kern2 0x100)"]) (simp_all add: kern2w_sel sched_inv_def)
  from sys_event_set_delivers [OF this, of 3] obtain s' where "sys_event_set kern2w 3 = Some (0, s')"
    "k_ptab s' 0x200 = (k_ptab kern2w 0x200)\<lparr>p_state := PROC_RUN, p_event_mask := 1 AND NOT 3\<rparr>" "k_need_reschedule s'"
    by (auto simp: kern2w_sel)
  then show ?thesis by auto
qed

theorem c_svc_out_of_range_witness:
  "c_svc kern2w 11 7 = Inr (- 1, kern2w\<lparr>k_self := p_self (cur_proc kern2w)\<rparr>)"
  using c_svc_out_of_range [of kern2w 7 11] by simp

theorem sleep_wake_time_witness:
  "\<exists>rc s'. sleep (kern2 0x100) 50 = Inr (rc, s') \<and> p_state (check_sleep 4 (k_ptab s' 0x100)) \<noteq> PROC_RUN
    \<and> p_state (check_sleep 5 (k_ptab s' 0x100)) = PROC_RUN"
proof -
  obtain rc s' where r: "sleep (kern2 0x100) 50 = Inr (rc, s')"
    by (simp add: sleep_def syscall_arm_def c_svc_def syscall_nums syscall_table_len_def syscall_func_def sys_sleep_def Let_def)
  have c: "k_clkticks (kern2 0x100) = 0" by (simp add: kern2_def kern0_def)
  show ?thesis
    using r sleep_wake_time [OF r, of 4] sleep_wake_time [OF r, of 5] by (simp add: c kern2_sel)
qed

theorem sem_down_breaks_ring_witness:
  "\<not> ring (k_ptab (fst (sem_down True (kern2 0x200)
     \<lparr>sem_cur = 0, sem_max = 1, sem_id = [], sem_wait = 0x100\<rparr>))) [0x100, 0x200]"
  using sem_down_breaks_ring [of "\<lparr>sem_cur = 0, sem_max = 1, sem_id = [], sem_wait = 0x100\<rparr>" "0x100" "kern2 0x200" True]
  by (cases "sem_down True (kern2 0x200) \<lparr>sem_cur = 0, sem_max = 1, sem_id = [], sem_wait = 0x100\<rparr>")
    (simp add: kern2_sel)

end
