(* ===== verification/LibString.thy ===== *)
theory LibString
  imports Prelude
begin

text \<open>
  lib/string.c over a byte-addressed 32-bit memory. Every routine takes the memory and returns
  the memory it leaves; loops that only a terminating NUL stops are \<open>option\<close>-valued, \<open>None\<close>
  meaning that the loop does not end. \<open>char\<close> is unsigned on the ARM target.
\<close>

section \<open>Definitions\<close>

type_synonym mem = "addr \<Rightarrow> u8"

primrec memset_loop :: "nat \<Rightarrow> mem \<Rightarrow> addr \<Rightarrow> u8 \<Rightarrow> mem" where
  "memset_loop 0 m s c = m"
| "memset_loop (Suc n) m s c = memset_loop n (m(s := c)) (s + 1) c"

definition memset :: "mem \<Rightarrow> addr \<Rightarrow> u32 \<Rightarrow> u32 \<Rightarrow> mem" where
  "memset m s c n = memset_loop (unat n) m s (ucast (c AND 0xff))"

primrec memcpy_loop :: "nat \<Rightarrow> mem \<Rightarrow> addr \<Rightarrow> addr \<Rightarrow> mem" where
  "memcpy_loop 0 m dest src = m"
| "memcpy_loop (Suc n) m dest src = memcpy_loop n (m(dest := m src)) (dest + 1) (src + 1)"

definition memcpy :: "mem \<Rightarrow> addr \<Rightarrow> addr \<Rightarrow> u32 \<Rightarrow> mem" where
  "memcpy m dest src n = (if dest = src then m else memcpy_loop (unat n) m dest src)"

primrec memcpy_reverse_loop :: "nat \<Rightarrow> mem \<Rightarrow> addr \<Rightarrow> addr \<Rightarrow> mem" where
  "memcpy_reverse_loop 0 m dest src = m"
| "memcpy_reverse_loop (Suc n) m dest src =
     memcpy_reverse_loop n (m(dest := m src)) (dest - 1) (src - 1)"

definition memmove :: "mem \<Rightarrow> addr \<Rightarrow> addr \<Rightarrow> u32 \<Rightarrow> mem" where
  "memmove m dest src n =
     (if dest = src then m
      else if dest < src then memcpy m dest src n
      else memcpy_reverse_loop (unat n) m (dest + (n - 1)) (src + (n - 1)))"

partial_function (option) strcpy :: "mem \<Rightarrow> addr \<Rightarrow> addr \<Rightarrow> mem option" where
  "strcpy m dest src =
     (let m' = m(dest := m src)
      in if m' src \<noteq> 0 then strcpy m' (dest + 1) (src + 1) else Some m')"

text \<open>The copy loop of \<open>strncpy\<close>; it returns the remaining count, decremented only when the
  left operand of \<open>&&\<close> let the evaluation reach \<open>--n\<close>.\<close>

function strncpy_copy :: "mem \<Rightarrow> addr \<Rightarrow> addr \<Rightarrow> u32 \<Rightarrow> mem \<times> addr \<times> u32" where
  "strncpy_copy m dest src n =
     (let m' = m(dest := m src)
      in if m' src \<noteq> 0
         then (if n - 1 > 0 then strncpy_copy m' (dest + 1) (src + 1) (n - 1)
               else (m', dest + 1, n - 1))
         else (m', dest + 1, n))"
  by pat_completeness auto
termination
proof (relation "measure (\<lambda>(m, dest, src, n). unat (n - 1))", goal_cases)
  case 1
  show ?case by simp
next
  case (2 m dest src n)
  then have "0 < unat (n - 1)" by (simp add: word_less_nat_alt)
  then have "unat (n - 1 - 1) = unat (n - 1) - 1" by (intro unat_minus_one) (auto simp: unat_gt_0)
  with \<open>0 < unat (n - 1)\<close> show ?case by simp
qed

definition strncpy :: "mem \<Rightarrow> addr \<Rightarrow> addr \<Rightarrow> u32 \<Rightarrow> mem" where
  "strncpy m dest src n =
     (let (m, dest, n) = strncpy_copy m dest src n
      in memset_loop (unat n) m dest 0)"

partial_function (option) strcmp :: "mem \<Rightarrow> addr \<Rightarrow> addr \<Rightarrow> int option" where
  "strcmp m s1 s2 =
     (if m s1 < m s2 then Some (- 1)
      else if m s1 > m s2 then Some 1
      else if m (s1 + 1) \<noteq> 0 \<and> m (s2 + 1) \<noteq> 0 then strcmp m (s1 + 1) (s2 + 1)
      else Some (if m (s1 + 1) \<noteq> 0 \<or> m (s2 + 1) \<noteq> 0 then 1 else 0))"

partial_function (option) strlen_loop :: "mem \<Rightarrow> addr \<Rightarrow> u32 \<Rightarrow> u32 option" where
  "strlen_loop m s len = (if m s \<noteq> 0 then strlen_loop m (s + 1) (len + 1) else Some len)"

definition strlen :: "mem \<Rightarrow> addr \<Rightarrow> u32 option" where
  "strlen m s = strlen_loop m s 0"

partial_function (option) atoi_loop :: "mem \<Rightarrow> addr \<Rightarrow> u32 \<Rightarrow> u32 option" where
  "atoi_loop m p val =
     (if m p \<ge> 0x30 \<and> m p \<le> 0x39
      then atoi_loop m (p + 1) (val * 10 + (ucast (m p) - 0x30))
      else Some val)"

definition atoi :: "mem \<Rightarrow> addr \<Rightarrow> u32 option" where
  "atoi m str =
     (let neg = (m str = 0x2d);
          p = (if neg then str + 1 else str)
      in map_option (\<lambda>val. if neg then NOT val + 1 else val) (atoi_loop m p 0))"

declare strncpy_copy.simps [simp del]

section \<open>Strings in memory\<close>

text \<open>\<open>cstr m p s\<close>: the NUL-terminated string at \<open>p\<close> is \<open>s\<close>.\<close>

fun cstr :: "mem \<Rightarrow> addr \<Rightarrow> u8 list \<Rightarrow> bool" where
  "cstr m p [] \<longleftrightarrow> m p = 0"
| "cstr m p (c # cs) \<longleftrightarrow> m p = c \<and> c \<noteq> 0 \<and> cstr m (p + 1) cs"

text \<open>The \<open>n\<close> bytes from \<open>p\<close> on.\<close>

definition mem_bytes :: "mem \<Rightarrow> addr \<Rightarrow> nat \<Rightarrow> u8 list" where
  "mem_bytes m p n = map (\<lambda>i. m (p + of_nat i)) [0..<n]"

lemma mem_bytes_Suc: "mem_bytes m p (Suc n) = m p # mem_bytes m (p + 1) n"
  by (simp add: mem_bytes_def map_upt_Suc add.assoc del: upt_Suc)

section \<open>Block moves\<close>

lemma unat_plus_one_u32: "unat x < 2 ^ 32 - 1 \<Longrightarrow> unat (x + 1 :: u32) = unat x + 1"
  by (subst unat_add_lem [THEN iffD1]) auto

lemma unat_minus_one_u32: "0 < unat x \<Longrightarrow> unat (x - 1 :: u32) = unat x - 1"
  by (rule unat_minus_one) (auto simp: unat_gt_0)

lemma memset_loop_eq:
  assumes "unat s + n \<le> 2 ^ 32"
  shows "memset_loop n m s c x = (if unat s \<le> unat x \<and> unat x < unat s + n then c else m x)"
  using assms
proof (induction n arbitrary: m s)
  case (Suc n)
  show ?case
  proof (cases n)
    case 0
    then show ?thesis using word_unat_eq_iff [of x s] by auto
  next
    case (Suc k)
    with Suc.prems have "unat (s + 1) = unat s + 1" by (intro unat_plus_one_u32) simp
    moreover have "memset_loop n (m(s := c)) (s + 1) c x =
      (if unat (s + 1) \<le> unat x \<and> unat x < unat (s + 1) + n then c else (m(s := c)) x)"
      by (rule Suc.IH) (use \<open>unat (s + 1) = unat s + 1\<close> Suc.prems in simp)
    ultimately show ?thesis using word_unat_eq_iff [of x s] by auto
  qed
qed auto

lemma memcpy_loop_eq:
  assumes "dest < src" and "unat src + n \<le> 2 ^ 32"
  shows "memcpy_loop n m dest src x =
    (if unat dest \<le> unat x \<and> unat x < unat dest + n then m (src + (x - dest)) else m x)"
  using assms
proof (induction n arbitrary: m dest src)
  case (Suc n)
  show ?case
  proof (cases n)
    case 0
    then show ?thesis using word_unat_eq_iff [of x dest] by auto
  next
    case (Suc k)
    with Suc.prems have s: "unat (src + 1) = unat src + 1" by (intro unat_plus_one_u32) simp
    from Suc.prems have "unat dest < unat src" by (simp add: word_less_nat_alt)
    with Suc Suc.prems have d: "unat (dest + 1) = unat dest + 1" by (intro unat_plus_one_u32) simp
    have lt: "dest + 1 < src + 1" using s d Suc.prems(1) by (simp add: word_less_nat_alt)
    have IH: "memcpy_loop n (m(dest := m src)) (dest + 1) (src + 1) x =
      (if unat (dest + 1) \<le> unat x \<and> unat x < unat (dest + 1) + n
       then (m(dest := m src)) (src + 1 + (x - (dest + 1))) else (m(dest := m src)) x)"
      by (rule Suc.IH [OF lt]) (use s Suc.prems in simp)
    show ?thesis
    proof (cases "unat dest + 1 \<le> unat x \<and> unat x < unat dest + 1 + n")
      case True
      then have xd: "unat (x - dest) = unat x - unat dest"
        by (intro unat_sub) (simp add: word_le_nat_alt)
      have "unat (src + (x - dest)) = unat src + unat (x - dest)"
        using xd True Suc.prems(2) \<open>unat dest < unat src\<close> by (intro unat_add_lem [THEN iffD1]) auto
      then have "src + (x - dest) \<noteq> dest"
        using \<open>unat dest < unat src\<close> by (metis not_add_less1)
      moreover have "src + 1 + (x - (dest + 1)) = src + (x - dest)" by simp
      ultimately show ?thesis using IH True d by simp
    next
      case False
      with IH d show ?thesis using word_unat_eq_iff [of x dest] by auto
    qed
  qed
qed auto

lemma memcpy_reverse_loop_eq:
  assumes "src < dest" and "n \<le> unat src + 1"
  shows "memcpy_reverse_loop n m dest src x =
    (if unat x \<le> unat dest \<and> unat dest < unat x + n then m (src - (dest - x)) else m x)"
  using assms
proof (induction n arbitrary: m dest src)
  case (Suc n)
  have lt: "unat src < unat dest" using Suc.prems(1) by (simp add: word_less_nat_alt)
  show ?case
  proof (cases n)
    case 0
    then show ?thesis using word_unat_eq_iff [of x dest] by auto
  next
    case (Suc k)
    with Suc.prems have s: "unat (src - 1) = unat src - 1" by (intro unat_minus_one_u32) simp
    have d: "unat (dest - 1) = unat dest - 1" using lt by (intro unat_minus_one_u32) simp
    have lt': "src - 1 < dest - 1" using s d lt Suc Suc.prems by (simp add: word_less_nat_alt)
    have IH: "memcpy_reverse_loop n (m(dest := m src)) (dest - 1) (src - 1) x =
      (if unat x \<le> unat (dest - 1) \<and> unat (dest - 1) < unat x + n
       then (m(dest := m src)) (src - 1 - (dest - 1 - x)) else (m(dest := m src)) x)"
      by (rule Suc.IH [OF lt']) (use s Suc Suc.prems in simp)
    show ?thesis
    proof (cases "unat x \<le> unat dest - 1 \<and> unat dest - 1 < unat x + n")
      case True
      then have xd: "unat (dest - x) = unat dest - unat x"
        using lt by (intro unat_sub) (auto simp: word_le_nat_alt)
      have "unat (src - (dest - x)) = unat src - unat (dest - x)"
        using xd True Suc.prems by (intro unat_sub) (auto simp: word_le_nat_alt)
      then have ne: "src - (dest - x) \<noteq> dest" using lt by (metis diff_le_self not_less)
      have "src - 1 - (dest - 1 - x) = src - (dest - x)" by simp
      then have "(m(dest := m src)) (src - 1 - (dest - 1 - x)) = m (src - (dest - x))"
        by (simp only: fun_upd_other [OF ne])
      then show ?thesis using IH True d lt by (simp only: memcpy_reverse_loop.simps) auto
    next
      case False
      with IH d lt show ?thesis using word_unat_eq_iff [of x dest] by auto
    qed
  qed
qed auto

lemma memmove_eq:
  assumes "unat dest + unat n \<le> 2 ^ 32" and "unat src + unat n \<le> 2 ^ 32"
  shows "memmove m dest src n x =
    (if unat dest \<le> unat x \<and> unat x < unat dest + unat n then m (src + (x - dest)) else m x)"
proof -
  consider "dest = src" | "dest < src" | "src < dest" by fastforce
  then show ?thesis
  proof cases
    case 1
    then show ?thesis by (simp add: memmove_def)
  next
    case 2
    then show ?thesis using assms by (auto simp: memmove_def memcpy_def memcpy_loop_eq)
  next
    case 3
    show ?thesis
    proof (cases "n = 0")
      case True
      with 3 show ?thesis by (auto simp: memmove_def memcpy_def)
    next
      case False
      then have n: "unat (n - 1) = unat n - 1" "0 < unat n"
        by (auto simp: unat_minus_one unat_gt_0)
      have d: "unat (dest + (n - 1)) = unat dest + (unat n - 1)"
        using assms(1) n by (subst unat_add_lem [THEN iffD1]) auto
      have s: "unat (src + (n - 1)) = unat src + (unat n - 1)"
        using assms(2) n by (subst unat_add_lem [THEN iffD1]) auto
      have "src + (n - 1) < dest + (n - 1)" using 3 d s by (simp add: word_less_nat_alt)
      then show ?thesis using 3 d s n
        by (auto simp: memmove_def memcpy_reverse_loop_eq algebra_simps)
    qed
  qed
qed

section \<open>Strings\<close>

lemma strlen_loop_cstr: "cstr m p s \<Longrightarrow> strlen_loop m p n = Some (n + of_nat (length s))"
  by (induction s arbitrary: p n) (auto simp: strlen_loop.simps)

text \<open>The string occupies addresses that do not wrap.\<close>

lemma cstr_byte: "cstr m p s \<Longrightarrow> i < length s \<Longrightarrow> m (p + of_nat i) = s ! i \<and> s ! i \<noteq> 0"
proof (induction s arbitrary: p i)
  case (Cons c cs)
  then show ?case using Cons.IH [of "p + 1" "i - 1"] by (cases i) (auto simp: add.assoc)
qed simp

lemma strcmp_cstr:
  assumes "cstr m p s" and "cstr m q t" and "s \<noteq> [] \<or> t \<noteq> []"
  shows "\<exists>r. strcmp m p q = Some r \<and> (r = 0 \<longleftrightarrow> s = t)"
  using assms
proof (induction s arbitrary: p q t)
  case Nil
  then obtain c cs where t: "t = c # cs" by (cases t) auto
  with Nil.prems have "m p < m q" by (simp add: word_gt_0)
  then have "strcmp m p q = Some (- 1)" by (subst strcmp.simps) simp
  then show ?case using t by simp
next
  case (Cons a as)
  show ?case
  proof (cases t)
    case Nil
    with Cons.prems have "m p > m q" by (simp add: word_gt_0)
    then have "strcmp m p q = Some 1" by (subst strcmp.simps) (auto simp: not_less_iff_gr_or_eq)
    then show ?thesis using Nil by simp
  next
    case t: (Cons b bs)
    note pr = Cons.prems [unfolded t cstr.simps]
    show ?thesis
    proof (cases "a = b")
      case False
      then have "m p < m q \<or> m p > m q" using pr by (simp add: neq_iff)
      then have "\<exists>r. strcmp m p q = Some r \<and> r \<noteq> 0" by (subst strcmp.simps) auto
      then show ?thesis using False t by auto
    next
      case eq: True
      show ?thesis
      proof (cases "as = [] \<or> bs = []")
        case True
        then have "m (p + 1) = 0 \<or> m (q + 1) = 0" using pr by auto
        moreover have "(m (p + 1) \<noteq> 0 \<or> m (q + 1) \<noteq> 0) \<longleftrightarrow> as \<noteq> bs"
          using True pr by (cases as; cases bs) auto
        ultimately show ?thesis using pr eq t by (subst strcmp.simps) auto
      next
        case False
        then have "m (p + 1) \<noteq> 0 \<and> m (q + 1) \<noteq> 0" using pr by (cases as; cases bs) auto
        then have "strcmp m p q = strcmp m (p + 1) (q + 1)"
          using pr eq by (subst strcmp.simps) auto
        moreover have "\<exists>r. strcmp m (p + 1) (q + 1) = Some r \<and> (r = 0 \<longleftrightarrow> as = bs)"
          using Cons.IH [of "p + 1" "q + 1" bs] pr False by auto
        ultimately show ?thesis using eq t by auto
      qed
    qed
  qed
qed

subsection \<open>strncpy\<close>

lemma strncpy_copy_short:
  assumes "cstr m src s" and "length s < unat n" and "dest \<le> src"
    and "unat src + length s < 2 ^ 32 - 1"
  shows "\<exists>m'. strncpy_copy m dest src n = (m', dest + of_nat (length s) + 1, n - of_nat (length s))
    \<and> (\<forall>x. m' x = (if unat dest \<le> unat x \<and> unat x \<le> unat dest + length s then m (src + (x - dest)) else m x))"
  using assms
proof (induction s arbitrary: m dest src n)
  case Nil
  then have "strncpy_copy m dest src n = (m(dest := m src), dest + 1, n)"
    by (subst strncpy_copy.simps) (auto simp: Let_def)
  moreover have "(m(dest := m src)) x = (if unat dest \<le> unat x \<and> unat x \<le> unat dest + length []
      then m (src + (x - dest)) else m x)" for x
    using word_unat_eq_iff [of x dest] by auto
  ultimately show ?case by simp
next
  case (Cons c cs)
  let ?m = "m(dest := m src)"
  have le: "unat dest \<le> unat src" using Cons.prems(3) by (simp add: word_le_nat_alt)
  have s: "unat (src + 1) = unat src + 1" using Cons.prems(4) by (intro unat_plus_one_u32) simp
  have d: "unat (dest + 1) = unat dest + 1" using Cons.prems(4) le by (intro unat_plus_one_u32) simp
  have n: "unat (n - 1) = unat n - 1" using Cons.prems(2) by (intro unat_minus_one_u32) simp
  have src: "?m src = c" "c \<noteq> 0" using Cons.prems(1) by auto
  have step: "strncpy_copy m dest src n = strncpy_copy ?m (dest + 1) (src + 1) (n - 1)"
    using src Cons.prems(2) n by (subst strncpy_copy.simps) (auto simp: Let_def word_less_nat_alt)
  have same: "cstr ?m p t \<longleftrightarrow> cstr m p t" if "unat dest < unat p" "unat p + length t < 2 ^ 32" for p t
    using that
  proof (induction t arbitrary: p)
    case Nil
    then show ?case by (cases "p = dest") auto
  next
    case (Cons b bs)
    then have "unat (p + 1) = unat p + 1" by (intro unat_plus_one_u32) simp
    with Cons show ?case by auto
  qed
  have "cstr ?m (src + 1) cs" using Cons.prems s le by (subst same) auto
  moreover have "length cs < unat (n - 1)" using Cons.prems(2) n by auto
  moreover have "dest + 1 \<le> src + 1" using s d le by (simp add: word_le_nat_alt)
  moreover have "unat (src + 1) + length cs < 2 ^ 32 - 1" using Cons.prems(4) s by simp
  ultimately obtain m' where
    m': "strncpy_copy ?m (dest + 1) (src + 1) (n - 1) =
        (m', dest + 1 + of_nat (length cs) + 1, n - 1 - of_nat (length cs))"
    and x: "\<And>x. m' x = (if unat dest + 1 \<le> unat x \<and> unat x \<le> unat dest + 1 + length cs
        then ?m (src + 1 + (x - (dest + 1))) else ?m x)"
    using Cons.IH [of ?m "src + 1" "n - 1" "dest + 1"] d by (auto simp del: fun_upd_apply)
  have "m' x = (if unat dest \<le> unat x \<and> unat x \<le> unat dest + length (c # cs)
      then m (src + (x - dest)) else m x)" for x
  proof (cases "unat dest + 1 \<le> unat x \<and> unat x \<le> unat dest + 1 + length cs")
    case True
    then have xd: "unat (x - dest) = unat x - unat dest"
      by (intro unat_sub) (auto simp: word_le_nat_alt)
    have "unat (src + (x - dest)) = unat src + unat (x - dest)"
      using xd True Cons.prems(4) by (intro unat_add_lem [THEN iffD1]) auto
    then have "unat dest < unat (src + (x - dest))" using xd True le by linarith
    then have "src + (x - dest) \<noteq> dest" by (metis less_irrefl)
    then show ?thesis using x [of x] True by auto
  next
    case False
    then show ?thesis using x [of x] word_unat_eq_iff [of x dest] by auto
  qed
  then show ?case using step m' by (auto simp: algebra_simps)
qed

text \<open>C30: \<open>memmove\<close> copies \<open>n\<close> bytes correctly for every pair of regions of the address space,
  overlapping or not, in either direction, and changes nothing else.\<close>

theorem memmove_correct:
  assumes "unat dest + unat n \<le> 2 ^ 32" and "unat src + unat n \<le> 2 ^ 32"
  shows "(\<forall>i < unat n. memmove m dest src n (dest + of_nat i) = m (src + of_nat i))
    \<and> (\<forall>x. (unat x < unat dest \<or> unat dest + unat n \<le> unat x) \<longrightarrow> memmove m dest src n x = m x)"
proof (intro conjI allI impI)
  fix i assume i: "i < unat n"
  then have "unat (of_nat i :: u32) = i" using unat_u32_bound [of n] by (simp add: unat_of_nat take_bit_nat_eq_self)
  moreover from this have "unat (dest + of_nat i) = unat dest + i"
    using assms(1) i by (subst unat_add_lem [THEN iffD1]) auto
  ultimately show "memmove m dest src n (dest + of_nat i) = m (src + of_nat i)"
    using i by (simp add: memmove_eq [OF assms])
qed (auto simp: memmove_eq [OF assms])

theorem memmove_correct_witness:
  "memmove (\<lambda>a. ucast a) 0x102 0x100 4 0x105 = 3 \<and> memmove (\<lambda>a. ucast a) 0x102 0x100 4 0x106 = 6"
proof
  show "memmove (\<lambda>a. ucast a) 0x102 0x100 4 0x105 = 3"
    using memmove_correct [of "0x102" 4 "0x100" "\<lambda>a. ucast a", THEN conjunct1, rule_format, of 3] by simp
  show "memmove (\<lambda>a. ucast a) 0x102 0x100 4 0x106 = 6"
    using memmove_correct [of "0x102" 4 "0x100" "\<lambda>a. ucast a", THEN conjunct2, rule_format, of "0x106"] by simp
qed

text \<open>comparing two NUL-terminated strings of which at least one is not empty terminates, and
  returns 0 exactly when the strings are equal.\<close>

theorem strcmp_zero_iff_equal:
  assumes "cstr m p s" and "cstr m q t" and "s \<noteq> [] \<or> t \<noteq> []"
  shows "\<exists>r. strcmp m p q = Some r \<and> (r = 0 \<longleftrightarrow> s = t)"
  using assms by (rule strcmp_cstr)

text \<open>A memory that holds the given bytes from address \<open>p\<close> on, and zeros elsewhere.\<close>

definition mem_of :: "addr \<Rightarrow> u8 list \<Rightarrow> mem" where
  "mem_of p bs = (\<lambda>a. let i = unat (a - p) in if i < length bs then bs ! i else 0)"

theorem strcmp_zero_iff_equal_witness:
  "\<exists>r. strcmp (mem_of 8 [0x70, 0x73, 0, 0x70, 0]) 8 11 = Some r \<and> (r = 0 \<longleftrightarrow> [0x70, 0x73 :: u8] = [0x70])"
  by (rule strcmp_zero_iff_equal) (simp_all add: mem_of_def)

text \<open>copying a string shorter than the limit \<open>n\<close> with \<open>strncpy\<close> stores the string and NULs up to
  and including \<open>dest[n]\<close>: one byte more than the \<open>n\<close> bytes the caller reserved.\<close>

theorem strncpy_short_writes_past_limit:
  assumes "cstr m src s" and "length s < unat n" and "dest \<le> src"
    and "unat src + length s < 2 ^ 32 - 1" and "unat dest + unat n < 2 ^ 32 - 1"
  shows "(\<forall>i \<le> unat n. strncpy m dest src n (dest + of_nat i) = (if i < length s then s ! i else 0))
    \<and> (\<forall>x. unat x < unat dest \<or> unat dest + unat n < unat x \<longrightarrow> strncpy m dest src n x = m x)"
proof -
  let ?l = "length s"
  obtain m' where m': "strncpy_copy m dest src n = (m', dest + of_nat ?l + 1, n - of_nat ?l)"
    and x: "\<And>x. m' x = (if unat dest \<le> unat x \<and> unat x \<le> unat dest + ?l then m (src + (x - dest)) else m x)"
    using strncpy_copy_short [OF assms(1-4)] by blast
  have l: "unat (of_nat ?l :: u32) = ?l"
    using assms(2) unat_u32_bound [of n] by (simp add: unat_of_nat take_bit_nat_eq_self)
  have n: "unat (n - of_nat ?l) = unat n - ?l"
    using l assms(2) by (subst unat_sub) (auto simp: word_le_nat_alt)
  have dl: "unat (dest + of_nat ?l) = unat dest + ?l"
    using l assms(2,5) by (subst unat_add_lem [THEN iffD1]) auto
  have d: "unat (dest + of_nat ?l + 1) = unat dest + ?l + 1"
    using dl assms(2,5) by (subst unat_plus_one_u32) auto
  have pad: "strncpy m dest src n x = (if unat dest + ?l + 1 \<le> unat x \<and> unat x < unat dest + unat n + 1
      then 0 else m' x)" for x
    unfolding strncpy_def m' using d n assms(2,5) by (simp add: memset_loop_eq)
  have z: "m (src + of_nat ?l) = 0" using assms(1)
  proof (induction s arbitrary: src)
    case (Cons c cs)
    then show ?case using Cons.IH [of "src + 1"] by (auto simp: add.assoc)
  qed simp
  show ?thesis
  proof (intro conjI allI impI)
    fix i assume i: "i \<le> unat n"
    then have oi: "unat (of_nat i :: u32) = i"
      using unat_u32_bound [of n] by (simp add: unat_of_nat take_bit_nat_eq_self)
    then have di: "unat (dest + of_nat i) = unat dest + i"
      using assms(5) i by (subst unat_add_lem [THEN iffD1]) auto
    show "strncpy m dest src n (dest + of_nat i) = (if i < ?l then s ! i else 0)"
      using di i x [of "dest + of_nat i"] cstr_byte [OF assms(1), of i] z
      by (auto simp: pad not_less_eq_eq le_less)
  next
    fix y :: addr assume "unat y < unat dest \<or> unat dest + unat n < unat y"
    then show "strncpy m dest src n y = m y" using assms(2) by (auto simp: pad x)
  qed
qed

theorem strncpy_short_writes_past_limit_witness:
  "strncpy (\<lambda>a. if a = 0x201 then 0 else 0x61) 0x100 0x200 4 0x104 = 0
    \<and> (\<lambda>a. if a = 0x201 then 0 else 0x61 :: u8) (0x104 :: addr) = 0x61"
  using strncpy_short_writes_past_limit
      [of "\<lambda>a. if a = 0x201 then 0 else 0x61" "0x200" "[0x61]" 4 "0x100"]
  by (auto dest!: spec [of _ 4])

end
