(* ===== verification/Uart.thy ===== *)
theory Uart
  imports Syscall LibString
begin

text \<open>
  include/sys/uart.h, dev/uart.c, arch/uart.c and kernel/cons.c: the ring buffers of a serial port, reading and
  writing them, the interrupt handlers that move bytes between them and the device, and the console on top; and
  \<open>register_irq_handler\<close> of kernel/irq.c, which the driver calls.
\<close>

section \<open>Ring buffers\<close>

definition UART_FIFO_SIZE :: int where "UART_FIFO_SIZE = 1024"

record uart_fifo =
  f_data :: "u8 list"
  f_head :: int
  f_tail :: int

definition uart_fifo_free :: "uart_fifo \<Rightarrow> int" where
  "uart_fifo_free f =
     (if f_tail f > f_head f then f_tail f - f_head f else UART_FIFO_SIZE - (f_head f - f_tail f))"

definition uart_fifo_available :: "uart_fifo \<Rightarrow> int" where
  "uart_fifo_available f =
     (if f_tail f \<ge> f_head f then f_tail f - f_head f else UART_FIFO_SIZE - (f_head f - f_tail f))"

definition fifo_put :: "uart_fifo \<Rightarrow> u8 \<Rightarrow> uart_fifo" where
  "fifo_put f c =
     (let f = f\<lparr>f_data := (f_data f)[nat (f_tail f) := c], f_tail := f_tail f + 1\<rparr>
      in if f_tail f \<ge> UART_FIFO_SIZE then f\<lparr>f_tail := 0\<rparr> else f)"

definition fifo_get :: "uart_fifo \<Rightarrow> u8 \<times> uart_fifo" where
  "fifo_get f =
     (let c = f_data f ! nat (f_head f); f = f\<lparr>f_head := f_head f + 1\<rparr>
      in (c, if f_head f \<ge> UART_FIFO_SIZE then f\<lparr>f_head := 0\<rparr> else f))"

text \<open>The copy loops are \<open>do ... while (--len > 0)\<close> with an unsigned counter: for \<open>len = 0\<close> they run
  through all \<open>2 ^ 32\<close> values.\<close>

function uart_fifo_add :: "uart_fifo \<Rightarrow> mem \<Rightarrow> addr \<Rightarrow> u32 \<Rightarrow> uart_fifo" where
  "uart_fifo_add f m p len =
     (let f' = fifo_put f (m p) in if len - 1 > 0 then uart_fifo_add f' m (p + 1) (len - 1) else f')"
  by pat_completeness auto

function uart_fifo_remove :: "uart_fifo \<Rightarrow> mem \<Rightarrow> addr \<Rightarrow> u32 \<Rightarrow> uart_fifo \<times> mem" where
  "uart_fifo_remove f m p len =
     (case fifo_get f of (c, f') \<Rightarrow>
       if len - 1 > 0 then uart_fifo_remove f' (m(p := c)) (p + 1) (len - 1) else (f', m(p := c)))"
  by pat_completeness auto

lemma unat_dec_less: "(len :: u32) - 1 > 0 \<Longrightarrow> unat (len - 2) < unat (len - 1)"
proof -
  assume "len - 1 > 0"
  then have p: "0 < unat (len - 1)" by (simp add: word_less_nat_alt)
  then have "unat (len - 1 - 1) = unat (len - 1) - 1" by (intro unat_minus_one) (auto simp: unat_gt_0)
  moreover have "len - 1 - 1 = len - 2" by simp
  ultimately show ?thesis using p by simp
qed

termination uart_fifo_add
  by (relation "measure (\<lambda>(f, m, p, len). unat (len - 1))") (simp_all add: unat_dec_less)

termination uart_fifo_remove
  by (relation "measure (\<lambda>(f, m, p, len). unat (len - 1))") (simp_all add: unat_dec_less)

declare uart_fifo_add.simps [simp del] uart_fifo_remove.simps [simp del]

section \<open>The port and its driver\<close>

datatype uart_state = UART_OPEN | UART_CLOSED

text \<open>The port with the registers of the device: the control register, the bytes it has received, the room
  in its transmitter and the bytes it has sent; the other registers are the trace of their writes.\<close>

record uart =
  u_baud :: int
  u_rx :: uart_fifo
  u_tx :: uart_fifo
  u_state :: uart_state
  u_wait :: addr
  u_ctrl :: u32
  u_hw_rx :: "u8 list"
  u_hw_room :: nat
  u_hw_tx :: "u8 list"
  u_outl :: "(addr \<times> u32) list"

definition RIE :: u32 where "RIE = 0x10"
definition TIE :: u32 where "TIE = 0x20"
definition UARTE :: u32 where "UARTE = 0x01"
definition RIS :: u32 where "RIS = 0x02"
definition TIS :: u32 where "TIS = 0x04"

definition disable_tx :: "uart \<Rightarrow> uart" where "disable_tx u = u\<lparr>u_ctrl := u_ctrl u AND NOT TIE\<rparr>"
definition enable_tx :: "uart \<Rightarrow> uart" where "enable_tx u = u\<lparr>u_ctrl := u_ctrl u OR TIE\<rparr>"
definition disable_rx :: "uart \<Rightarrow> uart" where "disable_rx u = u\<lparr>u_ctrl := u_ctrl u AND NOT RIE\<rparr>"
definition enable_rx :: "uart \<Rightarrow> uart" where "enable_rx u = u\<lparr>u_ctrl := u_ctrl u OR RIE\<rparr>"

text \<open>\<open>uart_write\<close> and \<open>uart_read\<close>. The comparison of \<open>len\<close> with the signed count is unsigned.\<close>

definition uart_write :: "uart \<Rightarrow> mem \<Rightarrow> addr \<Rightarrow> u32 \<Rightarrow> int \<times> uart" where
  "uart_write u m buf len =
     (let u = disable_tx u;
          available = uart_fifo_free (u_tx u);
          len = (if len > word_of_int available then word_of_int available else len);
          (rc, u) = (if available > 0 then (sint len, u\<lparr>u_tx := uart_fifo_add (u_tx u) m buf len\<rparr>) else (0, u))
      in (rc, enable_tx u))"

definition uart_read :: "uart \<Rightarrow> mem \<Rightarrow> addr \<Rightarrow> u32 \<Rightarrow> int \<times> uart \<times> mem" where
  "uart_read u m buf len =
     (let u = disable_rx u;
          available = uart_fifo_available (u_rx u);
          len = (if len > word_of_int available then word_of_int available else len)
      in if available > 0
         then (case uart_fifo_remove (u_rx u) m buf len of (f, m) \<Rightarrow> (sint len, enable_rx (u\<lparr>u_rx := f\<rparr>), m))
         else (0, enable_rx u, m))"

fun rx_loop :: "u8 list \<Rightarrow> int \<Rightarrow> uart_fifo \<Rightarrow> u8 list \<times> uart_fifo" where
  "rx_loop [] n f = ([], f)"
| "rx_loop (c # cs) n f = (if n > 0 then rx_loop cs (n - 1) (fifo_put f c) else (c # cs, f))"

text \<open>The receive interrupt moves what the device has into the FIFO and wakes the readers; \<open>ca\<close> is
  \<open>&uart->wait\<close>.\<close>

definition ep93xx_uart_rx :: "uart \<Rightarrow> addr \<Rightarrow> kern \<Rightarrow> (uart \<times> kern) option" where
  "ep93xx_uart_rx u ca s =
     (case rx_loop (u_hw_rx u) (uart_fifo_free (u_rx u)) (u_rx u) of
        (hw, f) \<Rightarrow>
          (case sys_wake s ca of
             None \<Rightarrow> None
           | Some (_, s) \<Rightarrow> Some (u\<lparr>u_hw_rx := hw, u_rx := f\<rparr>, s)))"

fun tx_loop :: "nat \<Rightarrow> uart_fifo \<Rightarrow> u8 list \<Rightarrow> nat \<times> uart_fifo \<times> u8 list" where
  "tx_loop 0 f out = (0, f, out)"
| "tx_loop (Suc room) f out =
     (if f_head f \<noteq> f_tail f then (case fifo_get f of (c, f) \<Rightarrow> tx_loop room f (out @ [c])) else (Suc room, f, out))"

definition ep93xx_uart_tx :: "uart \<Rightarrow> uart" where
  "ep93xx_uart_tx u =
     (if f_head (u_tx u) = f_tail (u_tx u) then disable_tx u
      else (case tx_loop (u_hw_room u) (u_tx u) (u_hw_tx u) of
              (room, f, out) \<Rightarrow> u\<lparr>u_hw_room := room, u_tx := f, u_hw_tx := out\<rparr>))"

definition uart1_intr :: "u32 \<Rightarrow> uart \<Rightarrow> addr \<Rightarrow> kern \<Rightarrow> (uart \<times> kern) option" where
  "uart1_intr reg u ca s =
     (case (if reg AND RIS \<noteq> 0 then ep93xx_uart_rx u ca s else Some (u, s)) of
        None \<Rightarrow> None
      | Some (u, s) \<Rightarrow> Some (if reg AND TIS \<noteq> 0 then ep93xx_uart_tx u else u, s))"

definition fifo_zero :: uart_fifo where
  "fifo_zero = \<lparr>f_data = replicate 1024 0, f_head = 0, f_tail = 0\<rparr>"

definition ep93xx_uart_close :: "uart \<Rightarrow> uart" where
  "ep93xx_uart_close u =
     u\<lparr>u_ctrl := u_ctrl u AND NOT UARTE, u_rx := fifo_zero, u_tx := fifo_zero, u_state := UART_CLOSED\<rparr>"

definition ep93xx_uart_set_baud :: "uart \<Rightarrow> int \<Rightarrow> int \<times> uart" where
  "ep93xx_uart_set_baud u baud = (0, u\<lparr>u_baud := baud\<rparr>)"

section \<open>The interrupt controller\<close>

definition VIC1_BASE :: addr where "VIC1_BASE = 0x800B0000"
definition VIC2_BASE :: addr where "VIC2_BASE = 0x800C0000"
definition INT_ENABLE :: u32 where "INT_ENABLE = 0x20"

text \<open>The search for an open vector. \<open>addr + (i * 4)\<close> is arithmetic on pointers to 32-bit words, so
  consecutive attempts are 16 bytes apart.\<close>

fun find_vector :: "nat list \<Rightarrow> (addr \<Rightarrow> u32) \<Rightarrow> addr \<Rightarrow> addr \<Rightarrow> u32 \<Rightarrow> u32 \<Rightarrow> int \<times> (addr \<Rightarrow> u32)" where
  "find_vector [] regs va vc irq handler = (- 1, regs)"
| "find_vector (i # is) regs va vc irq handler =
     (if regs (va + 4 * (of_nat i * 4)) = 0
      then (0, regs(va + 4 * (of_nat i * 4) := handler, vc + 4 * (of_nat i * 4) := irq OR INT_ENABLE))
      else find_vector is regs va vc irq handler)"

definition register_irq_handler :: "(addr \<Rightarrow> u32) \<Rightarrow> int \<Rightarrow> u32 \<Rightarrow> bool \<Rightarrow> int \<times> (addr \<Rightarrow> u32)" where
  "register_irq_handler regs irq handler fast =
     (if irq \<ge> 64 then (- 1, regs)
      else (let base = (if irq < 32 then VIC1_BASE else VIC2_BASE);
                irq = (if irq < 32 then irq else irq - 32);
                sel = base + 0xC;
                i = (if fast then regs sel OR push_bit (nat irq) 1 else regs sel AND NOT (push_bit (nat irq) 1));
                regs = regs(sel := i)
            in find_vector [0..<16] regs (base + 0x100) (base + 0x200) (word_of_int irq) handler))"

text \<open>\<open>enable_irq\<close> (arch/irq.S).\<close>

definition enable_irq :: "(addr \<Rightarrow> u32) \<Rightarrow> int \<Rightarrow> (addr \<Rightarrow> u32)" where
  "enable_irq regs irq =
     (if irq < 32 then (let r = 0x800B0010 in regs(r := regs r OR push_bit (nat irq) 1))
      else if irq > 63 then regs
      else (let r = 0x800C0010 in regs(r := regs r OR push_bit (nat (irq - 32)) 1)))"

text \<open>\<open>ep93xx_uart_open\<close>: the wait queue comes from \<open>bfifo_alloc\<close>; the line control writes and the handler
  registration go to the registers.\<close>

definition ep93xx_uart_open ::
  "uart \<Rightarrow> kmem \<Rightarrow> (addr \<Rightarrow> bfifo) \<Rightarrow> (addr \<Rightarrow> u32) \<Rightarrow> u32 \<Rightarrow> int \<times> uart \<times> kmem \<times> (addr \<Rightarrow> bfifo) \<times> (addr \<Rightarrow> u32)" where
  "ep93xx_uart_open u m fifos regs intr =
     (case bfifo_alloc m fifos 10 of
        (w, m, fifos) \<Rightarrow>
          (let u = u\<lparr>u_wait := w\<rparr>
           in if w = NULL then (- 1, u, m, fifos, regs)
              else (let u = u\<lparr>u_rx := fifo_zero, u_tx := fifo_zero, u_baud := 115200,
                          u_outl := u_outl u @ [(0x808C0010, 3 AND 0xFF), (0x808C000C, drop_bit 8 (3 AND 0xFF00)), (0x808C0008, 0x60)]\<rparr>;
                        (rc, regs) = register_irq_handler regs 52 intr False
                    in (0, u\<lparr>u_ctrl := RIE OR TIE OR UARTE, u_state := UART_OPEN\<rparr>, m, fifos, enable_irq regs 52))))"

section \<open>The console\<close>

definition cons_read :: "uart option \<Rightarrow> mem \<Rightarrow> addr \<Rightarrow> u32 \<Rightarrow> int \<times> uart option \<times> mem" where
  "cons_read cu m buf len =
     (case cu of None \<Rightarrow> (- 1, cu, m)
      | Some u \<Rightarrow> (case uart_read u m buf len of (rc, u, m) \<Rightarrow> (rc, Some u, m)))"

text \<open>\<open>cons_write\<close> repeats until everything is written. Between two attempts the transmit interrupt may
  empty the FIFO, which is the list of states of the transmitter's room; without it a full FIFO is retried for ever.\<close>

partial_function (option) cons_write_loop :: "uart \<Rightarrow> mem \<Rightarrow> addr \<Rightarrow> u32 \<Rightarrow> int \<Rightarrow> (int \<times> uart) option" where
  "cons_write_loop u m buf len n =
     (case uart_write u m (buf + word_of_int n) (len - word_of_int n) of
        (rc, u) \<Rightarrow>
          (let n = n + rc
           in if word_of_int n < len \<and> rc \<ge> 0 then cons_write_loop (ep93xx_uart_tx u) m buf len n
              else Some (if rc \<ge> 0 then n else rc, u)))"

definition cons_write :: "uart option \<Rightarrow> mem \<Rightarrow> addr \<Rightarrow> u32 \<Rightarrow> (int \<times> uart option) option" where
  "cons_write cu m buf len =
     (case cu of None \<Rightarrow> Some (- 1, None)
      | Some u \<Rightarrow> map_option (\<lambda>(rc, u). (rc, Some u)) (cons_write_loop u m buf len 0))"

section \<open>The FIFO as a list\<close>

definition fifo_ok :: "uart_fifo \<Rightarrow> bool" where
  "fifo_ok f \<longleftrightarrow> length (f_data f) = 1024 \<and> 0 \<le> f_head f \<and> f_head f < 1024 \<and> 0 \<le> f_tail f \<and> f_tail f < 1024"

definition fifo_used :: "uart_fifo \<Rightarrow> nat" where
  "fifo_used f = nat ((f_tail f - f_head f) mod 1024)"

definition fifo_list :: "uart_fifo \<Rightarrow> u8 list" where
  "fifo_list f = map (\<lambda>i. f_data f ! nat ((f_head f + int i) mod 1024)) [0..<fifo_used f]"

lemma mod_1024_diff:
  fixes d :: int
  assumes "- 1024 < d" and "d < 1024"
  shows "d mod 1024 = (if 0 \<le> d then d else d + 1024)"
proof (cases "0 \<le> d")
  case False
  have "d mod 1024 = (d + 1024) mod 1024" by simp
  also have "\<dots> = d + 1024" using assms False by (intro mod_pos_pos_trivial) auto
  finally show ?thesis using False by simp
qed (use assms in simp)

lemma fifo_available: "fifo_ok f \<Longrightarrow> uart_fifo_available f = int (fifo_used f)"
  using mod_1024_diff [of "f_tail f - f_head f"]
  by (auto simp: uart_fifo_available_def fifo_used_def fifo_ok_def UART_FIFO_SIZE_def)

lemma fifo_free: "fifo_ok f \<Longrightarrow> uart_fifo_free f = (if fifo_used f = 0 then 1024 else int (fifo_used f))"
  using mod_1024_diff [of "f_tail f - f_head f"]
  by (auto simp: uart_fifo_free_def fifo_used_def fifo_ok_def UART_FIFO_SIZE_def)

lemma fifo_used_less: "fifo_used f < 1024"
  by (simp add: fifo_used_def nat_less_iff)

lemma fifo_put_eq: "fifo_ok f \<Longrightarrow> fifo_put f c = f\<lparr>f_data := (f_data f)[nat (f_tail f) := c], f_tail := (f_tail f + 1) mod 1024\<rparr>"
  using wrap_mod [of "f_tail f" 1024] by (auto simp: fifo_put_def fifo_ok_def UART_FIFO_SIZE_def Let_def)

lemma fifo_get_eq: "fifo_ok f \<Longrightarrow> fifo_get f = (f_data f ! nat (f_head f), f\<lparr>f_head := (f_head f + 1) mod 1024\<rparr>)"
  using wrap_mod [of "f_head f" 1024] by (auto simp: fifo_get_def fifo_ok_def UART_FIFO_SIZE_def Let_def)

lemma fifo_put_ok:
  assumes ok: "fifo_ok f"
  shows "fifo_ok (fifo_put f c) \<and> (fifo_used f < 1023 \<longrightarrow> fifo_list (fifo_put f c) = fifo_list f @ [c])
    \<and> (fifo_used f = 1023 \<longrightarrow> fifo_used (fifo_put f c) = 0)
    \<and> (fifo_used f < 1023 \<longrightarrow> fifo_used (fifo_put f c) = Suc (fifo_used f))"
proof -
  let ?u = "fifo_used f"
  let ?g = "f\<lparr>f_data := (f_data f)[nat (f_tail f) := c], f_tail := (f_tail f + 1) mod 1024\<rparr>"
  have g: "fifo_put f c = ?g" by (rule fifo_put_eq [OF ok])
  have gok: "fifo_ok ?g" using ok by (auto simp: fifo_ok_def)
  have um: "int ?u = (f_tail f - f_head f) mod 1024" by (simp add: fifo_used_def)
  have tm: "f_tail f = (f_head f + int ?u) mod 1024"
    using ok unfolding um by (simp add: mod_simps fifo_ok_def)
  have "((f_tail f + 1) mod 1024 - f_head f) mod 1024 = (int ?u + 1) mod 1024"
    unfolding um by (simp add: mod_simps algebra_simps)
  then have gu: "fifo_used ?g = nat ((int ?u + 1) mod 1024)" by (simp add: fifo_used_def)
  have "fifo_used ?g = Suc ?u" if "?u < 1023" using gu that by simp
  moreover have "fifo_used ?g = 0" if "?u = 1023" using gu that by simp
  moreover have "fifo_list ?g = fifo_list f @ [c]" if u: "?u < 1023"
  proof -
    have ne: "nat (f_tail f) \<noteq> nat ((f_head f + int i) mod 1024)" if "i < ?u" for i
    proof
      assume "nat (f_tail f) = nat ((f_head f + int i) mod 1024)"
      then have "(f_head f + int i) mod 1024 = (f_head f + int ?u) mod 1024"
        using tm ok by (simp add: eq_nat_nat_iff fifo_ok_def)
      then show False using mod_inj_window [of "f_head f" i 1024 ?u] that u by simp
    qed
    have old: "map (\<lambda>i. (f_data f)[nat (f_tail f) := c] ! nat ((f_head f + int i) mod 1024)) [0..<?u] = fifo_list f"
      unfolding fifo_list_def by (intro map_cong refl nth_list_update_neq ne) simp
    have "nat (f_tail f) < length (f_data f)" using ok by (auto simp: fifo_ok_def)
    then have new: "(f_data f)[nat (f_tail f) := c] ! nat ((f_head f + int ?u) mod 1024) = c"
      by (simp only: tm [symmetric] nth_list_update_eq)
    have "fifo_list ?g = map (\<lambda>i. (f_data f)[nat (f_tail f) := c] ! nat ((f_head f + int i) mod 1024)) [0..<Suc ?u]"
    proof -
      have "fifo_used ?g = Suc ?u" using gu u by simp
      then show ?thesis by (simp only: fifo_list_def) simp
    qed
    then show ?thesis by (simp only: upt_Suc_append le0 map_append list.map old new)
  qed
  ultimately show ?thesis using g gok by simp
qed

lemma fifo_get_ok:
  assumes ok: "fifo_ok f" and used: "0 < fifo_used f"
  shows "fifo_ok (snd (fifo_get f)) \<and> fifo_list f = fst (fifo_get f) # fifo_list (snd (fifo_get f))
    \<and> fifo_used (snd (fifo_get f)) = fifo_used f - 1"
proof -
  let ?u = "fifo_used f"
  let ?g = "f\<lparr>f_head := (f_head f + 1) mod 1024\<rparr>"
  have g: "fifo_get f = (f_data f ! nat (f_head f), ?g)" by (rule fifo_get_eq [OF ok])
  have um: "int ?u = (f_tail f - f_head f) mod 1024" by (simp add: fifo_used_def)
  have "(f_tail f - (f_head f + 1) mod 1024) mod 1024 = (int ?u - 1) mod 1024"
    unfolding um by (simp add: mod_simps algebra_simps)
  also have "\<dots> = int ?u - 1" using used fifo_used_less [of f] by (intro mod_pos_pos_trivial) auto
  finally have gu: "fifo_used ?g = ?u - 1" by (simp add: fifo_used_def)
  have s: "?u = Suc (fifo_used ?g)" using gu used by simp
  have "f_head f mod 1024 = f_head f" using ok by (auto simp: fifo_ok_def)
  moreover have "(f_head f + int (Suc i)) mod 1024 = ((f_head f + 1) mod 1024 + int i) mod 1024" for i
    by (simp add: mod_simps algebra_simps)
  moreover have "fifo_list ?g = map (\<lambda>i. f_data f ! nat (((f_head f + 1) mod 1024 + int i) mod 1024)) [0..<fifo_used ?g]"
    by (simp add: fifo_list_def)
  ultimately have "fifo_list f = f_data f ! nat (f_head f) # fifo_list ?g"
    by (simp add: fifo_list_def [of f] s map_upt_Suc del: upt_Suc of_nat_Suc)
  moreover have "fifo_ok ?g" using ok by (auto simp: fifo_ok_def)
  ultimately show ?thesis using g gu by simp
qed

text \<open>The copy loops for \<open>n > 0\<close> bytes.\<close>

lemma of_nat_Suc_dec:
  assumes "Suc n < 2 ^ 32"
  shows "(of_nat (Suc n) :: u32) - 1 = of_nat n" and "(0 < (of_nat n :: u32)) \<longleftrightarrow> 0 < n"
  using assms by (simp_all add: word_less_nat_alt unat_of_nat)

lemma uart_fifo_add_foldl:
  assumes "Suc n < 2 ^ 32"
  shows "uart_fifo_add f m p (of_nat (Suc n)) = foldl fifo_put f (mem_bytes m p (Suc n))"
  using assms
proof (induction n arbitrary: f p)
  case 0
  then show ?case by (subst uart_fifo_add.simps) (simp add: mem_bytes_def Let_def)
next
  case (Suc n)
  have d: "(of_nat (Suc (Suc n)) :: u32) - 1 = of_nat (Suc n)" "0 < (of_nat (Suc n) :: u32)"
    using of_nat_Suc_dec [of "Suc n"] Suc.prems by (simp_all del: of_nat_Suc)
  have u: "uart_fifo_add f m p (of_nat (Suc (Suc n))) = uart_fifo_add (fifo_put f (m p)) m (p + 1) (of_nat (Suc n))"
    by (rule trans [OF uart_fifo_add.simps]) (simp only: d Let_def if_True)
  show ?case unfolding u mem_bytes_Suc [of m p "Suc n"] using Suc.IH [of "fifo_put f (m p)" "p + 1"] Suc.prems by simp
qed

lemma foldl_fifo_put:
  assumes "fifo_ok f"
  shows "fifo_ok (foldl fifo_put f cs) \<and> fifo_used (foldl fifo_put f cs) = (fifo_used f + length cs) mod 1024
    \<and> (fifo_used f + length cs < 1024 \<longrightarrow> fifo_list (foldl fifo_put f cs) = fifo_list f @ cs)"
  using assms
proof (induction cs arbitrary: f)
  case Nil
  then show ?case using fifo_used_less [of f] by simp
next
  case (Cons c cs)
  note p = fifo_put_ok [OF Cons.prems, of c]
  have "fifo_used f = 1023 \<or> fifo_used f < 1023" using fifo_used_less [of f] by linarith
  then show ?case
  proof
    assume u: "fifo_used f = 1023"
    then have "(fifo_used f + length (c # cs)) mod 1024 = length cs mod 1024" by simp
    then show ?thesis using Cons.IH [of "fifo_put f c"] p u by simp
  next
    assume u: "fifo_used f < 1023"
    then show ?thesis using Cons.IH [of "fifo_put f c"] p by auto
  qed
qed

lemma fifo_list_length [simp]: "length (fifo_list f) = fifo_used f"
  by (simp add: fifo_list_def)

lemma tx_loop_ok:
  assumes "fifo_ok f"
  shows "\<exists>f'. tx_loop room f out = (room - fifo_used f, f', out @ take room (fifo_list f)) \<and> fifo_ok f'
    \<and> fifo_list f' = drop room (fifo_list f)"
  using assms
proof (induction room arbitrary: f out)
  case (Suc room)
  have e: "f_head f = f_tail f \<longleftrightarrow> fifo_used f = 0"
    using Suc.prems mod_1024_diff [of "f_tail f - f_head f"] by (auto simp: fifo_used_def fifo_ok_def)
  show ?case
  proof (cases "fifo_used f = 0")
    case True
    then have "fifo_list f = []" by (simp add: fifo_list_def)
    then show ?thesis using True e Suc.prems by simp
  next
    case False
    obtain c g where g: "fifo_get f = (c, g)" by fastforce
    then have p: "fifo_ok g" "fifo_list f = c # fifo_list g" "fifo_used g = fifo_used f - 1"
      using fifo_get_ok [OF Suc.prems] False by auto
    then show ?thesis using Suc.IH [OF p(1), of "out @ [c]"] False e g by auto
  qed
qed (simp add: exI)

lemma rx_loop_foldl:
  "0 \<le> n \<Longrightarrow> rx_loop cs n f = (drop (nat n) cs, foldl fifo_put f (take (nat n) cs))"
proof (induction cs arbitrary: n f)
  case (Cons c cs)
  show ?case
  proof (cases "0 < n")
    case True
    then have "nat n = Suc (nat (n - 1))" by simp
    then show ?thesis using Cons.IH [of "n - 1" "fifo_put f c"] True by simp
  next
    case False
    then show ?thesis using Cons.prems by simp
  qed
qed simp

text \<open>Reading \<open>n\<close> bytes moves the front of the list into memory.\<close>

lemma uart_fifo_remove_ok:
  assumes "fifo_ok f" and "Suc n \<le> fifo_used f" and "unat p + Suc n < 2 ^ 32"
  shows "\<exists>f' m'. uart_fifo_remove f m p (of_nat (Suc n)) = (f', m') \<and> fifo_ok f'
    \<and> fifo_list f = mem_bytes m' p (Suc n) @ fifo_list f'
    \<and> (\<forall>a. unat a < unat p \<or> unat p + Suc n \<le> unat a \<longrightarrow> m' a = m a)"
  using assms
proof (induction n arbitrary: f m p)
  case 0
  obtain c g where g: "fifo_get f = (c, g)" by fastforce
  then have "fifo_ok g" "fifo_list f = c # fifo_list g" using fifo_get_ok [OF 0(1)] 0(2) by auto
  then show ?case using g by (subst uart_fifo_remove.simps) (auto simp: mem_bytes_def)
next
  case (Suc n)
  obtain c g where g: "fifo_get f = (c, g)" by fastforce
  then have p: "fifo_ok g" "fifo_list f = c # fifo_list g" "fifo_used g = fifo_used f - 1"
    using fifo_get_ok [OF Suc.prems(1)] Suc.prems(2) by auto
  have d: "(of_nat (Suc (Suc n)) :: u32) - 1 = of_nat (Suc n)" "0 < (of_nat (Suc n) :: u32)"
    using of_nat_Suc_dec [of "Suc n"] Suc.prems(3) by (simp_all del: of_nat_Suc)
  have up: "unat (p + 1) = unat p + 1" using Suc.prems(3) by (intro unat_plus_one_u32) simp
  obtain f' m' where r: "uart_fifo_remove g (m(p := c)) (p + 1) (of_nat (Suc n)) = (f', m')" "fifo_ok f'"
    "fifo_list g = mem_bytes m' (p + 1) (Suc n) @ fifo_list f'"
    "\<forall>a. unat a < unat (p + 1) \<or> unat (p + 1) + Suc n \<le> unat a \<longrightarrow> m' a = (m(p := c)) a"
  proof -
    have "Suc n \<le> fifo_used g" using Suc.prems(2) p(3) by simp
    moreover have "unat (p + 1) + Suc n < 2 ^ 32" using Suc.prems(3) up by simp
    ultimately show ?thesis using Suc.IH [OF p(1), of "p + 1" "m(p := c)"] that by blast
  qed
  have "uart_fifo_remove f m p (of_nat (Suc (Suc n))) = (f', m')"
    by (rule trans [OF uart_fifo_remove.simps]) (simp only: g d prod.case if_True r(1))
  moreover have "m' p = c" using r(4) up by simp
  then have "fifo_list f = mem_bytes m' p (Suc (Suc n)) @ fifo_list f'"
    using p(2) r(3) mem_bytes_Suc [of m' p "Suc n"] by simp
  moreover have "\<forall>a. unat a < unat p \<or> unat p + Suc (Suc n) \<le> unat a \<longrightarrow> m' a = m a"
    using r(4) up by auto
  ultimately show ?case using r(2) by blast
qed

text \<open>How many of \<open>n\<close> bytes a FIFO takes: \<open>uart_fifo_free\<close> returns the number of bytes in use, or the whole size for an empty
  FIFO (see below), and no more than that many are put.\<close>

definition fifo_takes :: "uart_fifo \<Rightarrow> nat \<Rightarrow> nat" where
  "fifo_takes f n = min n (if fifo_used f = 0 then 1024 else fifo_used f)"

lemma len_u32: "n \<le> 1024 \<Longrightarrow> unat (of_nat n :: u32) = n \<and> sint (of_nat n :: u32) = int n"
proof -
  assume n: "n \<le> 1024"
  then have u: "unat (of_nat n :: u32) = n" by (simp add: unat_of_nat)
  then have "uint (of_nat n :: u32) = int n" unfolding uint_nat by simp
  then show ?thesis using u n by (simp add: sint_u32)
qed

text \<open>The comparison with the count that both directions make.\<close>

lemma clip_len:
  assumes "n < 2 ^ 32" and "0 \<le> a" and "a \<le> 1024"
  shows "(if (of_nat n :: u32) > word_of_int a then word_of_int a else of_nat n) = (of_nat (min n (nat a)) :: u32)"
proof -
  have ua: "unat (word_of_int a :: u32) = nat a" using assms by (simp add: unat_eq_nat_uint uint_word_of_int)
  have un: "unat (of_nat n :: u32) = n" using assms(1) by (simp add: unat_of_nat)
  have w: "word_of_int a = (of_nat (nat a) :: u32)" using assms(2) by simp
  show ?thesis
  proof (cases "nat a < n")
    case True
    then have "(of_nat n :: u32) > word_of_int a" unfolding word_less_nat_alt ua un .
    then show ?thesis unfolding if_P [OF \<open>(of_nat n :: u32) > word_of_int a\<close>] w using True by (simp only: min_def) simp
  next
    case False
    then have "\<not> (of_nat n :: u32) > word_of_int a" unfolding word_less_nat_alt ua un .
    then show ?thesis unfolding if_not_P [OF \<open>\<not> (of_nat n :: u32) > word_of_int a\<close>] using False by (simp only: min_def) simp
  qed
qed

lemma uart_write_eq:
  assumes ok: "fifo_ok (u_tx u)" and n: "0 < n" "n < 2 ^ 32"
  defines "k \<equiv> fifo_takes (u_tx u) n"
  shows "uart_write u m buf (of_nat n) =
    (int k, enable_tx ((disable_tx u)\<lparr>u_tx := foldl fifo_put (u_tx u) (mem_bytes m buf k)\<rparr>))"
proof -
  let ?a = "uart_fifo_free (u_tx u)"
  have a: "0 < ?a" "?a \<le> 1024" using fifo_free [OF ok] fifo_used_less [of "u_tx u"] by auto
  have u: "u_tx (disable_tx u) = u_tx u" by (simp add: disable_tx_def)
  have "nat ?a = (if fifo_used (u_tx u) = 0 then 1024 else fifo_used (u_tx u))" using fifo_free [OF ok] by simp
  then have k: "min n (nat ?a) = k" by (simp add: k_def fifo_takes_def)
  then have kb: "0 < k" "k \<le> 1024" using n(1) a by auto
  then obtain l where l: "k = Suc l" by (cases k) auto
  have clip: "(if (of_nat n :: u32) > word_of_int ?a then word_of_int ?a else of_nat n) = (of_nat k :: u32)"
    unfolding k [symmetric] by (rule clip_len [OF n(2)]) (use a in auto)
  have "uart_fifo_add (u_tx u) m buf (of_nat k) = foldl fifo_put (u_tx u) (mem_bytes m buf k)"
    unfolding l by (rule uart_fifo_add_foldl) (use kb l in simp)
  then show ?thesis using a(1) len_u32 [OF kb(2)] unfolding uart_write_def Let_def u clip by simp
qed

lemma uart_read_eq:
  assumes ok: "fifo_ok (u_rx u)" and n: "0 < n" "n < 2 ^ 32" and some: "0 < fifo_used (u_rx u)"
  defines "k \<equiv> min n (fifo_used (u_rx u))"
  assumes r: "uart_fifo_remove (u_rx u) m buf (of_nat k) = (f, m')"
  shows "\<exists>u'. uart_read u m buf (of_nat n) = (int k, u', m') \<and> u_rx u' = f"
proof -
  let ?a = "uart_fifo_available (u_rx u)"
  have a: "?a = int (fifo_used (u_rx u))" by (rule fifo_available [OF ok])
  have u: "u_rx (disable_rx u) = u_rx u" by (simp add: disable_rx_def)
  have k: "k \<le> 1024" using fifo_used_less [of "u_rx u"] by (simp add: k_def)
  have "nat ?a = fifo_used (u_rx u)" using a by simp
  then have "min n (nat ?a) = k" by (simp add: k_def)
  then have clip: "(if (of_nat n :: u32) > word_of_int ?a then word_of_int ?a else of_nat n) = (of_nat k :: u32)"
    using clip_len [OF n(2), of ?a] fifo_used_less [of "u_rx u"] unfolding a by simp
  have "0 < ?a" using some a by simp
  then show ?thesis using r len_u32 [OF k] unfolding uart_read_def Let_def u clip by (simp add: enable_rx_def)
qed

text \<open>What the receive interrupt takes from the device, when the readers' queue is in order.\<close>

lemma uart_rx_eq:
  assumes ok: "fifo_ok (u_rx u)" and room: "fifo_used (u_rx u) + fifo_takes (u_rx u) (length (u_hw_rx u)) < 1024"
    and w: "bfifo_ok (k_bfifos s (k_completions s ca))" "NULL \<notin> set (bfifo_list (k_bfifos s (k_completions s ca)))"
  defines "k \<equiv> fifo_takes (u_rx u) (length (u_hw_rx u))"
  shows "\<exists>u' s'. ep93xx_uart_rx u ca s = Some (u', s') \<and> u_hw_rx u' = drop k (u_hw_rx u) \<and> fifo_ok (u_rx u')
    \<and> fifo_list (u_rx u') = fifo_list (u_rx u) @ take k (u_hw_rx u)
    \<and> k_ptab s' = k_ptab (wake_set (set (bfifo_list (k_bfifos s (k_completions s ca)))) s)"
proof -
  let ?a = "uart_fifo_free (u_rx u)" let ?hw = "u_hw_rx u"
  have na: "nat ?a = (if fifo_used (u_rx u) = 0 then 1024 else fifo_used (u_rx u))" and a: "0 \<le> ?a" using fifo_free [OF ok] by auto
  have "take (nat ?a) ?hw = take k ?hw" "drop (nat ?a) ?hw = drop k ?hw"
    by (simp_all add: k_def fifo_takes_def na min_def)
  then have l: "rx_loop ?hw ?a (u_rx u) = (drop k ?hw, foldl fifo_put (u_rx u) (take k ?hw))"
    using rx_loop_foldl [OF a] by simp
  have "length (take k ?hw) = k" by (simp add: k_def fifo_takes_def)
  then have "fifo_ok (foldl fifo_put (u_rx u) (take k ?hw))" "fifo_list (foldl fifo_put (u_rx u) (take k ?hw)) = fifo_list (u_rx u) @ take k ?hw"
    using foldl_fifo_put [OF ok, of "take k ?hw"] room by (simp_all add: k_def)
  then show ?thesis using sys_wake_eq [OF w refl] by (auto simp: ep93xx_uart_rx_def l)
qed

text \<open>What one transmit interrupt sends.\<close>

lemma uart_tx_eq:
  assumes "fifo_ok (u_tx u)"
  shows "u_hw_tx (ep93xx_uart_tx u) = u_hw_tx u @ take (u_hw_room u) (fifo_list (u_tx u))
    \<and> fifo_list (u_tx (ep93xx_uart_tx u)) = drop (u_hw_room u) (fifo_list (u_tx u)) \<and> u_rx (ep93xx_uart_tx u) = u_rx u
    \<and> u_hw_rx (ep93xx_uart_tx u) = u_hw_rx u"
proof (cases "f_head (u_tx u) = f_tail (u_tx u)")
  case True
  then have "fifo_list (u_tx u) = []" by (simp add: fifo_list_def fifo_used_def)
  then show ?thesis using True by (simp add: ep93xx_uart_tx_def disable_tx_def)
next
  case False
  then show ?thesis using tx_loop_ok [OF assms, of "u_hw_room u" "u_hw_tx u"] by (auto simp: ep93xx_uart_tx_def)
qed

section \<open>Properties\<close>

text \<open>C11: bytes keep their order through the port, and none is lost, as long as the FIFO does not overflow. \<open>uart_write\<close> accepts
  as many bytes as \<open>uart_fifo_free\<close> counts, reports that number, and appends them behind those still waiting; the transmit interrupt
  sends the front of the FIFO in order, as much as the device takes, and keeps the rest. The receive interrupt appends what the
  device has, up to that same count, behind what is waiting, leaves the rest in the device, and wakes the readers; \<open>uart_read\<close> then
  delivers the front of the FIFO, keeps the rest, and writes no other memory.\<close>

theorem uart_keeps_order:
  assumes tx: "fifo_ok (u_tx u)" "0 < n" "n < 2 ^ 32" "fifo_used (u_tx u) + fifo_takes (u_tx u) n < 1024"
    and rx: "fifo_ok (u_rx u)" "fifo_used (u_rx u) + fifo_takes (u_rx u) (length (u_hw_rx u)) < 1024"
    and w: "bfifo_ok (k_bfifos s (k_completions s ca))" "NULL \<notin> set (bfifo_list (k_bfifos s (k_completions s ca)))"
    and rd: "0 < j" "unat p + j < 2 ^ 32" "0 < fifo_used (u_rx u) + length (u_hw_rx u)"
  shows "\<exists>u1 u2 u3 u4 s' m'. (let sent = fifo_list (u_tx u) @ mem_bytes m buf (fifo_takes (u_tx u) n);
        k = fifo_takes (u_rx u) (length (u_hw_rx u)); got = fifo_list (u_rx u) @ take k (u_hw_rx u); i = min j (length got)
      in uart_write u m buf (of_nat n) = (int (fifo_takes (u_tx u) n), u1) \<and> fifo_list (u_tx u1) = sent
       \<and> ep93xx_uart_tx u1 = u2 \<and> u_hw_tx u2 = u_hw_tx u @ take (u_hw_room u) sent \<and> fifo_list (u_tx u2) = drop (u_hw_room u) sent
       \<and> ep93xx_uart_rx u2 ca s = Some (u3, s') \<and> u_hw_rx u3 = drop k (u_hw_rx u) \<and> fifo_list (u_rx u3) = got
       \<and> (\<forall>q\<in>set (bfifo_list (k_bfifos s (k_completions s ca))). p_state (k_ptab s' q) = PROC_RUN)
       \<and> uart_read u3 m p (of_nat j) = (int i, u4, m') \<and> mem_bytes m' p i = take i got \<and> fifo_list (u_rx u4) = drop i got
       \<and> (\<forall>a. unat a < unat p \<or> unat p + i \<le> unat a \<longrightarrow> m' a = m a))"
proof -
  let ?k = "fifo_takes (u_tx u) n" let ?cs = "mem_bytes m buf ?k" let ?g = "foldl fifo_put (u_tx u) ?cs"
  let ?u1 = "enable_tx ((disable_tx u)\<lparr>u_tx := ?g\<rparr>)" let ?u2 = "ep93xx_uart_tx ?u1"
  let ?l = "fifo_takes (u_rx u) (length (u_hw_rx u))" let ?got = "fifo_list (u_rx u) @ take ?l (u_hw_rx u)"
  have l: "length ?cs = ?k" by (simp add: mem_bytes_def)
  have g: "fifo_ok ?g" "fifo_list ?g = fifo_list (u_tx u) @ ?cs" using foldl_fifo_put [OF tx(1), of ?cs] tx(4) l by auto
  have t: "u_tx ?u1 = ?g" "u_hw_room ?u1 = u_hw_room u" "u_hw_tx ?u1 = u_hw_tx u" "u_rx ?u1 = u_rx u" "u_hw_rx ?u1 = u_hw_rx u"
    by (simp_all add: enable_tx_def disable_tx_def)
  note u2 = uart_tx_eq [of ?u1, unfolded t, OF g(1)]
  obtain u3 s' where u3: "ep93xx_uart_rx ?u2 ca s = Some (u3, s')" "u_hw_rx u3 = drop ?l (u_hw_rx u)" "fifo_ok (u_rx u3)"
    "fifo_list (u_rx u3) = ?got" "k_ptab s' = k_ptab (wake_set (set (bfifo_list (k_bfifos s (k_completions s ca)))) s)"
    using uart_rx_eq [of ?u2 s ca] u2 rx w by auto
  have used: "fifo_used (u_rx u3) = length ?got" using arg_cong [OF u3(4), of length] by (simp only: fifo_list_length)
  have some: "0 < length ?got" using rd(3) by (auto simp: fifo_takes_def)
  let ?i = "min j (length ?got)"
  have "0 < ?i" using rd(1) some by (simp only: min_less_iff_conj)
  then obtain h where h: "?i = Suc h" by (metis gr0_conv_Suc)
  have "Suc h \<le> fifo_used (u_rx u3)" "unat p + Suc h < 2 ^ 32" using h used rd(2) by linarith+
  from uart_fifo_remove_ok [OF u3(3) this, of m] obtain f' m' where
    r: "uart_fifo_remove (u_rx u3) m p (of_nat ?i) = (f', m')" "fifo_list (u_rx u3) = mem_bytes m' p ?i @ fifo_list f'"
    "\<forall>a. unat a < unat p \<or> unat p + ?i \<le> unat a \<longrightarrow> m' a = m a" unfolding h by blast
  have j: "j < 2 ^ 32" using rd(2) by simp
  obtain u4 where u4: "uart_read u3 m p (of_nat j) = (int ?i, u4, m')" "u_rx u4 = f'"
    using uart_read_eq [OF u3(3) rd(1) j, of m p f' m'] r(1) some unfolding used by blast
  have "length (mem_bytes m' p ?i) = ?i" by (simp add: mem_bytes_def)
  then have got: "mem_bytes m' p ?i = take ?i ?got" "fifo_list f' = drop ?i ?got"
    using r(2) unfolding u3(4) by (metis append_eq_conv_conj)+
  have "\<forall>q\<in>set (bfifo_list (k_bfifos s (k_completions s ca))). p_state (k_ptab s' q) = PROC_RUN"
    by (simp add: u3(5) wake_set_def)
  then show ?thesis unfolding Let_def
    using u3(1,2,4) got r(3)
    by (intro exI [of _ ?u1] exI [of _ ?u2] exI [of _ u3] exI [of _ u4] exI [of _ s'] exI [of _ m'] conjI uart_write_eq [OF tx(1-3)] refl
        u4(1) u2 [unfolded g(2), THEN conjunct1] u2 [unfolded g(2), THEN conjunct2, THEN conjunct1])
      (simp_all only: t(1) g(2) u4(2))
qed

definition uart0 :: uart where
  "uart0 = \<lparr>u_baud = 115200, u_rx = fifo_zero, u_tx = fifo_zero, u_state = UART_OPEN, u_wait = 0, u_ctrl = 0x31,
     u_hw_rx = [], u_hw_room = 16, u_hw_tx = [], u_outl = []\<rparr>"

lemma fifo_zero_ok: "fifo_ok fifo_zero" "fifo_used fifo_zero = 0" "fifo_list fifo_zero = []"
  by (simp_all add: fifo_ok_def fifo_zero_def fifo_used_def fifo_list_def)

text \<open>Two bytes go out, of which the device has room for one, and three come in, of which two are read.\<close>

theorem uart_keeps_order_witness:
  "\<exists>u1 u3 u4 s (s' :: kern) m'. uart_write (uart0\<lparr>u_hw_room := 1, u_hw_rx := [7, 8, 9]\<rparr>) (\<lambda>a. ucast a) 0x41 2 = (2, u1)
    \<and> u_hw_tx (ep93xx_uart_tx u1) = [0x41] \<and> fifo_list (u_tx (ep93xx_uart_tx u1)) = [0x42]
    \<and> ep93xx_uart_rx (ep93xx_uart_tx u1) 0 s = Some (u3, s') \<and> uart_read u3 (\<lambda>a. ucast a) 0x100 2 = (2, u4, m')
    \<and> mem_bytes m' 0x100 2 = [7, 8] \<and> fifo_list (u_rx u4) = [9]"
proof -
  let ?u = "uart0\<lparr>u_hw_room := 1, u_hw_rx := [7, 8, 9]\<rparr>" let ?s = "kern0\<lparr>k_bfifos := \<lambda>_. bfifo_init 4\<rparr>"
  have f: "fifo_takes fifo_zero n = min n 1024" for n by (simp add: fifo_takes_def fifo_zero_ok)
  have w: "bfifo_ok (k_bfifos ?s (k_completions ?s 0))" "NULL \<notin> set (bfifo_list (k_bfifos ?s (k_completions ?s 0)))"
    using bfifo_init_ok [of 4] by simp_all
  have u: "u_tx ?u = fifo_zero" "u_rx ?u = fifo_zero" "u_hw_rx ?u = [7, 8, 9]" "u_hw_tx ?u = []" "u_hw_room ?u = 1"
    by (simp_all add: uart0_def)
  have b: "mem_bytes (\<lambda>a :: addr. ucast a) 0x41 2 = [0x41, 0x42]" by (simp add: mem_bytes_def upt_rec)
  note k = uart_keeps_order [of ?u 2 ?s 0 2 "0x100" "\<lambda>a. ucast a" "0x41", unfolded u f fifo_zero_ok, OF fifo_zero_ok(1) _ _ _ fifo_zero_ok(1) _ w]
  show ?thesis using k by (simp add: b Let_def) (metis numeral_2_eq_2)
qed

text \<open>\<open>uart_fifo_free\<close> does not count the free bytes. Unless the FIFO is empty it returns the number of bytes
  in use, so that a FIFO with one byte in it accepts one byte at a time; and on an empty FIFO it returns the
  whole size, so that \<open>uart_write\<close> accepts 1024 bytes, reports success, and leaves a FIFO that counts as empty.\<close>

theorem uart_free_counts_used:
  assumes "fifo_ok (u_tx u)"
  shows "(fifo_used (u_tx u) > 0 \<longrightarrow> uart_fifo_free (u_tx u) = uart_fifo_available (u_tx u)) \<and>
    (fifo_used (u_tx u) = 0 \<longrightarrow>
      fst (uart_write u m buf 1024) = 1024 \<and> uart_fifo_available (u_tx (snd (uart_write u m buf 1024))) = 0)"
proof (intro conjI impI)
  assume e: "fifo_used (u_tx u) = 0"
  have "uart_write u m buf (of_nat 1024) = (int 1024,
    enable_tx ((disable_tx u)\<lparr>u_tx := foldl fifo_put (u_tx u) (mem_bytes m buf 1024)\<rparr>))"
    using uart_write_eq [OF assms, of 1024 m buf] e by (simp add: fifo_takes_def)
  moreover have "fifo_ok (foldl fifo_put (u_tx u) (mem_bytes m buf 1024))"
    "fifo_used (foldl fifo_put (u_tx u) (mem_bytes m buf 1024)) = 0"
    using foldl_fifo_put [OF assms, of "mem_bytes m buf 1024"] e by (simp_all add: mem_bytes_def)
  ultimately show "fst (uart_write u m buf 1024) = 1024"
    "uart_fifo_available (u_tx (snd (uart_write u m buf 1024))) = 0"
    by (simp_all add: fifo_available enable_tx_def)
qed (use fifo_free [OF assms] fifo_available [OF assms] in simp)

theorem uart_free_counts_used_witness:
  "fst (uart_write uart0 (\<lambda>_. 0x41) 0 1024) = 1024
    \<and> uart_fifo_available (u_tx (snd (uart_write uart0 (\<lambda>_. 0x41) 0 1024))) = 0"
  using uart_free_counts_used [of uart0] fifo_zero_ok by (simp add: uart0_def)

text \<open>\<open>register_irq_handler\<close> installs a handler in vector 0 when that is free, but the next free vector it
  finds is vector 4: the vector registers are four bytes apart and the code steps sixteen. Only four of the
  sixteen vectors can be used before it leaves the vector registers.\<close>

theorem register_irq_handler_stride:
  assumes "0 \<le> irq" and "irq < 32" and "regs (VIC1_BASE + 0x100) = 0" and "regs (VIC1_BASE + 0x110) = 0"
    and "h1 \<noteq> 0" and "0 \<le> irq2" and "irq2 < 32"
  shows "fst (register_irq_handler regs irq h1 False) = 0
    \<and> snd (register_irq_handler regs irq h1 False) (VIC1_BASE + 0x100) = h1
    \<and> snd (register_irq_handler (snd (register_irq_handler regs irq h1 False)) irq2 h2 False) (VIC1_BASE + 0x110) = h2
    \<and> (\<forall>a\<in>{0x104, 0x108, 0x10C}. snd (register_irq_handler (snd (register_irq_handler regs irq h1 False)) irq2 h2 False)
          (VIC1_BASE + a) = regs (VIC1_BASE + a))"
proof -
  have up: "[0..<16::nat] = 0 # 1 # [2..<16]" by (simp add: upt_rec)
  have 1: "register_irq_handler regs irq h1 False = (0, regs(VIC1_BASE + 0xC := regs (VIC1_BASE + 0xC) AND NOT (push_bit (nat irq) 1),
      VIC1_BASE + 0x100 := h1, VIC1_BASE + 0x200 := word_of_int irq OR INT_ENABLE))"
    using assms(1-3) by (simp add: register_irq_handler_def up Let_def VIC1_BASE_def)
  show ?thesis
    unfolding 1 using assms(4-7)
    by (simp add: register_irq_handler_def up Let_def VIC1_BASE_def)
qed

theorem register_irq_handler_stride_witness:
  "snd (register_irq_handler (snd (register_irq_handler (\<lambda>_. 0) 4 0x1000 False)) 5 0x2000 False) (VIC1_BASE + 0x110) = 0x2000
   \<and> snd (register_irq_handler (snd (register_irq_handler (\<lambda>_. 0) 4 0x1000 False)) 5 0x2000 False) (VIC1_BASE + 0x104) = 0"
  using register_irq_handler_stride [of 4 "\<lambda>_. 0" "0x1000" 5 "0x2000"] by simp

end
