(* ===== verification/Stdio.thy ===== *)
theory Stdio
  imports Proc LibString
begin

text \<open>
  lib/stdio.c and the buffering macros of include/proc.h: the line-buffered output of a process, the number
  formatting of \<open>printf\<close>, and line input with editing. Console output is the list of bytes handed to
  \<open>cons_write\<close>, which accepts them in order (see Uart for the console itself).
\<close>

section \<open>Output\<close>

text \<open>The \<open>stdout\<close> part of \<open>self\<close>, the memory its \<open>ptr\<close> points to, and what reached the console.\<close>

record out =
  o_self :: self
  o_buf :: "u8 list"
  o_cons :: "u8 list"

definition flush :: "out \<Rightarrow> out" where
  "flush o1 = o1\<lparr>o_cons := o_cons o1 @ take (nat (so_idx (o_self o1))) (o_buf o1),
     o_self := (o_self o1)\<lparr>so_idx := 0\<rparr>\<rparr>"

definition putchar :: "out \<Rightarrow> u8 \<Rightarrow> out" where
  "putchar o1 c =
     (if so_buf_enable (o_self o1) \<noteq> 0
      then (let o1 = (if so_idx (o_self o1) \<ge> sint STDOUT_SIZE then flush o1 else o1);
                o1 = o1\<lparr>o_buf := (o_buf o1)[nat (so_idx (o_self o1)) := c],
                        o_self := (o_self o1)\<lparr>so_idx := so_idx (o_self o1) + 1\<rparr>\<rparr>
            in if c = 10 then flush o1 else o1)
      else o1\<lparr>o_cons := o_cons o1 @ [c]\<rparr>)"

definition stdio_buf_disable :: "out \<Rightarrow> out" where
  "stdio_buf_disable o1 =
     o1\<lparr>o_self := (o_self o1)\<lparr>so_buf_last := so_buf_enable (o_self o1), so_buf_enable := 0\<rparr>\<rparr>"

definition stdio_buf_enable :: "out \<Rightarrow> out" where
  "stdio_buf_enable o1 =
     o1\<lparr>o_self := (o_self o1)\<lparr>so_buf_last := so_buf_enable (o_self o1), so_buf_enable := 1\<rparr>\<rparr>"

definition stdio_buf_restore :: "out \<Rightarrow> out" where
  "stdio_buf_restore o1 = o1\<lparr>o_self := (o_self o1)\<lparr>so_buf_enable := so_buf_last (o_self o1)\<rparr>\<rparr>"

text \<open>\<open>char\<close> is unsigned on the target, so the shift is a logical one.\<close>

definition hexdigit :: "u8 \<Rightarrow> u8" where
  "hexdigit n = (if n > 9 then n - 10 + 0x41 else n + 0x30)"

definition puthexchar :: "out \<Rightarrow> u8 \<Rightarrow> out" where
  "puthexchar o1 c = putchar (putchar o1 (hexdigit (drop_bit 4 c))) (hexdigit (c AND 0xF))"

definition put_s :: "out \<Rightarrow> u8 list \<Rightarrow> out" where
  "put_s = foldl putchar"

definition puts :: "out \<Rightarrow> u8 list \<Rightarrow> out" where
  "puts o1 s = putchar (putchar (put_s o1 s) 13) 10"

text \<open>The digits of a positive number, least significant first, as the division loop stores them.\<close>

function digits_rev :: "int \<Rightarrow> u8 list" where
  "digits_rev d = (if d > 0 then (word_of_int (d mod 10) + 0x30) # digits_rev (d div 10) else [])"
  by pat_completeness auto
termination
  by (relation "measure nat") auto

declare digits_rev.simps [simp del]

definition printf_d :: "out \<Rightarrow> u32 \<Rightarrow> int \<times> out" where
  "printf_d o1 d =
     (if d = 0 then (1, putchar o1 0x30)
      else (let (d, o1) = (if d AND 0x80000000 \<noteq> 0 then (NOT (d - 1), putchar o1 0x2D) else (d, o1));
                buf = digits_rev (sint d)
            in (int (length buf), foldl putchar o1 (rev buf))))"

definition printf_x_byte :: "u32 \<Rightarrow> nat \<Rightarrow> int \<times> out \<Rightarrow> int \<times> out" where
  "printf_x_byte x sh st =
     (case st of (n, o1) \<Rightarrow>
       (let c = (ucast (drop_bit sh x) :: u8)
        in if c \<noteq> 0 \<or> n \<noteq> 0 then (n + 2, puthexchar o1 c) else (n, o1)))"

definition printf_x :: "out \<Rightarrow> u32 \<Rightarrow> int \<times> out" where
  "printf_x o1 x =
     (case printf_x_byte x 0 (printf_x_byte x 8 (printf_x_byte x 16 (printf_x_byte x 24 (0, o1)))) of
        (n, o1) \<Rightarrow> if n = 0 then (1, putchar o1 0x30) else (n, o1))"

text \<open>The arguments of \<open>printf\<close>. The format is what the memory holds from its first character on; the
  result is \<open>None\<close> when the code reads behind the memory given, or an argument that was not passed.\<close>

datatype arg = Int_Arg u32 | Str_Arg "u8 list"

fun printf :: "u8 list \<Rightarrow> arg list \<Rightarrow> int \<Rightarrow> out \<Rightarrow> (int \<times> out) option" where
  "printf [] args chars o1 = None"
| "printf (c # fmt) args chars o1 =
     (if c = 0 then Some (chars, o1)
      else if c = 0x25 then
        (case fmt of [] \<Rightarrow> None
         | f # fmt' \<Rightarrow>
             if f = 0x64 then
               (case args of Int_Arg d # args' \<Rightarrow> (case printf_d o1 d of (n, o2) \<Rightarrow> printf fmt' args' (chars + n) o2)
                | _ \<Rightarrow> None)
             else if f = 0x78 then
               (case args of Int_Arg x # args' \<Rightarrow> (case printf_x o1 x of (n, o2) \<Rightarrow> printf fmt' args' (chars + n) o2)
                | _ \<Rightarrow> None)
             else if f = 0x73 then
               (case args of Str_Arg s # args' \<Rightarrow> printf fmt' args' chars (put_s o1 s) | _ \<Rightarrow> None)
             else printf fmt' args chars (putchar o1 f))
      else printf fmt args (chars + 1) (putchar o1 c))"

section \<open>Input\<close>

text \<open>What \<open>cons_read(&c, 1)\<close> can report: an error, nothing yet, or a byte. A wait for the completion goes
  on with the next report.\<close>

datatype read_result = Read_Error | Read_None | Read_Byte u8

fun getchar :: "read_result list \<Rightarrow> (int \<times> read_result list) option" where
  "getchar [] = None"
| "getchar (Read_Error # rs) = Some (- 1, rs)"
| "getchar (Read_None # rs) = getchar rs"
| "getchar (Read_Byte c # rs) = Some (uint c, rs)"

definition erase_one :: "out \<Rightarrow> out" where
  "erase_one o1 = put_s o1 [8, 0x20, 8]"

text \<open>The state of \<open>gets\<close>: the memory, the characters between \<open>orig_s\<close> and \<open>s\<close>, the remaining size, the
  last character. The loop condition is also evaluated after \<open>continue\<close>, on the character read last.\<close>

record line =
  g_mem :: mem
  g_len :: nat
  g_size :: int
  g_c :: u8
  g_out :: out

definition gets_char :: "addr \<Rightarrow> line \<Rightarrow> u8 \<Rightarrow> line" where
  "gets_char s g c =
     (let g = g\<lparr>g_c := c\<rparr>
      in if c = 13 \<or> c = 10 then g
         else if c = 8 then
           (if g_len g > 0 then g\<lparr>g_out := erase_one (g_out g), g_len := g_len g - 1\<rparr> else g)
         else if c = 0x15 then g\<lparr>g_out := (erase_one ^^ g_len g) (g_out g), g_len := 0\<rparr>
         else g\<lparr>g_mem := (g_mem g)(s + of_nat (g_len g) := c), g_len := g_len g + 1, g_size := g_size g - 1,
                g_out := putchar (g_out g) c\<rparr>)"

definition gets_continue :: "line \<Rightarrow> bool" where
  "gets_continue g \<longleftrightarrow> g_c g \<noteq> 10 \<and> g_c g \<noteq> 13 \<and> g_size g > 0"

fun gets_loop :: "addr \<Rightarrow> line \<Rightarrow> read_result list \<Rightarrow> (bool \<times> line \<times> read_result list) option" where
  "gets_loop s g [] = None"
| "gets_loop s g (Read_Error # rs) = Some (False, g, rs)"
| "gets_loop s g (Read_None # rs) = (if gets_continue g then gets_loop s g rs else Some (True, g, rs))"
| "gets_loop s g (Read_Byte c # rs) =
     (let g = gets_char s g c in if gets_continue g then gets_loop s g rs else Some (True, g, rs))"

text \<open>\<open>gets\<close>; \<open>c0\<close> is what the uninitialised variable \<open>c\<close> holds, and the result is \<open>None\<close> while input is
  missing.\<close>

definition gets :: "u8 \<Rightarrow> mem \<Rightarrow> out \<Rightarrow> addr \<Rightarrow> int \<Rightarrow> read_result list \<Rightarrow> (addr \<times> mem \<times> out \<times> read_result list) option" where
  "gets c0 m o1 s sz rs =
     (case gets_loop s \<lparr>g_mem = m, g_len = 0, g_size = sz, g_c = c0, g_out = stdio_buf_disable o1\<rparr> rs of
        None \<Rightarrow> None
      | Some (ok, g, rs) \<Rightarrow>
          (if ok then Some (s, (g_mem g)(s + of_nat (g_len g) := 0), stdio_buf_restore (g_out g), rs)
           else Some (NULL, g_mem g, stdio_buf_restore (g_out g), rs)))"

section \<open>The output stream\<close>

definition out_ok :: "out \<Rightarrow> bool" where
  "out_ok o1 \<longleftrightarrow> 0 \<le> so_idx (o_self o1) \<and> so_idx (o_self o1) \<le> 1024 \<and> length (o_buf o1) = 1024"

text \<open>Everything printed so far: what the console has, followed by what is still buffered.\<close>

definition stream :: "out \<Rightarrow> u8 list" where
  "stream o1 = o_cons o1 @ take (nat (so_idx (o_self o1))) (o_buf o1)"

definition buffered :: "out \<Rightarrow> bool" where
  "buffered o1 \<longleftrightarrow> so_buf_enable (o_self o1) \<noteq> 0"

lemma sint_STDOUT_SIZE: "sint STDOUT_SIZE = 1024"
  by (simp add: STDOUT_SIZE_def)

lemma flush_stream: "out_ok o1 \<Longrightarrow> out_ok (flush o1) \<and> stream (flush o1) = stream o1 \<and> so_idx (o_self (flush o1)) = 0
    \<and> buffered (flush o1) = buffered o1"
  by (simp add: flush_def out_ok_def stream_def buffered_def)

lemma putchar_stream:
  assumes "out_ok o1" and "buffered o1"
  shows "out_ok (putchar o1 c) \<and> buffered (putchar o1 c) \<and> stream (putchar o1 c) = stream o1 @ [c]"
proof -
  define o2 where "o2 = (if so_idx (o_self o1) \<ge> 1024 then flush o1 else o1)"
  define i where "i = so_idx (o_self o2)"
  have o2: "out_ok o2" "stream o2 = stream o1" "buffered o2" and i: "0 \<le> i" "i < 1024"
    using flush_stream [OF assms(1)] assms by (auto simp: o2_def i_def out_ok_def)
  define o3 where "o3 = o2\<lparr>o_buf := (o_buf o2)[nat i := c], o_self := (o_self o2)\<lparr>so_idx := i + 1\<rparr>\<rparr>"
  have p: "putchar o1 c = (if c = 10 then flush o3 else o3)"
    using assms(2) by (simp add: putchar_def o3_def o2_def i_def buffered_def sint_STDOUT_SIZE Let_def)
  have "nat (i + 1) = Suc (nat i)" using i(1) by simp
  moreover have "nat i < length (o_buf o2)" using o2(1) i by (simp add: out_ok_def)
  ultimately have "stream o3 = o_cons o2 @ take (nat i) (o_buf o2) @ [c]"
    by (simp add: stream_def o3_def take_Suc_conv_app_nth)
  then have "stream o3 = stream o1 @ [c]" using o2(2) by (simp add: stream_def i_def)
  moreover have "out_ok o3" "buffered o3" using o2 i by (simp_all add: o3_def out_ok_def buffered_def)
  ultimately show ?thesis using flush_stream [of o3] p by simp
qed

lemma put_s_stream:
  "out_ok o1 \<Longrightarrow> buffered o1 \<Longrightarrow> out_ok (foldl putchar o1 s) \<and> buffered (foldl putchar o1 s)
    \<and> stream (foldl putchar o1 s) = stream o1 @ s"
proof (induction s arbitrary: o1)
  case (Cons c s)
  then show ?case using putchar_stream [of o1 c] by simp
qed simp

section \<open>Decimal and hexadecimal numbers\<close>

text \<open>The value of a digit string, as \<open>atoi\<close> accumulates it.\<close>

definition dec_step :: "u32 \<Rightarrow> u8 \<Rightarrow> u32" where
  "dec_step v c = v * 10 + (ucast c - 0x30)"

definition is_digit :: "u8 \<Rightarrow> bool" where
  "is_digit c \<longleftrightarrow> c \<ge> 0x30 \<and> c \<le> 0x39"

lemma digit_of: 
  assumes "0 \<le> k" and "k < (10 :: int)"
  shows "is_digit (word_of_int k + 0x30) \<and> ucast (word_of_int k + 0x30 :: u8) - 0x30 = (word_of_int k :: u32)"
proof -
  have "k = 0 \<or> k = 1 \<or> k = 2 \<or> k = 3 \<or> k = 4 \<or> k = 5 \<or> k = 6 \<or> k = 7 \<or> k = 8 \<or> k = 9"
    using assms by presburger
  then show ?thesis by (auto simp: is_digit_def)
qed

lemma digits_rev_digits: "\<forall>c\<in>set (digits_rev d). is_digit c"
proof (induction d rule: digits_rev.induct)
  case (1 d)
  then show ?case using digit_of [of "d mod 10"] by (subst digits_rev.simps) auto
qed

lemma digits_rev_value: "0 \<le> d \<Longrightarrow> foldl dec_step 0 (rev (digits_rev d)) = word_of_int d"
proof (induction d rule: digits_rev.induct)
  case (1 d)
  show ?case
  proof (cases "d > 0")
    case True
    have "foldl dec_step 0 (rev (digits_rev d)) =
        dec_step (foldl dec_step 0 (rev (digits_rev (d div 10)))) (word_of_int (d mod 10) + 0x30)"
      using True by (subst digits_rev.simps) simp
    also have "\<dots> = word_of_int (d div 10) * 10 + word_of_int (d mod 10)"
      using 1 True digit_of [of "d mod 10"] by (simp add: dec_step_def [of "word_of_int (d div 10)"])
    also have "\<dots> = word_of_int (d div 10 * 10 + d mod 10)"
      by (simp only: of_int_add of_int_mult of_int_numeral)
    finally show ?thesis by (simp only: div_mult_mod_eq)
  next
    case False
    then show ?thesis using 1(2) by (subst digits_rev.simps) simp
  qed
qed

lemma digits_rev_length: "d < 10 ^ n \<Longrightarrow> length (digits_rev d) \<le> n"
proof (induction n arbitrary: d)
  case 0
  then show ?case by (subst digits_rev.simps) simp
next
  case (Suc n)
  then have "d div 10 < 10 ^ n" by simp
  then show ?case using Suc.IH [of "d div 10"] by (subst digits_rev.simps) simp
qed

lemma digits_rev_nonempty: "0 < d \<Longrightarrow> digits_rev d \<noteq> []"
  by (subst digits_rev.simps) simp

lemma atoi_loop_digits:
  assumes "cstr m p ds" and "\<forall>c\<in>set ds. is_digit c"
  shows "atoi_loop m p v = Some (foldl dec_step v ds)"
  using assms
proof (induction ds arbitrary: p v)
  case Nil
  then show ?case by (subst atoi_loop.simps) simp
next
  case (Cons c ds)
  then show ?case by (subst atoi_loop.simps) (simp add: is_digit_def dec_step_def [of v c])
qed

lemma atoi_digits:
  assumes "cstr m p ds" and "\<forall>c\<in>set ds. is_digit c" and "ds \<noteq> []"
  shows "atoi m p = Some (foldl dec_step 0 ds)"
proof -
  have "m p \<noteq> 0x2D" using assms by (cases ds) (auto simp: is_digit_def)
  then show ?thesis using atoi_loop_digits [OF assms(1,2)] by (simp add: atoi_def)
qed

lemma atoi_minus_digits:
  assumes "cstr m p (0x2D # ds)" and "\<forall>c\<in>set ds. is_digit c"
  shows "atoi m p = Some (- foldl dec_step 0 ds)"
  using assms atoi_loop_digits [of m "p + 1" ds 0] by (simp add: atoi_def minus_eq_not_plus_1)

text \<open>What \<open>printf_d\<close> prints.\<close>

definition decimal :: "u32 \<Rightarrow> u8 list" where
  "decimal d = (if d = 0 then [0x30]
     else if d AND 0x80000000 \<noteq> 0 then 0x2D # rev (digits_rev (sint (- d))) else rev (digits_rev (sint d)))"

lemma printf_d_stream:
  assumes "out_ok o1" and "buffered o1"
  shows "out_ok (snd (printf_d o1 d)) \<and> buffered (snd (printf_d o1 d)) \<and> stream (snd (printf_d o1 d)) = stream o1 @ decimal d"
proof -
  have "NOT (d - 1) = - d" by (simp add: not_eq_complement)
  then show ?thesis
    using putchar_stream [OF assms] put_s_stream [of "putchar o1 0x2D"] put_s_stream [OF assms]
    by (simp add: printf_d_def decimal_def Let_def)
qed

lemma uint_half_u32: "uint (d :: u32) < 2 ^ 31 \<longleftrightarrow> 0 \<le> sint d"
proof (cases "uint d < 2 ^ 31")
  case True
  then have "sint d = uint d" unfolding sint_u32 by (rule if_P)
  then show ?thesis using True uint_u32_bounds(1) [of d] by linarith
next
  case False
  then have "sint d = uint d - 2 ^ 32" unfolding sint_u32 by (rule if_not_P)
  then show ?thesis using False uint_u32_bounds(2) [of d] by linarith
qed

lemma sign_bit_u32: "(d :: u32) AND 0x80000000 \<noteq> 0 \<longleftrightarrow> sint d < 0"
proof -
  have b: "push_bit 31 (1 :: u32) = 0x80000000" by (simp add: push_bit_eq_mult)
  have "d AND 0x80000000 = 0 \<longleftrightarrow> unat d < 2 ^ 31" by (rule top_bit_clear_u32 [of d, unfolded b])
  also have "\<dots> \<longleftrightarrow> uint d < 2 ^ 31" by (simp only: uint_nat [of d] of_nat_less_numeral_power_cancel_iff)
  also have "\<dots> \<longleftrightarrow> 0 \<le> sint d" by (rule uint_half_u32)
  finally show ?thesis by linarith
qed

lemma sint_neg_u32:
  assumes "sint (d :: u32) < 0" and "d \<noteq> 0x80000000"
  shows "0 < sint (- d)"
proof -
  have "sint d \<noteq> sint (0x80000000 :: u32)" using assms(2) by (simp only: sint_u32_eq_iff not_False_eq_True)
  moreover have "sint (0x80000000 :: u32) = - (2 ^ 31)" by simp
  ultimately have "- (2 ^ 31) < sint d" using sint_u32_range [of d] by linarith
  moreover have u: "uint d = sint d + 2 ^ 32" using assms(1) uint_u32_bounds [of d] by (simp add: sint_u32 split: if_splits)
  moreover have "d \<noteq> 0" using assms(1) by auto
  ultimately have "uint (- d) = - sint d" using uint_uminus_u32 [of d] by simp
  then show ?thesis using assms(1) \<open>- (2 ^ 31) < sint d\<close> by (simp add: sint_u32)
qed

lemma decimal_value:
  assumes "cstr m p (decimal d)" and "d \<noteq> 0x80000000"
  shows "atoi m p = Some d"
proof -
  consider "d = 0" | "d \<noteq> 0" "sint d < 0" | "d \<noteq> 0" "0 \<le> sint d" by linarith
  then show ?thesis
  proof cases
    case 1
    then show ?thesis using assms atoi_digits [of m p "[0x30]"] by (simp add: decimal_def is_digit_def dec_step_def)
  next
    case 2
    let ?ds = "rev (digits_rev (sint (- d)))"
    have "cstr m p (0x2D # ?ds)" using assms(1) 2 by (simp only: decimal_def sign_bit_u32 if_False if_True)
    then have "atoi m p = Some (- foldl dec_step 0 ?ds)"
      by (rule atoi_minus_digits) (use digits_rev_digits in auto)
    moreover have "foldl dec_step 0 ?ds = - d"
      using digits_rev_value [of "sint (- d)"] sint_neg_u32 [OF 2(2) assms(2)] by simp
    ultimately show ?thesis by simp
  next
    case 3
    let ?ds = "rev (digits_rev (sint d))"
    have "cstr m p ?ds" using assms(1) 3 by (simp add: decimal_def sign_bit_u32)
    moreover have "0 < sint d" using 3 by (metis order_le_less sint_0 sint_u32_eq_iff)
    ultimately have "atoi m p = Some (foldl dec_step 0 ?ds)"
      using digits_rev_digits digits_rev_nonempty by (intro atoi_digits) auto
    then show ?thesis using digits_rev_value [of "sint d"] 3 by simp
  qed
qed

section \<open>Hexadecimal numbers\<close>

definition hexval :: "u8 \<Rightarrow> int" where
  "hexval c = (if c \<le> 0x39 then uint c - 0x30 else uint c - 0x37)"

definition hex_value :: "u8 list \<Rightarrow> int" where
  "hex_value = foldl (\<lambda>v c. v * 16 + hexval c) 0"

definition hexbyte :: "u8 \<Rightarrow> u8 list" where
  "hexbyte c = [hexdigit (drop_bit 4 c), hexdigit (c AND 0xF)]"

lemma hexval_hexdigit:
  assumes "uint n < 16"
  shows "hexval (hexdigit n) = uint n"
proof -
  have n: "hexval (hexdigit (word_of_int k)) = k" if "0 \<le> k" "k < 16" for k :: int
  proof -
    have "k = 0 \<or> k = 1 \<or> k = 2 \<or> k = 3 \<or> k = 4 \<or> k = 5 \<or> k = 6 \<or> k = 7 \<or> k = 8 \<or> k = 9
        \<or> k = 10 \<or> k = 11 \<or> k = 12 \<or> k = 13 \<or> k = 14 \<or> k = 15"
      using that by presburger
    then show ?thesis by (elim disjE) (simp_all add: hexval_def hexdigit_def)
  qed
  show ?thesis using n [of "uint n"] assms by simp
qed

lemma hexbyte_value: "foldl (\<lambda>v c. v * 16 + hexval c) v (hexbyte c) = v * 256 + uint c"
proof -
  have c: "uint (drop_bit 4 c) = uint c div 16" "uint (c AND 0xF) = uint c mod 16"
    unfolding and_mask_eq_take_bit_u8 uint_take_bit uint_drop_bit by simp_all
  then have "uint (drop_bit 4 c) < 16" "uint (c AND 0xF) < 16" using uint_lt2p [of c] by simp_all
  then show ?thesis using c by (simp add: hexbyte_def hexval_hexdigit)
qed

lemma puthexchar_stream:
  "out_ok o1 \<Longrightarrow> buffered o1 \<Longrightarrow> out_ok (puthexchar o1 c) \<and> buffered (puthexchar o1 c)
    \<and> stream (puthexchar o1 c) = stream o1 @ hexbyte c"
  using putchar_stream [of o1] putchar_stream [of "putchar o1 (hexdigit (drop_bit 4 c))"]
  by (simp add: puthexchar_def hexbyte_def)

text \<open>One step of \<open>printf_x\<close> keeps: the digits so far have the value of the bits above, there are \<open>n\<close> of them,
  and \<open>n\<close> is zero only while the value is.\<close>

lemma printf_x_byte_step:
  assumes "out_ok o1" and "buffered o1" and "stream o1 = base @ hs" and "hex_value hs = uint x div 2 ^ (sh + 8)"
    and "n = int (length hs)" and "n = 0 \<longleftrightarrow> hex_value hs = 0"
  shows "\<exists>n' o' hs'. printf_x_byte x sh (n, o1) = (n', o') \<and> out_ok o' \<and> buffered o' \<and> stream o' = base @ hs'
    \<and> hex_value hs' = uint x div 2 ^ sh \<and> n' = int (length hs') \<and> (n' = 0 \<longleftrightarrow> hex_value hs' = 0)"
proof -
  let ?c = "ucast (drop_bit sh x) :: u8"
  have c: "uint ?c = uint x div 2 ^ sh mod 256"
    unfolding uint_ucast_u8 uint_drop_bit by (rule refl)
  have split: "uint x div 2 ^ sh = uint x div 2 ^ (sh + 8) * 256 + uint ?c"
  proof -
    have "uint x div 2 ^ (sh + 8) = uint x div 2 ^ sh div 256" by (simp add: power_add zdiv_zmult2_eq)
    then show ?thesis unfolding c by (simp only: div_mult_mod_eq)
  qed
  show ?thesis
  proof (cases "?c \<noteq> 0 \<or> n \<noteq> 0")
    case True
    have v: "hex_value (hs @ hexbyte ?c) = uint x div 2 ^ sh"
      using hexbyte_value assms(4) split by (simp add: hex_value_def)
    have "0 \<le> uint x div 2 ^ (sh + 8)" "0 \<le> uint ?c" by (simp_all add: pos_imp_zdiv_nonneg_iff)
    moreover have "uint ?c \<noteq> 0 \<or> uint x div 2 ^ (sh + 8) \<noteq> 0" using True assms(4,6) by (auto simp: uint_0_iff)
    ultimately have "0 < uint x div 2 ^ (sh + 8) \<or> 0 < uint ?c" by linarith
    then have "uint x div 2 ^ sh \<noteq> 0"
      using \<open>0 \<le> uint x div 2 ^ (sh + 8)\<close> \<open>0 \<le> uint ?c\<close> unfolding split by (elim disjE) linarith+
    then show ?thesis using True v puthexchar_stream [OF assms(1,2), of ?c] assms(3,5)
      by (intro exI [of _ "n + 2"] exI [of _ "puthexchar o1 ?c"] exI [of _ "hs @ hexbyte ?c"])
        (simp add: printf_x_byte_def Let_def hexbyte_def)
  next
    case False
    then have "uint ?c = 0" "uint x div 2 ^ (sh + 8) = 0" using assms(4,6) by simp_all
    then show ?thesis using False assms split
      by (intro exI [of _ n] exI [of _ o1] exI [of _ hs]) (simp add: printf_x_byte_def Let_def)
  qed
qed

lemma printf_x_stream:
  assumes "out_ok o1" and "buffered o1"
  shows "\<exists>hs. stream (snd (printf_x o1 x)) = stream o1 @ hs \<and> hex_value hs = uint x \<and> fst (printf_x o1 x) = int (length hs)
    \<and> out_ok (snd (printf_x o1 x)) \<and> buffered (snd (printf_x o1 x))"
proof -
  have "uint x div 2 ^ (24 + 8) = 0" using uint_u32_bounds [of x] by simp
  then obtain n1 o11 h1 where 1: "printf_x_byte x 24 (0, o1) = (n1, o11)" "out_ok o11" "buffered o11"
    "stream o11 = stream o1 @ h1" "hex_value h1 = uint x div 2 ^ 24" "n1 = int (length h1)" "n1 = 0 \<longleftrightarrow> hex_value h1 = 0"
    using printf_x_byte_step [OF assms, of "stream o1" "[]" x 24 0] by (auto simp: hex_value_def)
  obtain n2 o2 h2 where 2: "printf_x_byte x 16 (n1, o11) = (n2, o2)" "out_ok o2" "buffered o2"
    "stream o2 = stream o1 @ h2" "hex_value h2 = uint x div 2 ^ 16" "n2 = int (length h2)" "n2 = 0 \<longleftrightarrow> hex_value h2 = 0"
    using printf_x_byte_step [OF 1(2,3,4) _ 1(6,7), of x 16] 1(5) by auto
  obtain n3 o3 h3 where 3: "printf_x_byte x 8 (n2, o2) = (n3, o3)" "out_ok o3" "buffered o3"
    "stream o3 = stream o1 @ h3" "hex_value h3 = uint x div 2 ^ 8" "n3 = int (length h3)" "n3 = 0 \<longleftrightarrow> hex_value h3 = 0"
    using printf_x_byte_step [OF 2(2,3,4) _ 2(6,7), of x 8] 2(5) by auto
  obtain n4 o4 h4 where 4: "printf_x_byte x 0 (n3, o3) = (n4, o4)" "out_ok o4" "buffered o4"
    "stream o4 = stream o1 @ h4" "hex_value h4 = uint x div 2 ^ 0" "n4 = int (length h4)" "n4 = 0 \<longleftrightarrow> hex_value h4 = 0"
    using printf_x_byte_step [OF 3(2,3,4) _ 3(6,7), of x 0] 3(5) by auto
  show ?thesis
  proof (cases "n4 = 0")
    case True
    then have "h4 = []" "uint x = 0" using 4(5,6,7) by simp_all
    then show ?thesis using True 1(1) 2(1) 3(1) 4(1,4) putchar_stream [OF 4(2,3), of "0x30"]
      by (intro exI [of _ "[0x30]"]) (simp add: printf_x_def hex_value_def hexval_def)
  next
    case False
    then show ?thesis using 1(1) 2(1) 3(1) 4 by (intro exI [of _ h4]) (simp add: printf_x_def)
  qed
qed

section \<open>Line input\<close>

text \<open>The invariant of the loop of \<open>gets\<close>: no more characters than bytes used up, and only bytes of the buffer written.\<close>

definition line_ok :: "mem \<Rightarrow> addr \<Rightarrow> nat \<Rightarrow> line \<Rightarrow> bool" where
  "line_ok m s n g \<longleftrightarrow> int (g_len g) + g_size g \<le> int n \<and> 0 \<le> g_size g
     \<and> (\<forall>a. g_mem g a \<noteq> m a \<longrightarrow> unat s \<le> unat a \<and> unat a < unat s + n)"

lemma gets_char_ok:
  assumes "line_ok m s n g" and "0 < g_size g" and "unat s + n < 2 ^ 32"
  shows "line_ok m s n (gets_char s g c)"
proof -
  have "int (g_len g) < int n" using assms(1,2) by (simp add: line_ok_def)
  then have l: "g_len g < n" by simp
  then have "unat (of_nat (g_len g) :: u32) = g_len g" using assms(3) by (simp add: unat_of_nat)
  then have "unat (s + of_nat (g_len g)) = unat s + g_len g"
    using l assms(3) by (subst unat_add_lem [THEN iffD1]) auto
  then show ?thesis using assms(1,2) l by (auto simp: line_ok_def gets_char_def Let_def)
qed

lemma gets_loop_ok:
  assumes "gets_loop s g rs = Some (ok, g', rs')" and "line_ok m s n g" and "0 < g_size g" and "unat s + n < 2 ^ 32"
  shows "line_ok m s n g'"
  using assms
proof (induction s g rs arbitrary: ok g' rs' rule: gets_loop.induct)
  case (4 s g c rs)
  have o: "line_ok m s n (gets_char s g c)" using 4(3-5) by (rule gets_char_ok)
  show ?case
  proof (cases "gets_continue (gets_char s g c)")
    case True
    then have "0 < g_size (gets_char s g c)" by (simp add: gets_continue_def)
    then show ?thesis using 4(1) [OF refl True _ o] 4(2,5) True by (simp add: Let_def)
  next
    case False
    then show ?thesis using 4(2) o by (simp add: Let_def)
  qed
qed (auto split: if_splits)

definition plain_char :: "u8 \<Rightarrow> bool" where
  "plain_char c \<longleftrightarrow> c \<notin> {8, 10, 13, 0x15}"

lemma gets_loop_plain:
  assumes "\<forall>c\<in>set cs. plain_char c" and "cs \<noteq> []" and "g_size g = int (length cs)"
  shows "\<exists>g'. gets_loop s g (map Read_Byte cs @ rs) = Some (True, g', rs) \<and> g_len g' = g_len g + length cs"
  using assms
proof (induction cs arbitrary: g)
  case (Cons c cs)
  let ?g = "gets_char s g c"
  have g: "g_len ?g = Suc (g_len g)" "g_size ?g = int (length cs)" "g_c ?g = c"
    using Cons.prems by (simp_all add: gets_char_def plain_char_def Let_def)
  have ct: "gets_continue ?g \<longleftrightarrow> cs \<noteq> []"
    using Cons.prems(1) g by (simp add: gets_continue_def plain_char_def)
  show ?case
  proof (cases "cs = []")
    case True
    then show ?thesis using ct g by (simp add: Let_def)
  next
    case False
    then obtain g' where "gets_loop s ?g (map Read_Byte cs @ rs) = Some (True, g', rs)" "g_len g' = g_len ?g + length cs"
      using Cons.IH [of ?g] Cons.prems(1) g(2) by auto
    then show ?thesis using ct False g(1) by (auto simp: Let_def)
  qed
qed simp

section \<open>Properties\<close>

text \<open>buffered output loses and reorders nothing. While buffering is on, every \<open>putchar\<close> appends its
  character to the stream (what the console received followed by what is buffered) and never leaves the 1024-byte
  buffer; so does a string. When buffering is switched off with characters pending, as \<open>gets\<close> does, the next
  character overtakes them.\<close>

theorem putchar_order:
  assumes "out_ok o1"
  shows "(buffered o1 \<longrightarrow> out_ok (put_s o1 s) \<and> stream (put_s o1 s) = stream o1 @ s)
    \<and> stream (putchar (stdio_buf_disable o1) c) =
        o_cons o1 @ [c] @ take (nat (so_idx (o_self o1))) (o_buf o1)"
  using put_s_stream [OF assms, of s]
  by (simp add: put_s_def stream_def stdio_buf_disable_def putchar_def)

definition out0 :: out where
  "out0 = \<lparr>o_self = \<lparr>so_ptr = 0x7000, so_idx = 0, so_buf_enable = 1, so_buf_last = 1\<rparr>,
     o_buf = replicate 1024 0, o_cons = []\<rparr>"

lemma out0_ok: "out_ok out0" "buffered out0" "stream out0 = []"
  by (simp_all add: out0_def out_ok_def buffered_def stream_def)

theorem putchar_order_witness:
  "stream (put_s out0 [0x68, 0x69]) = [0x68, 0x69]
    \<and> stream (putchar (stdio_buf_disable (put_s out0 [0x3E])) 0x78) = [0x78, 0x3E]"
proof -
  have p: "out_ok (put_s out0 [0x3E])" "stream (put_s out0 [0x3E]) = [0x3E]"
    using put_s_stream [OF out0_ok(1,2), of "[0x3E]"] by (simp_all add: put_s_def out0_ok)
  have c: "o_cons (put_s out0 [0x3E]) = []"
    by (simp add: put_s_def putchar_def out0_def sint_STDOUT_SIZE)
  then have "take (nat (so_idx (o_self (put_s out0 [0x3E])))) (o_buf (put_s out0 [0x3E])) = [0x3E]"
    using p(2) by (simp add: stream_def)
  then have "stream (putchar (stdio_buf_disable (put_s out0 [0x3E])) 0x78) = [0x78, 0x3E]"
    using putchar_order [OF p(1), of "[]" "0x78"] c by simp
  moreover have "stream (put_s out0 [0x68, 0x69]) = [0x68, 0x69]"
    using putchar_order [OF out0_ok(1), of "[0x68, 0x69]" 0] out0_ok by simp
  ultimately show ?thesis by simp
qed

text \<open>\<open>%d\<close> prints a number that \<open>atoi\<close> reads back, for every 32-bit integer except the smallest one, and
  the ten bytes it uses are enough. The smallest integer cannot be negated in 32 bits: only its sign is printed.\<close>

theorem printf_d_round_trip:
  assumes "out_ok o1" and "buffered o1"
  shows "\<exists>ds. stream (snd (printf_d o1 d)) = stream o1 @ ds \<and> length (digits_rev (sint d)) \<le> 10
    \<and> length (digits_rev (sint (- d))) \<le> 10
    \<and> (if d = 0x80000000 then ds = [0x2D] else (\<forall>m p. cstr m p ds \<longrightarrow> atoi m p = Some d))"
proof -
  have len: "length (digits_rev (sint (w :: u32))) \<le> 10" for w
    using sint_u32_range(2) [of w] by (intro digits_rev_length) simp
  have "decimal 0x80000000 = [0x2D]" by (simp add: decimal_def digits_rev.simps)
  then show ?thesis
    using printf_d_stream [OF assms, of d] decimal_value len by (intro exI [of _ "decimal d"]) auto
qed

theorem printf_d_round_trip_witness:
  "\<exists>ds. stream (snd (printf_d out0 (- 42))) = ds \<and> (\<forall>m p. cstr m p ds \<longrightarrow> atoi m p = Some (- 42))"
  using printf_d_round_trip [OF out0_ok(1,2), of "- 42"] by (auto simp: out0_ok(3))

text \<open>\<open>%x\<close> prints exactly the value of every 32-bit word in hexadecimal and returns the number of digits;
  the number of digits is even unless the word is zero.\<close>

theorem printf_x_correct:
  assumes "out_ok o1" and "buffered o1"
  shows "\<exists>hs. stream (snd (printf_x o1 x)) = stream o1 @ hs \<and> hex_value hs = uint x
    \<and> fst (printf_x o1 x) = int (length hs)"
  using printf_x_stream [OF assms, of x] by blast

theorem printf_x_correct_witness:
  "\<exists>hs. stream (snd (printf_x out0 0xBEEF)) = hs \<and> hex_value hs = 0xBEEF"
  using printf_x_correct [OF out0_ok(1,2), of "0xBEEF"] by (auto simp: out0_ok(3))

text \<open>how far \<open>gets\<close> writes. Whatever is typed, with errors and editing characters, memory outside the
  \<open>size + 1\<close> bytes at \<open>s\<close> is untouched; and the last of these, one past the buffer, is overwritten with
  the terminator as soon as \<open>size\<close> ordinary characters are typed.\<close>

theorem gets_writes_one_past:
  assumes "0 < n" and "unat s + n < 2 ^ 32"
  shows "(gets c0 m o1 s (int n) rs = Some (r, m', o', rs') \<longrightarrow>
      (\<forall>a. m' a \<noteq> m a \<longrightarrow> unat s \<le> unat a \<and> unat a \<le> unat s + n))
    \<and> ((\<forall>c\<in>set cs. plain_char c) \<and> length cs = n \<longrightarrow>
      (\<exists>m' o'. gets c0 m o1 s (int n) (map Read_Byte cs @ rs) = Some (s, m', o', rs) \<and> m' (s + of_nat n) = 0))"
proof (intro conjI impI)
  let ?g = "\<lparr>g_mem = m, g_len = 0, g_size = int n, g_c = c0, g_out = stdio_buf_disable o1\<rparr>"
  assume "gets c0 m o1 s (int n) rs = Some (r, m', o', rs')"
  then obtain ok g where g: "gets_loop s ?g rs = Some (ok, g, rs')"
    "m' = (if ok then (g_mem g)(s + of_nat (g_len g) := 0) else g_mem g)"
    by (auto simp: gets_def split: option.splits if_splits)
  have l: "line_ok m s n g"
    using g(1) by (rule gets_loop_ok) (use assms in \<open>simp_all add: line_ok_def\<close>)
  then have gl: "g_len g \<le> n" by (simp add: line_ok_def)
  then have "unat (of_nat (g_len g) :: u32) = g_len g" using assms(2) by (simp add: unat_of_nat)
  then have "unat (s + of_nat (g_len g)) = unat s + g_len g"
    using gl assms(2) by (subst unat_add_lem [THEN iffD1]) auto
  then show "\<forall>a. m' a \<noteq> m a \<longrightarrow> unat s \<le> unat a \<and> unat a \<le> unat s + n"
  proof (intro allI impI)
    fix a assume a: "m' a \<noteq> m a"
    show "unat s \<le> unat a \<and> unat a \<le> unat s + n"
    proof (cases "a = s + of_nat (g_len g)")
      case True
      then show ?thesis using \<open>unat (s + of_nat (g_len g)) = unat s + g_len g\<close> gl by simp
    next
      case False
      then have "g_mem g a \<noteq> m a" using a by (simp add: g(2) split: if_splits)
      then show ?thesis using l by (auto simp: line_ok_def dest: less_imp_le)
    qed
  qed
next
  assume cs: "(\<forall>c\<in>set cs. plain_char c) \<and> length cs = n"
  let ?g = "\<lparr>g_mem = m, g_len = 0, g_size = int n, g_c = c0, g_out = stdio_buf_disable o1\<rparr>"
  obtain g where "gets_loop s ?g (map Read_Byte cs @ rs) = Some (True, g, rs)" "g_len g = n"
    using gets_loop_plain [of cs ?g s rs] cs assms(1) by auto
  then show "\<exists>m' o'. gets c0 m o1 s (int n) (map Read_Byte cs @ rs) = Some (s, m', o', rs) \<and> m' (s + of_nat n) = 0"
    by (simp add: gets_def)
qed

theorem gets_writes_one_past_witness:
  "\<exists>m' o'. gets 0 (\<lambda>_. 0xFF) out0 0x100 2 [Read_Byte 0x61, Read_Byte 0x62] = Some (0x100, m', o', []) \<and> m' 0x102 = 0"
  using gets_writes_one_past [of 2 "0x100" 0 "\<lambda>_. 0xFF" out0 "[]" _ _ _ _ "[0x61, 0x62]"] by (simp add: plain_char_def)

end
