(* ===== verification/Render.thy ===== *)
theory Render
  imports Stdio
begin

text \<open>
  What \<open>printf\<close> prints, as a list of characters: the text of a format with its arguments. Printing is then one
  \<open>put_s\<close> of the text, whatever the buffering.
\<close>

section \<open>Literal formats\<close>

definition ascii :: "string \<Rightarrow> u8 list" where
  "ascii s = map of_char s"

definition crlf :: string where
  "crlf = [CHR 0x0D, CHR 0x0A]"

definition say :: "string \<Rightarrow> arg list \<Rightarrow> out \<Rightarrow> out option" where
  "say fmt args o1 = map_option snd (printf (ascii fmt @ [0]) args 0 o1)"

lemma ascii_append: "ascii (s @ t) = ascii s @ ascii t"
  by (simp add: ascii_def)

lemma put_s_append: "put_s o1 (xs @ ys) = put_s (put_s o1 xs) ys"
  by (simp add: put_s_def)

lemma put_s_Nil [simp]: "put_s o1 [] = o1"
  by (simp add: put_s_def)

lemma puts_put_s: "puts o1 s = put_s o1 (s @ [13, 10])"
  by (simp add: puts_def put_s_def)

section \<open>Numbers\<close>

text \<open>The digits of the hexadecimal conversion, byte by byte.\<close>

definition hex_step :: "u32 \<Rightarrow> nat \<Rightarrow> u8 list \<Rightarrow> u8 list" where
  "hex_step x sh hs = (let c = ucast (drop_bit sh x) in if c \<noteq> 0 \<or> hs \<noteq> [] then hs @ hexbyte c else hs)"

definition hex_digits :: "u32 \<Rightarrow> u8 list" where
  "hex_digits x = (let hs = hex_step x 0 (hex_step x 8 (hex_step x 16 (hex_step x 24 []))) in if hs = [] then [0x30] else hs)"

lemma hexbyte_length [simp]: "length (hexbyte c) = 2"
  by (simp add: hexbyte_def)

lemma puthexchar_put_s: "puthexchar o1 c = put_s o1 (hexbyte c)"
  by (simp add: puthexchar_def put_s_def hexbyte_def)

lemma printf_x_byte_put:
  "printf_x_byte x sh (int (length hs), put_s o1 hs) = (int (length (hex_step x sh hs)), put_s o1 (hex_step x sh hs))"
  by (auto simp: printf_x_byte_def hex_step_def puthexchar_put_s put_s_append Let_def)

lemma printf_x_digits: "printf_x o1 x = (int (length (hex_digits x)), put_s o1 (hex_digits x))"
proof -
  let ?hs = "hex_step x 0 (hex_step x 8 (hex_step x 16 (hex_step x 24 [])))"
  have "printf_x_byte x 24 (0, o1) = (int (length (hex_step x 24 [])), put_s o1 (hex_step x 24 []))"
    using printf_x_byte_put [of x 24 "[]" o1] by simp
  then have "printf_x_byte x 0 (printf_x_byte x 8 (printf_x_byte x 16 (printf_x_byte x 24 (0, o1)))) = (int (length ?hs), put_s o1 ?hs)"
    by (simp only: printf_x_byte_put)
  then show ?thesis by (auto simp: printf_x_def hex_digits_def put_s_def Let_def)
qed

lemma printf_d_digits: "snd (printf_d o1 d) = put_s o1 (decimal d)"
proof -
  have "NOT (d - 1) = - d" by (simp add: not_eq_complement)
  then show ?thesis by (simp add: printf_d_def decimal_def put_s_def Let_def)
qed

section \<open>Formats\<close>

text \<open>\<open>None\<close> when the format does not end or an argument is missing.\<close>

fun render :: "u8 list \<Rightarrow> arg list \<Rightarrow> u8 list option" where
  "render [] args = None"
| "render (c # fmt) args =
     (if c = 0 then Some []
      else if c = 0x25 then
        (case fmt of
           [] \<Rightarrow> None
         | f # fmt' \<Rightarrow>
             if f = 0x64 then
               (case args of Int_Arg d # args' \<Rightarrow> map_option (\<lambda>r. decimal d @ r) (render fmt' args') | _ \<Rightarrow> None)
             else if f = 0x78 then
               (case args of Int_Arg x # args' \<Rightarrow> map_option (\<lambda>r. hex_digits x @ r) (render fmt' args') | _ \<Rightarrow> None)
             else if f = 0x73 then
               (case args of Str_Arg s # args' \<Rightarrow> map_option (\<lambda>r. s @ r) (render fmt' args') | _ \<Rightarrow> None)
             else map_option (\<lambda>r. f # r) (render fmt' args))
      else map_option (\<lambda>r. c # r) (render fmt args))"

lemma put_s_Cons: "put_s o1 (c # s) = put_s (putchar o1 c) s"
  by (simp add: put_s_def)

lemma put_s_map: "map_option (put_s o1) (map_option (\<lambda>r. s @ r) m) = map_option (put_s (put_s o1 s)) m"
  "map_option (put_s o1) (map_option (\<lambda>r. c # r) m) = map_option (put_s (putchar o1 c)) m"
  by (simp_all add: option.map_comp comp_def put_s_append put_s_Cons)

lemma printf_put_s: "map_option snd (printf fmt args n o1) = map_option (put_s o1) (render fmt args)"
proof (induction "length fmt" arbitrary: fmt args n o1 rule: less_induct)
  case less
  show ?case
  proof (cases fmt)
    case (Cons c fmt1)
    note IH1 = less [of fmt1, unfolded Cons, simplified]
    show ?thesis
    proof (cases "c = 0x25")
      case False
      then show ?thesis using IH1 by (simp add: Cons put_s_map)
    next
      case True
      show ?thesis
      proof (cases fmt1)
        case (Cons f fmt2)
        have IH: "map_option snd (printf fmt2 args n o1) = map_option (put_s o1) (render fmt2 args)" for args n o1
          by (rule less) (simp add: \<open>fmt = c # fmt1\<close> Cons)
        show ?thesis
        proof (cases args)
          case Nil
          then show ?thesis using IH by (simp add: \<open>fmt = c # fmt1\<close> Cons True put_s_map)
        next
          case args: (Cons x args')
          show ?thesis
          proof (cases x)
            case (Int_Arg v)
            obtain k where k: "printf_d o1 v = (k, put_s o1 (decimal v))" using printf_d_digits [of o1 v] by (metis prod.collapse)
            show ?thesis using IH by (simp add: \<open>fmt = c # fmt1\<close> Cons True put_s_map args Int_Arg printf_x_digits k)
          next
            case (Str_Arg v)
            show ?thesis using IH by (simp add: \<open>fmt = c # fmt1\<close> Cons True put_s_map args Str_Arg)
          qed
        qed
      qed (simp add: Cons True)
    qed
  qed simp
qed

lemma say_put_s: "say fmt args o1 = map_option (put_s o1) (render (ascii fmt @ [0]) args)"
  by (simp add: say_def printf_put_s)

end
