(* ===== verification/Board.thy ===== *)
theory Board
  imports Nand Uart Render
begin

text \<open>
  Board support: the early console, the timer interrupt, the interrupt and trap tables (arch/init.c), the translation table
  (arch/mmu.c), the SPI port (arch/spi.c) and the watchdog reset (arch/misc.c), on a bus as in \<open>Bus\<close>; the registers of the
  interrupt controllers are a map, as in \<open>Uart\<close>.
\<close>

section \<open>The early console\<close>

definition UART1Data :: addr where "UART1Data = 0x808C0000"
definition UART1Flag :: addr where "UART1Flag = 0x808C0018"
definition TXFF :: u32 where "TXFF = 0x20"

definition early_putchar :: "'d bus \<Rightarrow> u8 \<Rightarrow> 'd \<Rightarrow> 'd option" where
  "early_putchar b c d = map_option (outl b UART1Data (ucast c)) (poll32 b UART1Flag (\<lambda>v. v AND TXFF \<noteq> 0) d)"

definition early_puthexchar :: "'d bus \<Rightarrow> u8 \<Rightarrow> 'd \<Rightarrow> 'd option" where
  "early_puthexchar b c d =
     (let x = (if drop_bit 4 c > 9 then drop_bit 4 c - 10 + 0x41 else drop_bit 4 c + 0x30)
      in case early_putchar b x d of
           None \<Rightarrow> None
         | Some d \<Rightarrow>
             (let x = (if c AND 0xF > 9 then (c AND 0xF) - 10 + 0x41 else (c AND 0xF) + 0x30) in early_putchar b x d))"

fun early_puts :: "'d bus \<Rightarrow> u8 list \<Rightarrow> 'd \<Rightarrow> 'd option" where
  "early_puts b [] d = Some d"
| "early_puts b (c # s) d = (case early_putchar b c d of None \<Rightarrow> None | Some d \<Rightarrow> early_puts b s d)"

text \<open>One of the four similar steps of \<open>_printf_x\<close>: the byte of \<open>x\<close> under the mask; the first step has no digits yet.\<close>

definition early_printf_x_byte :: "'d bus \<Rightarrow> u32 \<Rightarrow> u32 \<Rightarrow> nat \<Rightarrow> int \<times> 'd \<Rightarrow> (int \<times> 'd) option" where
  "early_printf_x_byte b x msk sh st =
     (case st of (n, d) \<Rightarrow>
        (let c = ucast (drop_bit sh (x AND msk)) :: u8
         in if c \<noteq> 0 \<or> n \<noteq> 0 then map_option (\<lambda>d. (n + 2, d)) (early_puthexchar b c d) else Some (n, d)))"

definition early_printf_x :: "'d bus \<Rightarrow> u32 \<Rightarrow> 'd \<Rightarrow> (int \<times> 'd) option" where
  "early_printf_x b x d =
     (case early_printf_x_byte b x 0xFF000000 24 (0, d) of
        None \<Rightarrow> None
      | Some st \<Rightarrow>
     (case early_printf_x_byte b x 0x00FF0000 16 st of
        None \<Rightarrow> None
      | Some st \<Rightarrow>
     (case early_printf_x_byte b x 0x0000FF00 8 st of
        None \<Rightarrow> None
      | Some st \<Rightarrow>
     (case early_printf_x_byte b x 0x000000FF 0 st of
        None \<Rightarrow> None
      | Some (n, d) \<Rightarrow> if n = 0 then map_option (\<lambda>d. (n + 1, d)) (early_putchar b 0x30 d) else Some (n, d)))))"

section \<open>The timer interrupt\<close>

definition Timer3Load :: addr where "Timer3Load = 0x80810080"
definition Timer3Control :: addr where "Timer3Control = 0x80810088"
definition Timer3Clear :: addr where "Timer3Clear = 0x8081008C"
definition LEDS :: addr where "LEDS = 0x80840020"
definition LED_GREEN :: u8 where "LED_GREEN = 1"
definition HEARTBEAT_MS :: int where "HEARTBEAT_MS = 100"

text \<open>The state is the kernel, the static counter \<open>hb\<close> and the device.\<close>

definition arch_timer_int :: "'d bus \<Rightarrow> kern \<times> int \<times> 'd \<Rightarrow> kern \<times> int \<times> 'd" where
  "arch_timer_int b st =
     (case st of (k, hb, d) \<Rightarrow>
        (let d = outl b Timer3Clear 0 d;
             k = timer_int k;
             hb = hb + 10
         in if hb \<ge> HEARTBEAT_MS then (k, 0, modb b LEDS (\<lambda>v. v XOR LED_GREEN) d) else (k, hb, d)))"

section \<open>Interrupts and traps\<close>

definition VIC1IntSelect :: addr where "VIC1IntSelect = 0x800B000C"
definition VIC1IntEnClear :: addr where "VIC1IntEnClear = 0x800B0014"
definition VIC1SoftIntClear :: addr where "VIC1SoftIntClear = 0x800B0014"
definition VIC1VectAddr :: addr where "VIC1VectAddr = 0x800B0030"
definition VIC1DefVectAddr :: addr where "VIC1DefVectAddr = 0x800B0034"
definition VIC1VectAddr0 :: addr where "VIC1VectAddr0 = 0x800B0100"
definition VIC1VectCntl0 :: addr where "VIC1VectCntl0 = 0x800B0200"
definition VIC1ITCR :: addr where "VIC1ITCR = 0x800B0300"
definition VIC2IntSelect :: addr where "VIC2IntSelect = 0x800C000C"
definition VIC2IntEnClear :: addr where "VIC2IntEnClear = 0x800C0014"
definition VIC2SoftIntClear :: addr where "VIC2SoftIntClear = 0x800C0014"
definition VIC2VectAddr :: addr where "VIC2VectAddr = 0x800C0030"
definition VIC2DefVectAddr :: addr where "VIC2DefVectAddr = 0x800C0034"
definition VIC2VectAddr0 :: addr where "VIC2VectAddr0 = 0x800C0100"
definition VIC2VectCntl0 :: addr where "VIC2VectCntl0 = 0x800C0200"
definition VIC2ITCR :: addr where "VIC2ITCR = 0x800C0300"
definition TC3OI :: int where "TC3OI = 51"

text \<open>The loop that disables the vectors. Its index arithmetic is on integers, so the step is four bytes.\<close>

definition clear_vector :: "nat \<Rightarrow> (addr \<Rightarrow> u32) \<Rightarrow> (addr \<Rightarrow> u32)" where
  "clear_vector i regs =
     regs(VIC1VectCntl0 + of_nat i * 4 := 0, VIC1VectAddr0 + of_nat i * 4 := 0,
          VIC2VectCntl0 + of_nat i * 4 := 0, VIC2VectAddr0 + of_nat i * 4 := 0)"

text \<open>\<open>irq\<close> and \<open>timer\<close> are the addresses of \<open>arm_irq_entry\<close> and \<open>_timer_int\<close>. Reading a vector address has no effect on
  a map, so of the loop that clears what is pending only the writes remain.\<close>

definition init_interrupts :: "'d bus \<Rightarrow> addr \<Rightarrow> addr \<Rightarrow> (addr \<Rightarrow> u32) \<Rightarrow> 'd \<Rightarrow> (addr \<Rightarrow> u32) \<times> 'd" where
  "init_interrupts b irq timer regs d =
     (let regs = regs(VIC1IntSelect := 0, VIC1IntEnClear := 0xFFFFFFFF, VIC1ITCR := 0, VIC1SoftIntClear := 0xFFFFFFFF);
          regs = regs(VIC2IntSelect := 0, VIC2IntEnClear := 0xFFFFFFFF, VIC2ITCR := 0, VIC2SoftIntClear := 0xFFFFFFFF);
          regs = foldl (\<lambda>regs i. regs(VIC1VectAddr := 0, VIC2VectAddr := 0)) regs [0..<32];
          regs = foldl (\<lambda>regs i. clear_vector i regs) regs [0..<16];
          regs = regs(VIC1VectAddr := irq, VIC2VectAddr := irq, VIC1DefVectAddr := irq, VIC2DefVectAddr := irq);
          regs = snd (register_irq_handler regs TC3OI timer False);
          regs = enable_irq regs TC3OI;
          d = outl b Timer3Load 5080 d
      in (regs, outl b Timer3Control 0xC8 d))"

text \<open>The sixteen words of the vector table; \<open>reset_at\<close>, \<open>und_at\<close>, \<open>svc_at\<close>, \<open>pa_at\<close>, \<open>da_at\<close> and \<open>irq_at\<close> are the entry points.\<close>

definition LDR_PC_PC :: u32 where "LDR_PC_PC = 0xE59FF000"

definition init_traps :: "addr \<Rightarrow> addr \<Rightarrow> addr \<Rightarrow> addr \<Rightarrow> addr \<Rightarrow> addr \<Rightarrow> (nat \<Rightarrow> u32) \<Rightarrow> (nat \<Rightarrow> u32)" where
  "init_traps reset_at und_at svc_at pa_at da_at irq_at vec =
     (let vec = vec(0 := LDR_PC_PC OR 0x18, 1 := LDR_PC_PC OR 0x18, 2 := LDR_PC_PC OR 0x18, 3 := LDR_PC_PC OR 0x18,
                    4 := LDR_PC_PC OR 0x18, 5 := 0, 6 := LDR_PC_PC OR 0x18, 7 := LDR_PC_PC OR 0x18)
      in vec(8 + 0 := reset_at, 8 + 1 := und_at, 8 + 2 := svc_at, 8 + 3 := pa_at, 8 + 4 := da_at, 8 + 5 := 0, 8 + 6 := irq_at))"

section \<open>Memory management\<close>

definition MMU_SECTION :: u32 where "MMU_SECTION = 0x02"
definition MMU_SECTION_MASK :: u32 where "MMU_SECTION_MASK = 0xFFF00000"
definition TT_BIT :: u32 where "TT_BIT = 0x10"
definition DOMAIN :: u32 where "DOMAIN = 0x1E0"
definition MMU_AP_SRW_UNA :: u32 where "MMU_AP_SRW_UNA = 0x400"
definition MMU_AP_SRW_URW :: u32 where "MMU_AP_SRW_URW = 0xC00"

text \<open>\<open>ttb\<close> is the translation table, an array of words.\<close>

definition mmu_remap :: "(nat \<Rightarrow> u32) \<Rightarrow> addr \<Rightarrow> addr \<Rightarrow> u32 \<Rightarrow> (nat \<Rightarrow> u32)" where
  "mmu_remap ttb virt phys flags =
     (let idx = unat (drop_bit 20 (virt AND MMU_SECTION_MASK));
          flags = flags OR TT_BIT OR DOMAIN OR MMU_SECTION;
          entry = phys AND MMU_SECTION_MASK;
          entry = entry OR (flags AND NOT MMU_SECTION_MASK)
      in ttb(idx := entry))"

definition FSR_FAULT_MASK :: u32 where "FSR_FAULT_MASK = 0x0F"

definition fsr_faults :: "string list" where
  "fsr_faults = [''Unknown'', ''Alignment'', ''Unknown'', ''Unknown'', ''Unknown'', ''Translation (section)'', ''Unknown'',
     ''Translation (page)'', ''External Abort (section)'', ''Domain (section)'', ''External Abort (page)'', ''Domain (page)'',
     ''Unknown'', ''Permission (section)'', ''Permission (page)'']"

text \<open>The handler of faults in user mode, \<open>None\<close> for a read behind the table; \<open>_system_page_fault\<close> differs in the name it
  prints for itself.\<close>

definition fault_name :: "u32 \<Rightarrow> string option" where
  "fault_name fsr =
     (let i = unat (fsr AND FSR_FAULT_MASK) in if i < length fsr_faults then Some (fsr_faults ! i) else None)"

definition arch_page_fault :: "u32 \<Rightarrow> kern \<times> out \<Rightarrow> (kern \<times> out) option" where
  "arch_page_fault fsr st =
     (case st of (k, o1) \<Rightarrow>
        (case fault_name fsr of
           None \<Rightarrow> None
         | Some s \<Rightarrow>
             map_option (\<lambda>o1. (user_page_fault k, o1)) (say (''_user_page_fault: %s'' @ crlf) [Str_Arg (ascii s)] o1)))"

section \<open>SPI\<close>

definition SSPCR0 :: addr where "SSPCR0 = 0x808A0000"
definition SSPCR1 :: addr where "SSPCR1 = 0x808A0004"
definition SSPDR :: addr where "SSPDR = 0x808A0008"
definition SSPSR :: addr where "SSPSR = 0x808A000C"
definition SSPCPSR :: addr where "SSPCPSR = 0x808A0010"
definition SSPCR1_SSE :: u32 where "SSPCR1_SSE = 0x10"
definition SSPCR1_LBM :: u32 where "SSPCR1_LBM = 8"
definition SSPSR_BSY :: u32 where "SSPSR_BSY = 0x10"
definition SSPCR0_DSS_8_BIT :: u32 where "SSPCR0_DSS_8_BIT = 7"
definition PCDR :: addr where "PCDR = 0x80840008"
definition PCDDR :: addr where "PCDDR = 0x80840018"
definition PFDR :: addr where "PFDR = 0x80840030"
definition PFDDR :: addr where "PFDDR = 0x80840034"

definition spi_enable :: "'d bus \<Rightarrow> 'd \<Rightarrow> 'd" where
  "spi_enable b = modl b SSPCR1 (\<lambda>v. v OR SSPCR1_SSE)"

definition spi_disable :: "'d bus \<Rightarrow> 'd \<Rightarrow> 'd" where
  "spi_disable b = modl b SSPCR1 (\<lambda>v. v AND NOT SSPCR1_SSE)"

definition spi_wait :: "'d bus \<Rightarrow> 'd \<Rightarrow> 'd option" where
  "spi_wait b = poll32 b SSPSR (\<lambda>v. v AND SSPSR_BSY \<noteq> 0)"

text \<open>The sixteen rounds of the loopback test with what they print; the result is the number of failures.\<close>

fun spi_loopback_loop :: "'d bus \<Rightarrow> nat list \<Rightarrow> nat \<Rightarrow> out \<times> 'd \<Rightarrow> (nat \<times> out \<times> 'd) option" where
  "spi_loopback_loop b [] failures (o1, d) = Some (failures, o1, d)"
| "spi_loopback_loop b (i # is) failures (o1, d) =
     (case spi_wait b (outw b SSPDR (of_nat i AND 0xFF) d) of
        None \<Rightarrow> None
      | Some d \<Rightarrow>
          (case inw b SSPDR d of
             (c, d) \<Rightarrow>
               (case say (''[%d] wrote %d, read %d'' @ crlf) [Int_Arg (of_nat i), Int_Arg (of_nat i), Int_Arg (ucast c)] o1 of
                  None \<Rightarrow> None
                | Some o1 \<Rightarrow> spi_loopback_loop b is (if unat c \<noteq> i then failures + 1 else failures) (o1, d))))"

definition spi_loopback_test :: "'d bus \<Rightarrow> out \<times> 'd \<Rightarrow> (out \<times> 'd) option" where
  "spi_loopback_test b st =
     (case st of (o1, d) \<Rightarrow>
        (let d = spi_disable b d;
             d = modl b SSPCR1 (\<lambda>v. v OR SSPCR1_LBM) d;
             d = spi_enable b d
         in case say (''Running SPI loopback test...'' @ crlf) [] o1 of
              None \<Rightarrow> None
            | Some o1 \<Rightarrow>
                (case spi_loopback_loop b [0..<16] 0 (o1, d) of
                   None \<Rightarrow> None
                 | Some (failures, o1, d) \<Rightarrow>
                     (case say (''Test completed with %d failures'' @ crlf) [Int_Arg (of_nat failures)] o1 of
                        None \<Rightarrow> None
                      | Some o1 \<Rightarrow> (let d = spi_disable b d in Some (o1, modl b SSPCR1 (\<lambda>v. v AND NOT SSPCR1_LBM) d))))))"

definition spi_write :: "'d bus \<Rightarrow> u8 list \<Rightarrow> 'd \<Rightarrow> 'd" where
  "spi_write b buf d = spi_disable b (foldl (\<lambda>d c. outw b SSPDR (ucast c) d) (spi_enable b d) buf)"

primrec spi_read_loop :: "'d bus \<Rightarrow> nat \<Rightarrow> 'd \<Rightarrow> u8 list \<times> 'd" where
  "spi_read_loop b 0 d = ([], d)"
| "spi_read_loop b (Suc n) d =
     (case inw b SSPDR d of (c, d) \<Rightarrow> case spi_read_loop b n d of (cs, d) \<Rightarrow> (ucast c # cs, d))"

definition spi_read :: "'d bus \<Rightarrow> nat \<Rightarrow> 'd \<Rightarrow> u8 list \<times> 'd" where
  "spi_read b len d = (case spi_read_loop b len (spi_enable b d) of (cs, d) \<Rightarrow> (cs, spi_disable b d))"

definition spi_init :: "'d bus \<Rightarrow> 'd \<Rightarrow> 'd" where
  "spi_init b d =
     (let d = modl b PFDDR (\<lambda>v. v OR 0x02) d;
          d = modl b PFDR (\<lambda>v. v OR 0x02) d;
          d = modl b PCDDR (\<lambda>v. v OR 0x01) d;
          d = modl b PCDR (\<lambda>v. v OR 0x01) d;
          d = spi_enable b d;
          d = outl b SSPCPSR 2 d;
          d = outl b SSPCR0 (push_bit 0 SSPCR0_DSS_8_BIT) d;
          d = spi_disable b d
      in spi_enable b d)"

section \<open>Start\<close>

definition INTERNAL_BASE :: addr where "INTERNAL_BASE = 0x80930000"

text \<open>\<open>mmu\<close> tells whether \<open>ENABLE_MMU\<close> is configured; the board is a TS-7250 with flash.\<close>

definition nand_init :: "bool \<Rightarrow> (nat \<Rightarrow> u32) \<Rightarrow> (nat \<Rightarrow> u32)" where
  "nand_init mmu ttb =
     (if mmu
      then (let ttb = mmu_remap ttb NAND_CTRL NAND_CTRL MMU_AP_SRW_URW;
                ttb = mmu_remap ttb NAND_DATA NAND_DATA MMU_AP_SRW_URW
            in mmu_remap ttb NAND_BUSY NAND_BUSY MMU_AP_SRW_URW)
      else ttb)"

definition ts72xx_init :: "bool \<Rightarrow> (nat \<Rightarrow> u32) \<Rightarrow> (nat \<Rightarrow> u32)" where
  "ts72xx_init mmu ttb =
     (let ttb = (if mmu
                 then mmu_remap (mmu_remap ttb 0x23C00000 0x23C00000 MMU_AP_SRW_UNA) 0x23800000 0x23800000 MMU_AP_SRW_UNA
                 else ttb)
      in nand_init mmu ttb)"

text \<open>What \<open>arch_init\<close> sets up: the registers of the interrupt controllers, the other devices, the vector and translation
  tables, the port with its wait queue, and the port the console uses.\<close>

record 'd plat =
  pl_regs :: "addr \<Rightarrow> u32"
  pl_dev :: 'd
  pl_vec :: "nat \<Rightarrow> u32"
  pl_ttb :: "nat \<Rightarrow> u32"
  pl_uart1 :: uart
  pl_kmem :: kmem
  pl_bfifos :: "addr \<Rightarrow> bfifo"
  pl_cons :: "uart option"

text \<open>The addresses of the handlers, in the order of the vectors, of the timer and of the port.\<close>

record entries =
  en_reset :: addr
  en_und :: addr
  en_svc :: addr
  en_pa :: addr
  en_da :: addr
  en_irq :: addr
  en_timer :: addr
  en_uart1 :: addr

definition arch_init :: "'d bus \<Rightarrow> bool \<Rightarrow> entries \<Rightarrow> 'd plat \<Rightarrow> 'd plat" where
  "arch_init b mmu e s =
     (case init_interrupts b (en_irq e) (en_timer e) (pl_regs s) (pl_dev s) of
        (regs, d) \<Rightarrow>
          (let vec = init_traps (en_reset e) (en_und e) (en_svc e) (en_pa e) (en_da e) (en_irq e) (pl_vec s);
               ttb = ts72xx_init mmu (pl_ttb s);
               ttb = (if mmu then mmu_remap ttb INTERNAL_BASE INTERNAL_BASE MMU_AP_SRW_URW else ttb);
               u = (pl_uart1 s)\<lparr>u_baud := 0, u_rx := fifo_zero, u_tx := fifo_zero, u_state := UART_OPEN, u_wait := 0\<rparr>
           in case ep93xx_uart_open u (pl_kmem s) (pl_bfifos s) regs (en_uart1 e) of
                (rc, u, m, fifos, regs) \<Rightarrow>
                  s\<lparr>pl_regs := regs, pl_dev := d, pl_vec := vec, pl_ttb := ttb, pl_uart1 := u, pl_kmem := m, pl_bfifos := fifos,
                    pl_cons := Some u\<rparr>))"

section \<open>Reset\<close>

text \<open>\<open>arch_reset\<close> does not return; the result is the device when it starts to loop.\<close>

definition WDT_CTRL :: addr where "WDT_CTRL = 0x23800000"
definition WDT_FEED :: addr where "WDT_FEED = 0x23C00000"

definition arch_reset :: "'d bus \<Rightarrow> 'd \<Rightarrow> 'd" where
  "arch_reset b d = outb b WDT_CTRL 1 (outb b WDT_FEED 5 d)"

end
