(* ===== verification/Bytes.thy ===== *)
theory Bytes
  imports LibString
begin

text \<open>
  Byte-level access to packed structures: little-endian loads and stores of the ARM target, the byte-order macros of
  net/core/pkt.h, and how the copy routines of lib/string.c act on disjoint regions.
\<close>

section \<open>Regions\<close>

text \<open>\<open>apart a n b k\<close>: the \<open>n\<close> bytes from \<open>a\<close> and the \<open>k\<close> bytes from \<open>b\<close> do not overlap.\<close>

definition apart :: "addr \<Rightarrow> nat \<Rightarrow> addr \<Rightarrow> nat \<Rightarrow> bool" where
  "apart a n b k \<longleftrightarrow> unat a + n \<le> unat b \<or> unat b + k \<le> unat a"

lemma apart_sym: "apart a n b k \<longleftrightarrow> apart b k a n"
  by (auto simp: apart_def)

lemma apart_mono: "apart a n b k \<Longrightarrow> n' \<le> n \<Longrightarrow> k' \<le> k \<Longrightarrow> apart a n' b k'"
  by (auto simp: apart_def)

lemma unat_offset:
  fixes p :: addr
  assumes "unat p + n \<le> 2 ^ 32" and "i < n"
  shows "unat (p + of_nat i) = unat p + i"
proof -
  have "unat (of_nat i :: u32) = i" using assms by (simp add: unat_of_nat take_bit_nat_eq_self)
  then show ?thesis using assms by (subst unat_add_lem [THEN iffD1]) auto
qed

lemma mem_bytes_length [simp]: "length (mem_bytes m p n) = n"
  by (simp add: mem_bytes_def)

lemma mem_bytes_nth: "i < n \<Longrightarrow> mem_bytes m p n ! i = m (p + of_nat i)"
  by (simp add: mem_bytes_def)

lemma mem_bytes_0 [simp]: "mem_bytes m p 0 = []"
  by (simp add: mem_bytes_def)

lemma mem_bytes_append: "mem_bytes m p (a + b) = mem_bytes m p a @ mem_bytes m (p + of_nat a) b"
  by (rule nth_equalityI) (auto simp: mem_bytes_nth nth_append add.assoc simp flip: of_nat_add)

lemma mem_bytes_cong:
  assumes "unat p + n \<le> 2 ^ 32" and "\<And>x. unat p \<le> unat x \<Longrightarrow> unat x < unat p + n \<Longrightarrow> m' x = m x"
  shows "mem_bytes m' p n = mem_bytes m p n"
  by (rule nth_equalityI) (use assms in \<open>auto simp: mem_bytes_nth unat_offset\<close>)

lemma take_mem_bytes: "k \<le> n \<Longrightarrow> take k (mem_bytes m p n) = mem_bytes m p k"
  by (rule nth_equalityI) (auto simp: mem_bytes_nth)

lemma drop_mem_bytes: "k \<le> n \<Longrightarrow> drop k (mem_bytes m p n) = mem_bytes m (p + of_nat k) (n - k)"
  using mem_bytes_append [of m p k "n - k"] by simp

section \<open>The copy routines on disjoint regions\<close>

lemma memcpy_loop_apart:
  assumes "apart dest n src n" and "unat src + n \<le> 2 ^ 32" and "unat dest + n \<le> 2 ^ 32"
  shows "memcpy_loop n m dest src x =
    (if unat dest \<le> unat x \<and> unat x < unat dest + n then m (src + (x - dest)) else m x)"
  using assms
proof (induction n arbitrary: m dest src)
  case (Suc n)
  show ?case
  proof (cases n)
    case 0
    then show ?thesis using word_unat_eq_iff [of x dest] by auto
  next
    case (Suc k)
    with Suc.prems have s: "unat (src + 1) = unat src + 1" by (intro unat_plus_one_u32) simp
    from Suc Suc.prems have d: "unat (dest + 1) = unat dest + 1" by (intro unat_plus_one_u32) simp
    have IH: "memcpy_loop n (m(dest := m src)) (dest + 1) (src + 1) x =
      (if unat (dest + 1) \<le> unat x \<and> unat x < unat (dest + 1) + n
       then (m(dest := m src)) (src + 1 + (x - (dest + 1))) else (m(dest := m src)) x)"
      by (rule Suc.IH) (use s d Suc.prems in \<open>auto simp: apart_def\<close>)
    show ?thesis
    proof (cases "unat dest + 1 \<le> unat x \<and> unat x < unat dest + 1 + n")
      case True
      then have xd: "unat (x - dest) = unat x - unat dest"
        by (intro unat_sub) (simp add: word_le_nat_alt)
      have u: "unat (src + (x - dest)) = unat src + unat (x - dest)"
        using xd True Suc.prems(2) by (intro unat_add_lem [THEN iffD1]) auto
      have "unat (src + (x - dest)) \<noteq> unat dest"
        unfolding u xd using True Suc.prems(1) by (auto simp: apart_def)
      then have "src + (x - dest) \<noteq> dest" by metis
      moreover have "src + 1 + (x - (dest + 1)) = src + (x - dest)" by simp
      ultimately show ?thesis using IH True d by simp
    next
      case False
      with IH d show ?thesis using word_unat_eq_iff [of x dest] by auto
    qed
  qed
qed auto

text \<open>A routine that writes \<open>bs\<close> to the region at \<open>d\<close> and nothing else.\<close>

definition puts_bytes :: "mem \<Rightarrow> mem \<Rightarrow> addr \<Rightarrow> u8 list \<Rightarrow> bool" where
  "puts_bytes m m' d bs \<longleftrightarrow> mem_bytes m' d (length bs) = bs
     \<and> (\<forall>x. \<not> (unat d \<le> unat x \<and> unat x < unat d + length bs) \<longrightarrow> m' x = m x)"

lemma puts_bytes_read: "puts_bytes m m' d bs \<Longrightarrow> mem_bytes m' d (length bs) = bs"
  by (simp add: puts_bytes_def)

lemma puts_bytes_other:
  "puts_bytes m m' d bs \<Longrightarrow> apart d (length bs) p n \<Longrightarrow> unat p + n \<le> 2 ^ 32 \<Longrightarrow> mem_bytes m' p n = mem_bytes m p n"
  by (rule mem_bytes_cong) (auto simp: puts_bytes_def apart_def)

lemma puts_bytes_outside:
  assumes "puts_bytes m m' d bs" and "\<not> (unat e \<le> unat x \<and> unat x < unat e + n)"
    and "unat e \<le> unat d" and "unat d + length bs \<le> unat e + n"
  shows "m' x = m x"
proof -
  have "\<not> (unat d \<le> unat x \<and> unat x < unat d + length bs)" using assms(2-4) by linarith
  then show ?thesis using assms(1) unfolding puts_bytes_def by blast
qed

lemma puts_bytesI:
  assumes "unat d + length bs \<le> 2 ^ 32"
    and "\<And>x. m' x = (if unat d \<le> unat x \<and> unat x < unat d + length bs then bs ! (unat x - unat d) else m x)"
  shows "puts_bytes m m' d bs"
proof -
  have "mem_bytes m' d (length bs) = bs"
    by (rule nth_equalityI) (use assms in \<open>auto simp: mem_bytes_nth unat_offset\<close>)
  then show ?thesis using assms by (auto simp: puts_bytes_def)
qed

lemma src_byte:
  assumes "unat d \<le> unat x" and "unat x < unat d + n"
  shows "m (src + (x - d)) = mem_bytes m src n ! (unat x - unat d)"
proof -
  have "unat (x - d) = unat x - unat d" using assms(1) by (intro unat_sub) (simp add: word_le_nat_alt)
  moreover have "x - d = of_nat (unat (x - d))" by simp
  ultimately have "x - d = of_nat (unat x - unat d)" by (simp only:)
  then show ?thesis using assms by (simp add: mem_bytes_nth)
qed

lemma memcpy_puts:
  assumes "apart dest (unat n) src (unat n)" and "unat src + unat n \<le> 2 ^ 32" and "unat dest + unat n \<le> 2 ^ 32"
  shows "puts_bytes m (memcpy m dest src n) dest (mem_bytes m src (unat n))"
proof (cases "dest = src")
  case True
  then have "unat n = 0 \<or> unat n \<noteq> 0" "memcpy m dest src n = m" by (auto simp: memcpy_def)
  then show ?thesis using True by (simp add: puts_bytes_def)
next
  case False
  then have "memcpy m dest src n x = (if unat dest \<le> unat x \<and> unat x < unat dest + unat n
      then mem_bytes m src (unat n) ! (unat x - unat dest) else m x)" for x
    using memcpy_loop_apart [OF assms, of m x] src_byte [of dest x "unat n" m src] by (auto simp: memcpy_def)
  then show ?thesis using assms(3) by (intro puts_bytesI) auto
qed

lemma memmove_puts:
  assumes "unat src + unat n \<le> 2 ^ 32" and "unat dest + unat n \<le> 2 ^ 32"
  shows "puts_bytes m (memmove m dest src n) dest (mem_bytes m src (unat n))"
proof (rule puts_bytesI)
  fix x
  show "memmove m dest src n x = (if unat dest \<le> unat x \<and> unat x < unat dest + length (mem_bytes m src (unat n))
      then mem_bytes m src (unat n) ! (unat x - unat dest) else m x)"
    using memmove_eq [OF assms(2,1), of m x] src_byte [of dest x "unat n" m src] by auto
qed (use assms in simp)

lemma ucast_and_255: "(ucast (c AND 0xFF) :: u8) = ucast (c :: u32)"
proof -
  have "c AND 0xFF = take_bit 8 c" using take_bit_eq_mask [of 8 c] by (simp add: mask_eq_exp_minus_1)
  then show ?thesis by (intro bit_word_eqI) (auto simp: bit_ucast_iff bit_take_bit_iff)
qed

lemma memset_puts:
  assumes "unat s + unat n \<le> 2 ^ 32"
  shows "puts_bytes m (memset m s c n) s (replicate (unat n) (ucast c))"
proof (rule puts_bytesI)
  fix x
  show "memset m s c n x = (if unat s \<le> unat x \<and> unat x < unat s + length (replicate (unat n) (ucast c))
      then replicate (unat n) (ucast c) ! (unat x - unat s) else m x)"
    using memset_loop_eq [OF assms, of m] by (auto simp: memset_def ucast_and_255)
qed (use assms in simp)

section \<open>Little-endian access\<close>

definition load16 :: "mem \<Rightarrow> addr \<Rightarrow> u16" where
  "load16 m p = ucast (m p) OR push_bit 8 (ucast (m (p + 1)))"

definition load32 :: "mem \<Rightarrow> addr \<Rightarrow> u32" where
  "load32 m p = ucast (m p) OR push_bit 8 (ucast (m (p + 1))) OR push_bit 16 (ucast (m (p + 2)))
     OR push_bit 24 (ucast (m (p + 3)))"

definition store16 :: "mem \<Rightarrow> addr \<Rightarrow> u16 \<Rightarrow> mem" where
  "store16 m p w = m(p := ucast w, p + 1 := ucast (drop_bit 8 w))"

definition store32 :: "mem \<Rightarrow> addr \<Rightarrow> u32 \<Rightarrow> mem" where
  "store32 m p w = m(p := ucast w, p + 1 := ucast (drop_bit 8 w), p + 2 := ucast (drop_bit 16 w),
     p + 3 := ucast (drop_bit 24 w))"

section \<open>Byte order\<close>

definition en_ntohs :: "u32 \<Rightarrow> u16" where
  "en_ntohs x = ucast (drop_bit 8 (x AND 0xFF00) OR push_bit 8 (x AND 0xFF))"

definition en_ntohl :: "u32 \<Rightarrow> u32" where
  "en_ntohl x = drop_bit 24 (x AND 0xFF000000) OR drop_bit 8 (x AND 0xFF0000)
     OR push_bit 8 (x AND 0xFF00) OR push_bit 24 (x AND 0xFF)"

definition en_htons :: "u32 \<Rightarrow> u16" where "en_htons x = en_ntohs x"
definition en_htonl :: "u32 \<Rightarrow> u32" where "en_htonl x = en_ntohl x"

definition be16 :: "u16 \<Rightarrow> u8 list" where
  "be16 x = [ucast (drop_bit 8 x), ucast x]"

definition be32 :: "u32 \<Rightarrow> u8 list" where
  "be32 x = [ucast (drop_bit 24 x), ucast (drop_bit 16 x), ucast (drop_bit 8 x), ucast x]"

definition of_be16 :: "u8 list \<Rightarrow> u16" where
  "of_be16 bs = push_bit 8 (ucast (bs ! 0)) OR ucast (bs ! 1)"

definition of_be32 :: "u8 list \<Rightarrow> u32" where
  "of_be32 bs = push_bit 24 (ucast (bs ! 0)) OR push_bit 16 (ucast (bs ! 1)) OR push_bit 8 (ucast (bs ! 2)) OR ucast (bs ! 3)"

lemma bit_mask_numerals:
  "bit (0xFF :: u32) n \<longleftrightarrow> n < 8" "bit (0xFF00 :: u32) n \<longleftrightarrow> 8 \<le> n \<and> n < 16"
  "bit (0xFF0000 :: u32) n \<longleftrightarrow> 16 \<le> n \<and> n < 24" "bit (0xFF000000 :: u32) n \<longleftrightarrow> 24 \<le> n \<and> n < 32"
proof -
  have m: "(0xFF :: u32) = mask 8" by (simp add: mask_eq_exp_minus_1)
  have p: "(0xFF00 :: u32) = push_bit 8 (mask 8)" "(0xFF0000 :: u32) = push_bit 16 (mask 8)"
    "(0xFF000000 :: u32) = push_bit 24 (mask 8)" by (simp_all add: mask_eq_exp_minus_1 push_bit_eq_mult)
  show "bit (0xFF :: u32) n \<longleftrightarrow> n < 8" unfolding m by (auto simp: bit_mask_iff)
  show "bit (0xFF00 :: u32) n \<longleftrightarrow> 8 \<le> n \<and> n < 16" "bit (0xFF0000 :: u32) n \<longleftrightarrow> 16 \<le> n \<and> n < 24"
    "bit (0xFF000000 :: u32) n \<longleftrightarrow> 24 \<le> n \<and> n < 32"
    unfolding p by (auto simp: bit_push_bit_iff bit_mask_iff)
qed

lemmas bytes_bits = o_apply bit_or_iff bit_and_iff bit_push_bit_iff bit_ucast_iff bit_drop_bit_eq bit_mask_numerals

lemma byte_eqI_32:
  fixes x y :: u32
  assumes "\<And>i. i < 8 \<Longrightarrow> bit x i = bit y i" and "\<And>i. i < 8 \<Longrightarrow> bit x (8 + i) = bit y (8 + i)"
    and "\<And>i. i < 8 \<Longrightarrow> bit x (16 + i) = bit y (16 + i)" and "\<And>i. i < 8 \<Longrightarrow> bit x (24 + i) = bit y (24 + i)"
  shows "x = y"
proof (rule bit_word_eqI)
  fix n assume "n < LENGTH(32)"
  then consider "n < 8" | "8 \<le> n \<and> n - 8 < 8" | "16 \<le> n \<and> n - 16 < 8" | "24 \<le> n \<and> n - 24 < 8" by fastforce
  then show "bit x n = bit y n"
    using assms(1) [of n] assms(2) [of "n - 8"] assms(3) [of "n - 16"] assms(4) [of "n - 24"] by cases simp_all
qed

lemma byte_eqI_16:
  fixes x y :: u16
  assumes "\<And>i. i < 8 \<Longrightarrow> bit x i = bit y i" and "\<And>i. i < 8 \<Longrightarrow> bit x (8 + i) = bit y (8 + i)"
  shows "x = y"
proof (rule bit_word_eqI)
  fix n assume "n < LENGTH(16)"
  then consider "n < 8" | "8 \<le> n \<and> n - 8 < 8" by fastforce
  then show "bit x n = bit y n" using assms(1) [of n] assms(2) [of "n - 8"] by cases simp_all
qed

lemma bit_u8_high: "8 \<le> n \<Longrightarrow> \<not> bit (c :: u8) n"
  using bit_imp_le_length [of c n] by fastforce

lemma of_be16_be16: "of_be16 (be16 x) = x"
  unfolding of_be16_def be16_def nth_Cons_0 One_nat_def nth_Cons_Suc
  by (rule byte_eqI_16; simp only: bytes_bits; simp add: bit_u8_high)

lemma of_be32_list: "of_be32 [a, b, c, d] = push_bit 24 (ucast a) OR push_bit 16 (ucast b) OR push_bit 8 (ucast c) OR ucast d"
  by (simp add: of_be32_def)

lemma of_be32_be32: "of_be32 (be32 x) = x"
  unfolding be32_def of_be32_list by (rule byte_eqI_32; simp only: bytes_bits; simp add: bit_u8_high)

lemma en_ntohs_load16: "en_ntohs (ucast (load16 m p)) = of_be16 [m p, m (p + 1)]"
  unfolding of_be16_def en_ntohs_def load16_def
  by (rule byte_eqI_16; simp only: bytes_bits; simp add: bit_u8_high)

lemma en_ntohl_load32: "en_ntohl (load32 m p) = of_be32 [m p, m (p + 1), m (p + 2), m (p + 3)]"
  unfolding of_be32_def en_ntohl_def load32_def
  by (rule byte_eqI_32; simp only: bytes_bits; simp add: bit_u8_high)

text \<open>What the stores write.\<close>

definition le16 :: "u16 \<Rightarrow> u8 list" where
  "le16 x = [ucast x, ucast (drop_bit 8 x)]"

definition le32 :: "u32 \<Rightarrow> u8 list" where
  "le32 x = [ucast x, ucast (drop_bit 8 x), ucast (drop_bit 16 x), ucast (drop_bit 24 x)]"

lemma puts_bytes_nil: "puts_bytes m m p []"
  by (simp add: puts_bytes_def)

lemma puts_bytes_one:
  "puts_bytes m (m(p := b)) p [b]"
  by (auto simp: puts_bytes_def mem_bytes_def word_unat_eq_iff)

lemma puts_bytes_append:
  assumes "puts_bytes m m1 p as" and "puts_bytes m1 m2 q bs" and "q = p + of_nat (length as)"
    and "unat p + length as + length bs \<le> 2 ^ 32"
  shows "puts_bytes m m2 p (as @ bs)"
proof (cases bs)
  case Nil
  then have "m2 = m1" using assms(2) by (auto simp: puts_bytes_def fun_eq_iff)
  then show ?thesis using assms(1) Nil by simp
next
  case (Cons b bs')
  then have q: "unat q = unat p + length as" using assms(3,4) unat_offset [of p "Suc (length as)" "length as"] by simp
  have "mem_bytes m2 p (length as) = mem_bytes m1 p (length as)"
    by (rule puts_bytes_other [OF assms(2)]) (use q assms(4) in \<open>auto simp: apart_def\<close>)
  then have "mem_bytes m2 p (length (as @ bs)) = as @ bs"
    using assms(1-3) by (simp add: mem_bytes_append puts_bytes_def)
  moreover have "m2 x = m x" if "\<not> (unat p \<le> unat x \<and> unat x < unat p + length (as @ bs))" for x
    using that assms(1,2) q by (auto simp: puts_bytes_def)
  ultimately show ?thesis by (auto simp: puts_bytes_def)
qed

lemma puts_bytes_snoc:
  assumes "puts_bytes m m1 p as" and "q = p + of_nat (length as)" and "unat p + length as + 1 \<le> 2 ^ 32"
  shows "puts_bytes m (m1(q := b)) p (as @ [b])"
  by (rule puts_bytes_append [OF assms(1) puts_bytes_one assms(2)]) (use assms(3) in simp)

lemma store16_puts:
  assumes "unat p + 2 \<le> 2 ^ 32"
  shows "puts_bytes m (store16 m p w) p (le16 w)"
  using puts_bytes_snoc [OF puts_bytes_one [of m p "ucast w"], of "p + 1" "ucast (drop_bit 8 w)"] assms
  by (simp add: store16_def le16_def)

lemma store32_puts:
  assumes "unat p + 4 \<le> 2 ^ 32"
  shows "puts_bytes m (store32 m p w) p (le32 w)"
proof -
  have "puts_bytes m (m(p := ucast w, p + 1 := ucast (drop_bit 8 w))) p ([ucast w] @ [ucast (drop_bit 8 w)])"
    by (rule puts_bytes_snoc [OF puts_bytes_one]) (use assms in simp_all)
  from puts_bytes_snoc [OF this, of "p + 2" "ucast (drop_bit 16 w)"]
  have "puts_bytes m (m(p := ucast w, p + 1 := ucast (drop_bit 8 w), p + 2 := ucast (drop_bit 16 w))) p
      (([ucast w] @ [ucast (drop_bit 8 w)]) @ [ucast (drop_bit 16 w)])"
    using assms by simp
  from puts_bytes_snoc [OF this, of "p + 3" "ucast (drop_bit 24 w)"] show ?thesis
    using assms by (simp add: store32_def le32_def)
qed

lemma le16_en_htons: "le16 (en_htons (ucast x)) = be16 x"
  unfolding le16_def be16_def en_htons_def en_ntohs_def list.inject
  by (intro conjI refl; rule bit_word_eqI; simp only: bytes_bits; simp)

lemma le32_en_htonl: "le32 (en_htonl x) = be32 x"
  unfolding le32_def be32_def en_htonl_def en_ntohl_def list.inject
  by (intro conjI refl; rule bit_word_eqI; simp only: bytes_bits; simp)

end
