(* ===== verification/BoardProps.thy ===== *)
theory BoardProps
  imports Board Bytes
begin

text \<open>
  What the board support of \<open>Board\<close> does: the early console prints what \<open>printf\<close> prints, the interrupt and trap tables
  lead to the handlers, a remapped section translates as asked, faults are named.
\<close>

section \<open>The early console\<close>

lemma early_puts_append:
  "early_puts b (xs @ ys) d = (case early_puts b xs d of None \<Rightarrow> None | Some d \<Rightarrow> early_puts b ys d)"
  by (induction xs arbitrary: d) (auto split: option.split)

lemma early_puthexchar_puts: "early_puthexchar b c d = early_puts b (hexbyte c) d"
  by (auto simp: early_puthexchar_def hexbyte_def hexdigit_def Let_def split: option.split)

lemma masked_bytes:
  "(ucast (drop_bit 24 (x AND 0xFF000000)) :: u8) = ucast (drop_bit 24 (x :: u32))"
  "(ucast (drop_bit 16 (x AND 0x00FF0000)) :: u8) = ucast (drop_bit 16 x)"
  "(ucast (drop_bit 8 (x AND 0x0000FF00)) :: u8) = ucast (drop_bit 8 x)"
  "(ucast (drop_bit 0 (x AND 0x000000FF)) :: u8) = ucast (drop_bit 0 x)"
  by (rule bit_word_eqI; simp only: bytes_bits; simp)+

lemma early_byte:
  assumes "(ucast (drop_bit sh (x AND msk)) :: u8) = ucast (drop_bit sh x)"
  shows "early_printf_x_byte b x msk sh (int (length hs), d) =
    map_option (\<lambda>d. (int (length (hex_step x sh hs)), d)) (early_puts b (drop (length hs) (hex_step x sh hs)) d)"
  unfolding early_printf_x_byte_def prod.case assms
  by (auto simp: hex_step_def Let_def early_puthexchar_puts add.commute)

lemma early_printf_x_hex:
  "early_printf_x b x d = map_option (\<lambda>d. (int (length (hex_digits x)), d)) (early_puts b (hex_digits x) d)"
proof -
  let ?h1 = "hex_step x 24 []" let ?h2 = "hex_step x 16 ?h1" let ?h3 = "hex_step x 8 ?h2" let ?h4 = "hex_step x 0 ?h3"
  have ext: "hex_step x sh hs = hs @ drop (length hs) (hex_step x sh hs)" for sh hs by (auto simp: hex_step_def Let_def)
  have step: "early_puts b (hex_step x sh hs) d = (case early_puts b hs d of None \<Rightarrow> None
      | Some d \<Rightarrow> early_puts b (drop (length hs) (hex_step x sh hs)) d)" for sh hs
    by (subst ext) (rule early_puts_append)
  have e: "early_printf_x_byte b x 0xFF000000 24 (0, d) = map_option (\<lambda>d. (int (length ?h1), d)) (early_puts b ?h1 d)"
    using early_byte [OF masked_bytes(1), where hs = "[]" and d = d] by simp
  have bind: "(case map_option (\<lambda>d. (int (length hs), d)) (early_puts b hs d) of None \<Rightarrow> None
      | Some st \<Rightarrow> early_printf_x_byte b x msk sh st) = map_option (\<lambda>d. (int (length (hex_step x sh hs)), d)) (early_puts b (hex_step x sh hs) d)"
    if "(ucast (drop_bit sh (x AND msk)) :: u8) = ucast (drop_bit sh x)" for sh msk hs
    by (simp add: step early_byte [OF that] split: option.split)
  have "early_printf_x b x d = (case map_option (\<lambda>d. (int (length ?h4), d)) (early_puts b ?h4 d) of None \<Rightarrow> None
      | Some (n, d) \<Rightarrow> if n = 0 then map_option (\<lambda>d. (n + 1, d)) (early_putchar b 0x30 d) else Some (n, d))"
    unfolding early_printf_x_def e bind [OF masked_bytes(2), symmetric] bind [OF masked_bytes(3), symmetric] bind [OF masked_bytes(4), symmetric]
    by (simp split: option.split)
  then show ?thesis by (auto simp: hex_digits_def Let_def option.map_comp comp_def split: option.split)
qed

section \<open>The heartbeat\<close>

definition beat :: "'d bus \<Rightarrow> 'd \<Rightarrow> 'd" where
  "beat b d = modb b LEDS (\<lambda>v. v XOR LED_GREEN) ((outl b Timer3Clear 0 ^^ 10) d)"

lemma timer_ticks: "k_clkticks ((timer_int ^^ n) k) = k_clkticks k + of_nat n"
  by (induction n) (simp_all add: timer_int_def request_schedule_def)

lemma arch_timer_step:
  assumes "m < 10"
  shows "arch_timer_int b (k, 10 * int m, (outl b Timer3Clear 0 ^^ m) d) =
    (if m = 9 then (timer_int k, 0, beat b d) else (timer_int k, 10 * int (Suc m), (outl b Timer3Clear 0 ^^ Suc m) d))"
proof -
  have "(outl b Timer3Clear 0 ^^ 10) d = outl b Timer3Clear 0 ((outl b Timer3Clear 0 ^^ 9) d)"
    using funpow.simps(2) [of 9 "outl b Timer3Clear 0"] by simp
  then show ?thesis using assms by (auto simp: arch_timer_int_def HEARTBEAT_MS_def Let_def beat_def)
qed

lemma arch_timer_pow:
  "(arch_timer_int b ^^ n) (k, 0, d) =
    ((timer_int ^^ n) k, 10 * int (n mod 10), (outl b Timer3Clear 0 ^^ (n mod 10)) ((beat b ^^ (n div 10)) d))"
proof (induction n)
  case (Suc n)
  have "n mod 10 < 10" by simp
  note step = arch_timer_step [OF this, of b "(timer_int ^^ n) k" "(beat b ^^ (n div 10)) d"]
  have "(arch_timer_int b ^^ Suc n) (k, 0, d) = (if n mod 10 = 9 then (timer_int ((timer_int ^^ n) k), 0, beat b ((beat b ^^ (n div 10)) d))
      else (timer_int ((timer_int ^^ n) k), 10 * int (Suc (n mod 10)), (outl b Timer3Clear 0 ^^ Suc (n mod 10)) ((beat b ^^ (n div 10)) d)))"
    using step by (simp only: funpow.simps(2) o_apply Suc)
  then show ?case by (simp add: mod_Suc div_Suc del: of_nat_Suc)
qed simp

section \<open>Sections\<close>

text \<open>The first level of the processor's address translation: the entry of the section of \<open>va\<close>, its permissions and domain.\<close>

definition section_walk :: "(nat \<Rightarrow> u32) \<Rightarrow> addr \<Rightarrow> (addr \<times> u32 \<times> u32) option" where
  "section_walk ttb va =
     (let e = ttb (unat (drop_bit 20 va))
      in if e AND 3 = 2 then Some ((e AND 0xFFF00000) OR (va AND 0x000FFFFF), drop_bit 10 e AND 3, drop_bit 5 e AND 15)
         else None)"

lemma section_bits: "bit (0xFFF00000 :: u32) n \<longleftrightarrow> 20 \<le> n \<and> n < 32"
proof -
  have p: "(0xFFF00000 :: u32) = push_bit 20 (mask 12)" by (simp add: mask_eq_exp_minus_1 push_bit_eq_mult)
  show ?thesis unfolding p by (auto simp: bit_push_bit_iff bit_mask_iff)
qed

lemma offset_bits: "bit (0x000FFFFF :: u32) n \<longleftrightarrow> n < 20"
proof -
  have p: "(0x000FFFFF :: u32) = mask 20" by (simp add: mask_eq_exp_minus_1)
  show ?thesis unfolding p by (auto simp: bit_mask_iff)
qed

lemma section_index: "drop_bit 20 (v AND 0xFFF00000) = drop_bit 20 (v :: u32)"
proof (rule bit_word_eqI)
  fix n assume "n < LENGTH(32)"
  show "bit (drop_bit 20 (v AND 0xFFF00000)) n = bit (drop_bit 20 v) n"
    by (simp only: bit_drop_bit_eq bit_and_iff section_bits o_apply) (use bit_imp_le_length in fastforce)
qed

lemma same_section: "drop_bit 20 v = drop_bit 20 (w :: u32) \<longleftrightarrow> v AND 0xFFF00000 = w AND 0xFFF00000"
proof
  assume a: "drop_bit 20 v = drop_bit 20 w"
  have "bit v n = bit w n" if "20 \<le> n" for n
    using arg_cong [OF a, of "\<lambda>x. bit x (n - 20)"] that by (simp add: bit_drop_bit_eq)
  then show "v AND 0xFFF00000 = w AND 0xFFF00000"
    by (intro bit_word_eqI) (simp only: bit_and_iff section_bits, blast)
next
  assume "v AND 0xFFF00000 = w AND 0xFFF00000"
  then show "drop_bit 20 v = drop_bit 20 w" by (metis section_index)
qed

text \<open>After a remapping every address of the section of \<open>virt\<close> translates to the address with the same offset in the section of
  \<open>phys\<close>, with the permissions asked for and domain 15; other sections are as before.\<close>

lemma section_walk_remap:
  assumes "flags = MMU_AP_SRW_UNA \<or> flags = MMU_AP_SRW_URW"
  shows "section_walk (mmu_remap ttb virt phys flags) va =
    (if va AND MMU_SECTION_MASK = virt AND MMU_SECTION_MASK
     then Some ((phys AND MMU_SECTION_MASK) OR (va AND 0x000FFFFF), drop_bit 10 flags, 15)
     else section_walk ttb va)"
proof -
  let ?e = "(phys AND 0xFFF00000) OR (flags OR 0x1F2)"
  have "(flags OR TT_BIT OR DOMAIN OR MMU_SECTION) AND NOT 0xFFF00000 = flags OR 0x1F2"
    using assms by (auto simp: TT_BIT_def DOMAIN_def MMU_SECTION_def MMU_AP_SRW_UNA_def MMU_AP_SRW_URW_def)
  then have e: "mmu_remap ttb virt phys flags = ttb(unat (drop_bit 20 virt) := ?e)"
    unfolding mmu_remap_def MMU_SECTION_MASK_def Let_def section_index by simp
  have f: "?e AND 3 = 2" "?e AND 0xFFF00000 = phys AND 0xFFF00000" "drop_bit 10 ?e AND 3 = drop_bit 10 flags" "drop_bit 5 ?e AND 15 = 15"
    using assms by (auto simp: MMU_AP_SRW_UNA_def MMU_AP_SRW_URW_def bit.conj_disj_distrib2 and.assoc)
  show ?thesis
  proof (cases "drop_bit 20 va = drop_bit 20 virt")
    case True
    have t: "va AND 0xFFF00000 = virt AND 0xFFF00000" using True by (simp only: same_section)
    show ?thesis unfolding section_walk_def MMU_SECTION_MASK_def e fun_upd_apply True Let_def by (simp only: f t if_True refl)
  next
    case False
    have t: "va AND 0xFFF00000 \<noteq> virt AND 0xFFF00000" using False unfolding same_section .
    have "unat (drop_bit 20 va) \<noteq> unat (drop_bit 20 virt)" using False unfolding word_unat_eq_iff .
    then have "section_walk (ttb(unat (drop_bit 20 virt) := ?e)) va = section_walk ttb va"
      unfolding section_walk_def by (simp only: fun_upd_apply if_False)
    then show ?thesis unfolding MMU_SECTION_MASK_def if_not_P [OF t] e .
  qed
qed

lemma section_offset: "(va AND 0xFFF00000) OR (va AND 0x000FFFFF) = (va :: u32)"
proof (rule bit_word_eqI)
  fix n assume "n < LENGTH(32)"
  then show "bit ((va AND 0xFFF00000) OR (va AND 0x000FFFFF)) n = bit va n"
    unfolding bit_or_iff bit_and_iff section_bits offset_bits by auto
qed

text \<open>A section mapped to itself.\<close>

lemma section_walk_identity:
  assumes "flags = MMU_AP_SRW_UNA \<or> flags = MMU_AP_SRW_URW" and "v AND MMU_SECTION_MASK = sec"
  shows "section_walk (mmu_remap ttb v v flags) va =
    (if va AND MMU_SECTION_MASK = sec then Some (va, drop_bit 10 flags, 15) else section_walk ttb va)"
  using section_walk_remap [OF assms(1), of ttb v v va] assms(2) section_offset [of va] by (auto simp: MMU_SECTION_MASK_def)

section \<open>The interrupt controller\<close>

lemmas VIC_regs = VIC1IntSelect_def VIC1IntEnClear_def VIC1SoftIntClear_def VIC1VectAddr_def VIC1DefVectAddr_def
  VIC1VectAddr0_def VIC1VectCntl0_def VIC1ITCR_def VIC2IntSelect_def VIC2IntEnClear_def VIC2SoftIntClear_def
  VIC2VectAddr_def VIC2DefVectAddr_def VIC2VectAddr0_def VIC2VectCntl0_def VIC2ITCR_def

lemma foldl_const_updates:
  "foldl (\<lambda>r i. r(a := v, b := v)) r xs x = (if xs \<noteq> [] \<and> (x = a \<or> x = b) then v else r x)"
  by (induction xs arbitrary: r) auto

lemma foldl_clear_gen:
  assumes "\<And>i r x. f i r x = (if P i x then v else r x)"
  shows "foldl (\<lambda>r i. f i r) r xs x = (if \<exists>i\<in>set xs. P i x then v else r x)"
  by (induction xs arbitrary: r) (auto simp: assms)

definition vector_reg :: "nat \<Rightarrow> addr \<Rightarrow> bool" where
  "vector_reg i x \<longleftrightarrow> x = VIC1VectCntl0 + of_nat i * 4 \<or> x = VIC1VectAddr0 + of_nat i * 4 \<or> x = VIC2VectCntl0 + of_nat i * 4
     \<or> x = VIC2VectAddr0 + of_nat i * 4"

lemma foldl_clear: "foldl (\<lambda>r i. clear_vector i r) r xs x = (if \<exists>i\<in>set xs. vector_reg i x then 0 else r x)"
  by (rule foldl_clear_gen) (simp add: clear_vector_def vector_reg_def)

lemma upt_16: "[0..<16] = [0, 1, 2, 3, 4, 5, 6, 7, 8, 9, 10, 11, 12, 13, 14, 15 :: nat]"
  by (simp add: upt_rec)

text \<open>The registers before the first handler is registered.\<close>

definition regs_idle :: "addr \<Rightarrow> (addr \<Rightarrow> u32) \<Rightarrow> bool" where
  "regs_idle irq r \<longleftrightarrow> list_all (\<lambda>i. r (VIC1VectAddr0 + of_nat i * 4) = 0 \<and> r (VIC2VectAddr0 + of_nat i * 4) = 0
     \<and> r (VIC2VectCntl0 + of_nat i * 4) = 0) [0..<16] \<and> r VIC2IntSelect = 0 \<and> r VIC2VectAddr = irq"

lemma replicate_numeral_16: "replicate 16 x = [x, x, x, x, x, x, x, x, x, x, x, x, x, x, x, x]"
  by (simp add: numeral_eq_Suc)

lemma vector_regs_apart:
  "list_all (\<lambda>i. {VIC1VectAddr0 + of_nat i * 4, VIC2VectAddr0 + of_nat i * 4, VIC2VectCntl0 + of_nat i * 4}
     \<inter> {VIC1VectAddr, VIC2VectAddr, VIC1DefVectAddr, VIC2DefVectAddr} = {}) [0..<16]"
  unfolding upt_16 VIC_regs by simp

lemma regs_idle_init:
  assumes "\<And>x. r1 x = (if \<exists>i\<in>set [0..<16]. vector_reg i x then 0 else r0 x)" and "r0 VIC2IntSelect = 0"
  shows "regs_idle irq (r1(VIC1VectAddr := irq, VIC2VectAddr := irq, VIC1DefVectAddr := irq, VIC2DefVectAddr := irq))"
proof -
  have z: "r1 x = 0" if "\<exists>i\<in>set [0..<16]. vector_reg i x" for x unfolding assms(1) [of x] if_P [OF that] by (rule refl)
  have v: "list_all (\<lambda>i. r1 (VIC1VectAddr0 + of_nat i * 4) = 0 \<and> r1 (VIC2VectAddr0 + of_nat i * 4) = 0
      \<and> r1 (VIC2VectCntl0 + of_nat i * 4) = 0) [0..<16]"
    unfolding list_all_iff by (intro ballI conjI z) (auto simp: vector_reg_def)
  have "r1 VIC2IntSelect = 0" unfolding assms(1) using assms(2) by simp
  moreover have "VIC2IntSelect \<notin> {VIC1VectAddr, VIC2VectAddr, VIC1DefVectAddr, VIC2DefVectAddr}" "VIC2DefVectAddr \<noteq> VIC2VectAddr" "VIC1DefVectAddr \<noteq> VIC2VectAddr"
    by (simp_all add: VIC_regs)
  ultimately show ?thesis using v vector_regs_apart unfolding regs_idle_def list_all_iff by auto
qed

lemma init_interrupts_idle:
  "\<exists>r. regs_idle irq r \<and> fst (init_interrupts b irq timer regs d) = enable_irq (snd (register_irq_handler r TC3OI timer False)) TC3OI"
proof -
  let ?r0 = "foldl (\<lambda>r i. r(VIC1VectAddr := 0, VIC2VectAddr := 0)) (regs(VIC1IntSelect := 0, VIC1IntEnClear := 0xFFFFFFFF, VIC1ITCR := 0,
     VIC1SoftIntClear := 0xFFFFFFFF, VIC2IntSelect := 0, VIC2IntEnClear := 0xFFFFFFFF, VIC2ITCR := 0, VIC2SoftIntClear := 0xFFFFFFFF)) [0..<32]"
  have "?r0 VIC2IntSelect = 0" unfolding foldl_const_updates by (simp add: VIC_regs)
  then have i: "regs_idle irq ((foldl (\<lambda>r i. clear_vector i r) ?r0 [0..<16])(VIC1VectAddr := irq, VIC2VectAddr := irq, VIC1DefVectAddr := irq, VIC2DefVectAddr := irq))"
    by (rule regs_idle_init [OF foldl_clear])
  show ?thesis unfolding init_interrupts_def Let_def fst_conv by (rule exI, rule conjI, rule i, rule refl)
qed

section \<open>Properties\<close>

text \<open>A bus whose registers read zero and whose writes are kept.\<close>

definition idle_bus :: "(addr \<times> u32) list bus" where
  "idle_bus = \<lparr>bus_rd8 = (\<lambda>a d. (0, d)), bus_wr8 = (\<lambda>a v d. d @ [(a, ucast v)]), bus_rd16 = (\<lambda>a d. (0, d)),
     bus_wr16 = (\<lambda>a v d. d @ [(a, ucast v)]), bus_rd32 = (\<lambda>a d. (0, d)), bus_wr32 = (\<lambda>a v d. d @ [(a, v)])\<rparr>"

text \<open>the early console. \<open>_printf_x\<close> of arch/init.c prints, on whatever device, exactly the characters that \<open>%x\<close> of the
  \<open>printf\<close> of lib/stdio.c prints, returns the same count, and waits for ever only if one of these characters does.\<close>

theorem early_printf_x_agrees:
  "\<exists>hs. snd (printf_x o1 x) = put_s o1 hs
    \<and> early_printf_x b x d = map_option (\<lambda>d. (fst (printf_x o1 x), d)) (early_puts b hs d)"
  using printf_x_digits [of o1 x] early_printf_x_hex [of b x d] by (intro exI [of _ "hex_digits x"]) simp

text \<open>The timer interrupt. After \<open>n\<close> interrupts the clock has advanced by \<open>n\<close> ticks, the interrupt has been cleared \<open>n\<close>
  times, and the green light has been toggled after every tenth.\<close>

theorem heartbeat_every_tenth_tick:
  shows "\<exists>k'. (arch_timer_int b ^^ n) (k, 0, d) =
      (k', 10 * int (n mod 10), (outl b Timer3Clear 0 ^^ (n mod 10)) ((beat b ^^ (n div 10)) d))
    \<and> k_clkticks k' = k_clkticks k + of_nat n"
  using arch_timer_pow [of n b k d] timer_ticks [of n k] by auto

text \<open>C31: the memory map after the start, with the memory management configured. The watchdog of the board is for the system
  only, the registers of the flash and of the system controller are open to all, each at its own address; the rest is as
  it was.\<close>

theorem arch_init_maps:
  "section_walk (pl_ttb (arch_init b True e s)) va =
    (if va AND MMU_SECTION_MASK \<in> {0x23C00000, 0x23800000} then Some (va, 1, 15)
     else if va AND MMU_SECTION_MASK \<in> {0x60000000, 0x60400000, 0x60800000, 0x80900000} then Some (va, 3, 15)
     else section_walk (pl_ttb s) va)"
proof -
  have t: "pl_ttb (arch_init b True e s) = mmu_remap (nand_init True (mmu_remap (mmu_remap (pl_ttb s) 0x23C00000 0x23C00000 MMU_AP_SRW_UNA)
      0x23800000 0x23800000 MMU_AP_SRW_UNA)) INTERNAL_BASE INTERNAL_BASE MMU_AP_SRW_URW"
    by (simp add: arch_init_def ts72xx_init_def Let_def split: prod.split)
  have u: "section_walk (mmu_remap ttb v v MMU_AP_SRW_UNA) va = (if va AND MMU_SECTION_MASK = v AND MMU_SECTION_MASK
      then Some (va, 1, 15) else section_walk ttb va)" for ttb v
    using section_walk_identity [of MMU_AP_SRW_UNA v] by (simp add: MMU_AP_SRW_UNA_def)
  have w: "section_walk (mmu_remap ttb v v MMU_AP_SRW_URW) va = (if va AND MMU_SECTION_MASK = v AND MMU_SECTION_MASK
      then Some (va, 3, 15) else section_walk ttb va)" for ttb v
    using section_walk_identity [of MMU_AP_SRW_URW v] by (simp add: MMU_AP_SRW_URW_def)
  have n: "NAND_CTRL AND MMU_SECTION_MASK = 0x60400000" "NAND_DATA AND MMU_SECTION_MASK = 0x60000000"
    "NAND_BUSY AND MMU_SECTION_MASK = 0x60800000" "INTERNAL_BASE AND MMU_SECTION_MASK = 0x80900000"
    "0x23C00000 AND MMU_SECTION_MASK = 0x23C00000" "0x23800000 AND MMU_SECTION_MASK = 0x23800000"
    by (simp_all add: NAND_CTRL_def NAND_DATA_def NAND_BUSY_def INTERNAL_BASE_def MMU_SECTION_MASK_def)
  show ?thesis unfolding t nand_init_def Let_def if_True u w n by auto
qed

text \<open>The exception at vector \<open>i\<close>: a load of the program counter relative to it, which is eight bytes ahead.\<close>

definition vector_target :: "(nat \<Rightarrow> u32) \<Rightarrow> nat \<Rightarrow> u32 option" where
  "vector_target vec i =
     (if vec i AND 0xFFFFF000 = LDR_PC_PC then Some (vec ((4 * i + 8 + unat (vec i AND 0xFFF)) div 4)) else None)"

text \<open>the vector table. The processor's exceptions load the addresses of their handlers; the fast interrupt loads a word
  that \<open>init_traps\<close> leaves as it was.\<close>

theorem traps_reach_handlers:
  "map (vector_target (init_traps rs un sv pa da irq vec)) [0..<8] =
     [Some rs, Some un, Some sv, Some pa, Some da, None, Some irq, Some (vec 15)]"
  by (simp add: upt_rec vector_target_def init_traps_def LDR_PC_PC_def Let_def)

text \<open>the interrupt controller after the start. The timer holds the first vector of the second controller; the
  next handlers get every fourth register, the others stay zero, and all of them are plain interrupts.\<close>

theorem irq_slots:
  assumes "timer \<noteq> 0" and "uart \<noteq> 0"
    and "regs1 = fst (init_interrupts b irq timer regs d)"
    and "regs2 = snd (register_irq_handler regs1 52 uart False)" and "regs3 = snd (register_irq_handler regs2 39 mac False)"
  shows "map (\<lambda>i. regs3 (VIC2VectAddr0 + 4 * of_nat i)) [0..<16] = [timer, 0, 0, 0, uart, 0, 0, 0, mac, 0, 0, 0, 0, 0, 0, 0]
    \<and> map (\<lambda>i. regs3 (VIC2VectCntl0 + 4 * of_nat i)) [0..<16] = [0x33, 0, 0, 0, 0x34, 0, 0, 0, 0x27, 0, 0, 0, 0, 0, 0, 0]
    \<and> map (\<lambda>i. regs3 (VIC1VectAddr0 + 4 * of_nat i)) [0..<16] = replicate 16 0
    \<and> regs3 VIC2IntSelect = 0 \<and> regs3 VIC2VectAddr = irq"
proof -
  obtain r where r: "regs_idle irq r" and e: "regs1 = enable_irq (snd (register_irq_handler r TC3OI timer False)) TC3OI"
    using init_interrupts_idle [of irq b timer regs d] assms(3) by blast
  have sel: "r 0x800C000C = 0" "r 0x800C0030 = irq" using r by (auto simp: regs_idle_def VIC_regs)
  note idle = r [unfolded regs_idle_def upt_16 VIC_regs, simplified] sel
  note defs = register_irq_handler_def enable_irq_def VIC1_BASE_def VIC2_BASE_def
  have e1: "regs1 = r(0x800C000C := 0, 0x800C0100 := timer, 0x800C0200 := 0x33, 0x800C0010 := r 0x800C0010 OR 0x80000)"
    unfolding e defs upt_16 by (simp add: TC3OI_def Let_def idle INT_ENABLE_def)
  have e2: "regs2 = regs1(0x800C000C := 0, 0x800C0110 := uart, 0x800C0210 := 0x34)"
    unfolding assms(4) defs upt_16 using assms(1) by (simp add: Let_def idle e1 INT_ENABLE_def)
  have e3: "regs3 = regs2(0x800C000C := 0, 0x800C0120 := mac, 0x800C0220 := 0x27)"
    unfolding assms(5) defs upt_16 using assms(1,2) by (simp add: Let_def idle e1 e2 INT_ENABLE_def)
  show ?thesis unfolding VIC_regs upt_16 by (simp add: e1 e2 e3 idle replicate_numeral_16)
qed

theorem irq_slots_witness:
  "\<exists>regs :: addr \<Rightarrow> u32. map (\<lambda>i. regs (VIC2VectAddr0 + 4 * of_nat i)) [0..<16] =
    [0x100, 0, 0, 0, 0x200, 0, 0, 0, 0x300, 0, 0, 0, 0, 0, 0, 0]"
proof (rule exI)
  show "map (\<lambda>i. snd (register_irq_handler (snd (register_irq_handler (fst (init_interrupts idle_bus 0x18 0x100 (\<lambda>_. 0) [])) 52 0x200 False))
      39 0x300 False) (VIC2VectAddr0 + 4 * of_nat i)) [0..<16] = [0x100, 0, 0, 0, 0x200, 0, 0, 0, 0x300, 0, 0, 0, 0, 0, 0, 0]"
    using irq_slots [of "0x100" "0x200" _ idle_bus "0x18" "\<lambda>_. 0" "[]" _ _ "0x300", OF _ _ refl refl refl] by simp
qed

text \<open>fault names. The handlers read behind the table of names exactly for the status of a permission fault on a
  page, whose name stands one place too early.\<close>

theorem fault_name_missing:
  "(fault_name fsr = None \<longleftrightarrow> fsr AND 0xF = 0xF) \<and> (fsr AND 0xF = 0xE \<longrightarrow> fault_name fsr = Some ''Permission (page)'')"
proof -
  have "unat (fsr AND 0xF) < 16" using word_and_le1 [of fsr "0xF"] by (simp add: word_le_nat_alt)
  moreover have "fsr AND 0xF = 0xF \<longleftrightarrow> unat (fsr AND 0xF) = 15" by (simp add: word_unat_eq_iff)
  moreover have "fsr AND 0xF = 0xE \<longrightarrow> unat (fsr AND 0xF) = 14" by auto
  ultimately show ?thesis by (auto simp: fault_name_def FSR_FAULT_MASK_def fsr_faults_def Let_def)
qed

end
