(* ===== verification/Cksum.thy ===== *)
theory Cksum
  imports Bytes
begin

text \<open>
  ocksum16 of net/core/pkt.h, the one's complement sum of the Internet checksum: when it terminates, what a receiver
  accepts, and when a sender's checksum is accepted.
\<close>

text \<open>The loop subtracts 2 from an unsigned length until it is 0; the sum is folded once.\<close>

partial_function (option) ocksum16_loop :: "mem \<Rightarrow> addr \<Rightarrow> u32 \<Rightarrow> u32 \<Rightarrow> u32 option" where
  "ocksum16_loop m p len acc =
     (if len > 0 then ocksum16_loop m (p + 2) (len - 2) (acc + ucast (load16 m p)) else Some acc)"

definition ocksum16 :: "mem \<Rightarrow> addr \<Rightarrow> u32 \<Rightarrow> u16 option" where
  "ocksum16 m buf len =
     map_option (\<lambda>acc. ucast ((acc AND 0xFFFF) + drop_bit 16 acc)) (ocksum16_loop m buf len 0)"

section \<open>What the sum computes\<close>

definition words :: "mem \<Rightarrow> addr \<Rightarrow> nat \<Rightarrow> nat" where
  "words m p n = (\<Sum>i<n. unat (load16 m (p + of_nat (2 * i))))"

lemma words_Suc: "words m p (Suc n) = unat (load16 m p) + words m (p + 2) n"
proof -
  have "words m p (Suc n) = unat (load16 m p) + (\<Sum>i<n. unat (load16 m (p + of_nat (2 * Suc i))))"
    unfolding words_def by (simp only: sum.lessThan_Suc_shift) simp
  moreover have "p + of_nat (2 * Suc i) = p + 2 + of_nat (2 * i)" for i :: nat by simp
  ultimately show ?thesis by (simp only: words_def)
qed

lemma words_le: "words m p n \<le> n * 65535"
proof -
  have "unat (load16 m a) \<le> 65535" for a using unsigned_less [of "load16 m a", where ?'a = nat] by simp
  then have "words m p n \<le> (\<Sum>i<n. 65535)" unfolding words_def by (intro sum_mono)
  then show ?thesis by simp
qed

lemma ocksum16_loop_even:
  "unat len = 2 * n \<Longrightarrow> ocksum16_loop m p len acc = Some (acc + of_nat (words m p n))"
proof (induction n arbitrary: p len acc)
  case 0
  then have "len = 0" by (simp add: unat_eq_0)
  then show ?case by (subst ocksum16_loop.simps) (simp add: words_def)
next
  case (Suc n)
  have "unat (len - 2) = unat len - 2" using Suc.prems by (subst unat_sub) (simp_all add: word_le_nat_alt)
  then have l: "unat (len - 2) = 2 * n" using Suc.prems by simp
  have pos: "len > 0" using Suc.prems by (simp add: word_less_nat_alt)
  have "ocksum16_loop m p len acc = ocksum16_loop m (p + 2) (len - 2) (acc + ucast (load16 m p))"
    using pos by (subst ocksum16_loop.simps) simp
  also have "\<dots> = Some (acc + ucast (load16 m p) + of_nat (words m (p + 2) n))" by (rule Suc.IH [OF l])
  also have "ucast (load16 m p) = (of_nat (unat (load16 m p)) :: u32)" by simp
  finally show ?case by (simp add: words_Suc add.assoc)
qed

lemma ocksum16_loop_odd: "ocksum16_loop m p len acc = Some r \<Longrightarrow> even (unat len)"
proof (rule ocksum16_loop.raw_induct [where P = "\<lambda>m p len acc r. even (unat len)"])
  fix loop :: "mem \<Rightarrow> addr \<Rightarrow> u32 \<Rightarrow> u32 \<Rightarrow> u32 option" and m p len acc r
  assume IH: "\<And>m p len acc r. loop m p len acc = Some r \<Longrightarrow> even (unat len)"
    and eq: "(if len > 0 then loop (m :: mem) (p + 2) (len - 2) (acc + ucast (load16 m p)) else Some acc) = Some r"
  show "even (unat len)"
  proof (cases "len > 0")
    case True
    then have e: "even (unat (len - 2))" using IH eq by auto
    have "odd (unat w) = bit w 0" for w :: u32 by (simp add: bit_unsigned_iff flip: bit_0)
    moreover have "bit (len - 2) 0 = bit len 0" by (simp add: bit_0)
    ultimately show ?thesis using e by blast
  next
    case False
    then have "len = 0" using word_gt_0 by blast
    then show ?thesis by simp
  qed
qed

definition ofold :: "nat \<Rightarrow> nat" where
  "ofold s = (s mod 65536 + s div 65536) mod 65536"

lemma ocksum16_even:
  assumes "unat len = 2 * n" and "n \<le> 65535"
  shows "ocksum16 m p len = Some (of_nat (ofold (words m p n)))"
proof -
  have le: "words m p n < 2 ^ 32" using words_le [of m p n] assms(2) by simp
  have u: "unat (of_nat (words m p n) :: u32) = words m p n" using le by (simp add: unat_of_nat take_bit_nat_eq_self)
  have a: "w AND 0xFFFF = take_bit 16 w" for w :: u32 using take_bit_eq_mask [of 16 w] by (simp add: mask_eq_exp_minus_1)
  let ?w = "of_nat (words m p n) :: u32"
  have "unat (take_bit 16 ?w) = take_bit 16 (unat ?w)" by (rule unsigned_take_bit_eq)
  then have "unat (take_bit 16 ?w) = words m p n mod 65536" by (simp only: u take_bit_eq_mod) simp
  moreover have "unat (drop_bit 16 ?w) = words m p n div 65536" by (simp add: unat_drop_bit_u32 u)
  moreover have "words m p n div 65536 \<le> 65535" using le by simp
  ultimately have "unat (take_bit 16 ?w + drop_bit 16 ?w) = words m p n mod 65536 + words m p n div 65536"
    by (subst unat_add_lem [THEN iffD1]) (auto intro: le_less_trans [OF add_mono])
  then have "ucast (take_bit 16 ?w + drop_bit 16 ?w) = (of_nat (words m p n mod 65536 + words m p n div 65536) :: u16)"
    by (metis of_nat_unat)
  also have "\<dots> = of_nat (ofold (words m p n))"
  proof -
    have "(of_nat x :: u16) = of_nat (x mod 65536)" for x
      by (simp add: word_unat_eq_iff unat_of_nat take_bit_eq_mod)
    then show ?thesis unfolding ofold_def .
  qed
  finally show ?thesis by (simp add: ocksum16_def ocksum16_loop_even [OF assms(1)] a)
qed

lemma ofold_ffff:
  assumes "s \<le> 65535 * 65535"
  shows "ofold s = 65535 \<longleftrightarrow> 0 < s \<and> s mod 65535 = 0"
proof -
  obtain h l where hl: "s = 65536 * h + l" "l < 65536" by (metis mult_div_mod_eq mod_less_divisor zero_less_numeral)
  have h: "h \<le> 65534" using assms hl by linarith
  have f: "ofold s = (l + h) mod 65536" using hl by (simp add: ofold_def)
  have "s mod 65535 = (65535 * h + (h + l)) mod 65535" using hl by simp
  then have g: "s mod 65535 = (h + l) mod 65535" by (simp only: mod_mult_self4)
  consider "l + h < 65535" | "l + h = 65535" | "65536 \<le> l + h" by linarith
  then show ?thesis
  proof cases
    case 1
    then have os: "ofold s = l + h" "s mod 65535 = h + l" using f g by simp_all
    have "\<not> (0 < s \<and> s mod 65535 = 0)"
    proof
      assume a: "0 < s \<and> s mod 65535 = 0"
      then have "h + l = 0" using os(2) by (metis (no_types))
      then show False using a hl(1) by simp
    qed
    then show ?thesis using 1 os(1) by simp
  next
    case 2
    then have "h + l = 65535" by linarith
    then have "ofold s = 65535" "s mod 65535 = 0" unfolding f g 2 by simp_all
    moreover have "0 < s"
    proof (rule ccontr)
      assume "\<not> 0 < s"
      then have "h = 0" "l = 0" using hl(1) by simp_all
      then show False using 2 by simp
    qed
    ultimately show ?thesis by simp
  next
    case 3
    then have "(l + h) mod 65536 = l + h - 65536" using hl h by (simp add: mod_if)
    moreover have "(h + l) mod 65535 = h + l - 65535" using 3 hl h by (simp add: mod_if)
    ultimately have "ofold s = l + h - 65536" "s mod 65535 = h + l - 65535" using f g by simp_all
    moreover have "l + h - 65536 \<noteq> 65535" "h + l - 65535 \<noteq> 0" using 3 hl(2) h by linarith+
    ultimately show ?thesis by simp
  qed
qed

text \<open>The checksum a sender stores: the complement of the folded sum of everything else.\<close>

lemma ofold_complement:
  assumes "s \<le> 65535 * 65534"
  shows "ofold (s + (65535 - ofold s)) = 65535 \<longleftrightarrow> s mod 65536 + s div 65536 < 65536 \<and> 0 < s + (65535 - ofold s)"
proof -
  obtain h l where hl: "s = 65536 * h + l" "l < 65536" by (metis mult_div_mod_eq mod_less_divisor zero_less_numeral)
  have h: "h \<le> 65533" using assms hl by linarith
  have f: "ofold s = (l + h) mod 65536" and sp: "s mod 65536 + s div 65536 = l + h" using hl by (simp_all add: ofold_def)
  then have lt: "ofold s < 65536" by simp
  have bound: "s + (65535 - ofold s) \<le> 65535 * 65535" using assms by simp
  show ?thesis
  proof (cases "l + h < 65536")
    case True
    then have o1: "ofold s = l + h" using f by simp
    have "s + (65535 - ofold s) = 65535 * (h + 1)" using hl True o1 by simp
    then show ?thesis unfolding ofold_ffff [OF bound] using True sp by simp
  next
    case False
    then have o1: "ofold s = l + h - 65536" using f hl h by (simp add: mod_if)
    have "s + (65535 - ofold s) = 65535 * (h + 1) + 65536" using hl False o1 h by simp
    also have "\<dots> = 1 + 65535 * (h + 2)" by simp
    finally have "(s + (65535 - ofold s)) mod 65535 = 1" by (simp only: mod_mult_self2) simp
    then show ?thesis unfolding ofold_ffff [OF bound] using False sp by simp
  qed
qed

lemma ocksum16_odd: "odd (unat len) \<Longrightarrow> ocksum16 m p len = None"
  using ocksum16_loop_odd [of m p len 0] by (cases "ocksum16_loop m p len 0") (auto simp: ocksum16_def)

section \<open>Properties\<close>

text \<open>the checksum loop returns exactly for even lengths. The length is unsigned and decremented by two, so an odd
  one never reaches zero.\<close>

theorem ocksum16_returns_iff_even: "(\<exists>r. ocksum16 m p len = Some r) \<longleftrightarrow> even (unat len)"
proof
  assume "even (unat len)"
  then obtain n where "unat len = 2 * n" by blast
  then show "\<exists>r. ocksum16 m p len = Some r" by (auto simp: ocksum16_def ocksum16_loop_even)
qed (use ocksum16_odd in force)

text \<open>what a receiver accepts. For an even number of bytes, at most 65535 words, the sum is 0xFFFF exactly when the
  little-endian words add up to a positive multiple of 65535: the single fold loses no error check.\<close>

theorem ocksum16_accepts:
  assumes "unat len = 2 * n" and "n \<le> 65535"
  shows "ocksum16 m p len = Some 0xFFFF \<longleftrightarrow> 0 < words m p n \<and> words m p n mod 65535 = 0"
proof -
  have "words m p n \<le> 65535 * 65535" using words_le [of m p n] assms(2) by simp
  then have "ofold (words m p n) = 65535 \<longleftrightarrow> 0 < words m p n \<and> words m p n mod 65535 = 0" by (rule ofold_ffff)
  moreover have "ofold (words m p n) < 65536" by (simp add: ofold_def)
  then have "(of_nat (ofold (words m p n)) = (0xFFFF :: u16)) \<longleftrightarrow> ofold (words m p n) = 65535"
    by (simp add: word_unat_eq_iff unat_of_nat take_bit_nat_eq_self)
  ultimately show ?thesis by (simp add: ocksum16_even [OF assms])
qed

theorem ocksum16_accepts_witness:
  "ocksum16 (\<lambda>a. if a < 0x102 then 0x0F else 0xF0) 0x100 4 = Some 0xFFFF"
proof -
  let ?m = "\<lambda>a. if a < 0x102 then 0x0F else 0xF0 :: u8"
  have "words ?m 0x100 2 = 65535" 
  proof -
    have "words ?m 0x100 (Suc (Suc 0)) = unat (load16 ?m 0x100) + unat (load16 ?m 0x102)"
      by (simp only: words_Suc) (simp add: words_def)
    moreover have "load16 ?m 0x100 = 0x0F0F" "load16 ?m 0x102 = 0xF0F0" by (simp_all add: load16_def)
    ultimately have "words ?m 0x100 (Suc (Suc 0)) = 65535" by simp
    then show ?thesis unfolding numeral_2_eq_2 .
  qed
  then show ?thesis using ocksum16_accepts [of 4 2 ?m "0x100"] by simp
qed

end
