(* ===== verification/Pkt.thy ===== *)
theory Pkt
  imports Syscall Cksum
begin

text \<open>
  net/core/pkt.c and net/core/pkt.h: network packets with a growing data buffer.
  Packet structures live in a table of their own, their data buffers in byte-addressed memory; both are allocated
  from the kernel heap.
\<close>

section \<open>The packets\<close>

record en_net_pkt = list_node +
  pk_data :: addr
  pk_len :: u32
  pk_allocated :: u32
  pk_eth_if :: addr

definition pkt_zero :: en_net_pkt where
  "pkt_zero = \<lparr>l_next = NULL, l_prev = NULL, pk_data = NULL, pk_len = 0, pk_allocated = 0, pk_eth_if = NULL\<rparr>"

definition sizeof_en_net_pkt :: u32 where "sizeof_en_net_pkt = 24"

definition BUF_PADDING :: u32 where "BUF_PADDING = 4"

text \<open>The state the network code works on: the kernel (with its heap), the bytes of memory, the packet structures.\<close>

record pstate =
  ps_kern :: kern
  ps_mem :: mem
  ps_pkts :: "addr \<Rightarrow> en_net_pkt"

abbreviation heap_of :: "'a pstate_scheme \<Rightarrow> kmem" where
  "heap_of s \<equiv> k_mem (ps_kern s)"

definition kalloc :: "'a pstate_scheme \<Rightarrow> u32 \<Rightarrow> addr \<times> 'a pstate_scheme" where
  "kalloc s sz = (case malloc (heap_of s) sz of (p, m) \<Rightarrow> (p, s\<lparr>ps_kern := (ps_kern s)\<lparr>k_mem := m\<rparr>\<rparr>))"

definition kfree :: "'a pstate_scheme \<Rightarrow> addr \<Rightarrow> 'a pstate_scheme" where
  "kfree s p = s\<lparr>ps_kern := (ps_kern s)\<lparr>k_mem := free (heap_of s) p\<rparr>\<rparr>"

definition upd_pkt :: "addr \<Rightarrow> (en_net_pkt \<Rightarrow> en_net_pkt) \<Rightarrow> 'a pstate_scheme \<Rightarrow> 'a pstate_scheme" where
  "upd_pkt p f s = s\<lparr>ps_pkts := (ps_pkts s)(p := f (ps_pkts s p))\<rparr>"

definition upd_mem :: "(mem \<Rightarrow> mem) \<Rightarrow> 'a pstate_scheme \<Rightarrow> 'a pstate_scheme" where
  "upd_mem f s = s\<lparr>ps_mem := f (ps_mem s)\<rparr>"

section \<open>Operations\<close>

definition pkt_pad :: "u32 \<Rightarrow> u32" where
  "pkt_pad len = (if len mod BUF_PADDING \<noteq> 0 then len + (BUF_PADDING - len mod BUF_PADDING) else len)"

definition pkt_free :: "'a pstate_scheme \<Rightarrow> addr \<Rightarrow> 'a pstate_scheme" where
  "pkt_free s p =
     (let s = (if pk_data (ps_pkts s p) \<noteq> NULL then kfree s (pk_data (ps_pkts s p)) else s)
      in kfree s p)"

text \<open>The error exit of \<open>pkt_alloc\<close> once the structure exists is \<open>pkt_free\<close> without a data buffer.\<close>

definition pkt_alloc :: "'a pstate_scheme \<Rightarrow> u32 \<Rightarrow> addr \<times> 'a pstate_scheme" where
  "pkt_alloc s base =
     (case kalloc s sizeof_en_net_pkt of
        (p, s) \<Rightarrow>
          if p = NULL then (NULL, s)
          else
            (let s = upd_pkt p (\<lambda>_. pkt_zero) s;
                 base = pkt_pad base
             in if base > 0
                then (case kalloc s base of
                        (d, s) \<Rightarrow>
                          (let s = upd_pkt p (\<lambda>k. k\<lparr>pk_data := d\<rparr>) s
                           in if d = NULL then (NULL, pkt_free s p)
                              else
                                (let s = upd_pkt p (\<lambda>k. k\<lparr>pk_allocated := base\<rparr>) s
                                 in (p, upd_mem (\<lambda>m. memset m d 0 base) s))))
                else (p, s)))"

definition pkt_grow :: "'a pstate_scheme \<Rightarrow> addr \<Rightarrow> u32 \<Rightarrow> int \<times> 'a pstate_scheme" where
  "pkt_grow s p len =
     (if len \<le> 0 \<or> len < pk_allocated (ps_pkts s p) then (0, s)
      else
        (let len = pkt_pad len
         in case kalloc s len of
              (d, s) \<Rightarrow>
                if d = NULL then (- 1, s)
                else
                  (let s = upd_pkt p (\<lambda>k. k\<lparr>pk_allocated := len\<rparr>) s;
                       k = ps_pkts s p;
                       s = upd_mem (\<lambda>m. memcpy m d (pk_data k) (pk_len k)) s;
                       s = upd_mem (\<lambda>m. memset m (d + pk_len k) 0 (pk_allocated k - pk_len k)) s;
                       s = kfree s (pk_data k)
                   in (0, upd_pkt p (\<lambda>k. k\<lparr>pk_data := d\<rparr>) s))))"

definition pkt_reserve :: "'a pstate_scheme \<Rightarrow> addr \<Rightarrow> u32 \<Rightarrow> int \<times> 'a pstate_scheme" where
  "pkt_reserve s p len = (if len > pk_allocated (ps_pkts s p) then pkt_grow s p len else (0, s))"

definition pkt_add_head :: "'a pstate_scheme \<Rightarrow> addr \<Rightarrow> addr \<Rightarrow> u32 \<Rightarrow> int \<times> 'a pstate_scheme" where
  "pkt_add_head s p buf len =
     (case pkt_reserve s p (pk_allocated (ps_pkts s p) + len) of
        (rc, s) \<Rightarrow>
          if rc \<noteq> 0 then (rc, s)
          else
            (let k = ps_pkts s p;
                 s = upd_mem (\<lambda>m. memmove m (pk_data k + len) (pk_data k) (pk_len k)) s;
                 s = upd_mem (\<lambda>m. memcpy m (pk_data k) buf len) s
             in (rc, upd_pkt p (\<lambda>k. k\<lparr>pk_len := pk_len k + len\<rparr>) s)))"

definition pkt_add_tail :: "'a pstate_scheme \<Rightarrow> addr \<Rightarrow> addr \<Rightarrow> u32 \<Rightarrow> int \<times> 'a pstate_scheme" where
  "pkt_add_tail s p buf len =
     (case pkt_reserve s p (pk_allocated (ps_pkts s p) + len) of
        (rc, s) \<Rightarrow>
          if rc \<noteq> 0 then (rc, s)
          else
            (let k = ps_pkts s p;
                 s = upd_mem (\<lambda>m. memcpy m (pk_data k + pk_len k) buf len) s
             in (rc, upd_pkt p (\<lambda>k. k\<lparr>pk_len := pk_len k + len\<rparr>) s)))"

definition pkt_add :: "'a pstate_scheme \<Rightarrow> addr \<Rightarrow> addr \<Rightarrow> u32 \<Rightarrow> addr \<Rightarrow> u32 \<Rightarrow> int \<times> 'a pstate_scheme" where
  "pkt_add s p hbuf hlen tbuf tlen =
     (case pkt_reserve s p (pk_allocated (ps_pkts s p) + hlen + tlen) of
        (rc, s) \<Rightarrow>
          if rc \<noteq> 0 then (rc, s)
          else
            (case (if hbuf \<noteq> NULL then pkt_add_head s p hbuf hlen else (rc, s)) of
               (rc, s) \<Rightarrow>
                 if rc \<noteq> 0 then (rc, s)
                 else if tbuf \<noteq> NULL then pkt_add_tail s p tbuf tlen else (rc, s)))"

definition pkt_del_head :: "'a pstate_scheme \<Rightarrow> addr \<Rightarrow> u32 \<Rightarrow> int \<times> 'a pstate_scheme" where
  "pkt_del_head s p len =
     (let k = ps_pkts s p
      in if len > pk_len k then (- 1, s)
         else
           (let s = upd_mem (\<lambda>m. memmove m (pk_data k) (pk_data k + len) (pk_len k - len)) s
            in (0, upd_pkt p (\<lambda>k. k\<lparr>pk_len := pk_len k - len\<rparr>) s)))"

section \<open>Well-formed packets\<close>

text \<open>A packet owns its structure and, unless it has none, its data buffer; neither is a pinned chunk.\<close>

definition pkt_ok :: "nat \<Rightarrow> 'a pstate_scheme \<Rightarrow> (addr \<times> u32) list \<Rightarrow> addr \<Rightarrow> bool" where
  "pkt_ok B s live p \<longleftrightarrow> (p, sizeof_en_net_pkt) \<in> set live \<and> \<not> class_start B p
     \<and> (let k = ps_pkts s p in
          if pk_data k = NULL then pk_allocated k = 0 \<and> pk_len k = 0
          else (pk_data k, pk_allocated k) \<in> set live \<and> \<not> class_start B (pk_data k) \<and> pk_data k \<noteq> p
            \<and> pk_len k \<le> pk_allocated k)"

definition payload :: "'a pstate_scheme \<Rightarrow> addr \<Rightarrow> u8 list" where
  "payload s p = mem_bytes (ps_mem s) (pk_data (ps_pkts s p)) (unat (pk_len (ps_pkts s p)))"

text \<open>\<open>in_block live q a n\<close>: the \<open>n\<close> bytes from \<open>a\<close> on lie in the live block \<open>q\<close>.\<close>

definition in_block :: "(addr \<times> u32) list \<Rightarrow> addr \<Rightarrow> addr \<Rightarrow> nat \<Rightarrow> bool" where
  "in_block live q a n \<longleftrightarrow> (\<exists>k. (q, k) \<in> set live \<and> unat q \<le> unat a \<and> unat a + n \<le> unat q + unat k)"

lemma block_size:
  assumes "heap_live B m live" and "(p, n) \<in> set live"
  shows "unat n \<le> 8192"
proof -
  obtain i u where i: "i < 9" "unat n \<le> csize i"
    using assms by (auto simp: heap_live_def elim: live_ok_block)
  have "(2 :: nat) ^ i \<le> 2 ^ 8" using i(1) by (intro power_increasing) auto
  then show ?thesis using i(2) by (simp add: csize_eq)
qed

lemma fresh_apart:
  assumes "heap_live B m live" and "malloc m n = (d, m')" and "d \<noteq> NULL" and "in_block live q a k"
  shows "apart d (unat n) a k" and "unat a + k < 2 ^ 32"
proof -
  obtain l where l: "(q, l) \<in> set live" "unat q \<le> unat a" "unat a + k \<le> unat q + unat l"
    using assms(4) by (auto simp: in_block_def)
  show "apart d (unat n) a k" using heap.fresh(3) [OF assms(1-3) l(1)] l(2,3) by (auto simp: apart_def)
  show "unat a + k < 2 ^ 32" using heap.blocks_fit [OF assms(1) l(1)] l(3) by simp
qed

lemma pkt_pad_bounds:
  assumes "unat len + 4 \<le> 2 ^ 32"
  shows "unat len \<le> unat (pkt_pad len)" and "unat (pkt_pad len) < unat len + 4"
proof -
  have m: "unat (len mod 4) = unat len mod 4" by (simp add: unat_mod)
  then have lt: "unat (len mod 4) < 4" by simp
  have d: "unat (4 - len mod 4) = 4 - unat (len mod 4)"
    using lt by (subst unat_sub) (simp_all add: word_le_nat_alt)
  have "unat (len mod 4) \<noteq> 0" if "len mod 4 \<noteq> 0" using that by (simp add: unat_eq_0)
  then have "unat (pkt_pad len) = (if len mod 4 \<noteq> 0 then unat len + (4 - unat (len mod 4)) else unat len)"
    using assms d lt by (auto simp: pkt_pad_def BUF_PADDING_def unat_add_lem [THEN iffD1])
  moreover have "0 < unat (len mod 4)" if "len mod 4 \<noteq> 0" using that by (simp add: unat_gt_0)
  ultimately show "unat len \<le> unat (pkt_pad len)" "unat (pkt_pad len) < unat len + 4" using lt by auto
qed

lemma upd_simps [simp]:
  "ps_kern (upd_pkt p f s) = ps_kern s" "ps_mem (upd_pkt p f s) = ps_mem s"
  "ps_pkts (upd_pkt p f s) = (ps_pkts s)(p := f (ps_pkts s p))"
  "ps_kern (upd_mem g s) = ps_kern s" "ps_mem (upd_mem g s) = g (ps_mem s)" "ps_pkts (upd_mem g s) = ps_pkts s"
  "ps_kern (kfree s p) = (ps_kern s)\<lparr>k_mem := free (heap_of s) p\<rparr>" "ps_mem (kfree s p) = ps_mem s"
  "ps_pkts (kfree s p) = ps_pkts s"
  by (simp_all add: upd_pkt_def upd_mem_def kfree_def)

text \<open>Growing: on failure nothing has changed; on success the packet has a fresh buffer with its payload, the old
  buffer has been given back, and no other memory has changed.\<close>

lemma pkt_grow_cases:
  assumes heap: "heap_live B (heap_of s) live" and ok: "pkt_ok B s live p" and g: "pkt_grow s p len = (rc, s')"
    and len: "0 < len" "pk_allocated (ps_pkts s p) \<le> len" "unat len + 4 \<le> 2 ^ 32"
  obtains (fail) "rc = - 1" "s' = s" "malloc (heap_of s) (pkt_pad len) = (NULL, heap_of s)"
  | (grown) d n h m' where "rc = 0" "malloc (heap_of s) n = (d, h)" "d \<noteq> NULL" "n = pkt_pad len"
      "heap_live B (free h (pk_data (ps_pkts s p)))
         ((d, n) # filter (\<lambda>(q, _). q \<noteq> pk_data (ps_pkts s p)) live)"
      "s' = s\<lparr>ps_mem := m', ps_kern := (ps_kern s)\<lparr>k_mem := free h (pk_data (ps_pkts s p))\<rparr>,
         ps_pkts := (ps_pkts s)(p := (ps_pkts s p)\<lparr>pk_allocated := n, pk_data := d\<rparr>)\<rparr>"
      "mem_bytes m' d (unat (pk_len (ps_pkts s p))) = payload s p"
      "\<And>x. \<not> (unat d \<le> unat x \<and> unat x < unat d + unat n) \<Longrightarrow> m' x = ps_mem s x"
proof -
  let ?k = "ps_pkts s p" let ?n = "pkt_pad len"
  obtain d h where a: "malloc (heap_of s) ?n = (d, h)" by fastforce
  have cond: "\<not> (len \<le> 0 \<or> len < pk_allocated ?k)" using len(1,2) by auto
  show thesis
  proof (cases "d = NULL")
    case True
    have h: "h = heap_of s" using heap.alloc_null [OF heap] a True by blast
    then have "s' = s" "rc = - 1" using g a True cond by (auto simp: pkt_grow_def kalloc_def Let_def)
    then show thesis using a h True by (intro fail) simp_all
  next
    case False
    let ?m1 = "memcpy (ps_mem s) d (pk_data ?k) (pk_len ?k)"
    let ?m2 = "memset ?m1 (d + pk_len ?k) 0 (?n - pk_len ?k)"
    have s': "rc = 0" "s' = s\<lparr>ps_mem := ?m2, ps_kern := (ps_kern s)\<lparr>k_mem := free h (pk_data ?k)\<rparr>,
         ps_pkts := (ps_pkts s)(p := ?k\<lparr>pk_allocated := ?n, pk_data := d\<rparr>)\<rparr>"
      using g a False cond by (auto simp: pkt_grow_def kalloc_def Let_def upd_pkt_def upd_mem_def kfree_def)
    have "unat len \<le> unat ?n" using pkt_pad_bounds(1) [OF len(3)] .
    moreover have "unat (pk_len ?k) \<le> unat (pk_allocated ?k)"
      using ok by (auto simp: pkt_ok_def Let_def word_le_nat_alt split: if_splits)
    ultimately have kn: "unat (pk_len ?k) \<le> unat ?n" using len(2) by (simp add: word_le_nat_alt)
    note fit = heap.fresh(2) [OF heap a False]
    have q: "pk_data ?k = NULL \<or> pk_data ?k \<in> fst ` set live \<and> \<not> class_start B (pk_data ?k)"
      using ok by (force simp: pkt_ok_def Let_def split: if_splits)
    note live' = heap.replace [OF heap a False q]
    have cp: "puts_bytes (ps_mem s) ?m1 d (payload s p)"
    proof (cases "pk_data ?k = NULL")
      case True
      then have "pk_len ?k = 0" using ok by (simp add: pkt_ok_def Let_def)
      then show ?thesis by (simp add: payload_def memcpy_def puts_bytes_def)
    next
      case nn: False
      then have b: "(pk_data ?k, pk_allocated ?k) \<in> set live" "pk_len ?k \<le> pk_allocated ?k"
        using ok by (auto simp: pkt_ok_def Let_def)
      then have ib: "in_block live (pk_data ?k) (pk_data ?k) (unat (pk_len ?k))"
        by (auto simp: in_block_def word_le_nat_alt)
      note fa = fresh_apart [OF heap a False ib]
      show ?thesis unfolding payload_def
        by (rule memcpy_puts [OF apart_mono [OF fa(1)]]) (use fa(2) fit kn in auto)
    qed
    have dk: "unat (d + pk_len ?k) = unat d + unat (pk_len ?k)"
      using fit kn by (subst unat_add_lem [THEN iffD1]) auto
    have nk: "unat (?n - pk_len ?k) = unat ?n - unat (pk_len ?k)"
      using kn by (intro unat_sub) (simp add: word_le_nat_alt)
    have ms: "puts_bytes ?m1 ?m2 (d + pk_len ?k) (replicate (unat (?n - pk_len ?k)) (ucast (0 :: u32)))"
      by (rule memset_puts) (use dk nk fit kn in simp)
    have lp: "length (payload s p) = unat (pk_len ?k)" by (simp add: payload_def)
    have "mem_bytes ?m2 d (unat (pk_len ?k)) = mem_bytes ?m1 d (unat (pk_len ?k))"
      by (rule puts_bytes_other [OF ms]) (use dk fit kn in \<open>auto simp: apart_def\<close>)
    then have "mem_bytes ?m2 d (unat (pk_len ?k)) = payload s p" using puts_bytes_read [OF cp] lp by simp
    moreover have "?m2 x = ps_mem s x" if "\<not> (unat d \<le> unat x \<and> unat x < unat d + unat ?n)" for x
    proof -
      have "?m2 x = ?m1 x" by (rule puts_bytes_outside [OF ms that]) (use dk nk kn in simp_all)
      also have "\<dots> = ps_mem s x" by (rule puts_bytes_outside [OF cp that]) (use kn lp in simp_all)
      finally show ?thesis .
    qed
    ultimately show thesis by (rule grown [OF s'(1) a False refl live' s'(2)])
  qed
qed

text \<open>The live blocks after a packet has moved to a buffer of \<open>n\<close> bytes at \<open>d\<close>.\<close>

definition moved :: "(addr \<times> u32) list \<Rightarrow> addr \<Rightarrow> addr \<Rightarrow> u32 \<Rightarrow> (addr \<times> u32) list" where
  "moved live old d n = (d, n) # filter (\<lambda>(q, _). q \<noteq> old) live"

lemma moved_other: "(q, k) \<in> set live \<Longrightarrow> q \<noteq> old \<Longrightarrow> (q, k) \<in> set (moved live old d n)"
  by (simp add: moved_def)

lemma pkt_data_block:
  assumes "pkt_ok B s live p" and "pk_data (ps_pkts s p) \<noteq> NULL"
  shows "(pk_data (ps_pkts s p), pk_allocated (ps_pkts s p)) \<in> set live"
    and "pk_len (ps_pkts s p) \<le> pk_allocated (ps_pkts s p)" and "pk_data (ps_pkts s p) \<noteq> p"
    and "\<not> class_start B (pk_data (ps_pkts s p))"
  using assms by (auto simp: pkt_ok_def Let_def)

lemma pkt_len_le: "pkt_ok B s live p \<Longrightarrow> unat (pk_len (ps_pkts s p)) \<le> unat (pk_allocated (ps_pkts s p))"
  by (auto simp: pkt_ok_def Let_def word_le_nat_alt split: if_splits)

lemma pkt_allocated_le: "heap_live B m live \<Longrightarrow> pkt_ok B s live p \<Longrightarrow> unat (pk_allocated (ps_pkts s p)) \<le> 8192"
  by (cases "pk_data (ps_pkts s p) = NULL")
    (auto simp: pkt_ok_def Let_def dest: block_size)

lemma pkt_ok_moved:
  assumes heap: "heap_live B m live" and ok: "pkt_ok B s live p" and d: "malloc m n = (d, h)" "d \<noteq> NULL"
    and k: "ps_pkts s' p = (ps_pkts s p)\<lparr>pk_allocated := n, pk_data := d, pk_len := l\<rparr>" and l: "l \<le> n"
  shows "pkt_ok B s' (moved live (pk_data (ps_pkts s p)) d n) p"
proof -
  have "p \<noteq> pk_data (ps_pkts s p)" "(p, sizeof_en_net_pkt) \<in> set live" "\<not> class_start B p"
    using ok heap.blocks_fit [OF heap, of p] by (auto simp: pkt_ok_def Let_def split: if_splits)
  moreover from this have "d \<noteq> p" using heap.fresh(1) [OF heap d] by force
  moreover have "\<not> class_start B d" by (rule heap.alloc_unpinned [OF heap d])
  ultimately show ?thesis using d(2) l by (simp add: pkt_ok_def k Let_def moved_def)
qed

text \<open>Adding a header of \<open>len > 0\<close> bytes that lie in some other live block.\<close>

lemma pkt_add_head_cases:
  assumes heap: "heap_live B (heap_of s) live" and ok: "pkt_ok B s live p"
    and buf: "in_block live q buf (unat len)" and len: "0 < len" "unat len < 2 ^ 31"
    and r: "pkt_add_head s p buf len = (rc, s')"
  obtains (fail) "rc = - 1" "s' = s"
      "malloc (heap_of s) (pkt_pad (pk_allocated (ps_pkts s p) + len)) = (NULL, heap_of s)"
  | (added) d n h m' where "rc = 0" "malloc (heap_of s) n = (d, h)" "d \<noteq> NULL"
      "unat (pk_len (ps_pkts s p)) + unat len \<le> unat n"
      "heap_live B (free h (pk_data (ps_pkts s p))) (moved live (pk_data (ps_pkts s p)) d n)"
      "s' = s\<lparr>ps_kern := (ps_kern s)\<lparr>k_mem := free h (pk_data (ps_pkts s p))\<rparr>, ps_mem := m',
         ps_pkts := (ps_pkts s)(p := (ps_pkts s p)\<lparr>pk_allocated := n, pk_data := d,
           pk_len := pk_len (ps_pkts s p) + len\<rparr>)\<rparr>"
      "payload s' p = mem_bytes (ps_mem s) buf (unat len) @ payload s p"
      "pkt_ok B s' (moved live (pk_data (ps_pkts s p)) d n) p"
      "\<And>x. \<not> (unat d \<le> unat x \<and> unat x < unat d + unat n) \<Longrightarrow> m' x = ps_mem s x"
      "n = pkt_pad (pk_allocated (ps_pkts s p) + len)"
proof -
  let ?k = "ps_pkts s p" let ?want = "pk_allocated ?k + len"
  have al: "unat (pk_allocated ?k) \<le> 8192" by (rule pkt_allocated_le [OF heap ok])
  have want: "unat ?want = unat (pk_allocated ?k) + unat len"
    using al len(2) by (subst unat_add_lem [THEN iffD1]) auto
  then have more: "?want > pk_allocated ?k" using len(1) by (simp add: word_less_nat_alt)
  obtain rc1 s1 where g: "pkt_grow s p ?want = (rc1, s1)" by fastforce
  have res: "pkt_reserve s p ?want = (rc1, s1)" using more g by (simp add: pkt_reserve_def)
  have pre: "0 < ?want" "pk_allocated ?k \<le> ?want" "unat ?want + 4 \<le> 2 ^ 32"
    using more want al len(2) by (auto simp: word_less_nat_alt word_le_nat_alt)
  from heap ok g pre show thesis
  proof (cases rule: pkt_grow_cases)
    case fail
    then show thesis using r res by (intro that(1)) (simp_all add: pkt_add_head_def)
  next
    case (grown d n h m')
    let ?m2 = "memmove m' (d + len) d (pk_len ?k)"
    let ?m3 = "memcpy ?m2 d buf len"
    have k1: "ps_pkts s1 p = ?k\<lparr>pk_allocated := n, pk_data := d\<rparr>" using grown(6) by simp
    have s': "rc = 0" "s' = s\<lparr>ps_kern := (ps_kern s)\<lparr>k_mem := free h (pk_data ?k)\<rparr>, ps_mem := ?m3,
         ps_pkts := (ps_pkts s)(p := ?k\<lparr>pk_allocated := n, pk_data := d, pk_len := pk_len ?k + len\<rparr>)\<rparr>"
      using r res grown(1) unfolding grown(6)
      by (simp_all add: pkt_add_head_def Let_def upd_mem_def upd_pkt_def)
    have kl: "unat (pk_len ?k) \<le> unat (pk_allocated ?k)" by (rule pkt_len_le [OF ok])
    have n: "unat (pk_len ?k) + unat len \<le> unat n"
      using pkt_pad_bounds(1) [OF pre(3)] grown(4) want kl by simp
    note fit = heap.fresh(2) [OF heap grown(2,3)]
    note fb = fresh_apart [OF heap grown(2,3) buf]
    have dl: "unat (d + len) = unat d + unat len" using fit n by (subst unat_add_lem [THEN iffD1]) auto
    have sl: "unat (pk_len ?k + len) = unat (pk_len ?k) + unat len"
      using al kl len(2) by (subst unat_add_lem [THEN iffD1]) auto
    have mv: "puts_bytes m' ?m2 (d + len) (mem_bytes m' d (unat (pk_len ?k)))"
      by (rule memmove_puts) (use fit n dl in auto)
    have cp: "puts_bytes ?m2 ?m3 d (mem_bytes ?m2 buf (unat len))"
      by (rule memcpy_puts [OF apart_mono [OF fb(1)]]) (use fit fb(2) n in auto)
    have "mem_bytes ?m2 buf (unat len) = mem_bytes m' buf (unat len)"
      by (rule puts_bytes_other [OF mv]) (use fb dl n in \<open>auto simp: apart_def\<close>)
    also have "\<dots> = mem_bytes (ps_mem s) buf (unat len)"
      by (rule mem_bytes_cong) (use fb(2) grown(8) fb(1) in \<open>auto simp: apart_def\<close>)
    finally have hd: "mem_bytes ?m2 buf (unat len) = mem_bytes (ps_mem s) buf (unat len)" .
    have "mem_bytes ?m3 d (unat len) = mem_bytes (ps_mem s) buf (unat len)"
      using puts_bytes_read [OF cp] hd by simp
    moreover have "mem_bytes ?m3 (d + len) (unat (pk_len ?k)) = mem_bytes ?m2 (d + len) (unat (pk_len ?k))"
      by (rule puts_bytes_other [OF cp]) (use dl fit n in \<open>auto simp: apart_def\<close>)
    moreover have "mem_bytes ?m2 (d + len) (unat (pk_len ?k)) = payload s p"
      using puts_bytes_read [OF mv] unfolding grown(7) mem_bytes_length by (simp add: payload_def)
    moreover have "of_nat (unat len) = len" by simp
    ultimately have "mem_bytes ?m3 d (unat len + unat (pk_len ?k)) = mem_bytes (ps_mem s) buf (unat len) @ payload s p"
      by (simp only: mem_bytes_append)
    moreover have "payload s' p = mem_bytes ?m3 d (unat (pk_len ?k + len))" unfolding payload_def s'(2) by simp
    moreover have "unat (pk_len ?k + len) = unat len + unat (pk_len ?k)" using sl by simp
    ultimately have pl: "payload s' p = mem_bytes (ps_mem s) buf (unat len) @ payload s p" by (simp only:)
    have out: "?m3 x = ps_mem s x" if "\<not> (unat d \<le> unat x \<and> unat x < unat d + unat n)" for x
    proof -
      have "?m3 x = ?m2 x" by (rule puts_bytes_outside [OF cp that]) (use n in simp_all)
      also have "\<dots> = m' x" by (rule puts_bytes_outside [OF mv that]) (use n dl in simp_all)
      finally show ?thesis using grown(8) [OF that] by simp
    qed
    have ln: "pk_len ?k + len \<le> n" using sl n by (simp add: word_le_nat_alt)
    have "pkt_ok B s' (moved live (pk_data ?k) d n) p"
      by (rule pkt_ok_moved [OF heap ok grown(2,3) _ ln]) (simp add: s'(2))
    then show thesis
      using added [OF s'(1) grown(2,3) n _ s'(2) pl _ out grown(4)] grown(5) by (simp add: moved_def)
  qed
qed

text \<open>Removing a header.\<close>

lemma pkt_del_head_short: "pk_len (ps_pkts s p) < len \<Longrightarrow> pkt_del_head s p len = (- 1, s)"
  by (simp add: pkt_del_head_def Let_def)

lemma pkt_del_head_ok:
  fixes s :: "'a pstate_scheme"
  assumes heap: "heap_live B (heap_of s) live" and ok: "pkt_ok B s live p" and len: "len \<le> pk_len (ps_pkts s p)"
  obtains m' where "pkt_del_head s p len = (0, s\<lparr>ps_mem := m',
        ps_pkts := (ps_pkts s)(p := (ps_pkts s p)\<lparr>pk_len := pk_len (ps_pkts s p) - len\<rparr>)\<rparr>)"
    "mem_bytes m' (pk_data (ps_pkts s p)) (unat (pk_len (ps_pkts s p) - len)) = drop (unat len) (payload s p)"
    "\<And>x. \<not> (unat (pk_data (ps_pkts s p)) \<le> unat x \<and> unat x < unat (pk_data (ps_pkts s p)) + unat (pk_len (ps_pkts s p)))
       \<Longrightarrow> m' x = ps_mem s x"
    "\<And>s' :: 'a pstate_scheme. ps_pkts s' p = (ps_pkts s p)\<lparr>pk_len := pk_len (ps_pkts s p) - len\<rparr> \<Longrightarrow> pkt_ok B s' live p"
proof -
  let ?k = "ps_pkts s p"
  let ?m = "memmove (ps_mem s) (pk_data ?k) (pk_data ?k + len) (pk_len ?k - len)"
  have ul: "unat len \<le> unat (pk_len ?k)" using len by (simp add: word_le_nat_alt)
  have dl: "unat (pk_len ?k - len) = unat (pk_len ?k) - unat len" using len by (rule unat_sub)
  have fit: "unat (pk_data ?k) + unat (pk_len ?k) < 2 ^ 32"
  proof (cases "pk_data ?k = NULL")
    case True
    then show ?thesis using ok by (simp add: pkt_ok_def Let_def)
  next
    case False
    then show ?thesis using heap.blocks_fit [OF heap pkt_data_block(1) [OF ok False]] pkt_len_le [OF ok] by simp
  qed
  then have sd: "unat (pk_data ?k + len) = unat (pk_data ?k) + unat len"
    using ul by (subst unat_add_lem [THEN iffD1]) auto
  have mv: "puts_bytes (ps_mem s) ?m (pk_data ?k) (mem_bytes (ps_mem s) (pk_data ?k + len) (unat (pk_len ?k - len)))"
    by (rule memmove_puts) (use sd dl ul fit in auto)
  have "drop (unat len) (payload s p) = mem_bytes (ps_mem s) (pk_data ?k + len) (unat (pk_len ?k - len))"
    unfolding payload_def dl using ul by (simp add: drop_mem_bytes)
  then have "mem_bytes ?m (pk_data ?k) (unat (pk_len ?k - len)) = drop (unat len) (payload s p)"
    using puts_bytes_read [OF mv] by simp
  moreover have "?m x = ps_mem s x" if "\<not> (unat (pk_data ?k) \<le> unat x \<and> unat x < unat (pk_data ?k) + unat (pk_len ?k))" for x
    by (rule puts_bytes_outside [OF mv that]) (use dl in simp_all)
  moreover have "pk_len ?k - len \<le> pk_len ?k" using dl by (simp add: word_le_nat_alt)
  then have "pkt_ok B s' live p" if "ps_pkts s' p = ?k\<lparr>pk_len := pk_len ?k - len\<rparr>" for s' :: "'a pstate_scheme"
    using ok len that by (auto simp: pkt_ok_def Let_def)
  ultimately show thesis
    using len by (intro that [of ?m]) (auto simp: pkt_del_head_def Let_def upd_mem_def upd_pkt_def)
qed

text \<open>Allocating a packet.\<close>

lemma pkt_alloc_cases:
  assumes heap: "heap_live B (heap_of s) live" and base: "unat base + 4 \<le> 2 ^ 32" "base \<noteq> 0" and r: "pkt_alloc s base = (p, s')"
  obtains (fail) "p = NULL" "heap_live B (heap_of s') live" "ps_mem s' = ps_mem s"
  | (fresh) d h m' where "p \<noteq> NULL" "p \<notin> fst ` set live" "d \<noteq> NULL" "d \<notin> fst ` set live" "d \<noteq> p"
      "heap_live B h ((d, pkt_pad base) # (p, sizeof_en_net_pkt) # live)"
      "s' = s\<lparr>ps_mem := m', ps_kern := (ps_kern s)\<lparr>k_mem := h\<rparr>,
         ps_pkts := (ps_pkts s)(p := pkt_zero\<lparr>pk_data := d, pk_allocated := pkt_pad base\<rparr>)\<rparr>"
      "\<not> class_start B p" "\<not> class_start B d"
      "mem_bytes m' d (unat (pkt_pad base)) = replicate (unat (pkt_pad base)) 0"
      "\<And>x. \<not> (unat d \<le> unat x \<and> unat x < unat d + unat (pkt_pad base)) \<Longrightarrow> m' x = ps_mem s x"
proof -
  let ?n = "pkt_pad base"
  have n: "0 < ?n" using pkt_pad_bounds(1) [OF base(1)] base(2) by (simp add: word_less_nat_alt unat_gt_0 [symmetric])
  obtain q h1 where a: "malloc (heap_of s) sizeof_en_net_pkt = (q, h1)" by fastforce
  show thesis
  proof (cases "q = NULL")
    case True
    then have "h1 = heap_of s" using heap.alloc_null [OF heap] a by blast
    then have "p = NULL" "s' = s" using r a True by (auto simp: pkt_alloc_def kalloc_def)
    then show thesis using heap by (intro fail) auto
  next
    case q: False
    note live1 = heap.alloc_ok [OF heap a q]
    obtain d h2 where b: "malloc h1 ?n = (d, h2)" by fastforce
    show thesis
    proof (cases "d = NULL")
      case True
      then have h2: "h2 = h1" using heap.alloc_null [OF live1] b by blast
      then have "p = NULL" "heap_of s' = free h1 q" "ps_mem s' = ps_mem s"
        using r a b n q True by (auto simp: pkt_alloc_def kalloc_def Let_def pkt_free_def pkt_zero_def upd_pkt_def kfree_def)
      moreover have "heap_live B (free h1 q) live" by (rule heap.undo [OF heap a q])
      ultimately show thesis by (intro fail) auto
    next
      case d: False
      note live2 = heap.alloc_ok [OF live1 b d]
      have s': "p = q" "s' = s\<lparr>ps_mem := memset (ps_mem s) d 0 ?n, ps_kern := (ps_kern s)\<lparr>k_mem := h2\<rparr>,
         ps_pkts := (ps_pkts s)(p := pkt_zero\<lparr>pk_data := d, pk_allocated := ?n\<rparr>)\<rparr>"
        using r a b n q d by (auto simp: pkt_alloc_def kalloc_def Let_def upd_pkt_def upd_mem_def)
      note fit = heap.fresh(2) [OF live1 b d]
      have st: "puts_bytes (ps_mem s) (memset (ps_mem s) d 0 ?n) d (replicate (unat ?n) (ucast (0 :: u32)))"
        by (rule memset_puts) (use fit in simp)
      show thesis
      proof (rule fresh)
        show "p \<noteq> NULL" "p \<notin> fst ` set live" using q heap.fresh(1) [OF heap a q] s'(1) by auto
        show "d \<noteq> NULL" "d \<notin> fst ` set live" "d \<noteq> p" using d heap.fresh(1) [OF live1 b d] s'(1) by auto
        show "heap_live B h2 ((d, ?n) # (p, sizeof_en_net_pkt) # live)" using live2 s'(1) by simp
        show "s' = s\<lparr>ps_mem := memset (ps_mem s) d 0 ?n, ps_kern := (ps_kern s)\<lparr>k_mem := h2\<rparr>,
         ps_pkts := (ps_pkts s)(p := pkt_zero\<lparr>pk_data := d, pk_allocated := ?n\<rparr>)\<rparr>" by (rule s'(2))
        show "\<not> class_start B p" using heap.alloc_unpinned [OF heap a q] s'(1) by simp
        show "\<not> class_start B d" by (rule heap.alloc_unpinned [OF live1 b d])
        show "mem_bytes (memset (ps_mem s) d 0 ?n) d (unat ?n) = replicate (unat ?n) 0"
          using puts_bytes_read [OF st] by simp
        show "memset (ps_mem s) d 0 ?n x = ps_mem s x" if "\<not> (unat d \<le> unat x \<and> unat x < unat d + unat ?n)" for x
          by (rule puts_bytes_outside [OF st that]) simp_all
      qed
    qed
  qed
qed

text \<open>With room in the heap a header can always be added.\<close>

lemma pkt_add_head_succeeds:
  assumes heap: "heap_live B (heap_of s) live" and ok: "pkt_ok B s live p"
    and buf: "in_block live q buf (unat len)" and len: "0 < len"
    and room: "length live < 128" "unat (pk_allocated (ps_pkts s p)) + unat len + 4 \<le> 8192"
  shows "fst (pkt_add_head s p buf len) = 0"
proof -
  obtain rc s' where r: "pkt_add_head s p buf len = (rc, s')" by fastforce
  let ?w = "pk_allocated (ps_pkts s p) + len"
  have w: "unat ?w = unat (pk_allocated (ps_pkts s p)) + unat len"
    using room(2) by (subst unat_add_lem [THEN iffD1]) auto
  have n: "unat (pkt_pad ?w) \<le> csize 8" using pkt_pad_bounds(2) [of ?w] w room(2) by (simp add: csize_eq)
  have "unat len < 2 ^ 31" using room(2) by simp
  from heap ok buf len this r show ?thesis
  proof (cases rule: pkt_add_head_cases)
    case fail
    have "live_ok B (heap_of s, live)" using heap by (simp add: heap_live_def)
    from malloc_succeeds [OF this room(1) _ n fail(3)] show ?thesis by simp
  qed (use r in simp)
qed

section \<open>Properties\<close>

text \<open>C14: a header goes on in front of the payload and comes off again. When \<open>pkt_add_head\<close> succeeds the packet holds the
  header followed by its old payload and is still well formed on a consistent heap, and removing as many bytes gives
  the old payload back.\<close>

theorem pkt_header_round_trip:
  assumes "heap_live B (heap_of s) live" and "pkt_ok B s live p" and "in_block live q buf (unat len)"
    and "0 < len" and "unat len < 2 ^ 31" and "pkt_add_head s p buf len = (0, s1)"
  shows "payload s1 p = mem_bytes (ps_mem s) buf (unat len) @ payload s p
    \<and> (\<exists>live1. heap_live B (heap_of s1) live1 \<and> pkt_ok B s1 live1 p)
    \<and> (\<exists>s2. pkt_del_head s1 p len = (0, s2) \<and> payload s2 p = payload s p)"
  using assms
proof (cases rule: pkt_add_head_cases)
  case (added d n h m')
  let ?live = "moved live (pk_data (ps_pkts s p)) d n"
  have heap1: "heap_live B (heap_of s1) ?live" using added(5) unfolding added(6) by simp
  have sl: "unat (pk_len (ps_pkts s p) + len) = unat (pk_len (ps_pkts s p)) + unat len"
    using added(4) unat_u32_bound [of n] by (subst unat_add_lem [THEN iffD1]) auto
  then have le: "len \<le> pk_len (ps_pkts s1 p)" unfolding added(6) by (simp add: word_le_nat_alt)
  obtain m2 where d: "pkt_del_head s1 p len = (0, s1\<lparr>ps_mem := m2,
        ps_pkts := (ps_pkts s1)(p := (ps_pkts s1 p)\<lparr>pk_len := pk_len (ps_pkts s1 p) - len\<rparr>)\<rparr>)"
    "mem_bytes m2 (pk_data (ps_pkts s1 p)) (unat (pk_len (ps_pkts s1 p) - len)) = drop (unat len) (payload s1 p)"
    by (rule pkt_del_head_ok [OF heap1 added(8) le])
  then have "payload (snd (pkt_del_head s1 p len)) p = payload s p" by (simp add: payload_def [of "_\<lparr>ps_mem := _, ps_pkts := _\<rparr>"] added(7))
  then show ?thesis using added(7,8) heap1 d(1) by (metis snd_conv)
qed simp

text \<open>packet allocation is all or nothing. On success the packet is well formed, empty, and has a zeroed buffer of the
  requested size rounded up to a multiple of four; on failure the heap owns what it owned before.\<close>

theorem pkt_alloc_all_or_nothing:
  assumes "heap_live B (heap_of s) live" and "unat base + 4 \<le> 2 ^ 32" and "base \<noteq> 0" and "pkt_alloc s base = (p, s')"
  shows "if p = NULL then heap_live B (heap_of s') live \<and> ps_mem s' = ps_mem s
    else (let k = ps_pkts s' p in
      heap_live B (heap_of s') ((pk_data k, pk_allocated k) # (p, sizeof_en_net_pkt) # live)
      \<and> pkt_ok B s' ((pk_data k, pk_allocated k) # (p, sizeof_en_net_pkt) # live) p
      \<and> payload s' p = [] \<and> pk_allocated k = pkt_pad base
      \<and> mem_bytes (ps_mem s') (pk_data k) (unat (pk_allocated k)) = replicate (unat (pk_allocated k)) 0)"
  using assms
proof (cases rule: pkt_alloc_cases)
  case (fresh d h m')
  then show ?thesis by (auto simp: Let_def pkt_ok_def pkt_zero_def payload_def)
qed simp

section \<open>Witnesses\<close>

text \<open>A kernel on a heap whose pinned chunks are in use, with a live block of 64 bytes for the caller.\<close>

lemma pinned_pstate:
  obtains s :: pstate and live fr where "heap_live 0x8000 (heap_of s) live" "length live = 9"
    "(fr, 64) \<in> set live" "\<And>a. ps_mem s a = ucast a"
proof -
  obtain m live where m: "heap_live 0x8000 m live" "length live = 8"
    using pinned_heap [of "0x8000"] by (auto simp: heap_ok_def mem_init_heap_size_eq)
  obtain fr m' where a: "malloc m 64 = (fr, m')" by fastforce
  have "fr \<noteq> NULL"
    by (rule malloc_succeeds [OF _ _ _ _ a, of "0x8000" live 1]) (use m in \<open>simp_all add: heap_live_def csize_eq\<close>)
  then have "heap_live 0x8000 m' ((fr, 64) # live)" by (rule heap.alloc_ok [OF m(1) a])
  then show thesis
    using m(2) by (intro that [of "\<lparr>ps_kern = kern0\<lparr>k_mem := m'\<rparr>, ps_mem = (\<lambda>a. ucast a), ps_pkts = (\<lambda>_. pkt_zero)\<rparr>"]) auto
qed

lemma pkt_alloc_succeeds:
  assumes "heap_live B (heap_of s) live" and "length live < 127" and "unat base + 4 \<le> 8192" and "base \<noteq> 0"
  shows "fst (pkt_alloc s base) \<noteq> NULL"
proof -
  let ?n = "pkt_pad base"
  have n: "unat ?n \<le> csize 8" "0 < ?n"
    using pkt_pad_bounds [of base] assms(3,4) by (simp_all add: csize_eq word_less_nat_alt unat_gt_0 [symmetric])
  obtain q h1 where a: "malloc (heap_of s) sizeof_en_net_pkt = (q, h1)" by fastforce
  have q: "q \<noteq> NULL"
    by (rule malloc_succeeds [OF _ _ _ _ a, of B live 0])
      (use assms(1,2) in \<open>simp_all add: heap_live_def csize_eq sizeof_en_net_pkt_def\<close>)
  note l1 = heap.alloc_ok [OF assms(1) a q]
  obtain d h2 where b: "malloc h1 ?n = (d, h2)" by fastforce
  have "d \<noteq> NULL"
    by (rule malloc_succeeds [OF _ _ _ n(1) b, of B "(q, sizeof_en_net_pkt) # live"]) (use l1 assms(2) in \<open>simp_all add: heap_live_def\<close>)
  then show ?thesis using a b q n(2) by (simp add: pkt_alloc_def kalloc_def Let_def)
qed

theorem pkt_alloc_all_or_nothing_witness:
  "\<exists>(s :: pstate) p s'. pkt_alloc s 50 = (p, s') \<and> p \<noteq> NULL \<and> pk_allocated (ps_pkts s' p) = 52 \<and> payload s' p = []"
proof -
  obtain s :: pstate and live fr where s: "heap_live 0x8000 (heap_of s) live" "length live = 9"
    by (rule pinned_pstate) blast
  obtain p s' where r: "pkt_alloc s 50 = (p, s')" by fastforce
  have "p \<noteq> NULL" using pkt_alloc_succeeds [OF s(1), of 50] s(2) r by simp
  moreover have "pkt_pad 50 = 52" by (simp add: pkt_pad_def BUF_PADDING_def)
  ultimately show ?thesis using pkt_alloc_all_or_nothing [OF s(1) _ _ r] r by (auto simp: Let_def)
qed

theorem pkt_header_round_trip_witness:
  "\<exists>(s :: pstate) p buf s1 s2. pkt_add_head s p buf 14 = (0, s1) \<and> payload s1 p = mem_bytes (ps_mem s) buf 14
    \<and> pkt_del_head s1 p 14 = (0, s2) \<and> payload s2 p = []"
proof -
  obtain s0 :: pstate and live fr where s0: "heap_live 0x8000 (heap_of s0) live" "length live = 9" "(fr, 64) \<in> set live"
    by (rule pinned_pstate) blast
  obtain p s where r: "pkt_alloc s0 50 = (p, s)" by fastforce
  have p: "p \<noteq> NULL" using pkt_alloc_succeeds [OF s0(1), of 50] s0(2) r by simp
  have b: "unat (50 :: u32) + 4 \<le> 2 ^ 32" "(50 :: u32) \<noteq> 0" by simp_all
  from s0(1) b r show ?thesis
  proof (cases rule: pkt_alloc_cases)
    case (fresh d h m')
    let ?live = "(d, pkt_pad 50) # (p, sizeof_en_net_pkt) # live"
    have pad: "pkt_pad 50 = 52" by (simp add: pkt_pad_def BUF_PADDING_def)
    have heap: "heap_live 0x8000 (heap_of s) ?live" using fresh(6) unfolding fresh(7) by simp
    have ok: "pkt_ok 0x8000 s ?live p" and nil: "payload s p = []" and al: "pk_allocated (ps_pkts s p) = 52"
      using fresh pad by (auto simp: Let_def pkt_ok_def pkt_zero_def payload_def)
    have ib: "in_block ?live fr fr (unat (14 :: u32))"
      using s0(3) unfolding in_block_def by (intro exI [of _ 64]) simp
    obtain s1 where a: "pkt_add_head s p fr 14 = (0, s1)"
      using pkt_add_head_succeeds [OF heap ok ib] s0(2) al by (cases "pkt_add_head s p fr 14") auto
    from pkt_header_round_trip [OF heap ok ib _ _ a] obtain s2 where
      "payload s1 p = mem_bytes (ps_mem s) fr 14" "pkt_del_head s1 p 14 = (0, s2)" "payload s2 p = []"
      using nil by auto
    then show ?thesis using a by blast
  qed (use p in simp_all)
qed

end
