(* ===== verification/Net.thy ===== *)
theory Net
  imports Pkt
begin

text \<open>
  The state of the network stack (net/dll/eth.h, net/dll/arp.h, net/trans/ip.h) and its output side: Ethernet
  encapsulation and ARP (net/dll/eth.c, net/dll/arp.c), IP routing and output (net/trans/ip.c).

  Structures of one type live in one table, indexed by address; the list heads embedded in an interface are nodes of the
  table of what they link (\<open>rx_queue\<close>, \<open>tx_queue\<close>, \<open>ip_addrs\<close> below). Packet contents are bytes of memory.
  A function that may not return, because a list is circular or a checksum length odd, has an option result; \<open>None\<close>
  also stands for a dereferenced null pointer.
\<close>

section \<open>Data\<close>

record en_eth_if = list_node +
  if_addr :: "u8 list"
  if_bound :: bool

record ip_desc = list_node +
  ipd_addr :: u32
  ipd_netmask :: u32
  ipd_broadcast :: u32

record en_arp_entry = list_node +
  ae_hrd_addr :: "u8 list"
  ae_proto_addr :: u32
  ae_created :: u32

record en_ip_route = list_node +
  rt_dst :: u32
  rt_netmask :: u32
  rt_gw :: u32
  rt_flags :: u8
  rt_metric :: u8
  rt_eth_if :: addr

text \<open>\<open>n_frame\<close> is the address of the local headers in the stack of the running task.\<close>

record net = pstate +
  n_ifs :: "addr \<Rightarrow> en_eth_if"
  n_ips :: "addr \<Rightarrow> ip_desc"
  n_arps :: "addr \<Rightarrow> en_arp_entry"
  n_routes :: "addr \<Rightarrow> en_ip_route"
  n_eth_if_list :: addr
  n_arp_cache_list :: addr
  n_ip_route_list :: addr
  n_rx_completion :: addr
  n_frame :: addr

definition EN_ETH_ADDRSIZE :: nat where "EN_ETH_ADDRSIZE = 8 * 6"
definition ETH_TYPE_IPV4 :: u32 where "ETH_TYPE_IPV4 = 0x0800"
definition ETH_TYPE_ARP :: u32 where "ETH_TYPE_ARP = 0x0806"
definition ARP_HRD_ETHERNET :: u32 where "ARP_HRD_ETHERNET = 1"
definition ARP_OP_REQUEST :: u32 where "ARP_OP_REQUEST = 1"
definition ARP_OP_REPLY :: u32 where "ARP_OP_REPLY = 2"
definition IP_PROTO_ICMP :: u8 where "IP_PROTO_ICMP = 0x01"
definition IP_PROTO_UDP :: u8 where "IP_PROTO_UDP = 0x11"
definition IP_TTL :: u8 where "IP_TTL = 64"

text \<open>Sizes of the packed headers and of an ARP entry.\<close>

definition sizeof_mac_hdr :: u32 where "sizeof_mac_hdr = 14"
definition sizeof_arp_pkt :: u32 where "sizeof_arp_pkt = 9"
definition sizeof_ip_hdr :: u32 where "sizeof_ip_hdr = 20"
definition sizeof_arp_entry :: u32 where "sizeof_arp_entry = 72"

text \<open>The embedded list heads, by their offsets in \<open>struct en_eth_if\<close>.\<close>

definition rx_queue :: "addr \<Rightarrow> addr" where "rx_queue e = e + 128"
definition tx_queue :: "addr \<Rightarrow> addr" where "tx_queue e = e + 136"
definition ip_addrs :: "addr \<Rightarrow> addr" where "ip_addrs e = e + 144"

definition mac_addr_bcast :: "u8 list" where
  "mac_addr_bcast = replicate 6 0xFF @ replicate (EN_ETH_ADDRSIZE - 6) 0"

text \<open>Copying the bytes of a typed object into memory.\<close>

primrec put_list :: "mem \<Rightarrow> addr \<Rightarrow> u8 list \<Rightarrow> mem" where
  "put_list m a [] = m"
| "put_list m a (b # bs) = put_list (m(a := b)) (a + 1) bs" for m a

text \<open>Swapping the field at \<open>a\<close> between host and network order.\<close>

definition swap16_at :: "addr \<Rightarrow> mem \<Rightarrow> mem" where
  "swap16_at a m = store16 m a (en_ntohs (ucast (load16 m a)))"

definition swap32_at :: "addr \<Rightarrow> mem \<Rightarrow> mem" where
  "swap32_at a m = store32 m a (en_ntohl (load32 m a))"

definition pkt_data :: "net \<Rightarrow> addr \<Rightarrow> addr" where
  "pkt_data s p = pk_data (ps_pkts s p)"

section \<open>Ethernet output\<close>

definition en_eth_output :: "net \<Rightarrow> addr \<Rightarrow> addr \<Rightarrow> u8 list \<Rightarrow> u32 \<Rightarrow> net" where
  "en_eth_output s e p dst type =
     (let hdr = n_frame s;
          s = upd_mem (\<lambda>m. put_list m (hdr + 6) (take 6 (if_addr (n_ifs s e)))) s;
          s = upd_mem (\<lambda>m. put_list m hdr (take 6 dst)) s;
          s = upd_mem (\<lambda>m. store16 m (hdr + 12) (en_htons type)) s;
          s = snd (pkt_add_head s p hdr sizeof_mac_hdr)
      in s\<lparr>ps_pkts := list_add_after (ps_pkts s) (tx_queue e) p\<rparr>)"

definition en_eth_ip_lookup :: "net \<Rightarrow> addr \<Rightarrow> u32 \<Rightarrow> addr option" where
  "en_eth_ip_lookup s e a = list_find (n_ips s) (\<lambda>d. ipd_addr d = a) (l_next (n_ips s (ip_addrs e)))"

section \<open>ARP\<close>

text \<open>Offsets into the data of an ARP packet at \<open>a\<close>, from its length fields.\<close>

definition ARP_SRC_HRD_OFFSET :: "mem \<Rightarrow> addr \<Rightarrow> u32" where
  "ARP_SRC_HRD_OFFSET m a = 0"

definition ARP_SRC_PROTO_OFFSET :: "mem \<Rightarrow> addr \<Rightarrow> u32" where
  "ARP_SRC_PROTO_OFFSET m a = ucast (m (a + 4))"

definition ARP_DST_HRD_OFFSET :: "mem \<Rightarrow> addr \<Rightarrow> u32" where
  "ARP_DST_HRD_OFFSET m a = ucast (m (a + 4)) + ucast (m (a + 5))"

definition ARP_DST_PROTO_OFFSET :: "mem \<Rightarrow> addr \<Rightarrow> u32" where
  "ARP_DST_PROTO_OFFSET m a = ucast (m (a + 4)) * 2 + ucast (m (a + 5))"

definition en_arp_cache_lookup :: "net \<Rightarrow> u32 \<Rightarrow> addr option" where
  "en_arp_cache_lookup s a =
     list_find (n_arps s) (\<lambda>e. ae_proto_addr e = a) (l_next (n_arps s (n_arp_cache_list s)))"

definition en_arp_cache_add :: "net \<Rightarrow> addr \<Rightarrow> net" where
  "en_arp_cache_add s e =
     (let s = s\<lparr>n_arps := (n_arps s)(e := (n_arps s e)\<lparr>ae_created := k_clkticks (ps_kern s)\<rparr>)\<rparr>
      in s\<lparr>n_arps := list_add_after (n_arps s) (n_arp_cache_list s) e\<rparr>)"

definition en_arp_request :: "net \<Rightarrow> addr \<Rightarrow> u32 \<Rightarrow> (int \<times> net) option" where
  "en_arp_request s dev a =
     (let arpsz = sizeof_arp_pkt - 1 + 6 * 4 + 4 * 2
      in case pkt_alloc s (arpsz + sizeof_mac_hdr) of
           (p, s) \<Rightarrow>
             if p = NULL then Some (- 1, s)
             else
               (let arp = pkt_data s p; data = arp + 8;
                    s = upd_mem (\<lambda>m. store16 m arp (en_htons ARP_HRD_ETHERNET)) s;
                    s = upd_mem (\<lambda>m. store16 m (arp + 2) (en_htons ETH_TYPE_IPV4)) s;
                    s = upd_mem (\<lambda>m. m(arp + 4 := 6)) s;
                    s = upd_mem (\<lambda>m. m(arp + 5 := 4)) s;
                    s = upd_mem (\<lambda>m. store16 m (arp + 6) (en_htons ARP_OP_REQUEST)) s;
                    s = upd_mem (\<lambda>m. memset m (data + ARP_DST_HRD_OFFSET m arp) 0xFF 6) s;
                    s = upd_mem (\<lambda>m. put_list m (data + ARP_SRC_HRD_OFFSET m arp) (take 6 (if_addr (n_ifs s dev)))) s;
                    s = upd_mem (\<lambda>m. store32 m (data + ARP_DST_PROTO_OFFSET m arp) (en_ntohl a)) s;
                    first = l_next (n_ips s (ip_addrs dev))
                in if first = NULL then None
                   else
                     (let s = upd_mem (\<lambda>m. store32 m (data + ARP_SRC_PROTO_OFFSET m arp)
                                              (en_ntohl (ipd_addr (n_ips s first)))) s;
                          s = upd_pkt p (\<lambda>k. k\<lparr>pk_len := arpsz\<rparr>) s
                      in Some (0, en_eth_output s dev p mac_addr_bcast ETH_TYPE_ARP))))"

text \<open>The search for the interface that owns an address: it, or \<open>NULL\<close>.\<close>

partial_function (option) find_owner :: "net \<Rightarrow> u32 \<Rightarrow> addr \<Rightarrow> addr option" where
  "find_owner s a p =
     (if p = NULL then Some NULL
      else (case en_eth_ip_lookup s p a of
              None \<Rightarrow> None
            | Some ipd \<Rightarrow> if ipd \<noteq> NULL then Some p else find_owner s a (l_next (n_ifs s p))))"

text \<open>The conversion of the header fields between network and host order, the same in both directions because
  \<open>en_htons\<close> is \<open>en_ntohs\<close>.\<close>

definition arp_swap :: "addr \<Rightarrow> mem \<Rightarrow> mem" where
  "arp_swap arp m = swap16_at (arp + 6) (swap16_at (arp + 2) (swap16_at arp m))"

text \<open>The requested address, and the rewriting of a request into a reply.\<close>

definition arp_target :: "mem \<Rightarrow> addr \<Rightarrow> u32" where
  "arp_target m arp =
     (let ap = arp + 8 + ARP_DST_PROTO_OFFSET m arp
      in push_bit 24 (ucast (m ap)) OR push_bit 16 (ucast (m (ap + 1))) OR push_bit 8 (ucast (m (ap + 2)))
         OR ucast (m (ap + 3)))"

definition arp_make_reply :: "mem \<Rightarrow> addr \<Rightarrow> u8 list \<Rightarrow> u32 \<Rightarrow> mem \<times> u8 list" where
  "arp_make_reply m arp mac a =
     (let data = arp + 8;
          m = store16 m (arp + 6) (ucast ARP_OP_REPLY);
          m = memcpy m (data + ARP_DST_HRD_OFFSET m arp) (data + ARP_SRC_HRD_OFFSET m arp) (ucast (m (arp + 4)));
          m = memcpy m (data + ARP_DST_PROTO_OFFSET m arp) (data + ARP_SRC_PROTO_OFFSET m arp) (ucast (m (arp + 5)));
          m = put_list m (data + ARP_SRC_HRD_OFFSET m arp) (take (unat (m (arp + 4))) mac);
          m = store32 m (data + ARP_SRC_PROTO_OFFSET m arp) (en_htonl a);
          dst = mem_bytes m (data + ARP_DST_HRD_OFFSET m arp) (unat (m (arp + 4)))
      in (arp_swap arp m, dst))"

definition en_arp_input_request :: "net \<Rightarrow> addr \<Rightarrow> (int \<times> net) option" where
  "en_arp_input_request s p =
     (let arp = pkt_data s p; a = arp_target (ps_mem s) arp
      in case find_owner s a (l_next (n_ifs s (n_eth_if_list s))) of
           None \<Rightarrow> None
         | Some e \<Rightarrow>
             if e \<noteq> NULL
             then (case arp_make_reply (ps_mem s) arp (if_addr (n_ifs s e)) a of
                     (m, dst) \<Rightarrow>
                       (let s = upd_mem (\<lambda>_. m) s
                        in Some (0, en_eth_output s (pk_eth_if (ps_pkts s p)) p dst ETH_TYPE_ARP)))
             else Some (0, pkt_free s p))"

definition en_arp_input_reply :: "net \<Rightarrow> addr \<Rightarrow> (int \<times> net) option" where
  "en_arp_input_reply s p =
     (let arp = pkt_data s p; m = ps_mem s;
          hrd = mem_bytes m (arp + 8 + ARP_SRC_HRD_OFFSET m arp) 6;
          proto = en_ntohl (load32 m (arp + 8 + ARP_SRC_PROTO_OFFSET m arp))
      in case en_arp_cache_lookup s proto of
           None \<Rightarrow> None
         | Some ep \<Rightarrow>
             if ep = NULL
             then (case kalloc s sizeof_arp_entry of
                     (ep, s) \<Rightarrow>
                       if ep = NULL then Some (- 1, pkt_free s p)
                       else
                         (let s = s\<lparr>n_arps := (n_arps s)(ep := \<lparr>l_next = NULL, l_prev = NULL,
                                    ae_hrd_addr = hrd @ replicate (EN_ETH_ADDRSIZE - 6) 0, ae_proto_addr = proto,
                                    ae_created = 0\<rparr>)\<rparr>;
                              s = en_arp_cache_add s ep
                          in Some (0, pkt_free s p)))
             else Some (0, pkt_free s p))"

definition en_arp_input :: "net \<Rightarrow> addr \<Rightarrow> (int \<times> net) option" where
  "en_arp_input s p =
     (let arp = pkt_data s p;
          s = upd_mem (arp_swap arp) s;
          m = ps_mem s; hlen = ucast (m (arp + 4)) :: u32; plen = ucast (m (arp + 5)) :: u32
      in if sizeof_arp_pkt - 1 + hlen * 2 + plen * 2 > pk_len (ps_pkts s p) then Some (- 1, s)
         else if ucast (load16 m arp) \<noteq> ARP_HRD_ETHERNET then Some (- 2, s)
         else if ucast (load16 m (arp + 2)) \<noteq> ETH_TYPE_IPV4 then Some (- 2, s)
         else if hlen \<noteq> 6 \<or> plen \<noteq> 4 then Some (- 1, s)
         else if ucast (load16 m (arp + 6)) = ARP_OP_REQUEST then
           map_option (\<lambda>(_, s). (0, s)) (en_arp_input_request s p)
         else if ucast (load16 m (arp + 6)) = ARP_OP_REPLY then
           map_option (\<lambda>(_, s). (0, s)) (en_arp_input_reply s p)
         else Some (0, pkt_free s p))"

section \<open>IP routes and output\<close>

definition en_ip_route_add :: "net \<Rightarrow> addr \<Rightarrow> (int \<times> net) option" where
  "en_ip_route_add s newrt =
     (let n = n_routes s newrt
      in case list_find (n_routes s)
                (\<lambda>rt. rt_dst rt = rt_dst n \<and> rt_netmask rt = rt_netmask n \<and> rt_eth_if rt = rt_eth_if n)
                (l_next (n_routes s (n_ip_route_list s))) of
           None \<Rightarrow> None
         | Some p \<Rightarrow>
             if p \<noteq> NULL then Some (- 1, s)
             else Some (0, s\<lparr>n_routes := list_add_after (n_routes s) (n_ip_route_list s) newrt\<rparr>))"

definition en_ip_route_del :: "net \<Rightarrow> addr \<Rightarrow> net" where
  "en_ip_route_del s rt = s\<lparr>n_routes := list_remove (n_routes s) rt\<rparr>"

partial_function (option) route_scan :: "(addr \<Rightarrow> en_ip_route) \<Rightarrow> u32 \<Rightarrow> addr \<Rightarrow> addr \<Rightarrow> addr option" where
  "route_scan h dst p best =
     (if p = NULL then Some best
      else if dst AND rt_netmask (h p) = rt_dst (h p)
      then route_scan h dst (l_next (h p))
             (if best \<noteq> NULL then (if rt_metric (h p) < rt_metric (h best) then p else best) else p)
      else route_scan h dst (l_next (h p)) best)"

definition en_ip_route_lookup :: "net \<Rightarrow> u32 \<Rightarrow> addr option" where
  "en_ip_route_lookup s dst = route_scan (n_routes s) dst (l_next (n_routes s (n_ip_route_list s))) NULL"

text \<open>The header \<open>en_ip_output\<close> builds at \<open>ip\<close>, with its checksum.\<close>

definition ip_header :: "mem \<Rightarrow> addr \<Rightarrow> u32 \<Rightarrow> u32 \<Rightarrow> u32 \<Rightarrow> mem option" where
  "ip_header m ip len src dst =
     (let m = memset m ip 0 sizeof_ip_hdr;
          m = m(ip := (m ip AND 0xF0) OR 5);
          m = m(ip := (m ip AND 0x0F) OR push_bit 4 4);
          m = store16 m (ip + 2) (en_ntohs (len + sizeof_ip_hdr));
          m = m(ip + 8 := IP_TTL);
          m = m(ip + 9 := IP_PROTO_ICMP);
          m = store32 m (ip + 12) src;
          m = store32 m (ip + 12) (en_htonl (load32 m (ip + 12)));
          m = store32 m (ip + 16) (en_htonl dst)
      in case ocksum16 m ip (ucast (m ip AND 0x0F) * 4) of
           None \<Rightarrow> None
         | Some sum16 \<Rightarrow> Some (store16 m (ip + 10) (NOT sum16)))"

definition en_ip_output :: "net \<Rightarrow> addr \<Rightarrow> u32 \<Rightarrow> (int \<times> net) option" where
  "en_ip_output s p dst =
     (case en_ip_route_lookup s dst of
        None \<Rightarrow> None
      | Some rt \<Rightarrow>
          if rt = NULL then Some (- 1, s)
          else
            (let dev = rt_eth_if (n_routes s rt);
                 first = l_next (n_ips s (ip_addrs dev));
                 ip = n_frame s + 16
             in if first = NULL then None
                else
                  (case ip_header (ps_mem s) ip (pk_len (ps_pkts s p)) (ipd_addr (n_ips s first)) dst of
                     None \<Rightarrow> None
                   | Some m \<Rightarrow>
                       (let s = upd_mem (\<lambda>_. m) s
                        in case en_arp_cache_lookup s dst of
                             None \<Rightarrow> None
                           | Some arp \<Rightarrow>
                               if arp = NULL then map_option (\<lambda>(_, s). (0, s)) (en_arp_request s dev dst)
                               else
                                 (let s = snd (pkt_add_head s p ip sizeof_ip_hdr)
                                  in Some (0, en_eth_output s dev p (ae_hrd_addr (n_arps s arp)) ETH_TYPE_IPV4))))))"

section \<open>Effects on the fields of the state\<close>

lemma upd_mem_net [simp]:
  "n_ifs (upd_mem f s) = n_ifs s" "n_ips (upd_mem f s) = n_ips s" "n_arps (upd_mem f s) = n_arps s"
  "n_routes (upd_mem f s) = n_routes s" "n_eth_if_list (upd_mem f s) = n_eth_if_list s"
  "n_arp_cache_list (upd_mem f s) = n_arp_cache_list s" "n_ip_route_list (upd_mem f s) = n_ip_route_list s"
  "n_rx_completion (upd_mem f s) = n_rx_completion s" "n_frame (upd_mem f s) = n_frame s"
  by (simp_all add: upd_mem_def)

lemma upd_mem_twice [simp]: "upd_mem g (upd_mem f s) = upd_mem (\<lambda>m. g (f m)) s"
  by (simp add: upd_mem_def)

end
