(* ===== verification/NetIn.thy ===== *)
theory NetIn
  imports Net
begin

text \<open>
  The input side of the network stack: ICMP, UDP and IP input (net/trans/icmp.c, net/trans/udp.c, net/trans/ip.c), and the
  Ethernet receive and transmit tasks (net/dll/eth.c).
\<close>

section \<open>ICMP and UDP\<close>

definition ICMP_TYPE_ECHO :: u8 where "ICMP_TYPE_ECHO = 8"
definition ICMP_TYPE_ECHO_REPLY :: u8 where "ICMP_TYPE_ECHO_REPLY = 0"

text \<open>The length in bytes of the IP header at \<open>ip\<close>.\<close>

definition ihl_bytes :: "mem \<Rightarrow> addr \<Rightarrow> u32" where
  "ihl_bytes m ip = ucast (m ip AND 0x0F) * 4"

definition en_icmp_input :: "net \<Rightarrow> addr \<Rightarrow> (int \<times> net) option" where
  "en_icmp_input s p =
     (let ip = pkt_data s p; icmp = ip + ihl_bytes (ps_mem s) ip;
          len = pk_len (ps_pkts s p) - ihl_bytes (ps_mem s) ip
      in case ocksum16 (ps_mem s) icmp len of
           None \<Rightarrow> None
         | Some sum16 \<Rightarrow>
             if sum16 \<noteq> 0xFFFF then Some (- 1, pkt_free s p)
             else
               (let s = upd_mem (swap16_at (icmp + 2)) s;
                    s = upd_mem (swap16_at (icmp + 4)) s;
                    s = upd_mem (swap16_at (icmp + 6)) s
                in if ps_mem s icmp = ICMP_TYPE_ECHO
                   then
                     (let dst = load32 (ps_mem s) (ip + 12);
                          s = upd_mem (\<lambda>m. m(icmp := ICMP_TYPE_ECHO_REPLY)) s;
                          s = upd_mem (swap16_at (icmp + 4)) s;
                          s = upd_mem (swap16_at (icmp + 6)) s
                      in case ocksum16 (ps_mem s) icmp (pk_len (ps_pkts s p) - ihl_bytes (ps_mem s) ip) of
                           None \<Rightarrow> None
                         | Some sum16 \<Rightarrow>
                             (let s = upd_mem (\<lambda>m. store16 m (icmp + 2) (en_htons (ucast sum16))) s;
                                  s = snd (pkt_del_head s p sizeof_ip_hdr)
                              in map_option (\<lambda>(_, s). (0, s)) (en_ip_output s p dst)))
                   else Some (0, pkt_free s p)))"

text \<open>The first comparison is signed, the second one unsigned.\<close>

definition en_udp_input :: "net \<Rightarrow> addr \<Rightarrow> int \<times> net" where
  "en_udp_input s p =
     (let ip = pkt_data s p; udp = ip + ihl_bytes (ps_mem s) ip;
          s = upd_mem (swap16_at udp) s;
          s = upd_mem (swap16_at (udp + 2)) s;
          s = upd_mem (swap16_at (udp + 4)) s;
          m = ps_mem s; len = load16 m (udp + 4)
      in if uint len \<noteq> uint (load16 m (ip + 2)) - sint (ihl_bytes m ip)
            \<and> ucast len \<noteq> pk_len (ps_pkts s p) - ihl_bytes m ip
         then (- 1, pkt_free s p) else (0, pkt_free s p))"

section \<open>IP input\<close>

text \<open>The conversion of the header to host order; the 16-bit checksum goes through the 32-bit macro.\<close>

definition ip_swap :: "addr \<Rightarrow> mem \<Rightarrow> mem" where
  "ip_swap ip m =
     (let m = swap16_at (ip + 2) m;
          m = swap16_at (ip + 4) m;
          m = store16 m (ip + 10) (ucast (en_ntohl (ucast (load16 m (ip + 10)))));
          m = swap32_at (ip + 12) m
      in swap32_at (ip + 16) m)"

definition en_ip_input :: "net \<Rightarrow> addr \<Rightarrow> (int \<times> net) option" where
  "en_ip_input s p =
     (let ip = pkt_data s p
      in if ihl_bytes (ps_mem s) ip > pk_len (ps_pkts s p) then Some (- 1, s)
         else
           (case ocksum16 (ps_mem s) ip (ihl_bytes (ps_mem s) ip) of
              None \<Rightarrow> None
            | Some sum16 \<Rightarrow>
                if sum16 \<noteq> 0xFFFF then Some (- 1, s)
                else
                  (let s = upd_mem (ip_swap ip) s;
                       len = load16 (ps_mem s) (ip + 2);
                       s = (if pk_len (ps_pkts s p) = 46 \<and> len < 46
                            then upd_pkt p (\<lambda>k. k\<lparr>pk_len := ucast len\<rparr>) s else s)
                   in if ps_mem s ip AND 0x0F < 5 \<or> ucast len \<noteq> pk_len (ps_pkts s p) then Some (- 1, s)
                      else if ps_mem s (ip + 9) = IP_PROTO_ICMP then
                        map_option (\<lambda>(_, s). (0, s)) (en_icmp_input s p)
                      else if ps_mem s (ip + 9) = IP_PROTO_UDP then Some (0, snd (en_udp_input s p))
                      else Some (0, s))))"

section \<open>The Ethernet layer\<close>

definition en_eth_input :: "net \<Rightarrow> addr \<Rightarrow> net option" where
  "en_eth_input s p =
     (let type = ucast (en_ntohs (ucast (load16 (ps_mem s) (pkt_data s p + 12)))) :: u32;
          s = snd (pkt_del_head s p sizeof_mac_hdr)
      in if type = ETH_TYPE_ARP then map_option snd (en_arp_input s p)
         else if type = ETH_TYPE_IPV4 then map_option snd (en_ip_input s p)
         else Some (pkt_free s p))"

partial_function (option) en_eth_rx_drain :: "net \<Rightarrow> addr \<Rightarrow> net option" where
  "en_eth_rx_drain s e =
     (if list_empty (ps_pkts s) (rx_queue e) then Some s
      else
        (let p = l_next (ps_pkts s (rx_queue e));
             s = s\<lparr>ps_pkts := list_remove (ps_pkts s) p\<rparr>
         in if p = NULL then Some s
            else (case (if \<not> if_bound (n_ifs s e) then Some (pkt_free s p) else en_eth_input s p) of
                    None \<Rightarrow> None
                  | Some s \<Rightarrow> en_eth_rx_drain s e)))"

text \<open>One round of the receive task: the queues of all interfaces, after \<open>wait\<close> has returned.\<close>

partial_function (option) rx_round :: "net \<Rightarrow> addr \<Rightarrow> net option" where
  "rx_round s e =
     (if e = NULL then Some s
      else (case en_eth_rx_drain s e of None \<Rightarrow> None | Some s \<Rightarrow> rx_round s (l_next (n_ifs s e))))"

definition en_rx_task :: "net \<Rightarrow> net option" where
  "en_rx_task s = rx_round s (l_next (n_ifs s (n_eth_if_list s)))"

text \<open>One round of the transmit task. \<open>xmit\<close> is the driver's operation; the driver has a state of its own around the
  network's, read by \<open>net_of\<close> and changed by \<open>upd_of\<close>.\<close>

partial_function (option) tx_round ::
  "('s \<Rightarrow> net) \<Rightarrow> ((net \<Rightarrow> net) \<Rightarrow> 's \<Rightarrow> 's) \<Rightarrow> (addr \<Rightarrow> addr \<Rightarrow> 's \<Rightarrow> 's) \<Rightarrow> 's \<Rightarrow> addr \<Rightarrow> 's option" where
  "tx_round net_of upd_of xmit s e =
     (if e = NULL then Some s
      else
        (let s = (if \<not> list_empty (ps_pkts (net_of s)) (tx_queue e)
                  then (let p = l_next (ps_pkts (net_of s) (tx_queue e));
                            s = upd_of (\<lambda>n. n\<lparr>ps_pkts := list_remove (ps_pkts n) p\<rparr>) s
                        in xmit p e s)
                  else s)
         in tx_round net_of upd_of xmit s (l_next (n_ifs (net_of s) e))))"

definition en_eth_tx_task ::
  "('s \<Rightarrow> net) \<Rightarrow> ((net \<Rightarrow> net) \<Rightarrow> 's \<Rightarrow> 's) \<Rightarrow> (addr \<Rightarrow> addr \<Rightarrow> 's \<Rightarrow> 's) \<Rightarrow> 's \<Rightarrow> 's option" where
  "en_eth_tx_task net_of upd_of xmit s =
     tx_round net_of upd_of xmit s (l_next (n_ifs (net_of s) (n_eth_if_list (net_of s))))"

definition list_clear :: "(addr \<Rightarrow> 'a list_node_scheme) \<Rightarrow> addr \<Rightarrow> (addr \<Rightarrow> 'a list_node_scheme)" where
  "list_clear h l = h(l := (h l)\<lparr>l_next := NULL, l_prev := NULL\<rparr>)"

definition en_eth_register_if :: "net \<Rightarrow> addr \<Rightarrow> int \<times> net" where
  "en_eth_register_if s e =
     (let s = s\<lparr>n_ifs := list_add_after (n_ifs s) (n_eth_if_list s) e\<rparr>;
          s = s\<lparr>ps_pkts := list_clear (ps_pkts s) (rx_queue e)\<rparr>;
          s = s\<lparr>ps_pkts := list_clear (ps_pkts s) (tx_queue e)\<rparr>;
          s = s\<lparr>n_ips := list_clear (n_ips s) (ip_addrs e)\<rparr>
      in (0, s))"

definition en_eth_rx :: "net \<Rightarrow> addr \<Rightarrow> addr \<Rightarrow> kern_error + net" where
  "en_eth_rx s e p =
     (let s = upd_pkt p (\<lambda>k. k\<lparr>pk_eth_if := e\<rparr>) s;
          s = s\<lparr>ps_pkts := list_add_after (ps_pkts s) (rx_queue e) p\<rparr>
      in case wake (ps_kern s) (n_rx_completion s) of
           Inl err \<Rightarrow> Inl err
         | Inr (_, k) \<Rightarrow> Inr (s\<lparr>ps_kern := k\<rparr>))"

text \<open>The entry points of the two tasks are linker addresses, their names the strings of the code.\<close>

definition eth_tx_name :: "u8 list" where "eth_tx_name = [0x5B, 0x65, 0x74, 0x68, 0x5F, 0x74, 0x78, 0x5D]"
definition eth_rx_name :: "u8 list" where "eth_rx_name = [0x5B, 0x65, 0x74, 0x68, 0x5F, 0x72, 0x78, 0x5D]"

definition eth_init :: "net \<Rightarrow> addr \<Rightarrow> addr \<Rightarrow> int \<times> net" where
  "eth_init s tx_entry rx_entry =
     (let k = ps_kern s
      in case bfifo_alloc (k_mem k) (k_bfifos k) 1 of
           (w, m, fs) \<Rightarrow>
             (let k = k\<lparr>k_mem := m, k_bfifos := fs, k_completions := (k_completions k)(n_rx_completion s := w)\<rparr>
              in if w = NULL then (- 1, s\<lparr>ps_kern := k\<rparr>)
                 else (case spawn k tx_entry eth_tx_name PROC_SYSTEM of
                         (p, k) \<Rightarrow>
                           if p = NULL then (- 1, s\<lparr>ps_kern := k\<rparr>)
                           else (case spawn k rx_entry eth_rx_name PROC_SYSTEM of
                                   (p, k) \<Rightarrow>
                                     if p = NULL then (- 1, s\<lparr>ps_kern := k\<rparr>)
                                     else (0, s\<lparr>ps_kern := k\<rparr>)))))"

text \<open>\<open>en_ip_init\<close> starts a task whose loop is empty.\<close>

definition ip_tx_name :: "u8 list" where "ip_tx_name = [0x5B, 0x69, 0x70, 0x5F, 0x74, 0x78, 0x5D]"

definition en_ip_init :: "net \<Rightarrow> addr \<Rightarrow> int \<times> net" where
  "en_ip_init s entry =
     (case spawn (ps_kern s) entry ip_tx_name PROC_SYSTEM of
        (p, k) \<Rightarrow> (if p = NULL then - 1 else 0, s\<lparr>ps_kern := k\<rparr>))"

end
