(* ===== verification/Frames.thy ===== *)
theory Frames
  imports NetIn
begin

text \<open>
  The frames the network stack puts on the wire, byte for byte: Ethernet encapsulation, ARP requests and replies.
\<close>

section \<open>Writing into a buffer\<close>

text \<open>\<open>splice ys i bs\<close>: the bytes \<open>ys\<close> with \<open>bs\<close> written at position \<open>i\<close>.\<close>

definition splice :: "u8 list \<Rightarrow> nat \<Rightarrow> u8 list \<Rightarrow> u8 list" where
  "splice ys i bs = take i ys @ bs @ drop (i + length bs) ys"

lemma splice_length [simp]: "i + length bs \<le> length ys \<Longrightarrow> length (splice ys i bs) = length ys"
  by (simp add: splice_def)

lemma splice_nth:
  "i + length bs \<le> length ys \<Longrightarrow> j < length ys \<Longrightarrow>
    splice ys i bs ! j = (if i \<le> j \<and> j < i + length bs then bs ! (j - i) else ys ! j)"
  by (auto simp: splice_def nth_append)

lemma puts_bytes_same: "puts_bytes m m a (mem_bytes m a n)"
  by (simp add: puts_bytes_def)

lemma puts_splice:
  assumes "puts_bytes m m1 a ys" and "puts_bytes m1 m2 q bs" and "q = a + of_nat i"
    and "i + length bs \<le> length ys" and "unat a + length ys \<le> 2 ^ 32"
  shows "puts_bytes m m2 a (splice ys i bs)"
proof (cases "bs = []")
  case True
  then have "m2 = m1" using assms(2) by (auto simp: puts_bytes_def fun_eq_iff)
  then show ?thesis using assms(1) True by (simp add: splice_def)
next
  case False
  then have i: "i < length ys" using assms(4) by (cases bs) auto
  then have q: "unat q = unat a + i" using assms(3,5) unat_offset by blast
  have rd: "m1 (a + of_nat j) = ys ! j" if "j < length ys" for j
    using assms(1) that mem_bytes_nth [of j "length ys" m1 a] by (simp add: puts_bytes_def)
  have wr: "m2 (q + of_nat j) = bs ! j" if "j < length bs" for j
    using assms(2) that mem_bytes_nth [of j "length bs" m2 q] by (simp add: puts_bytes_def)
  have "mem_bytes m2 a (length ys) = splice ys i bs"
  proof (rule nth_equalityI)
    fix j assume "j < length (mem_bytes m2 a (length ys))"
    then have j: "j < length ys" by simp
    have uj: "unat (a + of_nat j) = unat a + j" by (rule unat_offset [OF assms(5) j])
    have "m2 (a + of_nat j) = splice ys i bs ! j"
    proof (cases "i \<le> j \<and> j < i + length bs")
      case True
      have "m2 (a + of_nat j) = m2 (q + of_nat (j - i))"
        unfolding assms(3) by (rule arg_cong [of _ _ m2]) (use True in \<open>simp add: of_nat_diff\<close>)
      also have "\<dots> = bs ! (j - i)" by (rule wr) (use True in linarith)
      finally show ?thesis using True j assms(4) by (simp add: splice_nth)
    next
      case False
      then have "\<not> (unat q \<le> unat (a + of_nat j) \<and> unat (a + of_nat j) < unat q + length bs)" using uj q by auto
      then have "m2 (a + of_nat j) = m1 (a + of_nat j)" using assms(2) unfolding puts_bytes_def by blast
      then show ?thesis using rd [OF j] splice_nth [OF assms(4) j] False by simp
    qed
    then show "mem_bytes m2 a (length ys) ! j = splice ys i bs ! j" using j by (simp add: mem_bytes_nth)
  qed (use assms(4) in simp)
  moreover have "m2 x = m x" if "\<not> (unat a \<le> unat x \<and> unat x < unat a + length ys)" for x
    using that assms(1,2,4) q by (auto simp: puts_bytes_def)
  ultimately show ?thesis using assms(4) by (simp add: puts_bytes_def)
qed

lemma put_list_puts: "unat a + length bs \<le> 2 ^ 32 \<Longrightarrow> puts_bytes m (put_list m a bs) a bs"
proof (induction bs arbitrary: m a)
  case (Cons b bs)
  show ?case
  proof (cases bs)
    case Nil
    then show ?thesis by (simp only: put_list.simps puts_bytes_one)
  next
    case (Cons c cs)
    with Cons.prems have "unat (a + 1) = unat a + 1" by (intro unat_plus_one_u32) simp
    then have "puts_bytes (m(a := b)) (put_list (m(a := b)) (a + 1) bs) (a + 1) bs"
      using Cons.prems by (intro Cons.IH) simp
    from puts_bytes_append [OF puts_bytes_one this] show ?thesis using Cons.prems by simp
  qed
qed (simp add: puts_bytes_nil)

text \<open>Reading inside a buffer.\<close>

lemma puts_nth: "puts_bytes m m1 a ys \<Longrightarrow> i < length ys \<Longrightarrow> m1 (a + of_nat i) = ys ! i"
  using mem_bytes_nth [of i "length ys" m1 a] by (simp add: puts_bytes_def)

lemma puts_sub:
  assumes "puts_bytes m m1 a ys" and "i + n \<le> length ys"
  shows "mem_bytes m1 (a + of_nat i) n = take n (drop i ys)"
  by (rule nth_equalityI) (use assms puts_nth [OF assms(1)] in \<open>auto simp: mem_bytes_nth add.assoc simp flip: of_nat_add\<close>)

section \<open>Ethernet frames\<close>

definition eth_header :: "u8 list \<Rightarrow> u8 list \<Rightarrow> u16 \<Rightarrow> u8 list" where
  "eth_header dst src type = dst @ src @ be16 type"

lemma bytes_length [simp]:
  "length (be16 x) = 2" "length (be32 y) = 4" "length (le16 x) = 2" "length (le32 y) = 4"
  by (simp_all add: be16_def be32_def le16_def le32_def)

lemma le16_en_htons_u32: "le16 (en_htons x) = be16 (ucast x)"
  unfolding le16_def be16_def en_htons_def en_ntohs_def list.inject
  by (intro conjI refl; rule bit_word_eqI; simp only: bytes_bits; simp)

lemma eth_header_puts:
  assumes "length src = 6" and "length dst = 6" and "unat hdr + 14 \<le> 2 ^ 32"
  shows "puts_bytes m (store16 (put_list (put_list m (hdr + 6) src) hdr dst) (hdr + 12) (en_htons type))
    hdr (eth_header dst src (ucast type))"
proof -
  let ?ys = "mem_bytes m hdr 14" let ?m1 = "put_list m (hdr + 6) src" let ?m2 = "put_list ?m1 hdr dst"
  have u: "unat (hdr + of_nat i) = unat hdr + i" if "i < 14" for i using assms(3) that by (rule unat_offset)
  have "puts_bytes m ?m1 (hdr + 6) src" by (rule put_list_puts) (use u [of 6] assms in simp)
  from puts_splice [OF puts_bytes_same [of m hdr 14] this, of 6]
  have 1: "puts_bytes m ?m1 hdr (splice ?ys 6 src)" using assms by simp
  have "puts_bytes ?m1 ?m2 hdr dst" by (rule put_list_puts) (use assms in simp)
  from puts_splice [OF 1 this, of 0] have 2: "puts_bytes m ?m2 hdr (splice (splice ?ys 6 src) 0 dst)" using assms by simp
  have "puts_bytes ?m2 (store16 ?m2 (hdr + 12) (en_htons type)) (hdr + 12) (be16 (ucast type))"
    using store16_puts [of "hdr + 12"] u [of 12] assms(3) by (simp flip: le16_en_htons_u32)
  from puts_splice [OF 2 this, of 12]
  have "puts_bytes m (store16 ?m2 (hdr + 12) (en_htons type)) hdr
      (splice (splice (splice ?ys 6 src) 0 dst) 12 (be16 (ucast type)))"
    using assms by simp
  then show ?thesis using assms by (simp add: splice_def eth_header_def)
qed

text \<open>A buffer of the running task's stack that lies outside the packet.\<close>

definition scratch_ok :: "(addr \<times> u32) list \<Rightarrow> net \<Rightarrow> addr \<Rightarrow> addr \<Rightarrow> nat \<Rightarrow> bool" where
  "scratch_ok live s p a n \<longleftrightarrow> (\<exists>q. in_block live q a n \<and> q \<noteq> pk_data (ps_pkts s p))"

lemma scratch_ok_mono: "scratch_ok live s p a n \<Longrightarrow> k \<le> n \<Longrightarrow> scratch_ok live s p a k"
  unfolding scratch_ok_def in_block_def by (meson add_le_cancel_left le_trans)

lemma scratch_apart:
  assumes heap: "heap_live B m live" and ok: "pkt_ok B s live p" and a: "scratch_ok live s p a n" and "0 < n"
  shows "apart a n (pk_data (ps_pkts s p)) (unat (pk_len (ps_pkts s p)))" and "unat a + n < 2 ^ 32"
    and "unat (pk_data (ps_pkts s p)) + unat (pk_len (ps_pkts s p)) < 2 ^ 32"
proof -
  let ?k = "ps_pkts s p"
  obtain q l where q: "(q, l) \<in> set live" "unat q \<le> unat a" "unat a + n \<le> unat q + unat l" "q \<noteq> pk_data ?k"
    using a by (auto simp: scratch_ok_def in_block_def)
  show "unat a + n < 2 ^ 32" using heap.blocks_fit [OF heap q(1)] q(3) by simp
  have "apart a n (pk_data ?k) (unat (pk_len ?k)) \<and> unat (pk_data ?k) + unat (pk_len ?k) < 2 ^ 32"
  proof (cases "pk_data ?k = NULL")
    case True
    then have "pk_len ?k = 0" using ok by (simp add: pkt_ok_def Let_def)
    then show ?thesis using True by (simp add: apart_def)
  next
    case False
    note b = pkt_data_block [OF ok False]
    then show ?thesis using heap.blocks_apart [OF heap q(1) b(1) q(4)] heap.blocks_fit [OF heap b(1)] q(2,3) pkt_len_le [OF ok]
      by (auto simp: apart_def)
  qed
  then show "apart a n (pk_data ?k) (unat (pk_len ?k))" "unat (pk_data ?k) + unat (pk_len ?k) < 2 ^ 32" by blast+
qed

lemma payload_puts:
  assumes "puts_bytes (ps_mem s) m' a bs" and "heap_live B (heap_of s) live" and "pkt_ok B s live p"
    and "scratch_ok live s p a (length bs)" and "0 < length bs"
  shows "payload (upd_mem (\<lambda>_. m') s) p = payload s p"
  using scratch_apart [OF assms(2-5)] puts_bytes_other [OF assms(1)] by (simp add: payload_def)

lemma pkt_ok_cong: "ps_pkts s' p = ps_pkts s p \<Longrightarrow> pkt_ok B s live p \<Longrightarrow> pkt_ok B s' live p"
  by (simp add: pkt_ok_def)

lemma list_add_after_pkt:
  "pk_data (list_add_after h l a x) = pk_data (h x)" "pk_len (list_add_after h l a x) = pk_len (h x)"
  "pk_allocated (list_add_after h l a x) = pk_allocated (h x)" "pk_eth_if (list_add_after h l a x) = pk_eth_if (h x)"
  by (simp_all add: list_add_after_def Let_def)

text \<open>Both outcomes of \<open>en_eth_output\<close>: the packet is queued, with its header when there was memory for it.\<close>

lemma en_eth_output_cases:
  assumes heap: "heap_live B (heap_of s) live" and ok: "pkt_ok B s live p"
    and hdr: "scratch_ok live s p (n_frame s) 14"
    and src: "6 \<le> length (if_addr (n_ifs s e))" and dst: "6 \<le> length dst" and e: "tx_queue e \<noteq> p"
  obtains live' where "payload (en_eth_output s e p dst type) p =
        (if fst (malloc (heap_of s) (pkt_pad (pk_allocated (ps_pkts s p) + 14))) = NULL then payload s p
         else eth_header (take 6 dst) (take 6 (if_addr (n_ifs s e))) (ucast type) @ payload s p)"
    "heap_live B (heap_of (en_eth_output s e p dst type)) live'" "pkt_ok B (en_eth_output s e p dst type) live' p"
    "l_next (ps_pkts (en_eth_output s e p dst type) (tx_queue e)) = p"
    "l_next (ps_pkts (en_eth_output s e p dst type) p) = l_next (ps_pkts s (tx_queue e))"
proof -
  let ?h = "n_frame s" and ?src = "take 6 (if_addr (n_ifs s e))" and ?dst = "take 6 dst"
  let ?m = "store16 (put_list (put_list (ps_mem s) (?h + 6) ?src) ?h ?dst) (?h + 12) (en_htons type)"
  let ?s1 = "upd_mem (\<lambda>_. ?m) s" and ?hd = "eth_header ?dst ?src (ucast type)"
  have l: "length ?hd = 14" using src dst by (simp add: eth_header_def)
  have fit: "unat ?h + 14 < 2 ^ 32" using scratch_apart(2) [OF heap ok hdr] by simp
  have puts: "puts_bytes (ps_mem s) ?m ?h ?hd" by (rule eth_header_puts) (use src dst fit in simp_all)
  have pl1: "payload ?s1 p = payload s p" by (rule payload_puts [OF puts heap ok]) (use hdr l in simp_all)
  have ok1: "pkt_ok B ?s1 live p" by (rule pkt_ok_cong [OF _ ok]) simp
  have heap1: "heap_live B (heap_of ?s1) live" using heap by simp
  obtain q where q: "in_block live q ?h (unat sizeof_mac_hdr)" using hdr by (auto simp: scratch_ok_def sizeof_mac_hdr_def)
  have hb: "mem_bytes ?m ?h (unat sizeof_mac_hdr) = ?hd" using puts_bytes_read [OF puts] l by (simp add: sizeof_mac_hdr_def)
  obtain rc s2 where r: "pkt_add_head ?s1 p ?h sizeof_mac_hdr = (rc, s2)" by fastforce
  have out: "en_eth_output s e p dst type = s2\<lparr>ps_pkts := list_add_after (ps_pkts s2) (tx_queue e) p\<rparr>"
    using r by (simp add: en_eth_output_def Let_def upd_mem_def)
  have pay: "payload (en_eth_output s e p dst type) p = payload s2 p"
    unfolding out by (simp add: payload_def list_add_after_pkt)
  have okp: "pkt_ok B s2 live' p \<Longrightarrow> pkt_ok B (en_eth_output s e p dst type) live' p" for live'
    unfolding out by (simp add: pkt_ok_def Let_def list_add_after_pkt)
  have nx: "l_next (ps_pkts (en_eth_output s e p dst type) (tx_queue e)) = p"
    "l_next (ps_pkts (en_eth_output s e p dst type) p) = l_next (ps_pkts s2 (tx_queue e))"
    unfolding out using e by (simp_all add: step_simps)
  have sz: "0 < sizeof_mac_hdr" "unat sizeof_mac_hdr < 2 ^ 31" by (simp_all add: sizeof_mac_hdr_def)
  from heap1 ok1 q sz r show thesis
  proof (cases rule: pkt_add_head_cases)
    case fail
    then have "s2 = ?s1" "fst (malloc (heap_of s) (pkt_pad (pk_allocated (ps_pkts s p) + 14))) = NULL"
      by (simp_all add: sizeof_mac_hdr_def)
    then show thesis using that [of live] pay pl1 heap1 okp [of live] ok1 nx out by simp
  next
    case (added d n h m')
    let ?live = "moved live (pk_data (ps_pkts s p)) d n"
    have nn: "fst (malloc (heap_of s) (pkt_pad (pk_allocated (ps_pkts s p) + 14))) \<noteq> NULL"
      using added(2,3,10) by (simp add: sizeof_mac_hdr_def)
    have "payload s2 p = ?hd @ payload s p" using added(7) hb pl1 by simp
    moreover have "heap_live B (heap_of (en_eth_output s e p dst type)) ?live" using added(5) unfolding out added(6) by simp
    moreover have "l_next (ps_pkts s2 (tx_queue e)) = l_next (ps_pkts s (tx_queue e))" using e unfolding added(6) by simp
    ultimately show thesis using that [of ?live] pay nn okp [of ?live] added(8) nx by simp
  qed
qed

text \<open>When the heap can serve the growth for an Ethernet header.\<close>

lemma header_room:
  assumes "heap_live B m live" and "length live < 128" and "unat (a :: u32) + 18 \<le> 8192"
  shows "fst (malloc m (pkt_pad (a + 14))) \<noteq> NULL"
proof -
  have "unat (a + 14) = unat a + 14" using assms(3) by (subst unat_add_lem [THEN iffD1]) auto
  then have n: "unat (pkt_pad (a + 14)) \<le> csize 8" using pkt_pad_bounds(2) [of "a + 14"] assms(3) by (simp add: csize_eq)
  obtain q h where r: "malloc m (pkt_pad (a + 14)) = (q, h)" by fastforce
  have "live_ok B (m, live)" using assms(1) by (simp add: heap_live_def)
  from malloc_succeeds [OF this assms(2) _ n r] show ?thesis using r by simp
qed

section \<open>Properties\<close>

text \<open>C16: Ethernet output. The packet goes to the front of the interface's transmit queue; the header with the destination,
  the interface's own address and the type is in front of its payload unless the kernel heap could not serve the growth,
  in which case the packet is queued all the same, without a header. The heap and the packet stay well formed.\<close>

theorem en_eth_output_frame:
  assumes "heap_live B (heap_of s) live" and "pkt_ok B s live p" and "scratch_ok live s p (n_frame s) 14"
    and "6 \<le> length (if_addr (n_ifs s e))" and "6 \<le> length dst" and "tx_queue e \<noteq> p"
  shows "let s' = en_eth_output s e p dst type in payload s' p =
      (if fst (malloc (heap_of s) (pkt_pad (pk_allocated (ps_pkts s p) + 14))) = NULL then payload s p
       else eth_header (take 6 dst) (take 6 (if_addr (n_ifs s e))) (ucast type) @ payload s p)
    \<and> l_next (ps_pkts s' (tx_queue e)) = p \<and> l_next (ps_pkts s' p) = l_next (ps_pkts s (tx_queue e))
    \<and> (\<exists>live'. heap_live B (heap_of s') live' \<and> pkt_ok B s' live' p)"
  unfolding Let_def by (rule en_eth_output_cases [OF assms, of type]) blast

end
