(* ===== verification/NetExample.thy ===== *)
theory NetExample
  imports Frames
begin

text \<open>
  A concrete network state for the witnesses: one interface with one address, one received packet, one scratch block.
\<close>

lemma pinned_blocks:
  obtains m live fr p d where "heap_live 0x8000 m live" "length live = 11" "(fr, 64) \<in> set live"
    "(p, sizeof_en_net_pkt) \<in> set live" "(d, 128) \<in> set live" "\<not> class_start 0x8000 p" "\<not> class_start 0x8000 d"
    "fr \<noteq> d" "d \<noteq> p" "d \<noteq> NULL"
proof -
  obtain m0 live where m: "heap_live 0x8000 m0 live" "length live = 8"
    using pinned_heap [of "0x8000"] by (auto simp: heap_ok_def mem_init_heap_size_eq)
  have lo: "live_ok 0x8000 (m, l)" if "heap_live 0x8000 m l" for m l using that by (simp add: heap_live_def)
  obtain fr m1 where a: "malloc m0 64 = (fr, m1)" by fastforce
  have fr: "fr \<noteq> NULL" by (rule malloc_succeeds [OF lo [OF m(1)] _ _ _ a, of 1]) (use m(2) in \<open>simp_all add: csize_eq\<close>)
  note h1 = heap.alloc_ok [OF m(1) a fr]
  obtain p m2 where b: "malloc m1 sizeof_en_net_pkt = (p, m2)" by fastforce
  have p: "p \<noteq> NULL" by (rule malloc_succeeds [OF lo [OF h1] _ _ _ b, of 0]) (use m(2) in \<open>simp_all add: csize_eq sizeof_en_net_pkt_def\<close>)
  note h2 = heap.alloc_ok [OF h1 b p]
  obtain d m3 where c: "malloc m2 128 = (d, m3)" by fastforce
  have d: "d \<noteq> NULL" by (rule malloc_succeeds [OF lo [OF h2] _ _ _ c, of 2]) (use m(2) in \<open>simp_all add: csize_eq\<close>)
  note h3 = heap.alloc_ok [OF h2 c d]
  have "d \<notin> fst ` set ((p, sizeof_en_net_pkt) # (fr, 64) # live)" by (rule heap.fresh(1) [OF h2 c d])
  then show thesis
    using that [OF h3, of fr p d] m(2) d heap.alloc_unpinned [OF h1 b p] heap.alloc_unpinned [OF h2 c d] by auto
qed

lemma wake_kern0: "\<exists>k. wake (kern0\<lparr>k_mem := m\<rparr>) 1 = Inr (1, k)"
proof -
  have d: "drain bfifo_dequeue make_run (bfifo_init 0) s = Some (s, bfifo_init 0)" for s
    by (subst drain.simps) (simp add: bfifo_dequeue_def bfifo_init_def)
  show ?thesis
    by (simp add: wake_def syscall_arm_def c_svc_def Let_def syscall_table_len_def SYS_WAKE_def syscall_func_def sys_wake_def kern0_def d opt_result_def)
qed

lemma example_net:
  fixes bs mac ip arps routes
  assumes "length bs \<le> 128"
  obtains s :: net and live p where "heap_live 0x8000 (heap_of s) live" "length live = 11" "pkt_ok 0x8000 s live p"
    "payload s p = bs" "pk_allocated (ps_pkts s p) = 128" "scratch_ok live s p (n_frame s) 64" "pk_eth_if (ps_pkts s p) = p"
    "chain (n_ifs s) (l_next (n_ifs s (n_eth_if_list s))) [p]" "if_addr (n_ifs s p) = mac"
    "chain (n_ips s) (l_next (n_ips s (ip_addrs p))) [p]" "ipd_addr (n_ips s p) = ip"
    "tx_queue p \<noteq> p" "n_arps s = arps" "n_routes s = routes p" "n_arp_cache_list s = 1" "n_ip_route_list s = 1"
    "\<exists>k. wake (ps_kern s) (n_rx_completion s) = Inr (1, k)"
proof -
  obtain m live fr p d where b: "heap_live 0x8000 m live" "length live = 11" "(fr, 64) \<in> set live"
    "(p, sizeof_en_net_pkt) \<in> set live" "(d, 128) \<in> set live" "\<not> class_start 0x8000 p" "\<not> class_start 0x8000 d"
    "fr \<noteq> d" "d \<noteq> p" "d \<noteq> NULL"
    by (rule pinned_blocks) blast
  have p: "p \<noteq> NULL" using heap.blocks_fit [OF b(1,4)] by simp
  let ?s = "\<lparr>ps_kern = kern0\<lparr>k_mem := m\<rparr>, ps_mem = put_list (\<lambda>_. 0) d bs,
      ps_pkts = (\<lambda>_. \<lparr>l_next = NULL, l_prev = NULL, pk_data = d, pk_len = of_nat (length bs), pk_allocated = 128, pk_eth_if = p\<rparr>),
      n_ifs = (\<lambda>x. \<lparr>l_next = if x = p then NULL else p, l_prev = NULL, if_addr = mac, if_bound = True\<rparr>),
      n_ips = (\<lambda>x. \<lparr>l_next = if x = p then NULL else p, l_prev = NULL, ipd_addr = ip, ipd_netmask = 0, ipd_broadcast = 0\<rparr>),
      n_arps = arps, n_routes = routes p, n_eth_if_list = p + 1, n_arp_cache_list = 1, n_ip_route_list = 1,
      n_rx_completion = 1, n_frame = fr\<rparr>"
  have len: "unat (of_nat (length bs) :: u32) = length bs" using assms by (simp add: unat_of_nat take_bit_nat_eq_self)
  have "mem_bytes (put_list (\<lambda>_. 0) d bs) d (length bs) = bs"
    by (rule puts_bytes_read [OF put_list_puts]) (use heap.blocks_fit [OF b(1,5)] assms in simp)
  then have "payload ?s p = bs" using len by (simp add: payload_def)
  moreover have "pkt_ok 0x8000 ?s live p" using b len assms by (simp add: pkt_ok_def Let_def word_le_nat_alt)
  moreover have "in_block live fr fr 64" using b(3) unfolding in_block_def by (intro exI [of _ 64]) simp
  then have "scratch_ok live ?s p (n_frame ?s) 64" using b(8) unfolding scratch_ok_def by (intro exI [of _ fr]) simp
  ultimately show thesis
    by (intro that [of ?s live p]) (use b p wake_kern0 in \<open>simp_all add: ip_addrs_def tx_queue_def\<close>)
qed

text \<open>The Ethernet frame of a two-byte packet.\<close>

theorem en_eth_output_frame_witness:
  "\<exists>(s :: net) p e. payload s p = [1, 2]
    \<and> payload (en_eth_output s e p (replicate 6 0xFF) 0x0806) p =
        replicate 6 0xFF @ [10, 11, 12, 13, 14, 15] @ [8, 6] @ [1, 2]"
proof -
  obtain s :: net and live p where s: "heap_live 0x8000 (heap_of s) live" "length live = 11" "pkt_ok 0x8000 s live p"
    "payload s p = [1, 2]" "pk_allocated (ps_pkts s p) = 128" "scratch_ok live s p (n_frame s) 64"
    "if_addr (n_ifs s p) = [10, 11, 12, 13, 14, 15]" "tx_queue p \<noteq> p"
    by (rule example_net [of "[1, 2]" "[10, 11, 12, 13, 14, 15]" 0 undefined undefined]) auto
  have h: "scratch_ok live s p (n_frame s) 14" by (rule scratch_ok_mono [OF s(6)]) simp
  have m: "fst (malloc (heap_of s) (pkt_pad (pk_allocated (ps_pkts s p) + 14))) \<noteq> NULL"
    by (rule header_room [OF s(1)]) (use s(2,5) in simp_all)
  have "be16 (0x0806 :: u16) = [8, 6]" by (simp add: be16_def)
  then have "payload (en_eth_output s p p (replicate 6 0xFF) 0x0806) p =
      replicate 6 0xFF @ [10, 11, 12, 13, 14, 15] @ [8, 6] @ [1, 2]"
    using en_eth_output_frame [OF s(1,3) h, of p "replicate 6 0xFF" "0x0806"] s(4,7,8) m by (simp add: Let_def eth_header_def)
  then show ?thesis using s(4) by blast
qed

end
