(* ===== verification/ArpFrames.thy ===== *)
theory ArpFrames
  imports NetExample
begin

text \<open>
  net/dll/arp.c on well-formed frames: what a request is answered with.
\<close>

section \<open>ARP messages as bytes\<close>

definition arp_bytes :: "u16 \<Rightarrow> u8 list \<Rightarrow> u8 list \<Rightarrow> u8 list \<Rightarrow> u8 list \<Rightarrow> u8 list" where
  "arp_bytes opcode sha spa tha tpa = [0, 1, 8, 0, 6, 4] @ be16 opcode @ sha @ spa @ tha @ tpa"

text \<open>With the header in the byte order of the machine.\<close>

definition arp_host :: "u16 \<Rightarrow> u8 list \<Rightarrow> u8 list \<Rightarrow> u8 list \<Rightarrow> u8 list \<Rightarrow> u8 list" where
  "arp_host opcode sha spa tha tpa = [1, 0, 0, 8, 6, 4] @ le16 opcode @ sha @ spa @ tha @ tpa"

lemma be16_eq_rev_le16: "be16 x = [le16 x ! 1, le16 x ! 0]"
  by (simp add: be16_def le16_def)

lemma swap16_puts:
  assumes "unat p + 2 \<le> 2 ^ 32"
  shows "puts_bytes m (swap16_at p m) p [m (p + 1), m p]"
proof -
  have "ucast (en_ntohs (ucast (load16 m p))) = m (p + 1)"
    unfolding en_ntohs_def load16_def by (rule bit_word_eqI; simp only: bytes_bits; simp add: bit_u8_high)
  moreover have "ucast (drop_bit 8 (en_ntohs (ucast (load16 m p)))) = m p"
    unfolding en_ntohs_def load16_def by (rule bit_word_eqI; simp only: bytes_bits; simp add: bit_u8_high)
  ultimately have "le16 (en_ntohs (ucast (load16 m p))) = [m (p + 1), m p]" by (simp only: le16_def)
  then show ?thesis using store16_puts [OF assms, of m "en_ntohs (ucast (load16 m p))"] by (simp add: swap16_at_def)
qed

text \<open>Swapping a field inside a buffer.\<close>

lemma swap16_splice:
  assumes "puts_bytes m m1 a ys" and "i + 2 \<le> length ys" and "unat a + length ys \<le> 2 ^ 32" and "q = a + of_nat i"
  shows "puts_bytes m (swap16_at q m1) a (splice ys i [ys ! Suc i, ys ! i])"
proof -
  have "unat q = unat a + i" unfolding assms(4) by (rule unat_offset [OF assms(3)]) (use assms(2) in simp)
  then have "puts_bytes m1 (swap16_at q m1) q [m1 (q + 1), m1 q]" by (intro swap16_puts) (use assms(2,3) in simp)
  moreover have "m1 (q + 1) = ys ! Suc i" "m1 q = ys ! i"
    using puts_nth [OF assms(1), of "Suc i"] puts_nth [OF assms(1), of i] assms(2,4) by (simp_all add: add_ac)
  ultimately show ?thesis using puts_splice [OF assms(1), of "swap16_at q m1" q "[ys ! Suc i, ys ! i]" i] assms(2-4) by simp
qed

lemma arp_swap_puts:
  assumes "puts_bytes m m1 a ([b0, b1, b2, b3, b4, b5, b6, b7] @ rest)" and "unat a + 8 + length rest \<le> 2 ^ 32"
  shows "puts_bytes m (arp_swap a m1) a ([b1, b0, b3, b2, b4, b5, b7, b6] @ rest)"
proof -
  have 1: "puts_bytes m (swap16_at a m1) a ([b1, b0, b2, b3, b4, b5, b6, b7] @ rest)"
    using swap16_splice [OF assms(1), of 0 a] assms(2) by (simp add: splice_def)
  have 2: "puts_bytes m (swap16_at (a + 2) (swap16_at a m1)) a ([b1, b0, b3, b2, b4, b5, b6, b7] @ rest)"
    using swap16_splice [OF 1, of 2 "a + 2"] assms(2) by (simp add: splice_def)
  show ?thesis
    using swap16_splice [OF 2, of 6 "a + 6"] assms(2) by (simp add: splice_def arp_swap_def)
qed

section \<open>Turning a request into a reply\<close>

lemma memcpy_splice:
  assumes "puts_bytes m m1 a ys" and "unat a + length ys \<le> 2 ^ 32" and "i + unat n \<le> length ys" and "j + unat n \<le> length ys"
    and "i + unat n \<le> j \<or> j + unat n \<le> i" and "0 < n" and "d = a + of_nat i" and "q = a + of_nat j"
  shows "puts_bytes m (memcpy m1 d q n) a (splice ys i (take (unat n) (drop j ys)))"
proof -
  have n: "0 < unat n" using assms(6) by (simp add: unat_gt_0)
  have u: "unat d = unat a + i" "unat q = unat a + j"
    unfolding assms(7,8) by (rule unat_offset [OF assms(2)]; use assms(3,4) n in simp)+
  have "puts_bytes m1 (memcpy m1 d q n) d (mem_bytes m1 q (unat n))"
    by (rule memcpy_puts) (use u assms(2-5) in \<open>auto simp: apart_def\<close>)
  moreover have "mem_bytes m1 q (unat n) = take (unat n) (drop j ys)"
    unfolding assms(8) by (rule puts_sub [OF assms(1,4)])
  ultimately show ?thesis using puts_splice [OF assms(1), of "memcpy m1 d q n" d _ i] assms(2,3,4,7) by simp
qed

lemma put_list_splice:
  assumes "puts_bytes m m1 a ys" and "unat a + length ys \<le> 2 ^ 32" and "i + length bs \<le> length ys" and "d = a + of_nat i"
    and "i < length ys"
  shows "puts_bytes m (put_list m1 d bs) a (splice ys i bs)"
  by (rule puts_splice [OF assms(1) put_list_puts assms(4,3,2)])
    (use unat_offset [OF assms(2,5)] assms(2-4) in simp)

lemma store16_splice:
  assumes "puts_bytes m m1 a ys" and "unat a + length ys \<le> 2 ^ 32" and "i + 2 \<le> length ys" and "d = a + of_nat i"
  shows "puts_bytes m (store16 m1 d w) a (splice ys i (le16 w))"
  by (rule puts_splice [OF assms(1) store16_puts assms(4)])
    (use unat_offset [OF assms(2), of i] assms(2-4) in simp_all)

lemma store32_splice:
  assumes "puts_bytes m m1 a ys" and "unat a + length ys \<le> 2 ^ 32" and "i + 4 \<le> length ys" and "d = a + of_nat i"
  shows "puts_bytes m (store32 m1 d w) a (splice ys i (le32 w))"
  by (rule puts_splice [OF assms(1) store32_puts assms(4)])
    (use unat_offset [OF assms(2), of i] assms(2-4) in simp_all)

lemma arp_swap_host:
  assumes "puts_bytes m m1 a (arp_bytes opcode sha spa tha tpa @ pad)"
    and "unat a + length (arp_bytes opcode sha spa tha tpa @ pad) \<le> 2 ^ 32"
  shows "puts_bytes m (arp_swap a m1) a (arp_host opcode sha spa tha tpa @ pad)"
  using arp_swap_puts [of m m1 a 0 1 8 0 6 4 _ _ "sha @ spa @ tha @ tpa @ pad"] assms
  by (simp add: arp_bytes_def arp_host_def be16_def le16_def)

lemma arp_swap_net:
  assumes "puts_bytes m m1 a (arp_host opcode sha spa tha tpa @ pad)"
    and "unat a + length (arp_host opcode sha spa tha tpa @ pad) \<le> 2 ^ 32"
  shows "puts_bytes m (arp_swap a m1) a (arp_bytes opcode sha spa tha tpa @ pad)"
  using arp_swap_puts [of m m1 a 1 0 0 8 6 4 _ _ "sha @ spa @ tha @ tpa @ pad"] assms
  by (simp add: arp_bytes_def arp_host_def be16_def le16_def)

lemma arp_make_reply_puts:
  assumes p: "puts_bytes m m1 a (arp_host opcode sha spa tha tpa @ pad)"
    and fit: "unat a + 28 + length pad \<le> 2 ^ 32"
    and len: "length sha = 6" "length spa = 4" "length tha = 6" "length tpa = 4" "6 \<le> length mac"
  shows "\<exists>m'. arp_make_reply m1 a mac ip = (m', sha)
    \<and> puts_bytes m m' a (arp_bytes 2 (take 6 mac) (be32 ip) sha spa @ pad)"
proof -
  have lens: "hl (a + 4) = 6 \<and> hl (a + 5) = 4" if "puts_bytes m hl a (arp_host oc s1 s2 s3 s4 @ pad)" for hl oc s1 s2 s3 s4
    using puts_nth [OF that, of 4] puts_nth [OF that, of 5] by (simp add: arp_host_def)
  have fit': "unat a + length (arp_host oc s1 s2 s3 s4 @ pad) \<le> 2 ^ 32"
    if "length s1 = 6" "length s2 = 4" "length s3 = 6" "length s4 = 4" for oc s1 s2 s3 s4
    using fit that by (simp add: arp_host_def)
  let ?m1 = "store16 m1 (a + 6) 2"
  have 1: "puts_bytes m ?m1 a (arp_host 2 sha spa tha tpa @ pad)"
    using store16_splice [OF p fit', of 6 "a + 6" 2] len by (simp add: arp_host_def splice_def le16_def)
  let ?m2 = "memcpy ?m1 (a + 18) (a + 8) 6"
  have 2: "puts_bytes m ?m2 a (arp_host 2 sha spa sha tpa @ pad)"
    using memcpy_splice [OF 1 fit', of 18 6 8 "a + 18" "a + 8"] len by (simp add: arp_host_def splice_def)
  let ?m3 = "memcpy ?m2 (a + 24) (a + 14) 4"
  have 3: "puts_bytes m ?m3 a (arp_host 2 sha spa sha spa @ pad)"
    using memcpy_splice [OF 2 fit', of 24 4 14 "a + 24" "a + 14"] len by (simp add: arp_host_def splice_def)
  let ?m4 = "put_list ?m3 (a + 8) (take 6 mac)"
  have 4: "puts_bytes m ?m4 a (arp_host 2 (take 6 mac) spa sha spa @ pad)"
    using put_list_splice [OF 3 fit', of 8 "take 6 mac" "a + 8"] len by (simp add: arp_host_def splice_def)
  let ?m5 = "store32 ?m4 (a + 14) (en_htonl ip)"
  have 5: "puts_bytes m ?m5 a (arp_host 2 (take 6 mac) (be32 ip) sha spa @ pad)"
    using store32_splice [OF 4 fit', of 14 "a + 14" "en_htonl ip"] len by (simp add: arp_host_def splice_def le32_en_htonl)
  have "mem_bytes ?m5 (a + 18) 6 = sha"
    using puts_sub [OF 5, of 18 6] len by (simp add: arp_host_def)
  moreover have "puts_bytes m (arp_swap a ?m5) a (arp_bytes 2 (take 6 mac) (be32 ip) sha spa @ pad)"
    by (rule arp_swap_net [OF 5 fit']) (use len in simp_all)
  moreover have "arp_make_reply m1 a mac ip = (arp_swap a ?m5, mem_bytes ?m5 (a + 18) 6)"
    using lens [OF 1] lens [OF 2] lens [OF 3] lens [OF 4] lens [OF 5]
    by (simp add: arp_make_reply_def Let_def ARP_DST_HRD_OFFSET_def ARP_SRC_HRD_OFFSET_def ARP_DST_PROTO_OFFSET_def
        ARP_SRC_PROTO_OFFSET_def ARP_OP_REPLY_def arp_swap_def swap16_at_def en_htons_def add.assoc)
  ultimately show ?thesis by auto
qed

section \<open>Who owns an address\<close>

lemma en_eth_ip_lookup_chain:
  assumes "chain (n_ips s) (l_next (n_ips s (ip_addrs e))) xs"
  obtains d where "en_eth_ip_lookup s e ip = Some d" "d \<noteq> NULL \<longleftrightarrow> (\<exists>d\<in>set xs. ipd_addr (n_ips s d) = ip)"
proof (cases "find (\<lambda>d. ipd_addr (n_ips s d) = ip) xs")
  case None
  then have "en_eth_ip_lookup s e ip = Some NULL" using list_find_chain [OF assms] by (simp add: en_eth_ip_lookup_def)
  moreover have "\<not> (\<exists>d\<in>set xs. ipd_addr (n_ips s d) = ip)" using None by (simp add: find_None_iff)
  ultimately show thesis by (intro that) auto
next
  case (Some d)
  then have "en_eth_ip_lookup s e ip = Some d" using list_find_chain [OF assms] by (simp add: en_eth_ip_lookup_def)
  moreover have "d \<noteq> NULL" by (rule find_not_null [OF Some assms])
  moreover have "\<exists>d\<in>set xs. ipd_addr (n_ips s d) = ip" using Some by (auto simp: find_Some_iff)
  ultimately show thesis by (intro that) auto
qed

lemma find_owner_chain:
  assumes "chain (n_ifs s) p ifs"
    and "\<And>e. e \<in> set ifs \<Longrightarrow> chain (n_ips s) (l_next (n_ips s (ip_addrs e))) (ips e)"
  shows "find_owner s ip p = Some (case find (\<lambda>e. \<exists>d\<in>set (ips e). ipd_addr (n_ips s d) = ip) ifs of None \<Rightarrow> NULL | Some e \<Rightarrow> e)"
  using assms
proof (induction ifs arbitrary: p)
  case Nil
  then show ?case by (subst find_owner.simps) simp
next
  case (Cons e es)
  obtain d where d: "en_eth_ip_lookup s e ip = Some d" "d \<noteq> NULL \<longleftrightarrow> (\<exists>d\<in>set (ips e). ipd_addr (n_ips s d) = ip)"
    by (rule en_eth_ip_lookup_chain [OF Cons.prems(2)]) auto
  have "find_owner s ip (l_next (n_ifs s e)) = Some (case find (\<lambda>e. \<exists>d\<in>set (ips e). ipd_addr (n_ips s d) = ip) es of None \<Rightarrow> NULL | Some e \<Rightarrow> e)"
    by (rule Cons.IH) (use Cons.prems in auto)
  then show ?case using Cons.prems(1) d by (subst find_owner.simps) auto
qed

lemma arp_target_host:
  assumes "puts_bytes m m1 a (arp_host opcode sha spa tha (be32 ip) @ pad)"
    and "length sha = 6" and "length spa = 4" and "length tha = 6"
  shows "arp_target m1 a = ip"
proof -
  have b: "m1 (a + of_nat (24 + i)) = be32 ip ! i" if "i < 4" for i
    using puts_nth [OF assms(1), of "24 + i"] that assms(2-4) by (simp add: arp_host_def nth_append)
  have "m1 (a + 4) = 6" "m1 (a + 5) = 4" using puts_nth [OF assms(1), of 4] puts_nth [OF assms(1), of 5] by (simp_all add: arp_host_def)
  then have "arp_target m1 a = of_be32 [m1 (a + 24), m1 (a + 25), m1 (a + 26), m1 (a + 27)]"
    by (simp add: arp_target_def Let_def ARP_DST_PROTO_OFFSET_def of_be32_list add.assoc)
  also have "\<dots> = of_be32 (be32 ip)"
    using b [of 0] b [of 1] b [of 2] b [of 3] by (simp add: be32_def)
  finally show ?thesis by (simp add: of_be32_be32)
qed

section \<open>Properties\<close>

text \<open>C15: an ARP request for one of our addresses is answered. The packet becomes the reply, addressed to the sender, that
  binds the address to the owning interface's hardware address; the rest of the buffer is kept; the reply is at the front
  of the receiving interface's transmit queue.\<close>

theorem arp_request_answered:
  assumes heap: "heap_live B (heap_of s) live" and ok: "pkt_ok B s live p" and hdr: "scratch_ok live s p (n_frame s) 14"
    and pl: "payload s p = arp_bytes 1 sha spa tha (be32 ip) @ pad"
    and len: "length sha = 6" "length spa = 4" "length tha = 6"
    and ifs: "chain (n_ifs s) (l_next (n_ifs s (n_eth_if_list s))) ifs"
    and ips: "\<And>e. e \<in> set ifs \<Longrightarrow> chain (n_ips s) (l_next (n_ips s (ip_addrs e))) (ips e)"
    and own: "find (\<lambda>e. \<exists>d\<in>set (ips e). ipd_addr (n_ips s d) = ip) ifs = Some e"
    and mac: "6 \<le> length (if_addr (n_ifs s e))" "6 \<le> length (if_addr (n_ifs s (pk_eth_if (ps_pkts s p))))"
    and q: "tx_queue (pk_eth_if (ps_pkts s p)) \<noteq> p"
    and room: "length live < 128" "unat (pk_allocated (ps_pkts s p)) + 18 \<le> 8192"
  shows "\<exists>s' live'. en_arp_input s p = Some (0, s')
    \<and> payload s' p = eth_header sha (take 6 (if_addr (n_ifs s (pk_eth_if (ps_pkts s p))))) 0x0806
         @ arp_bytes 2 (take 6 (if_addr (n_ifs s e))) (be32 ip) sha spa @ pad
    \<and> l_next (ps_pkts s' (tx_queue (pk_eth_if (ps_pkts s p)))) = p
    \<and> heap_live B (heap_of s') live' \<and> pkt_ok B s' live' p"
proof -
  let ?a = "pkt_data s p" and ?e0 = "pk_eth_if (ps_pkts s p)"
  let ?in = "arp_bytes 1 sha spa tha (be32 ip) @ pad"
  have n: "unat (pk_len (ps_pkts s p)) = 28 + length pad"
    using arg_cong [OF pl, of length] len by (simp add: payload_def arp_bytes_def)
  have fit: "unat ?a + 28 + length pad \<le> 2 ^ 32"
    using scratch_apart(3) [OF heap ok hdr] n by (simp add: pkt_data_def)
  have p0: "puts_bytes (ps_mem s) (ps_mem s) ?a ?in"
    using puts_bytes_same [of "ps_mem s" ?a "length ?in"] pl n len by (simp add: payload_def pkt_data_def arp_bytes_def)
  let ?m1 = "arp_swap ?a (ps_mem s)"
  have p1: "puts_bytes (ps_mem s) ?m1 ?a (arp_host 1 sha spa tha (be32 ip) @ pad)"
    by (rule arp_swap_host [OF p0]) (use fit len in \<open>simp add: arp_bytes_def\<close>)
  obtain m2 where rep: "arp_make_reply ?m1 ?a (if_addr (n_ifs s e)) ip = (m2, sha)"
    and p2: "puts_bytes (ps_mem s) m2 ?a (arp_bytes 2 (take 6 (if_addr (n_ifs s e))) (be32 ip) sha spa @ pad)"
    using arp_make_reply_puts [OF p1 fit _ _ _ _ mac(1), of ip] len by auto
  have nth: "?m1 (?a + of_nat i) = (arp_host 1 sha spa tha (be32 ip) @ pad) ! i" if "i < 28" for i
    by (rule puts_nth [OF p1]) (use that len in \<open>simp add: arp_host_def\<close>)
  have b: "?m1 ?a = 1" "?m1 (?a + 1) = 0" "?m1 (?a + 2) = 0" "?m1 (?a + 3) = 8" "?m1 (?a + 4) = 6" "?m1 (?a + 5) = 4"
      "?m1 (?a + 6) = 1" "?m1 (?a + 7) = 0"
    using nth [of 0] nth [of 1] nth [of 2] nth [of 3] nth [of 4] nth [of 5] nth [of 6] nth [of 7]
    by (simp_all add: arp_host_def le16_def)
  have l16: "load16 ?m1 ?a = 1" "load16 ?m1 (?a + 2) = 0x800" "load16 ?m1 (?a + 6) = 1"
    using b by (simp_all add: load16_def add.assoc)
  let ?s1 = "upd_mem (arp_swap ?a) s" and ?s2 = "upd_mem (\<lambda>_. m2) s"
  have owner: "find_owner ?s1 ip (l_next (n_ifs s (n_eth_if_list s))) = Some e"
  proof -
    have f: "n_ifs ?s1 = n_ifs s" "n_ips ?s1 = n_ips s" by (simp_all add: upd_mem_def)
    show ?thesis using find_owner_chain [of ?s1 _ ifs ips ip] ifs ips own unfolding f by simp
  qed
  have enn: "e \<noteq> NULL" by (rule find_not_null [OF own ifs])
  have tgt: "arp_target ?m1 ?a = ip" by (rule arp_target_host [OF p1 len])
  have "en_arp_input s p = map_option (\<lambda>(_, s). (0, s)) (en_arp_input_request ?s1 p)"
    using l16 b by (simp add: en_arp_input_def Let_def pkt_data_def sizeof_arp_pkt_def ARP_HRD_ETHERNET_def
        ETH_TYPE_IPV4_def ARP_OP_REQUEST_def word_less_nat_alt n)
  also have "\<dots> = Some (0, en_eth_output ?s2 ?e0 p sha ETH_TYPE_ARP)"
    using tgt owner enn rep by (simp add: en_arp_input_request_def Let_def pkt_data_def)
  finally have run: "en_arp_input s p = Some (0, en_eth_output ?s2 ?e0 p sha ETH_TYPE_ARP)" .
  have pay: "payload ?s2 p = arp_bytes 2 (take 6 (if_addr (n_ifs s e))) (be32 ip) sha spa @ pad"
    using puts_bytes_read [OF p2] n len mac(1) by (simp add: payload_def pkt_data_def arp_bytes_def)
  have ok2: "pkt_ok B ?s2 live p" by (rule pkt_ok_cong [OF _ ok]) simp
  have heap2: "heap_live B (heap_of ?s2) live" using heap by simp
  have hdr2: "scratch_ok live ?s2 p (n_frame ?s2) 14" using hdr by (simp add: scratch_ok_def)
  have got: "fst (malloc (heap_of ?s2) (pkt_pad (pk_allocated (ps_pkts ?s2 p) + 14))) \<noteq> NULL"
    using header_room [OF heap room] by simp
  have src: "6 \<le> length (if_addr (n_ifs ?s2 ?e0))" "6 \<le> length sha" using mac(2) len by simp_all
  from heap2 ok2 hdr2 src q show ?thesis
    by (rule en_eth_output_cases [of _ _ _ _ _ _ ETH_TYPE_ARP])
      (use run got pay len in \<open>auto simp: ETH_TYPE_ARP_def\<close>)
qed

section \<open>Witnesses\<close>

theorem arp_request_answered_witness:
  "\<exists>(s :: net) p s'. en_arp_input s p = Some (0, s')
    \<and> payload s p = [0, 1, 8, 0, 6, 4, 0, 1] @ replicate 6 7 @ [10, 0, 0, 2] @ replicate 6 0 @ [10, 0, 0, 1]
    \<and> payload s' p = replicate 6 7 @ replicate 6 9 @ [8, 6]
        @ [0, 1, 8, 0, 6, 4, 0, 2] @ replicate 6 9 @ [10, 0, 0, 1] @ replicate 6 7 @ [10, 0, 0, 2]"
proof -
  let ?in = "arp_bytes 1 (replicate 6 7) [10, 0, 0, 2] (replicate 6 0) (be32 0x0A000001) @ []"
  obtain s :: net and live p where s: "heap_live 0x8000 (heap_of s) live" "length live = 11" "pkt_ok 0x8000 s live p"
    "payload s p = ?in" "pk_allocated (ps_pkts s p) = 128" "scratch_ok live s p (n_frame s) 64" "pk_eth_if (ps_pkts s p) = p"
    "chain (n_ifs s) (l_next (n_ifs s (n_eth_if_list s))) [p]" "if_addr (n_ifs s p) = replicate 6 9"
    "chain (n_ips s) (l_next (n_ips s (ip_addrs p))) [p]" "ipd_addr (n_ips s p) = 0x0A000001" "tx_queue p \<noteq> p"
    by (rule example_net [of ?in "replicate 6 9" "0x0A000001" undefined undefined]) (auto simp: arp_bytes_def)
  have h: "scratch_ok live s p (n_frame s) 14" by (rule scratch_ok_mono [OF s(6)]) simp
  have own: "find (\<lambda>e. \<exists>d\<in>set [p]. ipd_addr (n_ips s d) = 0x0A000001) [p] = Some p" using s(11) by simp
  have "\<exists>s' live'. en_arp_input s p = Some (0, s')
    \<and> payload s' p = eth_header (replicate 6 7) (take 6 (if_addr (n_ifs s (pk_eth_if (ps_pkts s p))))) 0x0806
         @ arp_bytes 2 (take 6 (if_addr (n_ifs s p))) (be32 0x0A000001) (replicate 6 7) [10, 0, 0, 2] @ []
    \<and> l_next (ps_pkts s' (tx_queue (pk_eth_if (ps_pkts s p)))) = p \<and> heap_live 0x8000 (heap_of s') live' \<and> pkt_ok 0x8000 s' live' p"
    by (rule arp_request_answered [OF s(1,3) h s(4) _ _ _ s(8) _ own]) (use s in simp_all)
  moreover have "be32 0x0A000001 = [10, 0, 0, 1]" "be16 0x0806 = [8, 6]" "be16 1 = [0, 1]" "be16 2 = [0, 2]"
    by (simp_all add: be16_def be32_def)
  ultimately show ?thesis using s(4,7,9) by (auto simp: eth_header_def arp_bytes_def)
qed

end
