(* ===== verification/IpFrames.thy ===== *)
theory IpFrames
  imports ArpFrames
begin

text \<open>
  net/trans/ip.c and net/trans/icmp.c on the bytes of a packet: the header \<open>en_ip_output\<close> builds and its checksum, and what
  \<open>en_ip_input\<close> does with a header.
\<close>

section \<open>Checksums of byte lists\<close>

text \<open>The sum of the 16-bit words of a buffer, as the little-endian machine reads them.\<close>

fun le_words :: "u8 list \<Rightarrow> nat" where
  "le_words (a # b # xs) = unat a + 256 * unat b + le_words xs"
| "le_words _ = 0"

lemma unat_load16: "unat (load16 m a) = unat (m a) + 256 * unat (m (a + 1))"
proof -
  have "unat (load16 m a) = unat (ucast (m a) :: u16) OR unat (push_bit 8 (ucast (m (a + 1))) :: u16)"
    by (simp add: load16_def unsigned_or_eq)
  moreover have uc: "unat (ucast (b :: u8) :: u16) = unat b" for b
    using unsigned_less [of b, where ?'a = nat] by (simp add: unsigned_ucast_eq take_bit_nat_eq_self)
  moreover have "unat (push_bit 8 (ucast (b :: u8)) :: u16) = 256 * unat b" for b
  proof -
    have "unat b < 256" using unsigned_less [of b, where ?'a = nat] by simp
    then show ?thesis
      unfolding unsigned_push_bit_eq uc by (simp add: push_bit_eq_mult take_bit_nat_eq_self)
  qed
  moreover have "unat (m a) OR 256 * unat (m (a + 1)) = unat (m a) + 256 * unat (m (a + 1))"
  proof (rule sym, rule disjunctive_add)
    fix n
    have "\<not> bit (unat (m a)) n" if "8 \<le> n" using that bit_u8_high [of n "m a"] by (simp add: bit_unsigned_iff)
    moreover have "\<not> bit (256 * unat (m (a + 1))) n" if "n < 8"
      using that by (simp add: bit_push_bit_iff push_bit_eq_mult [of 8, simplified, symmetric] mult.commute)
    ultimately show "\<not> bit (unat (m a)) n \<or> \<not> bit (256 * unat (m (a + 1))) n" by (cases "n < 8") auto
  qed
  ultimately show ?thesis by simp
qed

lemma le_words_words: "length ys = 2 * n \<Longrightarrow> mem_bytes m a (2 * n) = ys \<Longrightarrow> le_words ys = words m a n"
proof (induction n arbitrary: ys a)
  case 0
  then show ?case by (simp add: words_def)
next
  case (Suc n)
  have "mem_bytes m a (2 * Suc n) = mem_bytes m a (2 + 2 * n)" by simp
  also have "\<dots> = mem_bytes m a 2 @ mem_bytes m (a + 2) (2 * n)" using mem_bytes_append [of m a 2 "2 * n"] by simp
  also have "mem_bytes m a 2 = [m a, m (a + 1)]" by (simp add: mem_bytes_def numeral_2_eq_2)
  finally have ys: "ys = m a # m (a + 1) # mem_bytes m (a + 2) (2 * n)" using Suc.prems(2) by simp
  then show ?case using Suc.IH [of "mem_bytes m (a + 2) (2 * n)" "a + 2"] by (simp add: words_Suc unat_load16)
qed

lemma le_words_append: "even (length xs) \<Longrightarrow> le_words (xs @ ys) = le_words xs + le_words ys"
  by (induction xs rule: le_words.induct) auto

lemma le_words_le16: "le_words (le16 w) = unat w"
proof -
  have "load16 (\<lambda>x. if x = 0 then ucast w else ucast (drop_bit 8 w)) 0 = w"
    unfolding load16_def by (rule byte_eqI_16; simp only: bytes_bits; simp add: bit_u8_high bytes_bits)
  then show ?thesis using unat_load16 [of "\<lambda>x. if x = 0 then ucast w else ucast (drop_bit 8 w)" 0] by (simp add: le16_def)
qed

section \<open>The header en\_ip\_output builds\<close>

definition ip_hdr_bytes :: "u16 \<Rightarrow> u16 \<Rightarrow> u32 \<Rightarrow> u32 \<Rightarrow> u8 list" where
  "ip_hdr_bytes len cksum src dst =
     [0x45, 0] @ be16 len @ [0, 0, 0, 0, 64, 1] @ le16 cksum @ be32 src @ be32 dst"

lemma ip_hdr_bytes_length [simp]: "length (ip_hdr_bytes len cksum src dst) = 20"
  by (simp add: ip_hdr_bytes_def)

lemma byte_splice:
  assumes "puts_bytes m m1 a ys" and "unat a + length ys \<le> 2 ^ 32" and "i < length ys" and "q = a + of_nat i"
  shows "puts_bytes m (m1(q := b)) a (splice ys i [b])"
  by (rule puts_splice [OF assms(1) puts_bytes_one assms(4)]) (use assms(2,3) in simp_all)

lemma load32_le32:
  assumes "mem_bytes m a 4 = le32 w"
  shows "load32 m a = w"
proof -
  have "m (a + of_nat i) = le32 w ! i" if "i < 4" for i using assms mem_bytes_nth [OF that, of m a] by simp
  from this [of 0] this [of 1] this [of 2] this [of 3]
  have b: "m a = ucast w" "m (a + 1) = ucast (drop_bit 8 w)" "m (a + 2) = ucast (drop_bit 16 w)" "m (a + 3) = ucast (drop_bit 24 w)"
    by (simp_all add: le32_def)
  show ?thesis unfolding load32_def b by (rule byte_eqI_32; simp only: bytes_bits; simp add: bit_u8_high)
qed

lemma ip_header_puts:
  fixes len src dst :: u32
  assumes fit: "unat ip + 20 \<le> 2 ^ 32"
  defines "c \<equiv> of_nat (65535 - ofold (le_words (ip_hdr_bytes (ucast (len + 20)) 0 src dst)))"
  shows "\<exists>m'. ip_header m ip len src dst = Some m' \<and> puts_bytes m m' ip (ip_hdr_bytes (ucast (len + 20)) c src dst)"
proof -
  let ?n = "be16 (ucast (len + 20))" let ?z = "\<lambda>n. replicate n (0 :: u8)"
  let ?m1 = "memset m ip 0 20"
  have 1: "puts_bytes m ?m1 ip (?z 20)" using memset_puts [of ip 20 m 0] fit by simp
  let ?m2 = "?m1(ip := 5)" let ?m3 = "?m2(ip := 0x45)"
  have 2: "puts_bytes m ?m2 ip ([5] @ ?z 19)" using byte_splice [OF 1, of 0 ip 5] fit by (simp add: splice_def)
  have 3: "puts_bytes m ?m3 ip ([0x45] @ ?z 19)" using byte_splice [OF 2, of 0 ip "0x45"] fit by (simp add: splice_def)
  let ?m4 = "store16 ?m3 (ip + 2) (en_htons (len + 20))"
  have 4: "puts_bytes m ?m4 ip ([0x45, 0] @ ?n @ ?z 16)"
    using store16_splice [OF 3, of 2 "ip + 2" "en_htons (len + 20)"] fit by (simp add: splice_def le16_en_htons_u32)
  let ?m5 = "?m4(ip + 8 := 64)" let ?m6 = "?m5(ip + 9 := 1)"
  have 5: "puts_bytes m ?m5 ip ([0x45, 0] @ ?n @ ?z 4 @ [64] @ ?z 11)"
    using byte_splice [OF 4, of 8 "ip + 8" 64] fit by (simp add: splice_def)
  have 6: "puts_bytes m ?m6 ip ([0x45, 0] @ ?n @ ?z 4 @ [64, 1] @ ?z 10)"
    using byte_splice [OF 5, of 9 "ip + 9" 1] fit by (simp add: splice_def)
  let ?m7 = "store32 ?m6 (ip + 12) src"
  have 7: "puts_bytes m ?m7 ip ([0x45, 0] @ ?n @ ?z 4 @ [64, 1] @ ?z 2 @ le32 src @ ?z 4)"
    using store32_splice [OF 6, of 12 "ip + 12" src] fit by (simp add: splice_def)
  have l: "load32 ?m7 (ip + 12) = src"
    by (rule load32_le32) (use puts_sub [OF 7, of 12 4] in simp)
  let ?m8 = "store32 ?m7 (ip + 12) (en_htonl src)" let ?m9 = "store32 ?m8 (ip + 16) (en_htonl dst)"
  have 8: "puts_bytes m ?m8 ip ([0x45, 0] @ ?n @ ?z 4 @ [64, 1] @ ?z 2 @ be32 src @ ?z 4)"
    using store32_splice [OF 7, of 12 "ip + 12" "en_htonl src"] fit by (simp add: splice_def le32_en_htonl)
  have 9: "puts_bytes m ?m9 ip ([0x45, 0] @ ?n @ ?z 4 @ [64, 1] @ ?z 2 @ be32 src @ be32 dst)"
    using store32_splice [OF 8, of 16 "ip + 16" "en_htonl dst"] fit by (simp add: splice_def le32_en_htonl)
  then have 9: "puts_bytes m ?m9 ip (ip_hdr_bytes (ucast (len + 20)) 0 src dst)"
    by (simp add: ip_hdr_bytes_def le16_def numeral_eq_Suc)
  let ?s = "le_words (ip_hdr_bytes (ucast (len + 20)) 0 src dst)"
  have "?s = words ?m9 ip 10" by (rule le_words_words) (use puts_bytes_read [OF 9] in simp_all)
  then have ck: "ocksum16 ?m9 ip 20 = Some (of_nat (ofold ?s))" using ocksum16_even [of 20 10 ?m9 ip] by simp
  have "ofold ?s \<le> 65535" by (simp add: ofold_def)
  then have c: "NOT (of_nat (ofold ?s)) = c" unfolding c_def by (simp add: of_nat_diff not_eq_complement)
  let ?m10 = "store16 ?m9 (ip + 10) c"
  have 10: "puts_bytes m ?m10 ip (ip_hdr_bytes (ucast (len + 20)) c src dst)"
    using store16_splice [OF 9, of 10 "ip + 10" c] fit by (simp add: splice_def ip_hdr_bytes_def)
  have m1: "?m1 ip = 0" using puts_nth [OF 1, of 0] by simp
  have "?m9 ip = 0x45" using puts_nth [OF 9, of 0] by (simp add: ip_hdr_bytes_def)
  then have "ip_header m ip len src dst = Some ?m10"
    using m1 l ck c by (simp add: ip_header_def Let_def sizeof_ip_hdr_def IP_TTL_def IP_PROTO_ICMP_def en_htons_def)
  then show ?thesis using 10 by blast
qed

lemma le_words_hdr: "le_words (ip_hdr_bytes len c src dst) = le_words (ip_hdr_bytes len 0 src dst) + unat c"
proof -
  let ?a = "[0x45, 0] @ be16 len @ [0, 0, 0, 0, 64, 1]" and ?b = "be32 src @ be32 dst"
  have "le_words (ip_hdr_bytes len x src dst) = le_words ?a + (unat x + le_words ?b)" for x
    unfolding ip_hdr_bytes_def using le_words_append [of ?a "le16 x @ ?b"] le_words_append [of "le16 x" ?b]
    by (simp add: le_words_le16)
  from this [of c] this [of 0] show ?thesis by simp
qed

lemma le_words_bound: "length ys = 2 * n \<Longrightarrow> le_words ys \<le> n * 65535"
proof (induction n arbitrary: ys)
  case (Suc n)
  then obtain a b zs where ys: "ys = a # b # zs" "length zs = 2 * n" by (auto simp: length_Suc_conv)
  have "unat a \<le> 255" "unat b \<le> 255" using unsigned_less [of a, where ?'a = nat] unsigned_less [of b, where ?'a = nat] by simp_all
  then show ?case using Suc.IH [OF ys(2)] ys(1) by simp
qed simp

lemma ofold_word: "of_nat (ofold s) = (0xFFFF :: u16) \<longleftrightarrow> ofold s = 65535"
  by (simp add: word_unat_eq_iff unat_of_nat take_bit_nat_eq_self ofold_def)

lemma ocksum16_bytes:
  assumes "mem_bytes m a (2 * n) = ys" and "unat len = 2 * n" and "n \<le> 65535"
  shows "ocksum16 m a len = Some (of_nat (ofold (le_words ys)))"
  using ocksum16_even [OF assms(2,3), of m a] le_words_words [of ys n m a] assms(1) by (metis mem_bytes_length)

section \<open>Properties\<close>

text \<open>C19: the IP header \<open>en_ip_output\<close> builds: version 4, five words, the total length, time to live 64, protocol ICMP, both
  addresses in network order. A receiver accepts its checksum exactly when the sum of the other words does not carry
  again after the single fold of \<open>ocksum16\<close>; otherwise the header on the wire is wrong.\<close>

theorem ip_header_checksum:
  assumes "unat ip + 20 \<le> 2 ^ 32"
  shows "\<exists>m' c. ip_header m ip len src dst = Some m'
    \<and> puts_bytes m m' ip (ip_hdr_bytes (ucast (len + 20)) c src dst)
    \<and> (ocksum16 m' ip 20 = Some 0xFFFF \<longleftrightarrow>
        le_words (ip_hdr_bytes (ucast (len + 20)) 0 src dst) mod 65536
          + le_words (ip_hdr_bytes (ucast (len + 20)) 0 src dst) div 65536 < 65536)"
proof -
  let ?s = "le_words (ip_hdr_bytes (ucast (len + 20)) 0 src dst)"
  let ?c = "of_nat (65535 - ofold ?s) :: u16"
  obtain m' where m': "ip_header m ip len src dst = Some m'" "puts_bytes m m' ip (ip_hdr_bytes (ucast (len + 20)) ?c src dst)"
    using ip_header_puts [OF assms, of m len src dst] by auto
  have "unat ?c = 65535 - ofold ?s" by (simp add: unat_of_nat take_bit_nat_eq_self)
  moreover have "ocksum16 m' ip 20 = Some (of_nat (ofold (le_words (ip_hdr_bytes (ucast (len + 20)) ?c src dst))))"
    by (rule ocksum16_bytes [of _ _ 10]) (use puts_bytes_read [OF m'(2)] in simp_all)
  ultimately have "ocksum16 m' ip 20 = Some 0xFFFF \<longleftrightarrow> ofold (?s + (65535 - ofold ?s)) = 65535"
    using le_words_hdr [of _ ?c src dst] ofold_word by simp
  moreover have "?s \<le> 65535 * 65534" using le_words_bound [of "ip_hdr_bytes (ucast (len + 20)) 0 src dst" 10] by simp
  moreover have "0 < ?s" by (simp add: ip_hdr_bytes_def)
  ultimately have "ocksum16 m' ip 20 = Some 0xFFFF \<longleftrightarrow> ?s mod 65536 + ?s div 65536 < 65536"
    using ofold_complement [of ?s] by simp
  then show ?thesis using m' by blast
qed

theorem ip_header_checksum_witness:
  "\<exists>m'. ip_header (\<lambda>_. 0) 0x1000 8 0xFFFFFFFF 0x7CE20000 = Some m' \<and> ocksum16 m' 0x1000 20 \<noteq> Some 0xFFFF"
proof -
  have "le_words (ip_hdr_bytes (ucast ((8 :: u32) + 20)) 0 0xFFFFFFFF 0x7CE20000) = 0x2FFFF"
    by (simp add: ip_hdr_bytes_def be16_def be32_def le16_def)
  then show ?thesis using ip_header_checksum [of "0x1000" "\<lambda>_. 0" 8 "0xFFFFFFFF" "0x7CE20000"] by auto
qed

end
