(* ===== verification/IpInput.thy ===== *)
theory IpInput
  imports IpFrames
begin

text \<open>
  What reaches the receiver: IP input on the bytes of a packet, its error returns, and the packets that stop the receive task.
\<close>

lemma unat_data_bound:
  assumes "heap_live B (heap_of s) live" and "pkt_ok B s live p"
  shows "unat (pk_data (ps_pkts s p)) + unat (pk_len (ps_pkts s p)) < 2 ^ 32"
proof (cases "pk_data (ps_pkts s p) = NULL")
  case True
  then show ?thesis using assms(2) by (simp add: pkt_ok_def Let_def)
next
  case False
  then show ?thesis using heap.blocks_fit [OF assms(1) pkt_data_block(1) [OF assms(2) False]] pkt_len_le [OF assms(2)] by simp
qed

lemma swap32_splice:
  assumes "puts_bytes m m1 a ys" and "unat a + length ys \<le> 2 ^ 32" and "i + 4 \<le> length ys" and "q = a + of_nat i"
  shows "\<exists>bs. length bs = 4 \<and> puts_bytes m (swap32_at q m1) a (splice ys i bs)"
  using store32_splice [OF assms, of "en_ntohl (load32 m1 q)"] unfolding swap32_at_def by (intro exI) auto

text \<open>The header in host order: the length field is swapped, the version, header length and protocol are where they were.\<close>

lemma ip_swap_puts:
  assumes "puts_bytes m m1 a ys" and fit: "unat a + length ys \<le> 2 ^ 32" and n: "20 \<le> length ys"
  shows "\<exists>zs. length zs = length ys \<and> puts_bytes m (ip_swap a m1) a zs \<and> zs ! 0 = ys ! 0 \<and> zs ! 9 = ys ! 9
    \<and> zs ! 2 = ys ! 3 \<and> zs ! 3 = ys ! 2"
proof -
  let ?m1 = "swap16_at (a + 2) m1" let ?m2 = "swap16_at (a + 4) ?m1"
  let ?m3 = "store16 ?m2 (a + 10) (ucast (en_ntohl (ucast (load16 ?m2 (a + 10)))))" let ?m4 = "swap32_at (a + 12) ?m3"
  let ?y1 = "splice ys 2 [ys ! Suc 2, ys ! 2]" let ?y2 = "splice ?y1 4 [?y1 ! Suc 4, ?y1 ! 4]"
  have 1: "puts_bytes m ?m1 a ?y1" by (rule swap16_splice [OF assms(1) _ fit]) (use n in simp_all)
  have 2: "puts_bytes m ?m2 a ?y2" by (rule swap16_splice [OF 1]) (use n fit in simp_all)
  let ?y3 = "splice ?y2 10 (le16 (ucast (en_ntohl (ucast (load16 ?m2 (a + 10))))))"
  have 3: "puts_bytes m ?m3 a ?y3" by (rule store16_splice [OF 2]) (use n fit in simp_all)
  obtain b4 where 4: "length b4 = 4" "puts_bytes m ?m4 a (splice ?y3 12 b4)"
    using swap32_splice [OF 3, of 12 "a + 12"] n fit by auto
  obtain b5 where 5: "length b5 = 4" "puts_bytes m (swap32_at (a + 16) ?m4) a (splice (splice ?y3 12 b4) 16 b5)"
    using swap32_splice [OF 4(2), of 16 "a + 16"] n fit 4(1) by auto
  let ?z = "splice (splice ?y3 12 b4) 16 b5"
  have "ys \<noteq> []" using n by auto
  then have "?z ! 0 = ys ! 0" "?z ! 9 = ys ! 9" using n 4(1) 5(1) by (simp_all add: splice_nth)
  moreover have "?z ! 2 = ys ! 3" "?z ! 3 = ys ! 2"
    using n 4(1) 5(1) by (simp_all add: splice_nth)
  moreover have "puts_bytes m (ip_swap a m1) a ?z" using 5(2) by (simp add: ip_swap_def Let_def)
  moreover have "length ?z = length ys" using n 4(1) 5(1) by simp
  ultimately show ?thesis by blast
qed

lemma of_be16_load16: "of_be16 [x, y] = z \<Longrightarrow> m a = y \<Longrightarrow> m (a + 1) = x \<Longrightarrow> load16 m a = z"
  unfolding load16_def of_be16_def by (simp add: or.commute)

text \<open>A header without options that passes every test of \<open>en_ip_input\<close>.\<close>

definition good_ip :: "u8 list \<Rightarrow> bool" where
  "good_ip ys \<longleftrightarrow> 20 \<le> length ys \<and> ys ! 0 = 0x45 \<and> le_words (take 20 ys) mod 65535 = 0
     \<and> length ys < 65536 \<and> of_be16 [ys ! 2, ys ! 3] = of_nat (length ys)"

lemma le_words_pos: "ys ! 0 \<noteq> 0 \<Longrightarrow> 2 \<le> length ys \<Longrightarrow> 0 < le_words ys"
  by (cases ys rule: le_words.cases) (auto simp: unat_gt_0)

lemma en_ip_input_good:
  assumes g: "good_ip (payload s p)" and fit: "unat (pk_data (ps_pkts s p)) + unat (pk_len (ps_pkts s p)) \<le> 2 ^ 32"
  obtains s1 zs where "ps_kern s1 = ps_kern s" "ps_pkts s1 = ps_pkts s" "payload s1 p = zs" "length zs = length (payload s p)"
    "zs ! 0 = 0x45" "zs ! 9 = payload s p ! 9"
    "en_ip_input s p = (if payload s p ! 9 = IP_PROTO_ICMP then map_option (\<lambda>(_, s). (0, s)) (en_icmp_input s1 p)
       else if payload s p ! 9 = IP_PROTO_UDP then Some (0, snd (en_udp_input s1 p)) else Some (0, s1))"
proof -
  let ?a = "pk_data (ps_pkts s p)" and ?ys = "payload s p" and ?m = "ps_mem s"
  have n: "unat (pk_len (ps_pkts s p)) = length ?ys" by (simp add: payload_def)
  have l: "20 \<le> length ?ys" using g by (simp add: good_ip_def)
  have p0: "puts_bytes ?m ?m ?a ?ys" using puts_bytes_same [of ?m ?a "unat (pk_len (ps_pkts s p))"] by (simp add: payload_def)
  have f: "unat ?a + length ?ys \<le> 2 ^ 32" using fit n by simp
  have "?ys \<noteq> []" using l by auto
  then have "?m ?a = 0x45" using puts_nth [OF p0, of 0] g by (simp add: good_ip_def)
  then have ihl: "ihl_bytes ?m ?a = 20" by (simp add: ihl_bytes_def)
  have "mem_bytes ?m ?a 20 = take 20 ?ys" using puts_sub [OF p0, of 0 20] l by simp
  then have "ocksum16 ?m ?a 20 = Some (of_nat (ofold (le_words (take 20 ?ys))))" by (intro ocksum16_bytes [of _ _ 10]) simp_all
  moreover have "ofold (le_words (take 20 ?ys)) = 65535"
  proof -
    have "le_words (take 20 ?ys) \<le> 65535 * 65535" using le_words_bound [of "take 20 ?ys" 10] l by simp
    moreover have "0 < le_words (take 20 ?ys)" by (rule le_words_pos) (use g l in \<open>simp_all add: good_ip_def\<close>)
    ultimately show ?thesis using ofold_ffff g by (simp add: good_ip_def)
  qed
  ultimately have ck: "ocksum16 ?m ?a 20 = Some 0xFFFF" using ofold_word by simp
  obtain zs where z: "length zs = length ?ys" "puts_bytes ?m (ip_swap ?a ?m) ?a zs" "zs ! 0 = ?ys ! 0" "zs ! 9 = ?ys ! 9"
    "zs ! 2 = ?ys ! 3" "zs ! 3 = ?ys ! 2"
    using ip_swap_puts [OF p0 f l] by auto
  let ?s1 = "upd_mem (ip_swap ?a) s"
  have nz: "unat (pk_len (ps_pkts s p)) = length zs" using n z(1) by simp
  have pay: "payload ?s1 p = zs" unfolding payload_def upd_simps nz by (rule puts_bytes_read [OF z(2)])
  have b: "ip_swap ?a ?m (?a + of_nat i) = zs ! i" if "i < 20" for i by (rule puts_nth [OF z(2)]) (use that l z(1) in simp)
  have len: "load16 (ip_swap ?a ?m) (?a + 2) = of_nat (length ?ys)"
  proof (rule of_be16_load16)
    show "of_be16 [?ys ! 2, ?ys ! 3] = of_nat (length ?ys)" using g unfolding good_ip_def by blast
    show "ip_swap ?a ?m (?a + 2) = ?ys ! 3" using b [of 2] z(5) by simp
    have "?a + 2 + 1 = ?a + 3" by simp
    then show "ip_swap ?a ?m (?a + 2 + 1) = ?ys ! 2" using b [of 3] z(6) by (simp only:) simp
  qed
  have lu: "ucast (of_nat (length ?ys) :: u16) = pk_len (ps_pkts s p)"
  proof -
    have "unat (ucast (of_nat (length ?ys) :: u16) :: u32) = length ?ys"
      using g by (simp add: good_ip_def unsigned_ucast_eq unat_of_nat take_bit_nat_eq_self)
    then show ?thesis using n by (simp add: word_unat_eq_iff)
  qed
  have i0: "ip_swap ?a ?m ?a = 0x45" using b [of 0] z(3) g by (simp add: good_ip_def)
  have i9: "ip_swap ?a ?m (?a + 9) = ?ys ! 9" using b [of 9] z(4) by simp
  have "\<not> 20 > pk_len (ps_pkts s p)" using l n by (simp add: word_less_nat_alt)
  moreover have "\<not> (pk_len (ps_pkts s p) = 46 \<and> of_nat (length ?ys) < (46 :: u16))" (is "\<not> ?pad")
    using n by (auto simp: word_less_nat_alt)
  ultimately have "en_ip_input s p = (if ?ys ! 9 = IP_PROTO_ICMP then map_option (\<lambda>(_, s). (0, s)) (en_icmp_input ?s1 p)
       else if ?ys ! 9 = IP_PROTO_UDP then Some (0, snd (en_udp_input ?s1 p)) else Some (0, ?s1))"
    unfolding en_ip_input_def Let_def pkt_data_def ihl ck upd_simps len if_not_P [OF \<open>\<not> ?pad\<close>]
    using lu i0 i9 by simp
  then show thesis using that [of ?s1 zs] pay z g by (simp add: good_ip_def)
qed

text \<open>The error returns of ARP and IP input come before anything is freed.\<close>

lemma map_option_zero: "map_option (\<lambda>(_, s). (0 :: int, s)) t = Some (rc, s') \<Longrightarrow> rc \<noteq> 0 \<Longrightarrow> P"
  by auto

lemma en_ip_input_error:
  assumes "en_ip_input s p = Some (rc, s')" and "rc \<noteq> 0"
  shows "ps_kern s' = ps_kern s"
  using assms unfolding en_ip_input_def Let_def
  by (simp only: split: if_split_asm option.split_asm) ((erule (1) map_option_zero) | clarsimp)+

lemma en_arp_input_error:
  assumes "en_arp_input s p = Some (rc, s')" and "rc \<noteq> 0"
  shows "ps_kern s' = ps_kern s"
  using assms unfolding en_arp_input_def Let_def
  by (simp only: split: if_split_asm option.split_asm) ((erule (1) map_option_zero) | clarsimp)+

section \<open>Properties\<close>

text \<open>C20: one frame stops the receive task for good. An Ethernet frame that carries an IP packet with a valid header, no
  options, protocol ICMP and an odd total length sends \<open>en_icmp_input\<close> into the checksum loop that never ends.\<close>

theorem odd_icmp_stops_receiver:
  assumes "heap_live B (heap_of s) live" and "pkt_ok B s live p"
    and "payload s p = mac @ [8, 0] @ ys" and "length mac = 12"
    and "good_ip ys" and "ys ! 9 = IP_PROTO_ICMP" and "odd (length ys)"
  shows "en_eth_input s p = None"
proof -
  let ?k = "ps_pkts s p" let ?a = "pk_data ?k"
  have n: "unat (pk_len ?k) = 14 + length ys" using arg_cong [OF assms(3), of length] assms(4) by (simp add: payload_def)
  have nth: "ps_mem s (?a + of_nat i) = (mac @ [8, 0] @ ys) ! i" if "i < 14 + length ys" for i
    using mem_bytes_nth [of i "unat (pk_len ?k)" "ps_mem s" ?a] that assms(3) n by (simp add: payload_def)
  have "ps_mem s (?a + 12) = 8" "ps_mem s (?a + 13) = 0"
    using nth [of 12] nth [of 13] assms(4) by (simp_all add: nth_append)
  moreover have "?a + 12 + 1 = ?a + 13" by simp
  ultimately have "ps_mem s (?a + 12) = 8" "ps_mem s (?a + 12 + 1) = 0" by (simp_all only:)
  then have type: "en_ntohs (ucast (load16 (ps_mem s) (?a + 12))) = 0x0800"
    by (simp add: en_ntohs_load16 of_be16_def)
  have le: "sizeof_mac_hdr \<le> pk_len ?k" using n by (simp add: sizeof_mac_hdr_def word_le_nat_alt)
  have dl: "unat (pk_len ?k - sizeof_mac_hdr) = length ys" using n le by (simp add: unat_sub sizeof_mac_hdr_def)
  obtain m' where d: "pkt_del_head s p sizeof_mac_hdr = (0, s\<lparr>ps_mem := m', ps_pkts := (ps_pkts s)(p := ?k\<lparr>pk_len := pk_len ?k - sizeof_mac_hdr\<rparr>)\<rparr>)"
    "mem_bytes m' ?a (unat (pk_len ?k - sizeof_mac_hdr)) = drop (unat sizeof_mac_hdr) (payload s p)"
    by (rule pkt_del_head_ok [OF assms(1,2) le])
  let ?s = "s\<lparr>ps_mem := m', ps_pkts := (ps_pkts s)(p := ?k\<lparr>pk_len := pk_len ?k - sizeof_mac_hdr\<rparr>)\<rparr>"
  have pay: "payload ?s p = ys" using d(2) assms(3,4) by (simp add: payload_def sizeof_mac_hdr_def)
  have fit: "unat (pk_data (ps_pkts ?s p)) + unat (pk_len (ps_pkts ?s p)) \<le> 2 ^ 32"
    using unat_data_bound [OF assms(1,2)] n dl by simp
  obtain s1 zs where s1: "ps_pkts s1 = ps_pkts ?s" "payload s1 p = zs" "length zs = length ys" "zs ! 0 = 0x45"
    "en_ip_input ?s p = map_option (\<lambda>(_, s). (0, s)) (en_icmp_input s1 p)"
    by (rule en_ip_input_good [of ?s p, OF _ fit]) (use pay assms(5,6) in auto)
  have "0 < length ys" using assms(5) by (auto simp: good_ip_def)
  then have "ps_mem s1 ?a = zs ! 0"
    using s1(1,2) mem_bytes_nth [of 0 "unat (pk_len (ps_pkts s1 p))" "ps_mem s1" ?a] dl by (simp add: payload_def)
  then have ihl: "ihl_bytes (ps_mem s1) (pkt_data s1 p) = 20" using s1(1,4) by (simp add: ihl_bytes_def pkt_data_def)
  have "20 \<le> length ys" using assms(5) by (simp add: good_ip_def)
  then have "unat (pk_len (ps_pkts s1 p) - 20) = length ys - 20" using s1(1) dl by (simp add: unat_sub word_le_nat_alt)
  then have "odd (unat (pk_len (ps_pkts s1 p) - 20))" using assms(7) \<open>20 \<le> length ys\<close> by simp
  then have "en_icmp_input s1 p = None" by (simp add: en_icmp_input_def Let_def ihl ocksum16_odd)
  then have "en_ip_input ?s p = None" using s1(5) by simp
  moreover have "en_eth_input s p = map_option snd (en_ip_input ?s p)"
    using type d(1) by (simp add: en_eth_input_def Let_def pkt_data_def ETH_TYPE_ARP_def ETH_TYPE_IPV4_def)
  ultimately show ?thesis by simp
qed

text \<open>ARP and IP input leak what they reject. Whenever one of them returns an error, the kernel heap is as it was: the
  packet has been taken off the receive queue and nothing refers to it any more, but it stays allocated.\<close>

theorem input_errors_leak:
  assumes "en_ip_input s p = Some (rc, s') \<or> en_arp_input s p = Some (rc, s')" and "rc \<noteq> 0"
  shows "ps_kern s' = ps_kern s"
  using assms en_ip_input_error [of s p rc s'] en_arp_input_error [of s p rc s'] by blast

section \<open>Witnesses\<close>

theorem odd_icmp_stops_receiver_witness:
  "\<exists>(s :: net) p. payload s p = replicate 12 0 @ [8, 0] @
      [0x45, 0, 0, 21, 0, 0, 0, 0, 64, 1, 0x7A, 0xE9, 0, 0, 0, 0, 0, 0, 0, 0, 8] \<and> en_eth_input s p = None"
proof -
  let ?ys = "[0x45, 0, 0, 21, 0, 0, 0, 0, 64, 1, 0x7A, 0xE9, 0, 0, 0, 0, 0, 0, 0, 0, 8] :: u8 list"
  obtain s :: net and live p where s: "heap_live 0x8000 (heap_of s) live" "pkt_ok 0x8000 s live p"
    "payload s p = replicate 12 0 @ [8, 0] @ ?ys"
    by (rule example_net [of "replicate 12 0 @ [8, 0] @ ?ys" "[]" 0 undefined undefined]) auto
  have "good_ip ?ys" by (simp add: good_ip_def of_be16_def)
  then show ?thesis using odd_icmp_stops_receiver [OF s] s(3) by (simp add: IP_PROTO_ICMP_def) blast
qed

theorem input_errors_leak_witness:
  "\<exists>(s :: net) p s'. payload s p = replicate 8 0 \<and> en_arp_input s p = Some (- 2, s') \<and> ps_kern s' = ps_kern s"
proof -
  obtain s :: net and live p where s: "heap_live 0x8000 (heap_of s) live" "pkt_ok 0x8000 s live p"
    "payload s p = replicate 8 0"
    by (rule example_net [of "replicate 8 0" "[]" 0 undefined undefined]) auto
  let ?a = "pk_data (ps_pkts s p)" let ?m = "arp_swap ?a (ps_mem s)"
  have n: "unat (pk_len (ps_pkts s p)) = 8" using arg_cong [OF s(3), of length] by (simp add: payload_def)
  have p0: "puts_bytes (ps_mem s) (ps_mem s) ?a ([0, 0, 0, 0, 0, 0, 0, 0] @ [])"
    using puts_bytes_same [of "ps_mem s" ?a 8] s(3) n by (simp add: payload_def numeral_eq_Suc)
  have p1: "puts_bytes (ps_mem s) ?m ?a ([0, 0, 0, 0, 0, 0, 0, 0] @ [])"
    by (rule arp_swap_puts [OF p0]) (use unat_data_bound [OF s(1,2)] n in simp)
  have "?m ?a = 0" "?m (?a + 1) = 0" "?m (?a + 4) = 0" "?m (?a + 5) = 0"
    using puts_nth [OF p1, of 0] puts_nth [OF p1, of 1] puts_nth [OF p1, of 4] puts_nth [OF p1, of 5] by simp_all
  then have r: "en_arp_input s p = Some (- 2, upd_mem (arp_swap ?a) s)"
    using n by (simp add: en_arp_input_def Let_def pkt_data_def load16_def sizeof_arp_pkt_def ARP_HRD_ETHERNET_def word_less_nat_alt)
  have "ps_kern (upd_mem (arp_swap ?a) s) = ps_kern s" by (rule input_errors_leak [OF disjI2 [OF r]]) simp
  then show ?thesis using r s(3) by blast
qed

end
