(* ===== verification/RxQueue.thy ===== *)
theory RxQueue
  imports IpInput
begin

text \<open>
  The receive queue of an interface (net/dll/eth.c): packets are added and taken at the front, and draining the queue of an
  interface that is not bound gives every packet back to the heap.
\<close>

definition owned :: "net \<Rightarrow> addr \<Rightarrow> addr set" where
  "owned s p = (if pk_data (ps_pkts s p) = NULL then {p} else {p, pk_data (ps_pkts s p)})"

lemma pkt_free_live:
  assumes heap: "heap_live B (heap_of s) live" and ok: "pkt_ok B s live p"
  shows "heap_live B (heap_of (pkt_free s p)) (filter (\<lambda>(q, _). q \<notin> owned s p) live)"
proof -
  have p: "p \<in> fst ` set live" "\<not> class_start B p" using ok by (force simp: pkt_ok_def)+
  let ?d = "pk_data (ps_pkts s p)"
  show ?thesis
  proof (cases "?d = NULL")
    case True
    then have "heap_of (pkt_free s p) = free (heap_of s) p" by (simp add: pkt_free_def Let_def)
    moreover have "filter (\<lambda>(q, _). q \<notin> owned s p) live = filter (\<lambda>(q, _). q \<noteq> p) live" using True by (simp add: owned_def)
    ultimately show ?thesis using heap.release_ok [OF heap p] by simp
  next
    case False
    note b = pkt_data_block [OF ok False]
    have d: "?d \<in> fst ` set live" using b(1) by force
    note h1 = heap.release_ok [OF heap d b(4)]
    have "p \<in> fst ` set (filter (\<lambda>(q, _). q \<noteq> ?d) live)" using p(1) b(3) by force
    from heap.release_ok [OF h1 this p(2)]
    have "heap_live B (free (free (heap_of s) ?d) p) (filter (\<lambda>(q, _). q \<noteq> p) (filter (\<lambda>(q, _). q \<noteq> ?d) live))" .
    moreover have "heap_of (pkt_free s p) = free (free (heap_of s) ?d) p" using False by (simp add: pkt_free_def Let_def)
    moreover have "filter (\<lambda>(q, _). q \<noteq> p) (filter (\<lambda>(q, _). q \<noteq> ?d) live) = filter (\<lambda>(q, _). q \<notin> owned s p) live"
      using False by (auto simp: owned_def intro!: filter_cong)
    ultimately show ?thesis by simp
  qed
qed

lemma pkt_free_fields [simp]:
  "ps_pkts (pkt_free s p) = ps_pkts s" "n_ifs (pkt_free s p) = n_ifs s"
  by (simp_all add: pkt_free_def Let_def kfree_def)

lemma list_remove_pkt:
  "pk_data (list_remove h a x) = pk_data (h x)" "pk_len (list_remove h a x) = pk_len (h x)"
  "pk_allocated (list_remove h a x) = pk_allocated (h x)"
  by (simp_all add: list_remove_def Let_def)

text \<open>\<open>queued h q xs\<close>: the queue with head \<open>q\<close> holds the packets \<open>xs\<close>, first to be taken first.\<close>

definition queued :: "(addr \<Rightarrow> en_net_pkt) \<Rightarrow> addr \<Rightarrow> addr list \<Rightarrow> bool" where
  "queued h q xs \<longleftrightarrow> chain h (l_next (h q)) xs \<and> q \<noteq> NULL \<and> q \<notin> set xs \<and> (xs = [] \<or> l_prev (h (hd xs)) = q)"

lemma queued_pop:
  assumes "queued h q (x # xs)"
  shows "queued (list_remove h x) q xs" and "l_next (h q) = x" and "x \<noteq> NULL"
proof -
  have c: "chain h (l_next (h q)) (x # xs)" "l_prev (h x) = q" "q \<noteq> NULL" "q \<notin> set (x # xs)" using assms by (auto simp: queued_def)
  then show x: "l_next (h q) = x" "x \<noteq> NULL" by auto
  have "l_prev (list_remove h x (hd xs)) = q" if "xs \<noteq> []"
    using that c x by (cases xs) (auto simp: list_remove_def Let_def)
  then show "queued (list_remove h x) q xs"
    using list_remove_first_chain [OF c] c by (auto simp: queued_def)
qed

lemma queued_push:
  assumes "queued h q xs" and "p \<notin> set xs" and "p \<noteq> q" and "p \<noteq> NULL"
  shows "queued (list_add_after h q p) q (p # xs)"
  using list_add_after_chain [of h q xs p] assms by (auto simp: queued_def step_simps)

definition owned_all :: "net \<Rightarrow> addr list \<Rightarrow> addr set" where
  "owned_all s xs = (\<Union>x\<in>set xs. owned s x)"

lemma owned_cong: "ps_pkts s' = list_remove (ps_pkts s) a \<Longrightarrow> owned s' p = owned s p"
  by (simp add: owned_def list_remove_pkt)

lemma drain_unbound:
  assumes "queued (ps_pkts s) (rx_queue e) xs" and "heap_live B (heap_of s) live" and "\<And>x. x \<in> set xs \<Longrightarrow> pkt_ok B s live x"
    and "\<And>x y. x \<in> set xs \<Longrightarrow> y \<in> set xs \<Longrightarrow> x \<noteq> y \<Longrightarrow> owned s x \<inter> owned s y = {}" and "\<not> if_bound (n_ifs s e)"
  shows "\<exists>s'. en_eth_rx_drain s e = Some s' \<and> list_empty (ps_pkts s') (rx_queue e)
    \<and> heap_live B (heap_of s') (filter (\<lambda>(q, _). q \<notin> owned_all s xs) live)"
  using assms
proof (induction xs arbitrary: s live)
  case Nil
  then have "list_empty (ps_pkts s) (rx_queue e)" by (simp add: queued_def list_empty_def)
  moreover have "filter (\<lambda>(q, _). q \<notin> owned_all s []) live = live" by (auto simp: owned_all_def intro!: filter_True)
  ultimately show ?case using Nil.prems(2) by (subst en_eth_rx_drain.simps) simp
next
  case (Cons x xs)
  note pop = queued_pop [OF Cons.prems(1)]
  let ?s1 = "s\<lparr>ps_pkts := list_remove (ps_pkts s) x\<rparr>" let ?s2 = "pkt_free ?s1 x"
  have own: "owned ?s1 y = owned s y" "owned ?s2 y = owned s y" for y by (rule owned_cong; simp)+
  have ok1: "pkt_ok B ?s1 live y" if "y \<in> set (x # xs)" for y
    using Cons.prems(3) [OF that] by (simp add: pkt_ok_def Let_def list_remove_pkt)
  let ?live = "filter (\<lambda>(q, _). q \<notin> owned s x) live"
  have heap2: "heap_live B (heap_of ?s2) ?live"
    using pkt_free_live [of B ?s1 live x] ok1 [of x] Cons.prems(2) own(1) by simp
  have "chain (ps_pkts s) (l_next (ps_pkts s (rx_queue e))) (x # xs)" using Cons.prems(1) unfolding queued_def by blast
  then have x: "x \<notin> set xs" using chain_distinct by fastforce
  have ok2: "pkt_ok B ?s2 ?live y" if y: "y \<in> set xs" for y
  proof -
    have "owned s x \<inter> owned s y = {}" by (rule Cons.prems(4)) (use x y in auto)
    then have "y \<notin> owned s x" "pk_data (ps_pkts s y) \<noteq> NULL \<Longrightarrow> pk_data (ps_pkts s y) \<notin> owned s x"
      by (auto simp: owned_def split: if_splits)
    then show ?thesis using ok1 [of y] y by (auto simp: pkt_ok_def Let_def list_remove_pkt)
  qed
  have "\<exists>s'. en_eth_rx_drain ?s2 e = Some s' \<and> list_empty (ps_pkts s') (rx_queue e)
      \<and> heap_live B (heap_of s') (filter (\<lambda>(q, _). q \<notin> owned_all ?s2 xs) ?live)"
  proof (rule Cons.IH [OF _ heap2 ok2])
    show "queued (ps_pkts ?s2) (rx_queue e) xs" using pop(1) by simp
    show "owned ?s2 y \<inter> owned ?s2 z = {}" if "y \<in> set xs" "z \<in> set xs" "y \<noteq> z" for y z
      unfolding own by (rule Cons.prems(4)) (use that in auto)
    show "\<not> if_bound (n_ifs ?s2 e)" using Cons.prems(5) by simp
  qed
  moreover have "filter (\<lambda>(q, _). q \<notin> owned_all ?s2 xs) ?live = filter (\<lambda>(q, _). q \<notin> owned_all s (x # xs)) live"
    by (auto simp: owned_all_def own intro!: filter_cong)
  moreover have "en_eth_rx_drain s e = en_eth_rx_drain ?s2 e"
    using pop(2,3) Cons.prems(5) by (subst en_eth_rx_drain.simps) (simp add: list_empty_def Let_def)
  ultimately show ?case by simp
qed

lemma queued_cong:
  assumes "\<And>x. l_next (h' x) = l_next (h x) \<and> l_prev (h' x) = l_prev (h x)"
  shows "queued h' q xs = queued h q xs"
  using assms chain_cong [of xs h' h] by (auto simp: queued_def)

section \<open>Properties\<close>

text \<open>C21: the receive queue. A received packet goes to the front, so packets are processed in the reverse of the order of
  arrival; and draining the queue of an interface that is not bound ends with the queue empty and every packet, structure
  and data buffer, given back to the heap.\<close>

theorem rx_queue_discipline:
  assumes "queued (ps_pkts s) (rx_queue e) xs" and "heap_live B (heap_of s) live" and "\<And>x. x \<in> set xs \<Longrightarrow> pkt_ok B s live x"
    and "\<And>x y. x \<in> set xs \<Longrightarrow> y \<in> set xs \<Longrightarrow> x \<noteq> y \<Longrightarrow> owned s x \<inter> owned s y = {}" and "\<not> if_bound (n_ifs s e)"
    and "p \<notin> set xs" and "p \<noteq> rx_queue e" and "p \<noteq> NULL" and "en_eth_rx s e p = Inr s1"
  shows "queued (ps_pkts s1) (rx_queue e) (p # xs) \<and> pk_eth_if (ps_pkts s1 p) = e
    \<and> (\<exists>s2. en_eth_rx_drain s e = Some s2 \<and> list_empty (ps_pkts s2) (rx_queue e)
        \<and> heap_live B (heap_of s2) (filter (\<lambda>(q, _). q \<notin> owned_all s xs) live))"
proof -
  let ?h = "ps_pkts (upd_pkt p (\<lambda>k. k\<lparr>pk_eth_if := e\<rparr>) s)"
  have "ps_pkts s1 = list_add_after ?h (rx_queue e) p"
    using assms(9) by (auto simp: en_eth_rx_def Let_def upd_pkt_def split: sum.splits)
  moreover have "queued ?h (rx_queue e) xs" using queued_cong [of ?h "ps_pkts s"] assms(1) by simp
  ultimately have "queued (ps_pkts s1) (rx_queue e) (p # xs)" "pk_eth_if (ps_pkts s1 p) = e"
    using queued_push [of ?h "rx_queue e" xs p] assms(6-8) by (simp_all add: list_add_after_pkt)
  then show ?thesis using drain_unbound [OF assms(1-5)] by blast
qed

section \<open>Witness\<close>

theorem rx_queue_discipline_witness:
  "\<exists>(s :: net) e p p2 s1 s2. queued (ps_pkts s) (rx_queue e) [p] \<and> en_eth_rx s e p2 = Inr s1
    \<and> queued (ps_pkts s1) (rx_queue e) [p2, p] \<and> en_eth_rx_drain s e = Some s2 \<and> list_empty (ps_pkts s2) (rx_queue e)"
proof -
  obtain s0 :: net and live p where s0: "heap_live 0x8000 (heap_of s0) live" "pkt_ok 0x8000 s0 live p"
    "\<exists>k. wake (ps_kern s0) (n_rx_completion s0) = Inr (1, k)"
    by (rule example_net [of "[]" "[]" 0 undefined undefined]) auto
  obtain q p2 :: addr where q: "q \<noteq> 0" "q \<noteq> p" "p2 \<noteq> 0" "p2 \<noteq> p" "p2 \<noteq> q"
  proof -
    consider "p = 1" | "p = 2" | "p \<noteq> 1" "p \<noteq> 2" by blast
    then show thesis
    proof cases
      case 1 then show thesis using that [of 2 3] by simp
    next
      case 2 then show thesis using that [of 1 3] by simp
    next
      case 3 then show thesis using that [of 1 2] by simp
    qed
  qed
  have p: "p \<noteq> NULL" using s0(1,2) heap.blocks_fit [OF s0(1), of p sizeof_en_net_pkt] by (simp add: pkt_ok_def)
  let ?e = "q - 128"
  let ?h = "list_add_after ((ps_pkts s0)(q := (ps_pkts s0 q)\<lparr>l_next := NULL\<rparr>)) q p"
  let ?s = "s0\<lparr>ps_pkts := ?h, n_ifs := (\<lambda>_. (n_ifs s0 0)\<lparr>if_bound := False\<rparr>)\<rparr>"
  have rq: "rx_queue ?e = q" by (simp add: rx_queue_def)
  have qd: "queued (ps_pkts ?s) (rx_queue ?e) [p]" unfolding rq using q p by (simp add: queued_def step_simps)
  have ok: "pkt_ok 0x8000 ?s live x" if "x \<in> set [p]" for x
    using s0(2) that q(2) by (simp add: pkt_ok_def Let_def list_add_after_pkt)
  obtain s1 where s1: "en_eth_rx ?s ?e p2 = Inr s1"
    using s0(3) by (auto simp: en_eth_rx_def Let_def upd_pkt_def)
  have heap: "heap_live 0x8000 (heap_of ?s) live" using s0(1) by simp
  have "queued (ps_pkts s1) (rx_queue ?e) [p2, p] \<and> pk_eth_if (ps_pkts s1 p2) = ?e
    \<and> (\<exists>s2. en_eth_rx_drain ?s ?e = Some s2 \<and> list_empty (ps_pkts s2) (rx_queue ?e)
        \<and> heap_live 0x8000 (heap_of s2) (filter (\<lambda>(q, _). q \<notin> owned_all ?s [p]) live))"
    by (rule rx_queue_discipline [OF qd heap ok _ _ _ _ _ s1]) (use q rq in auto)
  then show ?thesis using qd s1 by blast
qed

end
