(* ===== verification/EthDev.thy ===== *)
theory EthDev
  imports Bus RxQueue Uart
begin

text \<open>
  arch/eth.c: the driver of the EP9301 Ethernet MAC. The rings it shares with the controller are tables (what the controller
  writes is what they hold when a handler runs); an index past the end of an array stands for the memory behind it. The MAC's
  registers are on a bus as in \<open>Bus\<close>, those of the interrupt controllers in a map as in \<open>Uart\<close>. Of the interface structure
  the number of its interrupt, its name and its table of operations, which \<open>ep9301_eth_init\<close> fills with constants, are left
  out; the transmit operation is an argument of \<open>en_eth_tx_task\<close>. Console output is not modelled.
\<close>

section \<open>Registers\<close>

definition RXCtl :: addr where "RXCtl = 0x80010000"
definition TXCtl :: addr where "TXCtl = 0x80010004"
definition MIICmd :: addr where "MIICmd = 0x80010010"
definition MIIData :: addr where "MIIData = 0x80010014"
definition MIISts :: addr where "MIISts = 0x80010018"
definition SelfCtl :: addr where "SelfCtl = 0x80010020"
definition IntEn :: addr where "IntEn = 0x80010024"
definition IntStsC :: addr where "IntStsC = 0x8001002C"
definition IndAd :: addr where "IndAd = 0x80010050"
definition GIntMsk :: addr where "GIntMsk = 0x80010064"
definition BMCtl :: addr where "BMCtl = 0x80010080"
definition BMSts :: addr where "BMSts = 0x80010084"
definition RXDQBAdd :: addr where "RXDQBAdd = 0x80010090"
definition RXDQBLen :: addr where "RXDQBLen = 0x80010094"
definition RXDCurAdd :: addr where "RXDCurAdd = 0x80010098"
definition RXDEnq :: addr where "RXDEnq = 0x8001009C"
definition RXStsQBAdd :: addr where "RXStsQBAdd = 0x800100A0"
definition RXStsQBLen :: addr where "RXStsQBLen = 0x800100A4"
definition RXStsQCurAdd :: addr where "RXStsQCurAdd = 0x800100A8"
definition RXStsEnq :: addr where "RXStsEnq = 0x800100AC"
definition TXDQBAdd :: addr where "TXDQBAdd = 0x800100B0"
definition TXDQBLen :: addr where "TXDQBLen = 0x800100B4"
definition TXDQCurAdd :: addr where "TXDQCurAdd = 0x800100B8"
definition TXDEnq :: addr where "TXDEnq = 0x800100BC"
definition TXStsQBAdd :: addr where "TXStsQBAdd = 0x800100C0"
definition TXStsQBLen :: addr where "TXStsQBLen = 0x800100C4"
definition TXStsQCurAdd :: addr where "TXStsQCurAdd = 0x800100C8"
definition RXCtl_SRxON :: u32 where "RXCtl_SRxON = 0x10000"
definition RXCtl_RCRCA :: u32 where "RXCtl_RCRCA = 0x2000"
definition RXCtl_BA :: u32 where "RXCtl_BA = 0x400"
definition RXCtl_IA0 :: u32 where "RXCtl_IA0 = 1"
definition TXCtl_STxON :: u32 where "TXCtl_STxON = 1"
definition MIICmd_Write :: u32 where "MIICmd_Write = 0x4000"
definition MIICmd_Read :: u32 where "MIICmd_Read = 0x8000"
definition MIICmd_REGAD :: u32 where "MIICmd_REGAD = 0x1F"
definition MIICmd_PHYAD :: u32 where "MIICmd_PHYAD = 0x3E0"
definition MIISts_Busy :: u32 where "MIISts_Busy = 1"
definition SelfCtl_PSPRS :: u32 where "SelfCtl_PSPRS = 0x100"
definition SelfCtl_RESET :: u32 where "SelfCtl_RESET = 1"
definition IntEn_PHYSIE :: u32 where "IntEn_PHYSIE = 0x800"
definition IntEn_REOFIE :: u32 where "IntEn_REOFIE = 4"
definition IntEn_REOBIE :: u32 where "IntEn_REOBIE = 2"
definition IntEn_RHDRIE :: u32 where "IntEn_RHDRIE = 1"
definition IntSts_TxSQ :: u32 where "IntSts_TxSQ = 8"
definition IntSts_RxSQ :: u32 where "IntSts_RxSQ = 4"
definition GIntMsk_INT :: u32 where "GIntMsk_INT = 0x8000"
definition BMCtl_RxEn :: u32 where "BMCtl_RxEn = 1"
definition BMCtl_TxEn :: u32 where "BMCtl_TxEn = 0x100"
definition BMSts_RxAct :: u32 where "BMSts_RxAct = 8"
definition MDCDIV :: u32 where "MDCDIV = 7"
definition PHYAD :: u32 where "PHYAD = 0x20"
definition MII_CONTROL :: u16 where "MII_CONTROL = 0"
definition MII_STATUS :: u16 where "MII_STATUS = 1"
definition MII_AUTONG_ADV :: u16 where "MII_AUTONG_ADV = 4"
definition MII_CONTROL_RESET :: u16 where "MII_CONTROL_RESET = 0x8000"
definition MII_CONTROL_AUTONGEN :: u16 where "MII_CONTROL_AUTONGEN = 0x1000"
definition MII_CONTROL_RESTART_AUTONG :: u16 where "MII_CONTROL_RESTART_AUTONG = 0x200"
definition MII_STATUS_AUTONG :: u16 where "MII_STATUS_AUTONG = 0x20"
definition MII_STATUS_LINK :: u16 where "MII_STATUS_LINK = 4"
definition INT_MAC :: int where "INT_MAC = 39"

section \<open>State\<close>

record rx_desc =
  rd_RxBufAdr :: addr
  rd_BufferLength :: u16
  rd_BufferIndex :: "15 word"
  rd_NotSOF :: bool

record rx_sts =
  rs_Status :: "31 word"
  rs_RFP_Hi :: bool
  rs_FrameLength :: u16
  rs_BufferIndex :: "15 word"
  rs_RFP_Lo :: bool

record tx_desc =
  td_TxBufAdr :: addr
  td_BufferLength :: "12 word"
  td_BufferCmd :: "4 word"
  td_BufferIndex :: "15 word"
  td_EOF :: bool

record tx_sts =
  ts_BufferIndex :: "15 word"
  ts_FrameStatus :: "15 word"
  ts_TxFP :: bool
  ts_TxWE :: bool

record en_eth_stats =
  st_rx_bytes :: u32
  st_tx_bytes :: u32
  st_rx_frames :: u32
  st_tx_frames :: u32
  st_runts :: u32
  st_oversized :: u32

definition RX_BUF_SIZE :: nat where "RX_BUF_SIZE = 1520"
definition RX_DESC_NUM :: nat where "RX_DESC_NUM = 64"
definition RX_STS_NUM :: nat where "RX_STS_NUM = RX_DESC_NUM"
definition TX_BUF_SIZE :: nat where "TX_BUF_SIZE = RX_BUF_SIZE"
definition TX_DESC_NUM :: nat where "TX_DESC_NUM = RX_DESC_NUM"
definition TX_STS_NUM :: nat where "TX_STS_NUM = TX_DESC_NUM"

text \<open>The static objects of the driver: \<open>ed_if\<close> is the address of \<open>eth_if\<close>, the \<open>_at\<close> fields are the addresses of the
  arrays, \<open>ed_isr_at\<close> and \<open>ed_task_at\<close> those of \<open>eth_isr\<close> and \<open>eth_task_func\<close>. The static pointers into the arrays are indices.\<close>

record 'd eth_drv =
  ed_net :: net
  ed_dev :: 'd
  ed_vic :: "addr \<Rightarrow> u32"
  ed_stats :: en_eth_stats
  ed_rx_desc :: "nat \<Rightarrow> rx_desc"
  ed_rx_sts :: "nat \<Rightarrow> rx_sts"
  ed_tx_desc :: "nat \<Rightarrow> tx_desc"
  ed_tx_sts :: "nat \<Rightarrow> tx_sts"
  ed_rx_buf :: addr
  ed_tx_buf :: addr
  ed_rx_last :: nat
  ed_tx_next :: nat
  ed_tx_last :: nat
  ed_if :: addr
  ed_rx_desc_at :: addr
  ed_rx_sts_at :: addr
  ed_tx_desc_at :: addr
  ed_tx_sts_at :: addr
  ed_task :: addr
  ed_isr_at :: addr
  ed_task_at :: addr

definition sizeof_rx_desc :: u32 where "sizeof_rx_desc = 8"
definition sizeof_rx_sts :: u32 where "sizeof_rx_sts = 8"
definition sizeof_tx_desc :: u32 where "sizeof_tx_desc = 8"
definition sizeof_tx_sts :: u32 where "sizeof_tx_sts = 4"

definition on_net :: "(net \<Rightarrow> net) \<Rightarrow> 'd eth_drv \<Rightarrow> 'd eth_drv" where
  "on_net f s = s\<lparr>ed_net := f (ed_net s)\<rparr>"

definition on_stats :: "(en_eth_stats \<Rightarrow> en_eth_stats) \<Rightarrow> 'd eth_drv \<Rightarrow> 'd eth_drv" where
  "on_stats f s = s\<lparr>ed_stats := f (ed_stats s)\<rparr>"

definition on_dev :: "('d \<Rightarrow> 'd) \<Rightarrow> 'd eth_drv \<Rightarrow> 'd eth_drv" where
  "on_dev f s = s\<lparr>ed_dev := f (ed_dev s)\<rparr>"

section \<open>The management interface\<close>

definition mii_write :: "'d bus \<Rightarrow> u16 \<Rightarrow> u16 \<Rightarrow> 'd \<Rightarrow> 'd option" where
  "mii_write b reg data d =
     (let reg = ucast reg AND (MIICmd_REGAD OR MIICmd_PHYAD);
          reg = reg OR (MIICmd_Write OR PHYAD);
          d = outl b MIIData (ucast data) d;
          d = outl b MIICmd reg d
      in poll32 b MIISts (\<lambda>v. v AND MIISts_Busy \<noteq> 0) d)"

definition mii_read :: "'d bus \<Rightarrow> u16 \<Rightarrow> 'd \<Rightarrow> (u16 \<times> 'd) option" where
  "mii_read b reg d =
     (let reg = ucast reg AND (MIICmd_REGAD OR MIICmd_PHYAD);
          reg = reg OR (MIICmd_Read OR PHYAD);
          d = outl b MIICmd reg d
      in map_option (\<lambda>d. case inl b MIIData d of (v, d) \<Rightarrow> (ucast v, d))
           (poll32 b MIISts (\<lambda>v. v AND MIISts_Busy \<noteq> 0) d))"

partial_function (option) phy_reset_wait :: "'d bus \<Rightarrow> 'd \<Rightarrow> 'd option" where
  "phy_reset_wait b d =
     (case mii_read b MII_CONTROL d of
        None \<Rightarrow> None
      | Some (v, d) \<Rightarrow> if v AND MII_CONTROL_RESET \<noteq> 0 then phy_reset_wait b d else Some d)"

text \<open>While the task sleeps other processes and the hardware run: \<open>nap\<close> is what they do to the device.\<close>

partial_function (option) autong_wait :: "'d bus \<Rightarrow> (u32 \<Rightarrow> 'd \<Rightarrow> 'd) \<Rightarrow> 'd \<Rightarrow> 'd option" where
  "autong_wait b nap d =
     (case mii_read b MII_STATUS d of
        None \<Rightarrow> None
      | Some (v, d) \<Rightarrow> if v AND MII_STATUS_AUTONG = 0 then autong_wait b nap (nap 250 d) else Some d)"

section \<open>Opening the device\<close>

text \<open>Steps 0 to 2 of \<open>eth_reset\<close>, in order; then steps 3 to 12, the queue registers; then the rest.\<close>

definition reset_link :: "'d bus \<Rightarrow> (u32 \<Rightarrow> 'd \<Rightarrow> 'd) \<Rightarrow> 'd \<Rightarrow> 'd option" where
  "reset_link b nap d =
     (case poll32 b SelfCtl (\<lambda>v. v AND SelfCtl_RESET \<noteq> 0) (modl b SelfCtl (\<lambda>v. v OR SelfCtl_RESET) d) of
        None \<Rightarrow> None
      | Some d \<Rightarrow>
     (case mii_write b MII_CONTROL MII_CONTROL_RESET d of
        None \<Rightarrow> None
      | Some d \<Rightarrow>
     (case phy_reset_wait b d of
        None \<Rightarrow> None
      | Some d \<Rightarrow>
     (let self = push_bit 9 MDCDIV; d = outl b SelfCtl self d
      in case mii_write b MII_AUTONG_ADV 0x01E1 d of
        None \<Rightarrow> None
      | Some d \<Rightarrow>
     (case mii_write b MII_CONTROL (MII_CONTROL_AUTONGEN OR MII_CONTROL_RESTART_AUTONG) d of
        None \<Rightarrow> None
      | Some d \<Rightarrow>
     (case autong_wait b nap d of
        None \<Rightarrow> None
      | Some d \<Rightarrow> Some (outl b SelfCtl (self OR SelfCtl_PSPRS) d)))))))"

definition reset_queues :: "'d bus \<Rightarrow> addr \<Rightarrow> addr \<Rightarrow> addr \<Rightarrow> addr \<Rightarrow> 'd \<Rightarrow> 'd" where
  "reset_queues b rxd rxs txd txs d =
     (let d = outl b RXDQBAdd rxd d;
          d = outl b RXDCurAdd rxd d;
          d = outw b RXDQBLen (ucast (of_nat RX_DESC_NUM * sizeof_rx_desc)) d;
          d = outl b RXStsQBAdd rxs d;
          d = outl b RXStsQCurAdd rxs d;
          d = outw b RXStsQBLen (ucast (of_nat RX_STS_NUM * sizeof_rx_sts)) d;
          d = modl b BMCtl (\<lambda>v. v OR BMCtl_RxEn) d;
          d = outl b TXDQBAdd txd d;
          d = outl b TXDQCurAdd txd d;
          d = outl b TXDQBLen (of_nat TX_DESC_NUM * sizeof_tx_desc) d;
          d = outl b TXStsQBAdd txs d;
          d = outl b TXStsQCurAdd txs d;
          d = outw b TXStsQBLen (ucast (of_nat TX_STS_NUM * sizeof_tx_sts)) d
      in modl b BMCtl (\<lambda>v. v OR BMCtl_TxEn) d)"

definition reset_enable :: "'d bus \<Rightarrow> 'd \<Rightarrow> 'd option" where
  "reset_enable b d =
     (case poll32 b BMSts (\<lambda>v. v AND BMSts_RxAct = 0) d of
        None \<Rightarrow> None
      | Some d \<Rightarrow>
          (let d = outl b RXDEnq (of_nat RX_DESC_NUM) d;
               d = outl b RXStsEnq (of_nat RX_STS_NUM) d;
               d = outl b RXCtl (RXCtl_SRxON OR RXCtl_BA OR RXCtl_IA0 OR RXCtl_RCRCA) d;
               d = outl b TXCtl TXCtl_STxON d;
               d = outl b IntEn (IntEn_REOFIE OR IntEn_REOBIE OR IntEn_RHDRIE OR IntEn_PHYSIE) d;
               d = snd (inl b IntStsC d)
           in Some (outl b GIntMsk GIntMsk_INT d)))"

definition eth_reset :: "'d bus \<Rightarrow> (u32 \<Rightarrow> 'd \<Rightarrow> 'd) \<Rightarrow> 'd eth_drv \<Rightarrow> (int \<times> 'd eth_drv) option" where
  "eth_reset b nap s =
     (case reset_link b nap (ed_dev s) of
        None \<Rightarrow> None
      | Some d \<Rightarrow>
          (let d = reset_queues b (ed_rx_desc_at s) (ed_rx_sts_at s) (ed_tx_desc_at s) (ed_tx_sts_at s) d;
               vic = snd (register_irq_handler (ed_vic s) INT_MAC (ed_isr_at s) False)
           in case reset_enable b d of
                None \<Rightarrow> None
              | Some d \<Rightarrow> Some (0, s\<lparr>ed_dev := d, ed_vic := enable_irq vic INT_MAC\<rparr>)))"

section \<open>Transmission\<close>

definition ep9301_xmit :: "'d bus \<Rightarrow> addr \<Rightarrow> 'd eth_drv \<Rightarrow> int \<times> 'd eth_drv" where
  "ep9301_xmit b p s =
     (let len = pk_len (ps_pkts (ed_net s) p)
      in if len > 1518 then (- 1, s)
         else
           (let n = ed_tx_next s;
                t = (ed_tx_desc s n)\<lparr>td_EOF := True, td_BufferLength := ucast len\<rparr>;
                s = s\<lparr>ed_tx_desc := (ed_tx_desc s)(n := t)\<rparr>;
                s = on_net (upd_mem (\<lambda>m. memcpy m (td_TxBufAdr t) (pk_data (ps_pkts (ed_net s) p)) len)) s;
                s = on_stats (\<lambda>c. c\<lparr>st_tx_frames := st_tx_frames c + 1, st_tx_bytes := st_tx_bytes c + len\<rparr>) s;
                s = on_net (\<lambda>n. pkt_free n p) s;
                s = s\<lparr>ed_tx_next := (if n + 1 \<ge> TX_DESC_NUM then 0 else n + 1)\<rparr>
            in (0, on_dev (outl b TXDEnq 1) s)))"

text \<open>The transmit queue: returns the statuses of the frames that failed, which the code prints.\<close>

function tx_queue_loop :: "addr \<Rightarrow> nat \<Rightarrow> 'd eth_drv \<Rightarrow> 15 word list \<times> 'd eth_drv" where
  "tx_queue_loop cur q s =
     (let q = q + 1;
          t = ed_tx_sts s (ed_tx_last s);
          out = (if \<not> ts_TxWE t then [ts_FrameStatus t] else []);
          last = ed_tx_last s + 1;
          s = s\<lparr>ed_tx_last := (if last > TX_STS_NUM - 1 then 0 else last)\<rparr>
      in if ed_tx_sts_at s + sizeof_tx_sts * of_nat (ed_tx_last s) \<noteq> cur \<and> q < TX_STS_NUM
         then (case tx_queue_loop cur q s of (out', s) \<Rightarrow> (out @ out', s))
         else (out, s))"
  by pat_completeness auto
termination by (relation "measure (\<lambda>(_, q, _). TX_STS_NUM - q)") (auto simp: Let_def)
declare tx_queue_loop.simps [simp del]

definition process_tx_queue :: "'d bus \<Rightarrow> 'd eth_drv \<Rightarrow> 15 word list \<times> 'd eth_drv" where
  "process_tx_queue b s = (case inl b TXStsQCurAdd (ed_dev s) of (cur, d) \<Rightarrow> tx_queue_loop cur 0 (s\<lparr>ed_dev := d\<rparr>))"

section \<open>Reception\<close>

text \<open>The body of the loop of \<open>process_rx_queue\<close>; a frame of the wrong size takes the \<open>continue\<close>.\<close>

definition rx_frame :: "'d eth_drv \<Rightarrow> kern_error + 'd eth_drv" where
  "rx_frame s =
     (let st = ed_rx_sts s (ed_rx_last s);
          len = ucast (rs_FrameLength st) :: u32;
          s = on_stats (\<lambda>c. c\<lparr>st_rx_frames := st_rx_frames c + 1, st_rx_bytes := st_rx_bytes c + len\<rparr>) s
      in if len < 60 then Inr (on_stats (\<lambda>c. c\<lparr>st_runts := st_runts c + 1\<rparr>) s)
         else if len > 1518 then Inr (on_stats (\<lambda>c. c\<lparr>st_oversized := st_oversized c + 1\<rparr>) s)
         else (case pkt_alloc (ed_net s) len of
                 (p, n) \<Rightarrow>
                   (let r = (if p = NULL then Inr n
                             else (let n = upd_mem (\<lambda>m. memcpy m (pk_data (ps_pkts n p))
                                             (rd_RxBufAdr (ed_rx_desc s (unat (rs_BufferIndex st)))) len) n;
                                       n = upd_pkt p (\<lambda>k. k\<lparr>pk_len := len\<rparr>) n
                                   in en_eth_rx n (ed_if s) p));
                        last = ed_rx_last s + 1
                    in case r of
                         Inl err \<Rightarrow> Inl err
                       | Inr n \<Rightarrow> Inr (s\<lparr>ed_net := n, ed_rx_last := (if last > RX_STS_NUM - 1 then 0 else last)\<rparr>))))"

function rx_queue_loop :: "addr \<Rightarrow> nat \<Rightarrow> 'd eth_drv \<Rightarrow> kern_error + nat \<times> 'd eth_drv" where
  "rx_queue_loop cur q s =
     (let q = q + 1
      in case rx_frame s of
           Inl err \<Rightarrow> Inl err
         | Inr s \<Rightarrow>
             if ed_rx_sts_at s + sizeof_rx_sts * of_nat (ed_rx_last s) \<noteq> cur \<and> q < RX_STS_NUM then rx_queue_loop cur q s
             else Inr (q, s))"
  by pat_completeness auto
termination by (relation "measure (\<lambda>(_, q, _). RX_STS_NUM - q)") auto
declare rx_queue_loop.simps [simp del]

definition process_rx_queue :: "'d bus \<Rightarrow> 'd eth_drv \<Rightarrow> kern_error + 'd eth_drv" where
  "process_rx_queue b s =
     (case inl b RXStsQCurAdd (ed_dev s) of
        (cur, d) \<Rightarrow>
          (case rx_queue_loop cur 0 (s\<lparr>ed_dev := d\<rparr>) of
             Inl err \<Rightarrow> Inl err
           | Inr (q, s) \<Rightarrow>
               Inr (if q > 0 then on_dev (outl b RXDEnq (of_nat q)) (on_dev (outl b RXStsEnq (of_nat q)) s) else s)))"

definition eth_isr :: "'d bus \<Rightarrow> 'd eth_drv \<Rightarrow> kern_error + 'd eth_drv" where
  "eth_isr b s =
     (case inl b IntStsC (ed_dev s) of
        (status, d) \<Rightarrow>
          (let s = s\<lparr>ed_dev := d\<rparr>
           in case (if status AND IntSts_RxSQ \<noteq> 0 then process_rx_queue b s else Inr s) of
                Inl err \<Rightarrow> Inl err
              | Inr s \<Rightarrow> Inr (if status AND IntSts_TxSQ \<noteq> 0 then snd (process_tx_queue b s) else s)))"

section \<open>The link task\<close>

text \<open>One round of the loop of \<open>eth_task_func\<close>: what it prints, and the new value of \<open>last_link\<close>.\<close>

datatype link_msg = Link_Up u16 | Link_Down u16

definition link_step :: "u16 \<Rightarrow> u16 \<Rightarrow> link_msg list \<times> u16" where
  "link_step val last_link =
     (let link = val AND MII_STATUS_LINK
      in if link \<noteq> 0 \<and> last_link = 0 then ([Link_Up val], link)
         else if link = 0 \<and> last_link \<noteq> 0 then ([Link_Down val], link)
         else ([], last_link))"

definition eth_task_round :: "'d bus \<Rightarrow> (u32 \<Rightarrow> 'd \<Rightarrow> 'd) \<Rightarrow> u16 \<Rightarrow> 'd \<Rightarrow> (link_msg list \<times> u16 \<times> 'd) option" where
  "eth_task_round b nap last_link d =
     (case mii_read b MII_STATUS d of
        None \<Rightarrow> None
      | Some (val, d) \<Rightarrow> (case link_step val last_link of (out, last_link) \<Rightarrow> Some (out, last_link, nap 2000 d)))"

section \<open>Initialisation\<close>

definition sizeof_ip_desc :: u32 where "sizeof_ip_desc = 20"
definition sizeof_en_ip_route :: u32 where "sizeof_en_ip_route = 28"

definition rx_desc_zero :: rx_desc where
  "rx_desc_zero = \<lparr>rd_RxBufAdr = 0, rd_BufferLength = 0, rd_BufferIndex = 0, rd_NotSOF = False\<rparr>"

definition tx_desc_zero :: tx_desc where
  "tx_desc_zero = \<lparr>td_TxBufAdr = 0, td_BufferLength = 0, td_BufferCmd = 0, td_BufferIndex = 0, td_EOF = False\<rparr>"

definition ksmalloc :: "net \<Rightarrow> u32 \<Rightarrow> addr \<times> net" where
  "ksmalloc s sz = (case smalloc (heap_of s) sz of (p, m) \<Rightarrow> (p, s\<lparr>ps_kern := (ps_kern s)\<lparr>k_mem := m\<rparr>\<rparr>))"

text \<open>The loops that fill the two descriptor rings.\<close>

definition init_tx_ring :: "'d eth_drv \<Rightarrow> 'd eth_drv" where
  "init_tx_ring s =
     foldl (\<lambda>s i. s\<lparr>ed_tx_desc := (ed_tx_desc s)(i := (ed_tx_desc s i)\<lparr>
               td_TxBufAdr := ed_tx_buf s + of_nat (TX_BUF_SIZE * i), td_BufferIndex := of_nat i\<rparr>)\<rparr>)
       (s\<lparr>ed_tx_desc := (\<lambda>i. if i < TX_DESC_NUM then tx_desc_zero else ed_tx_desc s i)\<rparr>) [0..<TX_DESC_NUM]"

definition init_rx_ring :: "'d eth_drv \<Rightarrow> 'd eth_drv" where
  "init_rx_ring s =
     foldl (\<lambda>s i. s\<lparr>ed_rx_desc := (ed_rx_desc s)(i := (ed_rx_desc s i)\<lparr>
               rd_RxBufAdr := ed_rx_buf s + of_nat (RX_BUF_SIZE * i), rd_BufferIndex := of_nat i,
               rd_BufferLength := of_nat RX_BUF_SIZE\<rparr>)\<rparr>)
       (s\<lparr>ed_rx_desc := (\<lambda>i. if i < RX_DESC_NUM then rx_desc_zero else ed_rx_desc s i)\<rparr>) [0..<RX_DESC_NUM]"

text \<open>\<open>memcpy(&eth_if.addr, (char *)IndAd, 6)\<close>: six byte accesses to the individual address register.\<close>

primrec read_addr :: "'d bus \<Rightarrow> addr \<Rightarrow> nat \<Rightarrow> 'd \<Rightarrow> u8 list \<times> 'd" where
  "read_addr b a 0 d = ([], d)"
| "read_addr b a (Suc n) d = (case inb b a d of (v, d) \<Rightarrow> case read_addr b (a + 1) n d of (vs, d) \<Rightarrow> (v # vs, d))"

definition eth_task_name :: "u8 list" where
  "eth_task_name = [0x5B, 0x65, 0x74, 0x68, 0x5F, 0x65, 0x70, 0x39, 0x33, 0x30, 0x31, 0x5D]"

definition ipd_zero :: ip_desc where
  "ipd_zero = \<lparr>l_next = NULL, l_prev = NULL, ipd_addr = 0, ipd_netmask = 0, ipd_broadcast = 0\<rparr>"

text \<open>The second half of \<open>ep9301_eth_init\<close>: the address, the route, the task.\<close>

definition eth_init_task :: "'d eth_drv \<Rightarrow> 'd eth_drv" where
  "eth_init_task s =
     (case spawn (ps_kern (ed_net s)) (ed_task_at s) eth_task_name PROC_SYSTEM of
        (p, k) \<Rightarrow> on_net (\<lambda>n. n\<lparr>ps_kern := k\<rparr>) s\<lparr>ed_task := p\<rparr>)"

definition eth_init_addrs :: "'d eth_drv \<Rightarrow> 'd eth_drv option" where
  "eth_init_addrs s =
     (case kalloc (ed_net s) sizeof_ip_desc of
        (ipd, n) \<Rightarrow>
          (let s = s\<lparr>ed_net := n\<rparr>
           in if ipd = NULL then Some s
              else
                (let h = (n_ips n)(ipd := ipd_zero\<lparr>ipd_addr := push_bit 24 192 OR push_bit 16 168 OR 0 OR 99\<rparr>);
                     n = n\<lparr>n_ips := list_add_after h (ip_addrs (ed_if s)) ipd\<rparr>
                 in case kalloc n sizeof_en_ip_route of
                      (rt, n) \<Rightarrow>
                        if rt = NULL then Some (s\<lparr>ed_net := n\<rparr>)
                        else
                          (let n = n\<lparr>n_routes := (n_routes n)(rt := (n_routes n rt)\<lparr>
                                     rt_dst := push_bit 24 192 OR push_bit 16 168, rt_netmask := 0xFFFFFF00, rt_gw := 0,
                                     rt_flags := 1, rt_metric := 1, rt_eth_if := ed_if s\<rparr>)\<rparr>
                           in map_option (\<lambda>(_, n). eth_init_task (s\<lparr>ed_net := n\<rparr>)) (en_ip_route_add n rt)))))"

definition ep9301_eth_init :: "'d bus \<Rightarrow> 'd eth_drv \<Rightarrow> 'd eth_drv option" where
  "ep9301_eth_init b s =
     (case ksmalloc (ed_net s) (of_nat (RX_DESC_NUM * RX_BUF_SIZE)) of
        (p, n) \<Rightarrow>
          (let s = s\<lparr>ed_net := n, ed_rx_buf := p\<rparr>
           in if p = NULL then Some s
              else
                (case ksmalloc (ed_net s) (of_nat (TX_DESC_NUM * TX_BUF_SIZE)) of
                   (p, n) \<Rightarrow>
                     (let s = s\<lparr>ed_net := n, ed_tx_buf := p\<rparr>
                      in if p = NULL then Some s
                         else
                           (let s = init_rx_ring (init_tx_ring s)
                            in case en_eth_register_if (ed_net s) (ed_if s) of
                                 (rc, n) \<Rightarrow>
                                   (let s = s\<lparr>ed_net := n\<rparr>
                                    in if rc \<noteq> 0 then Some s
                                       else
                                         (case read_addr b IndAd 6 (ed_dev s) of
                                            (bs, d) \<Rightarrow>
                                              (let e = ed_if s;
                                                   i = n_ifs n e;
                                                   i = i\<lparr>if_addr := bs @ drop 6 (if_addr i), if_bound := True\<rparr>;
                                                   n = n\<lparr>n_ifs := (n_ifs n)(e := i)\<rparr>
                                               in eth_init_addrs (s\<lparr>ed_dev := d, ed_net := n\<rparr>)))))))))"

end
