(* ===== verification/EthRings.thy ===== *)
theory EthRings
  imports EthDev
begin

text \<open>
  The rings of the Ethernet driver: what reception delivers and when it stops, what transmission hands to the controller.
\<close>

section \<open>Memory outside the heap\<close>

text \<open>The buffers the controller writes to lie outside all chunks of the heap.\<close>

definition off_heap :: "nat \<Rightarrow> addr \<Rightarrow> nat \<Rightarrow> bool" where
  "off_heap B a n \<longleftrightarrow> unat a + n < 2 ^ 32 \<and> (\<forall>i<9. \<forall>q\<in>set (chunks B i). apart q (csize i) a n)"

lemma off_heap_apart:
  assumes "off_heap B a n" and "heap_live B m live" and "(q, k) \<in> set live"
  shows "apart q (unat k) a n"
proof -
  obtain i u where "i < 9" "u < 128" "q = caddr B i u" "unat k \<le> csize i"
    using assms(2,3) by (auto simp: heap_live_def elim: live_ok_block)
  then have "apart q (csize i) a n" using assms(1) by (auto simp: off_heap_def chunks_def ALLOC_NUM_def)
  then show ?thesis using \<open>unat k \<le> csize i\<close> by (rule apart_mono) simp
qed

lemma off_chunks:
  assumes "heap_live B m live" and "(q, k) \<in> set live"
  shows "\<exists>i<9. q \<in> set (chunks B i)"
proof -
  obtain i u where "i < 9" "u < 128" "q = caddr B i u"
    using assms by (auto simp: heap_live_def elim: live_ok_block)
  then show ?thesis by (auto simp: chunks_def ALLOC_NUM_def)
qed

lemma queued_upd:
  assumes "x \<notin> set xs" and "x \<noteq> q"
  shows "queued (h(x := v)) q xs = queued h q xs"
proof -
  have "chain (h(x := v)) p xs = chain h p xs" for p by (rule chain_cong) (use assms(1) in auto)
  moreover have "xs = [] \<or> hd xs \<noteq> x" using assms(1) by (cases xs) auto
  ultimately show ?thesis using assms(2) by (auto simp: queued_def)
qed

section \<open>Receiving one frame\<close>

lemma unat_u16: "unat (ucast (x :: u16) :: u32) = unat x"
proof -
  have "unat x < 2 ^ 32" using unsigned_less [of x, where ?'a = nat] by simp
  then show ?thesis by (simp add: unsigned_ucast_eq take_bit_nat_eq_self del: unsigned_less)
qed

definition rx_bytes_at :: "'d eth_drv \<Rightarrow> nat \<Rightarrow> u8 list" where
  "rx_bytes_at s i = mem_bytes (ps_mem (ed_net s)) (rd_RxBufAdr (ed_rx_desc s (unat (rs_BufferIndex (ed_rx_sts s i)))))
     (unat (rs_FrameLength (ed_rx_sts s i)))"

definition rx_good :: "nat \<Rightarrow> 'd eth_drv \<Rightarrow> nat \<Rightarrow> bool" where
  "rx_good B s i \<longleftrightarrow> 60 \<le> unat (rs_FrameLength (ed_rx_sts s i)) \<and> unat (rs_FrameLength (ed_rx_sts s i)) \<le> 1518
     \<and> off_heap B (rd_RxBufAdr (ed_rx_desc s (unat (rs_BufferIndex (ed_rx_sts s i))))) (unat (rs_FrameLength (ed_rx_sts s i)))"

definition wake_ready :: "net \<Rightarrow> bool" where
  "wake_ready n \<longleftrightarrow> (let k = ps_kern n; f = k_bfifos k (k_completions k (n_rx_completion n))
     in bfifo_ok f \<and> NULL \<notin> set (bfifo_list f))"

lemma wake_ready_wake:
  assumes "wake_ready n"
  obtains k where "wake (ps_kern n) (n_rx_completion n) = Inr (1, k)" "wake_ready (n\<lparr>ps_kern := k\<rparr>)" "k_mem k = heap_of n"
proof -
  let ?k = "(ps_kern n)\<lparr>k_self := k_kernel_self (ps_kern n)\<rparr>" let ?c = "n_rx_completion n" let ?w = "k_completions (ps_kern n) ?c"
  have "bfifo_ok (k_bfifos ?k ?w)" "NULL \<notin> set (bfifo_list (k_bfifos ?k ?w))" "?w = k_completions ?k ?c"
    using assms by (auto simp: wake_ready_def Let_def)
  from sys_wake_eq [OF this] obtain f A where f: "bfifo_ok f" "bfifo_list f = []"
    "sys_wake ?k ?c = Some (0, (wake_set A ?k)\<lparr>k_bfifos := (k_bfifos ?k)(?w := f)\<rparr>)"
    by blast
  let ?k1 = "(wake_set A ?k)\<lparr>k_bfifos := (k_bfifos ?k)(?w := f)\<rparr>"
  let ?k2 = "?k1\<lparr>k_self := p_self (cur_proc ?k1)\<rparr>"
  have "wake (ps_kern n) ?c = Inr (1, ?k2)"
    using f(3) by (simp add: wake_def syscall_arm_def c_svc_def SYS_WAKE_def syscall_table_len_def syscall_func_def opt_result_def Let_def)
  moreover have "k_completions ?k2 = k_completions (ps_kern n)" "k_bfifos ?k2 = (k_bfifos ?k)(?w := f)" "k_mem ?k2 = heap_of n"
    by (simp_all add: wake_set_def)
  ultimately show thesis using f(1,2) by (intro that [of ?k2]) (simp_all add: wake_ready_def)
qed

text \<open>The packets a driver has queued so far and their contents.\<close>

definition rx_inv :: "nat \<Rightarrow> 'd eth_drv \<Rightarrow> (addr \<times> u32) list \<Rightarrow> addr list \<Rightarrow> u8 list list \<Rightarrow> bool" where
  "rx_inv B s live xs fs \<longleftrightarrow> (let n = ed_net s in
     heap_live B (heap_of n) live \<and> queued (ps_pkts n) (rx_queue (ed_if s)) xs
     \<and> list_all2 (\<lambda>x f. pkt_ok B n live x \<and> payload n x = f) xs fs \<and> wake_ready n
     \<and> (\<forall>i<9. rx_queue (ed_if s) \<notin> set (chunks B i)))"

text \<open>What receiving a frame leaves alone: the rings, the device and all memory outside the heap.\<close>

definition rx_same :: "nat \<Rightarrow> 'd eth_drv \<Rightarrow> 'd eth_drv \<Rightarrow> bool" where
  "rx_same B s s' \<longleftrightarrow> ed_rx_sts s' = ed_rx_sts s \<and> ed_rx_desc s' = ed_rx_desc s \<and> ed_dev s' = ed_dev s \<and> ed_if s' = ed_if s
     \<and> ed_rx_sts_at s' = ed_rx_sts_at s
     \<and> (\<forall>a n. off_heap B a n \<longrightarrow> mem_bytes (ps_mem (ed_net s')) a n = mem_bytes (ps_mem (ed_net s)) a n)"

lemma rx_same_trans: "rx_same B s s' \<Longrightarrow> rx_same B s' s'' \<Longrightarrow> rx_same B s s''"
  by (simp add: rx_same_def)

lemma rx_same_good: "rx_same B s s' \<Longrightarrow> rx_good B s i \<Longrightarrow> rx_good B s' i \<and> rx_bytes_at s' i = rx_bytes_at s i"
  by (simp add: rx_same_def rx_good_def rx_bytes_at_def)

definition ring_next :: "nat \<Rightarrow> nat" where
  "ring_next i = (if i + 1 > RX_STS_NUM - 1 then 0 else i + 1)"

lemma rx_frame_good:
  assumes inv: "rx_inv B s live xs fs" and good: "rx_good B s (ed_rx_last s)" and room: "length live < 127"
  obtains p live' s' where "rx_frame s = Inr s'" "rx_inv B s' live' (p # xs) (rx_bytes_at s (ed_rx_last s) # fs)"
    "length live' = length live + 2" "ed_rx_last s' = ring_next (ed_rx_last s)" "rx_same B s s'"
proof -
  let ?n = "ed_net s" let ?st = "ed_rx_sts s (ed_rx_last s)" let ?e = "ed_if s"
  let ?L = "unat (rs_FrameLength ?st)" let ?len = "ucast (rs_FrameLength ?st) :: u32"
  let ?a = "rd_RxBufAdr (ed_rx_desc s (unat (rs_BufferIndex ?st)))"
  have inv': "heap_live B (heap_of ?n) live" "queued (ps_pkts ?n) (rx_queue ?e) xs"
    "list_all2 (\<lambda>x f. pkt_ok B ?n live x \<and> payload ?n x = f) xs fs" "wake_ready ?n" "\<forall>i<9. rx_queue ?e \<notin> set (chunks B i)"
    using inv by (simp_all add: rx_inv_def Let_def)
  have L: "unat ?len = ?L" "60 \<le> ?L" "?L \<le> 1518" and off: "off_heap B ?a ?L"
    using good by (simp_all add: rx_good_def unat_u16)
  have len: "\<not> ?len < 60" "\<not> ?len > 1518" using L by (simp_all add: word_less_nat_alt)
  obtain p n1 where r: "pkt_alloc ?n ?len = (p, n1)" by fastforce
  have base: "unat ?len + 4 \<le> 2 ^ 32" "?len \<noteq> 0" using L by (auto simp: unat_eq_0 [symmetric] simp del: unsigned_ucast_eq)
  have "p \<noteq> NULL" using pkt_alloc_succeeds [OF inv'(1) room _ base(2)] r L by simp
  with inv'(1) base r show thesis
  proof (cases rule: pkt_alloc_cases)
    case (fresh d h m')
    let ?live = "(d, pkt_pad ?len) # (p, sizeof_en_net_pkt) # live"
    let ?n2 = "upd_mem (\<lambda>m. memcpy m d ?a ?len) n1" let ?n3 = "upd_pkt p (\<lambda>k. k\<lparr>pk_len := ?len\<rparr>) ?n2"
    have "wake_ready ?n3" using inv'(4) fresh(7) by (simp add: wake_ready_def upd_pkt_def upd_mem_def Let_def)
    from wake_ready_wake [OF this] obtain k where
      k: "wake (ps_kern ?n3) (n_rx_completion ?n3) = Inr (1, k)" "wake_ready (?n3\<lparr>ps_kern := k\<rparr>)" "k_mem k = heap_of ?n3" by blast
    let ?h = "(ps_pkts ?n3)(p := (ps_pkts ?n3 p)\<lparr>pk_eth_if := ?e\<rparr>)"
    let ?n4 = "?n3\<lparr>ps_pkts := list_add_after ?h (rx_queue ?e) p, ps_kern := k\<rparr>"
    have rx: "en_eth_rx ?n3 ?e p = Inr ?n4"
      using k(1) by (simp add: en_eth_rx_def Let_def upd_pkt_def upd_mem_def)
    let ?c = "\<lambda>c. c\<lparr>st_rx_frames := st_rx_frames c + 1, st_rx_bytes := st_rx_bytes c + ?len\<rparr>"
    let ?s = "(on_stats ?c s)\<lparr>ed_net := ?n4, ed_rx_last := ring_next (ed_rx_last s)\<rparr>"
    have d: "pk_data (ps_pkts n1 p) = d" using fresh(7) by simp
    have step: "rx_frame s = Inr ?s"
      using r len rx fresh(1) d by (simp add: rx_frame_def Let_def on_stats_def ring_next_def)
    have db: "(d, pkt_pad ?len) \<in> set ?live" by simp
    have pad: "?L \<le> unat (pkt_pad ?len)" using pkt_pad_bounds(1) [OF base(1)] L(1) by simp
    have dfit: "unat d + unat (pkt_pad ?len) < 2 ^ 32" using heap.blocks_fit [OF fresh(6) db] by simp
    have "apart d ?L ?a ?L" using off_heap_apart [OF off fresh(6) db] pad by (rule apart_mono) simp
    then have cp: "puts_bytes m' (memcpy m' d ?a ?len) d (mem_bytes m' ?a ?L)"
      using memcpy_puts [of d ?len ?a m'] L(1) off dfit pad by (simp add: off_heap_def)
    have mem4: "ps_mem ?n4 = memcpy m' d ?a ?len" using fresh(7) by simp
    have keep: "mem_bytes (ps_mem ?n4) q n = mem_bytes (ps_mem ?n) q n"
      if ap: "apart d (unat (pkt_pad ?len)) q n" and qn: "unat q + n \<le> 2 ^ 32" for q n
    proof -
      have "mem_bytes (ps_mem ?n4) q n = mem_bytes m' q n"
        unfolding mem4 by (rule puts_bytes_other [OF cp]) (use apart_mono [OF ap] pad qn in auto)
      also have "\<dots> = mem_bytes (ps_mem ?n) q n"
        by (rule mem_bytes_cong) (use fresh(11) ap qn in \<open>auto simp: apart_def\<close>)
      finally show ?thesis .
    qed
    show thesis
    proof (rule that [OF step, of ?live p])
      show "rx_same B s ?s"
        using keep off_heap_apart [OF _ fresh(6) db] by (auto simp: rx_same_def on_stats_def off_heap_def)
      show "rx_inv B ?s ?live (p # xs) (rx_bytes_at s (ed_rx_last s) # fs)"
        unfolding rx_inv_def Let_def
      proof (intro conjI)
        have h: "heap_of ?n4 = h" using k(3) fresh(7) by simp
        show "heap_live B (heap_of (ed_net ?s)) ?live" using fresh(6) h by simp
        have pin: "(p, sizeof_en_net_pkt) \<in> set ?live" by simp
        have ne: "p \<noteq> rx_queue ?e" using off_chunks [OF fresh(6) pin] inv'(5) by auto
        have xl: "x \<in> fst ` set live" if "x \<in> set xs" for x
        proof -
          have "\<exists>f. pkt_ok B ?n live x \<and> payload ?n x = f" using inv'(3) that by (auto simp: list_all2_conv_all_nth in_set_conv_nth)
          then show ?thesis by (force simp: pkt_ok_def)
        qed
        have px: "p \<notin> set xs" using xl fresh(2) by blast
        have "queued ((ps_pkts ?n)(p := ?h p)) (rx_queue ?e) xs" using inv'(2) px ne by (simp add: queued_upd)
        moreover have "(ps_pkts ?n)(p := ?h p) = ?h" using fresh(7) by (simp add: fun_eq_iff)
        ultimately have "queued ?h (rx_queue ?e) xs" by simp
        then show "queued (ps_pkts (ed_net ?s)) (rx_queue (ed_if ?s)) (p # xs)"
          using queued_push [OF _ px ne fresh(1)] by (simp add: on_stats_def)
        show "wake_ready (ed_net ?s)" using k(2) by (simp add: wake_ready_def)
        show "\<forall>i<9. rx_queue (ed_if ?s) \<notin> set (chunks B i)" using inv'(5) by (simp add: on_stats_def)
        show "list_all2 (\<lambda>x f. pkt_ok B (ed_net ?s) ?live x \<and> payload (ed_net ?s) x = f) (p # xs) (rx_bytes_at s (ed_rx_last s) # fs)"
        proof (rule list_all2_Cons [THEN iffD2, OF conjI])
          have "payload (ed_net ?s) p = mem_bytes m' ?a ?L"
            using puts_bytes_read [OF cp] L(1) mem4 fresh(7) by (simp add: payload_def list_add_after_pkt)
          also have "\<dots> = rx_bytes_at s (ed_rx_last s)" unfolding rx_bytes_at_def
            by (rule mem_bytes_cong) (use fresh(11) off_heap_apart [OF off fresh(6) db] off in \<open>auto simp: apart_def off_heap_def\<close>)
          finally show "pkt_ok B (ed_net ?s) ?live p \<and> payload (ed_net ?s) p = rx_bytes_at s (ed_rx_last s)"
            using fresh(3,5,7,8,9) L(1) pad by (simp add: pkt_ok_def Let_def list_add_after_pkt word_le_nat_alt)
          have old: "ps_pkts (ed_net ?s) x = list_add_after ?h (rx_queue ?e) p x" "?h x = ps_pkts ?n x" if "x \<noteq> p" for x
            using that fresh(7) by simp_all
          show "list_all2 (\<lambda>x f. pkt_ok B (ed_net ?s) ?live x \<and> payload (ed_net ?s) x = f) xs fs"
          proof (rule list.rel_mono_strong [OF inv'(3)])
            fix x f assume x: "x \<in> set xs" and "pkt_ok B ?n live x \<and> payload ?n x = f"
            then have ok: "pkt_ok B ?n live x" and f: "payload ?n x = f" by auto
            have xp: "x \<noteq> p" using x px by blast
            have "payload (ed_net ?s) x = payload ?n x"
            proof (cases "pk_data (ps_pkts ?n x) = NULL")
              case True
              then have "pk_len (ps_pkts ?n x) = 0" using ok by (simp add: pkt_ok_def Let_def)
              then show ?thesis using old [OF xp] by (simp add: payload_def list_add_after_pkt)
            next
              case False
              note b = pkt_data_block [OF ok False]
              have "apart d (unat (pkt_pad ?len)) (pk_data (ps_pkts ?n x)) (unat (pk_allocated (ps_pkts ?n x)))"
                using heap.blocks_apart [OF fresh(6) db, of "pk_data (ps_pkts ?n x)"] b(1) fresh(4) by (force simp: apart_def)
              then have "apart d (unat (pkt_pad ?len)) (pk_data (ps_pkts ?n x)) (unat (pk_len (ps_pkts ?n x)))"
                by (rule apart_mono) (use pkt_len_le [OF ok] in auto)
              moreover have "unat (pk_data (ps_pkts ?n x)) + unat (pk_len (ps_pkts ?n x)) \<le> 2 ^ 32"
                using heap.blocks_fit [OF inv'(1) b(1)] pkt_len_le [OF ok] by simp
              ultimately show ?thesis using keep old [OF xp] by (simp add: payload_def list_add_after_pkt)
            qed
            moreover have "pkt_ok B (ed_net ?s) ?live x"
              using ok old [OF xp] by (simp add: pkt_ok_def Let_def list_add_after_pkt split: if_splits)
            ultimately show "pkt_ok B (ed_net ?s) ?live x \<and> payload (ed_net ?s) x = f" using f by simp
          qed
        qed
      qed
    qed (simp_all add: on_stats_def)
  qed simp
qed

section \<open>Receiving a burst\<close>

lemma ring_next_mod: "i < 64 \<Longrightarrow> ring_next i = (i + 1) mod 64"
  by (cases "i = 63") (auto simp: ring_next_def RX_STS_NUM_def RX_DESC_NUM_def)

lemma ring_addr_inj: "i < 64 \<Longrightarrow> j < 64 \<Longrightarrow> a + sizeof_rx_sts * of_nat i = a + sizeof_rx_sts * of_nat j \<longleftrightarrow> i = j"
proof -
  assume "i < 64" "j < 64"
  then have "unat (sizeof_rx_sts * of_nat i) = 8 * i" "unat (sizeof_rx_sts * of_nat j) = 8 * j"
    by (simp_all add: sizeof_rx_sts_def unat_mult_lem [THEN iffD1] unat_of_nat take_bit_nat_eq_self)
  then have "sizeof_rx_sts * of_nat i = sizeof_rx_sts * (of_nat j :: u32) \<longleftrightarrow> 8 * i = 8 * j" by (metis word_unat_eq_iff)
  then show ?thesis by simp
qed

lemma rx_loop_burst:
  assumes "rx_inv B s live xs fs" and "ed_rx_last s < 64" and "0 < k" and "q + k \<le> 64" and "length live + 2 * k \<le> 128"
    and "\<And>j. j < k \<Longrightarrow> rx_good B s ((ed_rx_last s + j) mod 64)"
    and "cur = ed_rx_sts_at s + sizeof_rx_sts * of_nat ((ed_rx_last s + k) mod 64)"
  shows "\<exists>s' live' ps. rx_queue_loop cur q s = Inr (q + k, s')
    \<and> rx_inv B s' live' (ps @ xs) (rev (map (\<lambda>j. rx_bytes_at s ((ed_rx_last s + j) mod 64)) [0..<k]) @ fs)
    \<and> ed_rx_last s' = (ed_rx_last s + k) mod 64 \<and> rx_same B s s'"
  using assms
proof (induction k arbitrary: s live xs fs q)
  case 0
  then show ?case by simp
next
  case (Suc k)
  let ?l = "ed_rx_last s"
  have "rx_good B s ?l" using Suc.prems(6) [of 0] Suc.prems(2) by simp
  moreover have "length live < 127" using Suc.prems(5) by simp
  ultimately obtain p live1 s1 where s1: "rx_frame s = Inr s1" "rx_inv B s1 live1 (p # xs) (rx_bytes_at s ?l # fs)"
    "length live1 = length live + 2" "ed_rx_last s1 = ring_next ?l" "rx_same B s s1"
    using rx_frame_good [OF Suc.prems(1)] by metis
  have l1: "ed_rx_last s1 = (?l + 1) mod 64" using s1(4) Suc.prems(2) by (simp add: ring_next_mod)
  have at: "ed_rx_sts_at s1 = ed_rx_sts_at s" using s1(5) by (simp add: rx_same_def)
  have mod1: "((?l + 1) mod 64 + j) mod 64 = (?l + Suc j) mod 64" for j by presburger
  have stop: "ed_rx_sts_at s1 + sizeof_rx_sts * of_nat (ed_rx_last s1) = cur \<longleftrightarrow> k = 0"
  proof -
    have "(?l + Suc k) mod 64 = (?l + 1) mod 64 \<longleftrightarrow> 64 dvd k" by (subst mod_eq_dvd_iff_nat) simp_all
    also have "\<dots> \<longleftrightarrow> k = 0" using Suc.prems(4) by (auto dest: dvd_imp_le)
    finally have "(?l + 1) mod 64 = (?l + Suc k) mod 64 \<longleftrightarrow> k = 0" by auto
    then show ?thesis unfolding Suc.prems(7) at l1 by (subst ring_addr_inj) auto
  qed
  have list0: "map (\<lambda>j. rx_bytes_at s ((?l + j) mod 64)) [0..<Suc k] =
      rx_bytes_at s ?l # map (\<lambda>j. rx_bytes_at s ((?l + Suc j) mod 64)) [0..<k]"
    using Suc.prems(2) by (subst upt_conv_Cons) (simp_all add: map_Suc_upt [symmetric] comp_def del: upt_Suc)
  show ?case
  proof (cases "k = 0")
    case True
    then have "rx_queue_loop cur q s = Inr (q + 1, s1)" using s1(1) stop by (subst rx_queue_loop.simps) (simp add: Let_def)
    then show ?thesis using s1(2,5) l1 True Suc.prems(2) by (intro exI [of _ s1] exI [of _ live1] exI [of _ "[p]"]) simp
  next
    case False
    have step: "rx_queue_loop cur q s = rx_queue_loop cur (q + 1) s1"
      using s1(1) stop False Suc.prems(4) by (subst rx_queue_loop.simps) (simp add: Let_def RX_STS_NUM_def RX_DESC_NUM_def)
    have ih: "\<exists>s' live' ps. rx_queue_loop cur (q + 1) s1 = Inr (q + 1 + k, s')
      \<and> rx_inv B s' live' (ps @ p # xs) (rev (map (\<lambda>j. rx_bytes_at s1 ((ed_rx_last s1 + j) mod 64)) [0..<k]) @ rx_bytes_at s ?l # fs)
      \<and> ed_rx_last s' = (ed_rx_last s1 + k) mod 64 \<and> rx_same B s1 s'"
    proof (rule Suc.IH [OF s1(2)])
      show "rx_good B s1 ((ed_rx_last s1 + j) mod 64)" if "j < k" for j
        using rx_same_good [OF s1(5) Suc.prems(6) [of "Suc j"]] that by (simp only: l1 mod1 Suc_less_eq)
      show "cur = ed_rx_sts_at s1 + sizeof_rx_sts * of_nat ((ed_rx_last s1 + k) mod 64)"
        by (simp only: Suc.prems(7) at l1 mod1)
    qed (use False Suc.prems(4,5) s1(3) l1 in auto)
    have mp: "map (\<lambda>j. rx_bytes_at s1 ((ed_rx_last s1 + j) mod 64)) [0..<k] = map (\<lambda>j. rx_bytes_at s ((?l + Suc j) mod 64)) [0..<k]"
      unfolding l1 mod1 using rx_same_good [OF s1(5) Suc.prems(6) [of "Suc j" for j]] by (intro map_cong) auto
    have "q + 1 + k = q + Suc k" "(ed_rx_last s1 + k) mod 64 = (?l + Suc k) mod 64" using mod1 by (simp_all add: l1)
    then obtain s' live' ps where "rx_queue_loop cur q s = Inr (q + Suc k, s')" "ed_rx_last s' = (?l + Suc k) mod 64"
      "rx_inv B s' live' (ps @ p # xs) (rev (map (\<lambda>j. rx_bytes_at s ((?l + Suc j) mod 64)) [0..<k]) @ rx_bytes_at s ?l # fs)"
      "rx_same B s1 s'" using ih unfolding mp step by metis
    then show ?thesis unfolding list0 using rx_same_trans [OF s1(5)]
      by (intro exI [of _ s'] exI [of _ live'] exI [of _ "ps @ [p]"]) simp
  qed
qed

section \<open>Frames of the wrong size\<close>

definition rx_bad :: "'d eth_drv \<Rightarrow> bool" where
  "rx_bad s \<longleftrightarrow> (let n = unat (rs_FrameLength (ed_rx_sts s (ed_rx_last s))) in n < 60 \<or> 1518 < n)"

lemma rx_frame_bad:
  assumes "rx_bad s"
  obtains c where "rx_frame s = Inr (s\<lparr>ed_stats := c\<rparr>)" "st_rx_frames c = st_rx_frames (ed_stats s) + 1"
proof -
  let ?L = "rs_FrameLength (ed_rx_sts s (ed_rx_last s))"
  have "ucast ?L < (60 :: u32) \<or> ucast ?L > (1518 :: u32)"
    using assms by (simp add: rx_bad_def Let_def word_less_nat_alt unat_u16)
  then have "\<exists>c. rx_frame s = Inr (s\<lparr>ed_stats := c\<rparr>) \<and> st_rx_frames c = st_rx_frames (ed_stats s) + 1"
    by (auto simp: rx_frame_def Let_def on_stats_def)
  then show thesis using that by blast
qed

lemma rx_loop_bad:
  assumes "rx_bad s" and "q < 64"
  shows "\<exists>c. rx_queue_loop cur q s = Inr (if cur = ed_rx_sts_at s + sizeof_rx_sts * of_nat (ed_rx_last s) then q + 1 else 64, s\<lparr>ed_stats := c\<rparr>)
    \<and> st_rx_frames c = st_rx_frames (ed_stats s)
        + of_nat (if cur = ed_rx_sts_at s + sizeof_rx_sts * of_nat (ed_rx_last s) then 1 else 64 - q)"
  using assms
proof (induction "64 - q" arbitrary: q s)
  case 0
  then show ?case by simp
next
  case (Suc n)
  let ?at = "ed_rx_sts_at s + sizeof_rx_sts * of_nat (ed_rx_last s)"
  obtain c where c: "rx_frame s = Inr (s\<lparr>ed_stats := c\<rparr>)" "st_rx_frames c = st_rx_frames (ed_stats s) + 1"
    using rx_frame_bad [OF Suc.prems(1)] by blast
  have step: "rx_queue_loop cur q s = (if ?at \<noteq> cur \<and> q + 1 < 64 then rx_queue_loop cur (q + 1) (s\<lparr>ed_stats := c\<rparr>) else Inr (q + 1, s\<lparr>ed_stats := c\<rparr>))"
    by (subst rx_queue_loop.simps) (simp add: c Let_def RX_STS_NUM_def RX_DESC_NUM_def)
  show ?case
  proof (cases "?at \<noteq> cur \<and> q + 1 < 64")
    case True
    have n: "n = 64 - (q + 1)" using Suc.hyps(2) by simp
    have "rx_bad (s\<lparr>ed_stats := c\<rparr>)" using Suc.prems(1) by (simp add: rx_bad_def)
    then obtain c' where "rx_queue_loop cur (q + 1) (s\<lparr>ed_stats := c\<rparr>) = Inr (64, s\<lparr>ed_stats := c'\<rparr>)"
      "st_rx_frames c' = st_rx_frames c + of_nat (64 - (q + 1))"
      using Suc.hyps(1) [of "q + 1" "s\<lparr>ed_stats := c\<rparr>"] n True by auto
    moreover have "64 - q = Suc (64 - (q + 1))" using Suc.prems(2) by simp
    ultimately show ?thesis using step True c(2) by (auto simp add: add.commute add.left_commute)
  next
    case False
    then have "\<not> (?at \<noteq> cur) \<or> 64 - q = 1 \<and> q + 1 = 64" using Suc.prems(2) by auto
    then show ?thesis using step False c(2) by auto
  qed
qed

section \<open>Properties\<close>

text \<open>C22: receiving a burst. When the controller has filled \<open>k\<close> entries of the status ring from the driver's position on, each
  with a frame of 60 to 1518 bytes in a buffer outside the heap, and the heap has room, the interrupt handler queues exactly
  \<open>k\<close> new packets with the bytes of these frames in front of those already queued (the last frame first), moves its position
  behind them, wrapping at the end of the ring, and gives exactly \<open>k\<close> descriptors back to the controller.\<close>

theorem ethernet_burst_received:
  assumes "rx_inv B s live xs fs" and "ed_rx_last s < 64" and "0 < k" and "k \<le> 64" and "length live + 2 * k \<le> 128"
    and "\<And>j. j < k \<Longrightarrow> rx_good B s ((ed_rx_last s + j) mod 64)"
    and "inl b RXStsQCurAdd (ed_dev s) = (ed_rx_sts_at s + 8 * of_nat ((ed_rx_last s + k) mod 64), d)"
  shows "\<exists>s' live' ps. process_rx_queue b s = Inr s'
    \<and> rx_inv B s' live' (ps @ xs) (rev (map (\<lambda>j. rx_bytes_at s ((ed_rx_last s + j) mod 64)) [0..<k]) @ fs)
    \<and> ed_rx_last s' = (ed_rx_last s + k) mod 64 \<and> ed_dev s' = outl b RXDEnq (of_nat k) (outl b RXStsEnq (of_nat k) d)"
proof -
  let ?s = "s\<lparr>ed_dev := d\<rparr>"
  have r: "rx_inv B ?s live xs fs" "\<And>j. j < k \<Longrightarrow> rx_good B ?s ((ed_rx_last ?s + j) mod 64)"
    "rx_bytes_at ?s = rx_bytes_at s"
    using assms(1,6) by (simp_all add: rx_inv_def rx_good_def rx_bytes_at_def fun_eq_iff)
  obtain s' live' ps where s': "rx_queue_loop (ed_rx_sts_at s + 8 * of_nat ((ed_rx_last s + k) mod 64)) 0 ?s = Inr (k, s')"
    "rx_inv B s' live' (ps @ xs) (rev (map (\<lambda>j. rx_bytes_at s ((ed_rx_last s + j) mod 64)) [0..<k]) @ fs)"
    "ed_rx_last s' = (ed_rx_last s + k) mod 64" "rx_same B ?s s'"
    using rx_loop_burst [OF r(1) _ assms(3) _ assms(5) r(2), of 0] assms(2,4) unfolding r(3) by (auto simp: sizeof_rx_sts_def)
  let ?s' = "on_dev (outl b RXDEnq (of_nat k)) (on_dev (outl b RXStsEnq (of_nat k)) s')"
  have "process_rx_queue b s = Inr ?s'" using assms(3,7) s'(1) by (simp add: process_rx_queue_def)
  moreover have "rx_inv B ?s' live' xs' fs' = rx_inv B s' live' xs' fs'" for xs' fs' by (simp add: rx_inv_def on_dev_def)
  ultimately show ?thesis using s'(2-4) by (intro exI [of _ ?s'] exI [of _ live'] exI [of _ ps]) (simp add: on_dev_def rx_same_def)
qed

text \<open>C25: one frame of the wrong size stops reception. When the frame at the driver's position is shorter than 60 bytes or
  longer than 1518, the handler counts it and skips it without moving on: it goes round the loop until the counter reaches
  the size of the ring (or once, when the controller is at the same entry), queues nothing, and gives that many descriptors
  back to the controller. Its position, the rings and the network are as before, so the next interrupt does the same.\<close>

theorem wrong_size_blocks_reception:
  assumes "rx_bad s" and "inl b RXStsQCurAdd (ed_dev s) = (cur, d)"
  shows "let n = (if cur = ed_rx_sts_at s + 8 * of_nat (ed_rx_last s) then 1 else 64) in \<exists>s'. process_rx_queue b s = Inr s'
    \<and> ed_net s' = ed_net s \<and> ed_rx_last s' = ed_rx_last s \<and> ed_rx_sts s' = ed_rx_sts s \<and> rx_bad s'
    \<and> st_rx_frames (ed_stats s') = st_rx_frames (ed_stats s) + of_nat n
    \<and> ed_dev s' = outl b RXDEnq (of_nat n) (outl b RXStsEnq (of_nat n) d)"
proof -
  have "rx_bad (s\<lparr>ed_dev := d\<rparr>)" using assms(1) by (simp add: rx_bad_def)
  from rx_loop_bad [OF this, of 0 cur] assms(2) show ?thesis
    using assms(1) by (auto simp: process_rx_queue_def on_dev_def Let_def sizeof_rx_sts_def rx_bad_def)
qed

end
