(* ===== verification/EthTx.thy ===== *)
theory EthTx
  imports EthRings
begin

text \<open>
  The way out: the transmit task of net/dll/eth.c over the transmit operation of the driver of arch/eth.c.
\<close>

section \<open>The driver interface\<close>

text \<open>What the transmit task does for one interface.\<close>

definition tx_one ::
  "('s \<Rightarrow> net) \<Rightarrow> ((net \<Rightarrow> net) \<Rightarrow> 's \<Rightarrow> 's) \<Rightarrow> (addr \<Rightarrow> addr \<Rightarrow> 's \<Rightarrow> 's) \<Rightarrow> 's \<Rightarrow> addr \<Rightarrow> 's" where
  "tx_one net_of upd_of xmit s e =
     (if list_empty (ps_pkts (net_of s)) (tx_queue e) then s
      else (let p = l_next (ps_pkts (net_of s) (tx_queue e))
            in xmit p e (upd_of (\<lambda>n. n\<lparr>ps_pkts := list_remove (ps_pkts n) p\<rparr>) s)))"

text \<open>The contract of a driver: its state has the network's inside, and its transmit operation leaves the table of
  interfaces alone. Then a round serves the interfaces one after the other, in the order of the list.\<close>

locale eth_driver =
  fixes net_of :: "'s \<Rightarrow> net" and upd_of :: "(net \<Rightarrow> net) \<Rightarrow> 's \<Rightarrow> 's" and xmit :: "addr \<Rightarrow> addr \<Rightarrow> 's \<Rightarrow> 's"
  assumes net_on: "net_of (upd_of f s) = f (net_of s)"
    and xmit_ifs: "n_ifs (net_of (xmit p e s)) = n_ifs (net_of s)"
begin

lemma tx_one_ifs: "n_ifs (net_of (tx_one net_of upd_of xmit s e)) = n_ifs (net_of s)"
  by (simp add: tx_one_def Let_def net_on xmit_ifs)

lemma tx_round_fold:
  assumes "chain (n_ifs (net_of s)) e es"
  shows "tx_round net_of upd_of xmit s e = Some (foldl (tx_one net_of upd_of xmit) s es)"
  using assms
proof (induction es arbitrary: s e)
  case Nil
  then show ?case by (subst tx_round.simps) simp
next
  case (Cons x es)
  let ?s = "tx_one net_of upd_of xmit s x"
  have x: "e = x" "x \<noteq> NULL" "chain (n_ifs (net_of s)) (l_next (n_ifs (net_of s) x)) es" using Cons.prems by auto
  have "tx_round net_of upd_of xmit s e = tx_round net_of upd_of xmit ?s (l_next (n_ifs (net_of ?s) x))"
    using x(1,2) by (subst tx_round.simps) (auto simp: tx_one_def Let_def)
  also have "\<dots> = Some (foldl (tx_one net_of upd_of xmit) ?s es)" by (rule Cons.IH) (simp add: tx_one_ifs x(3))
  finally show ?case by simp
qed

lemma tx_task_fold:
  assumes "chain (n_ifs (net_of s)) (l_next (n_ifs (net_of s) (n_eth_if_list (net_of s)))) es"
  shows "en_eth_tx_task net_of upd_of xmit s = Some (foldl (tx_one net_of upd_of xmit) s es)"
  unfolding en_eth_tx_task_def by (rule tx_round_fold [OF assms])

end

definition ep_xmit :: "'d bus \<Rightarrow> addr \<Rightarrow> addr \<Rightarrow> 'd eth_drv \<Rightarrow> 'd eth_drv" where
  "ep_xmit b p e s = snd (ep9301_xmit b p s)"

interpretation ep: eth_driver ed_net on_net "ep_xmit b" for b :: "'d bus"
  by unfold_locales (simp_all add: on_net_def ep_xmit_def ep9301_xmit_def Let_def on_stats_def on_dev_def upd_mem_def)

section \<open>Sending one frame\<close>

lemma xmit_frame:
  assumes heap: "heap_live B (heap_of (ed_net s)) live" and ok: "pkt_ok B (ed_net s) live p"
    and off: "off_heap B (td_TxBufAdr (ed_tx_desc s (ed_tx_next s))) (unat (pk_len (ps_pkts (ed_net s) p)))"
    and len: "pk_len (ps_pkts (ed_net s) p) \<le> 1518" and n: "ed_tx_next s < 64"
  shows "\<exists>s'. ep9301_xmit b p s = (0, s') \<and> ed_tx_next s' = (ed_tx_next s + 1) mod 64
    \<and> ps_pkts (ed_net s') = ps_pkts (ed_net s)
    \<and> (let t = (ed_tx_desc s (ed_tx_next s))\<lparr>td_EOF := True, td_BufferLength := ucast (pk_len (ps_pkts (ed_net s) p))\<rparr>
       in ed_tx_desc s' = (ed_tx_desc s)(ed_tx_next s := t) \<and> unat (td_BufferLength t) = unat (pk_len (ps_pkts (ed_net s) p))
         \<and> mem_bytes (ps_mem (ed_net s')) (td_TxBufAdr t) (unat (pk_len (ps_pkts (ed_net s) p))) = payload (ed_net s) p)
    \<and> heap_live B (heap_of (ed_net s')) (filter (\<lambda>(q, _). q \<notin> owned (ed_net s) p) live)
    \<and> ed_dev s' = outl b TXDEnq 1 (ed_dev s)"
proof -
  let ?n = "ed_net s" let ?k = "ps_pkts ?n p" let ?t = "ed_tx_desc s (ed_tx_next s)" let ?L = "unat (pk_len ?k)"
  let ?m = "memcpy (ps_mem ?n) (td_TxBufAdr ?t) (pk_data ?k) (pk_len ?k)" let ?n1 = "upd_mem (\<lambda>_. ?m) ?n"
  obtain rc s' where r: "ep9301_xmit b p s = (rc, s')" by fastforce
  have s': "ep9301_xmit b p s = (0, s')" "ed_net s' = pkt_free ?n1 p" "ed_dev s' = outl b TXDEnq 1 (ed_dev s)"
    "ed_tx_desc s' = (ed_tx_desc s)(ed_tx_next s := ?t\<lparr>td_EOF := True, td_BufferLength := ucast (pk_len ?k)\<rparr>)"
    "ed_tx_next s' = (if ed_tx_next s + 1 \<ge> 64 then 0 else ed_tx_next s + 1)"
    using len r by (auto simp: ep9301_xmit_def Let_def on_net_def on_stats_def on_dev_def TX_DESC_NUM_def RX_DESC_NUM_def upd_mem_def
      split: if_split_asm)
  have own: "owned ?n1 p = owned ?n p" by (simp only: owned_def upd_simps)
  have "?L \<le> 1518" using len by (simp add: word_le_nat_alt)
  then have L: "unat (ucast (pk_len ?k) :: 12 word) = ?L" by (simp add: unsigned_ucast_eq take_bit_nat_eq_self)
  have "apart (td_TxBufAdr ?t) ?L (pk_data ?k) ?L \<and> unat (pk_data ?k) + ?L \<le> 2 ^ 32"
  proof (cases "pk_data ?k = NULL")
    case True
    then have "pk_len ?k = 0" using ok by (simp add: pkt_ok_def Let_def)
    then show ?thesis using True by (simp add: apart_def)
  next
    case False
    note b = pkt_data_block [OF ok False]
    have "apart (pk_data ?k) ?L (td_TxBufAdr ?t) ?L"
      using off_heap_apart [OF off heap b(1)] by (rule apart_mono) (use pkt_len_le [OF ok] in auto)
    then show ?thesis using heap.blocks_fit [OF heap b(1)] pkt_len_le [OF ok] by (simp add: apart_sym)
  qed
  then have "puts_bytes (ps_mem ?n) ?m (td_TxBufAdr ?t) (payload ?n p)"
    unfolding payload_def by (intro memcpy_puts) (use off in \<open>auto simp: off_heap_def\<close>)
  moreover have "length (payload ?n p) = ?L" by (simp add: payload_def)
  ultimately have "mem_bytes ?m (td_TxBufAdr ?t) ?L = payload ?n p" using puts_bytes_read by metis
  moreover have "ps_mem (pkt_free ?n1 p) = ?m" by (simp add: pkt_free_def Let_def kfree_def)
  moreover have "heap_live B (heap_of (pkt_free ?n1 p)) (filter (\<lambda>(q, _). q \<notin> owned ?n p) live)"
    unfolding own [symmetric] by (rule pkt_free_live) (use heap pkt_ok_cong [OF _ ok, of ?n1] in simp_all)
  moreover have "ed_tx_next s' = (ed_tx_next s + 1) mod 64" using s'(5) n by (cases "ed_tx_next s = 63") auto
  ultimately show ?thesis using s' L by (simp add: Let_def)
qed

section \<open>The indices of the rings\<close>

text \<open>What happens to the driver's state: its interrupt, its operations, and, between them, anything that the rest of the
  system does to the network, the controller to the device and to the status rings.\<close>

inductive eth_step :: "'d bus \<Rightarrow> 'd eth_drv \<Rightarrow> 'd eth_drv \<Rightarrow> bool" for b where
  e_isr: "eth_isr b s = Inr s' \<Longrightarrow> eth_step b s s'"
| e_xmit: "ep9301_xmit b p s = (rc, s') \<Longrightarrow> eth_step b s s'"
| e_open: "eth_reset b nap s = Some (rc, s') \<Longrightarrow> eth_step b s s'"
| e_env: "eth_step b s (s\<lparr>ed_net := n, ed_dev := d, ed_rx_sts := rs, ed_tx_sts := ts\<rparr>)"

definition eth_wf :: "'d eth_drv \<Rightarrow> bool" where
  "eth_wf s \<longleftrightarrow> ed_rx_last s < RX_STS_NUM \<and> ed_tx_next s < TX_DESC_NUM \<and> ed_tx_last s \<le> TX_STS_NUM"

lemmas ring_sizes = RX_STS_NUM_def TX_STS_NUM_def TX_DESC_NUM_def RX_DESC_NUM_def

lemma rx_frame_wf: "rx_frame s = Inr s' \<Longrightarrow> eth_wf s \<Longrightarrow> eth_wf s'"
  by (auto simp: rx_frame_def Let_def on_stats_def eth_wf_def ring_sizes split: if_split_asm prod.split_asm sum.split_asm)

lemma rx_loop_wf: "rx_queue_loop cur q s = Inr (n, s') \<Longrightarrow> eth_wf s \<Longrightarrow> eth_wf s'"
proof (induction "RX_STS_NUM - q" arbitrary: q s n s' rule: less_induct)
  case less
  obtain s1 where s1: "rx_frame s = Inr s1"
    using less(2) by (cases "rx_frame s") (simp_all add: rx_queue_loop.simps [of cur q s] Let_def)
  have wf: "eth_wf s1" by (rule rx_frame_wf [OF s1 less(3)])
  let ?c = "ed_rx_sts_at s1 + sizeof_rx_sts * of_nat (ed_rx_last s1) \<noteq> cur \<and> q + 1 < RX_STS_NUM"
  have step: "rx_queue_loop cur q s = (if ?c then rx_queue_loop cur (q + 1) s1 else Inr (q + 1, s1))"
    by (simp add: rx_queue_loop.simps [of cur q s] s1 Let_def)
  show ?case
  proof (cases ?c)
    case True
    then have "RX_STS_NUM - (q + 1) < RX_STS_NUM - q" by linarith
    from less(1) [OF this _ wf] show ?thesis using less(2) True unfolding step by simp
  next
    case False
    then show ?thesis using less(2) wf unfolding step if_not_P [OF False] by simp
  qed
qed

lemma tx_loop_wf: "eth_wf s \<Longrightarrow> eth_wf (snd (tx_queue_loop cur q s)) \<and> ed_tx_last (snd (tx_queue_loop cur q s)) < TX_STS_NUM"
proof (induction "TX_STS_NUM - q" arbitrary: q s rule: less_induct)
  case less
  let ?s = "s\<lparr>ed_tx_last := (if ed_tx_last s + 1 > TX_STS_NUM - 1 then 0 else ed_tx_last s + 1)\<rparr>"
  let ?c = "ed_tx_sts_at ?s + sizeof_tx_sts * of_nat (ed_tx_last ?s) \<noteq> cur \<and> q + 1 < TX_STS_NUM"
  have wf: "eth_wf ?s" "ed_tx_last ?s < TX_STS_NUM" using less(2) by (auto simp: eth_wf_def ring_sizes)
  have step: "snd (tx_queue_loop cur q s) = snd (if ?c then tx_queue_loop cur (q + 1) ?s else ([], ?s))"
    by (simp add: tx_queue_loop.simps [of cur q s] Let_def split: prod.split)
  show ?case
  proof (cases ?c)
    case True
    then have "TX_STS_NUM - (q + 1) < TX_STS_NUM - q" by linarith
    from less(1) [OF this wf(1)] show ?thesis unfolding step if_P [OF True] .
  next
    case False
    then show ?thesis using wf unfolding step if_not_P [OF False] by simp
  qed
qed

lemma eth_wf_env [simp]: "eth_wf (s\<lparr>ed_dev := d\<rparr>) = eth_wf s" "eth_wf (on_dev f s) = eth_wf s"
  by (simp_all add: eth_wf_def on_dev_def)

lemma process_rx_wf: "process_rx_queue b s = Inr s' \<Longrightarrow> eth_wf s \<Longrightarrow> eth_wf s'"
  by (auto simp: process_rx_queue_def split: prod.split_asm sum.split_asm dest!: rx_loop_wf)

lemma process_tx_wf:
  "eth_wf s \<Longrightarrow> eth_wf (snd (process_tx_queue b s)) \<and> ed_tx_last (snd (process_tx_queue b s)) < TX_STS_NUM"
  by (auto simp: process_tx_queue_def tx_loop_wf split: prod.split)

lemma eth_step_wf: "eth_step b s s' \<Longrightarrow> eth_wf s \<Longrightarrow> eth_wf s'"
proof (induction rule: eth_step.induct)
  case (e_isr s s')
  then show ?case
    by (auto simp: eth_isr_def Let_def process_tx_wf split: prod.split_asm sum.split_asm if_split_asm dest: process_rx_wf)
next
  case (e_xmit p s rc s')
  then show ?case
    by (auto simp: ep9301_xmit_def Let_def on_net_def on_stats_def on_dev_def eth_wf_def ring_sizes split: if_split_asm)
next
  case (e_open nap s rc s')
  then show ?case by (auto simp: eth_reset_def Let_def eth_wf_def split: option.split_asm)
next
  case (e_env s n d rs ts)
  then show ?case by (simp add: eth_wf_def)
qed

section \<open>Properties\<close>

text \<open>C23: a transmit round. With one interface whose queue holds \<open>p\<close> in front of \<open>xs\<close>, a round of the transmit task takes
  \<open>p\<close> off the queue. A packet of at most 1518 bytes is copied to the buffer of the next transmit descriptor, which gets its
  length and the end-of-frame mark, both its blocks go back to the heap, the ring position moves on, wrapping at 64, and one
  descriptor is enqueued; whether the controller is done with that descriptor is not asked. A longer packet is neither sent
  nor given back.\<close>

theorem ethernet_transmit_round:
  assumes heap: "heap_live B (heap_of (ed_net s)) live" and ok: "pkt_ok B (ed_net s) live p"
    and ifs: "chain (n_ifs (ed_net s)) (l_next (n_ifs (ed_net s) (n_eth_if_list (ed_net s)))) [e]"
    and q: "queued (ps_pkts (ed_net s)) (tx_queue e) (p # xs)" and n: "ed_tx_next s < 64"
    and off: "off_heap B (td_TxBufAdr (ed_tx_desc s (ed_tx_next s))) (unat (pk_len (ps_pkts (ed_net s) p)))"
  shows "\<exists>s'. en_eth_tx_task ed_net on_net (ep_xmit b) s = Some s' \<and> queued (ps_pkts (ed_net s')) (tx_queue e) xs
    \<and> (if pk_len (ps_pkts (ed_net s) p) \<le> 1518
       then ed_tx_next s' = (ed_tx_next s + 1) mod 64 \<and> ed_dev s' = outl b TXDEnq 1 (ed_dev s)
         \<and> (let t = (ed_tx_desc s (ed_tx_next s))\<lparr>td_EOF := True, td_BufferLength := ucast (pk_len (ps_pkts (ed_net s) p))\<rparr>
       in ed_tx_desc s' = (ed_tx_desc s)(ed_tx_next s := t) \<and> unat (td_BufferLength t) = unat (pk_len (ps_pkts (ed_net s) p))
         \<and> mem_bytes (ps_mem (ed_net s')) (td_TxBufAdr t) (unat (pk_len (ps_pkts (ed_net s) p))) = payload (ed_net s) p)
         \<and> heap_live B (heap_of (ed_net s')) (filter (\<lambda>(q, _). q \<notin> owned (ed_net s) p) live)
       else heap_of (ed_net s') = heap_of (ed_net s) \<and> ed_dev s' = ed_dev s)"
proof -
  let ?s = "on_net (\<lambda>n. n\<lparr>ps_pkts := list_remove (ps_pkts n) p\<rparr>) s"
  note pop = queued_pop [OF q]
  have task: "en_eth_tx_task ed_net on_net (ep_xmit b) s = Some (snd (ep9301_xmit b p ?s))"
    using ep.tx_task_fold [OF ifs, of b] pop(2,3) by (simp add: tx_one_def Let_def ep_xmit_def list_empty_def)
  have sel: "ed_tx_desc ?s = ed_tx_desc s" "ed_tx_next ?s = ed_tx_next s" "heap_of (ed_net ?s) = heap_of (ed_net s)"
    "ed_dev ?s = ed_dev s" "pk_len (ps_pkts (ed_net ?s) p) = pk_len (ps_pkts (ed_net s) p)"
    "payload (ed_net ?s) p = payload (ed_net s) p" "owned (ed_net ?s) p = owned (ed_net s) p"
    "queued (ps_pkts (ed_net ?s)) (tx_queue e) xs"
    using pop(1) by (simp_all add: on_net_def list_remove_pkt payload_def owned_def)
  have ok': "pkt_ok B (ed_net ?s) live p" using ok by (simp add: on_net_def pkt_ok_def Let_def list_remove_pkt)
  show ?thesis
  proof (cases "pk_len (ps_pkts (ed_net s) p) \<le> 1518")
    case True
    have "heap_live B (heap_of (ed_net ?s)) live" "ed_tx_next ?s < 64" "pk_len (ps_pkts (ed_net ?s) p) \<le> 1518"
      "off_heap B (td_TxBufAdr (ed_tx_desc ?s (ed_tx_next ?s))) (unat (pk_len (ps_pkts (ed_net ?s) p)))"
      using heap n off True by (simp_all add: sel)
    from xmit_frame [OF this(1) ok' this(4,3,2), of b] obtain s' where
      s': "ep9301_xmit b p ?s = (0, s')" "ed_tx_next s' = (ed_tx_next s + 1) mod 64" "ps_pkts (ed_net s') = ps_pkts (ed_net ?s)"
      "let t = (ed_tx_desc s (ed_tx_next s))\<lparr>td_EOF := True, td_BufferLength := ucast (pk_len (ps_pkts (ed_net s) p))\<rparr>
       in ed_tx_desc s' = (ed_tx_desc s)(ed_tx_next s := t) \<and> unat (td_BufferLength t) = unat (pk_len (ps_pkts (ed_net s) p))
         \<and> mem_bytes (ps_mem (ed_net s')) (td_TxBufAdr t) (unat (pk_len (ps_pkts (ed_net s) p))) = payload (ed_net s) p"
      "heap_live B (heap_of (ed_net s')) (filter (\<lambda>(q, _). q \<notin> owned (ed_net s) p) live)"
      "ed_dev s' = outl b TXDEnq 1 (ed_dev s)"
      unfolding sel by blast
    then show ?thesis using task True sel(8) by (intro exI [of _ s']) simp
  next
    case False
    then have "ep9301_xmit b p ?s = (- 1, ?s)" using sel(5) by (simp add: ep9301_xmit_def Let_def)
    then show ?thesis using task sel(3,4,8) False by (intro exI [of _ ?s]) simp
  qed
qed

text \<open>C26: the ring positions stay well typed. From the static initial values of the program, through any sequence of
  interrupts, transmissions, openings of the device and changes of the rest of the system, the receive and transmit positions
  index entries of their rings; the transmit status position is at most one past the end, where it starts, so the first
  transmit interrupt looks at the memory behind the array, and is inside the ring after it.\<close>

theorem eth_positions_in_rings:
  assumes "(eth_step b)\<^sup>*\<^sup>* s0 s" and "ed_rx_last s0 = 0" and "ed_tx_next s0 = 0" and "ed_tx_last s0 = 64"
  shows "ed_rx_last s < 64 \<and> ed_tx_next s < 64 \<and> ed_tx_last s \<le> 64 \<and> ed_tx_last (snd (process_tx_queue b s)) < 64"
proof -
  have "eth_wf s0" using assms(2-4) by (simp add: eth_wf_def ring_sizes)
  with assms(1) have wf: "eth_wf s" by (induction rule: rtranclp_induct) (auto intro: eth_step_wf)
  show ?thesis using wf process_tx_wf [OF wf, of b] by (simp add: eth_wf_def ring_sizes)
qed

end
