(* ===== verification/Routes.thy ===== *)
theory Routes
  imports NetExample
begin

text \<open>
  The routing table of net/trans/ip.c: what a lookup returns, what can be added, and what deleting a route does to the list.
\<close>

section \<open>Lookup\<close>

definition rt_match :: "u32 \<Rightarrow> en_ip_route \<Rightarrow> bool" where
  "rt_match dst r \<longleftrightarrow> dst AND rt_netmask r = rt_dst r"

text \<open>The scan is a left fold over the table.\<close>

definition better :: "(addr \<Rightarrow> en_ip_route) \<Rightarrow> u32 \<Rightarrow> addr \<Rightarrow> addr \<Rightarrow> addr" where
  "better h dst best p =
     (if rt_match dst (h p) \<and> (best = NULL \<or> rt_metric (h p) < rt_metric (h best)) then p else best)"

lemma route_scan_fold: "chain h p xs \<Longrightarrow> route_scan h dst p best = Some (foldl (better h dst) best xs)"
proof (induction xs arbitrary: p best)
  case Nil
  then show ?case by (subst route_scan.simps) simp
next
  case (Cons x xs)
  have "route_scan h dst p best = route_scan h dst (l_next (h x)) (better h dst best x)"
    using Cons.prems by (subst route_scan.simps) (auto simp: better_def rt_match_def)
  then show ?case using Cons by simp
qed

text \<open>What the fold has found after a prefix \<open>xs\<close>: the first of the matching routes of least metric.\<close>

definition best_of :: "(addr \<Rightarrow> en_ip_route) \<Rightarrow> u32 \<Rightarrow> addr list \<Rightarrow> addr \<Rightarrow> bool" where
  "best_of h dst xs r \<longleftrightarrow>
     (if r = NULL then \<forall>x\<in>set xs. \<not> rt_match dst (h x)
      else rt_match dst (h r) \<and> (\<exists>us vs. xs = us @ r # vs
        \<and> (\<forall>u\<in>set us. rt_match dst (h u) \<longrightarrow> rt_metric (h r) < rt_metric (h u))
        \<and> (\<forall>v\<in>set vs. rt_match dst (h v) \<longrightarrow> rt_metric (h r) \<le> rt_metric (h v))))"

lemma best_of_step:
  assumes b: "best_of h dst xs r" and x: "x \<noteq> NULL"
  shows "best_of h dst (xs @ [x]) (better h dst r x)"
proof (cases "rt_match dst (h x) \<and> (r = NULL \<or> rt_metric (h x) < rt_metric (h r))")
  case True
  have lt: "rt_metric (h x) < rt_metric (h u)" if u: "u \<in> set xs" "rt_match dst (h u)" for u
  proof (cases "r = NULL")
    case True
    then show ?thesis using b u by (simp add: best_of_def)
  next
    case False
    then obtain us vs where uv: "xs = us @ r # vs" "\<And>w. w \<in> set us \<Longrightarrow> rt_match dst (h w) \<Longrightarrow> rt_metric (h r) < rt_metric (h w)"
      "\<And>w. w \<in> set vs \<Longrightarrow> rt_match dst (h w) \<Longrightarrow> rt_metric (h r) \<le> rt_metric (h w)"
      using b unfolding best_of_def by auto
    have "rt_metric (h r) \<le> rt_metric (h u)" using u uv by (auto intro: less_imp_le)
    then show ?thesis using True False by auto
  qed
  have "better h dst r x = x" using True by (simp add: better_def)
  moreover have "best_of h dst (xs @ [x]) x"
    unfolding best_of_def if_not_P [OF x] by (intro conjI exI [of _ xs] exI [of _ "[]"]) (use True lt in auto)
  ultimately show ?thesis by simp
next
  case False
  then have be: "better h dst r x = r" unfolding better_def by (rule if_not_P)
  show ?thesis
  proof (cases "r = NULL")
    case True
    then show ?thesis using False b be by (auto simp: best_of_def)
  next
    case rn: False
    then obtain us vs where uv: "xs = us @ r # vs" "\<forall>w\<in>set us. rt_match dst (h w) \<longrightarrow> rt_metric (h r) < rt_metric (h w)"
      "\<forall>w\<in>set vs. rt_match dst (h w) \<longrightarrow> rt_metric (h r) \<le> rt_metric (h w)" "rt_match dst (h r)"
      using b unfolding best_of_def by auto
    have "\<forall>w\<in>set (vs @ [x]). rt_match dst (h w) \<longrightarrow> rt_metric (h r) \<le> rt_metric (h w)"
      using uv(3) False rn by (auto simp: not_less)
    moreover have "xs @ [x] = us @ r # (vs @ [x])" using uv(1) by simp
    ultimately show ?thesis unfolding be best_of_def if_not_P [OF rn] using uv(2,4) by blast
  qed
qed

lemma best_of_fold:
  "NULL \<notin> set ys \<Longrightarrow> best_of h dst xs r \<Longrightarrow> best_of h dst (xs @ ys) (foldl (better h dst) r ys)"
proof (induction ys arbitrary: xs r)
  case (Cons y ys)
  then have "best_of h dst (xs @ [y]) (better h dst r y)" by (intro best_of_step) auto
  with Cons.IH [of "xs @ [y]" "better h dst r y"] Cons.prems show ?case by simp
qed simp

section \<open>The table as a list of routes\<close>

text \<open>\<open>routes_of s xs\<close>: the table holds the routes \<open>xs\<close>; every one was put in by \<open>list_add_after\<close>, which leaves the
  list head as its predecessor.\<close>

definition routes_of :: "net \<Rightarrow> addr list \<Rightarrow> bool" where
  "routes_of s xs \<longleftrightarrow> chain (n_routes s) (l_next (n_routes s (n_ip_route_list s))) xs
     \<and> n_ip_route_list s \<notin> set xs \<and> n_ip_route_list s \<noteq> NULL
     \<and> (\<forall>x\<in>set xs. l_prev (n_routes s x) = n_ip_route_list s)"

definition same_route :: "en_ip_route \<Rightarrow> en_ip_route \<Rightarrow> bool" where
  "same_route r n \<longleftrightarrow> rt_dst r = rt_dst n \<and> rt_netmask r = rt_netmask n \<and> rt_eth_if r = rt_eth_if n"

lemma list_add_after_route:
  "rt_dst (list_add_after h l a x) = rt_dst (h x)" "rt_netmask (list_add_after h l a x) = rt_netmask (h x)"
  "rt_metric (list_add_after h l a x) = rt_metric (h x)" "rt_eth_if (list_add_after h l a x) = rt_eth_if (h x)"
  by (simp_all add: list_add_after_def Let_def)

lemma en_ip_route_add_cases:
  assumes t: "routes_of s xs"
  shows "en_ip_route_add s n =
    (if \<exists>x\<in>set xs. same_route (n_routes s x) (n_routes s n) then Some (- 1, s)
     else Some (0, s\<lparr>n_routes := list_add_after (n_routes s) (n_ip_route_list s) n\<rparr>))"
proof -
  let ?P = "\<lambda>rt. rt_dst rt = rt_dst (n_routes s n) \<and> rt_netmask rt = rt_netmask (n_routes s n) \<and> rt_eth_if rt = rt_eth_if (n_routes s n)"
  have c: "chain (n_routes s) (l_next (n_routes s (n_ip_route_list s))) xs" using t by (simp add: routes_of_def)
  note f = list_find_chain [OF c, of ?P]
  show ?thesis
  proof (cases "find (\<lambda>x. ?P (n_routes s x)) xs")
    case None
    then have "\<not> (\<exists>x\<in>set xs. same_route (n_routes s x) (n_routes s n))" by (auto simp: find_None_iff same_route_def)
    then show ?thesis using f None by (simp add: en_ip_route_add_def Let_def)
  next
    case (Some y)
    then have "\<exists>x\<in>set xs. same_route (n_routes s x) (n_routes s n)" by (auto simp: find_Some_iff same_route_def)
    moreover have "y \<noteq> NULL" by (rule find_not_null [OF Some c])
    ultimately show ?thesis using f Some by (simp add: en_ip_route_add_def Let_def)
  qed
qed

lemma routes_of_add:
  assumes "routes_of s xs" and "n \<notin> set xs" and "n \<noteq> NULL" and "n \<noteq> n_ip_route_list s"
  shows "routes_of (s\<lparr>n_routes := list_add_after (n_routes s) (n_ip_route_list s) n\<rparr>) (n # xs)"
proof -
  have "chain (list_add_after (n_routes s) (n_ip_route_list s) n)
      (l_next (list_add_after (n_routes s) (n_ip_route_list s) n (n_ip_route_list s))) (n # xs)"
    by (rule list_add_after_chain) (use assms in \<open>auto simp: routes_of_def\<close>)
  then show ?thesis using assms by (auto simp: routes_of_def step_simps)
qed

lemma routes_of_del:
  assumes "routes_of s (us @ x # vs)"
  shows "routes_of (en_ip_route_del s x) vs"
proof -
  let ?h = "n_routes s" and ?l = "n_ip_route_list s"
  have c: "chain ?h x (x # vs)" using assms chain_tail_subset unfolding routes_of_def by blast
  then have nx: "chain ?h (l_next (?h x)) vs" by simp
  have l: "?l \<notin> set (x # vs)" "?l \<noteq> NULL" "l_prev (?h x) = ?l" using assms by (auto simp: routes_of_def)
  have d: "distinct (x # vs)" by (rule chain_distinct [OF c])
  have next': "l_next (list_remove ?h x y) = (if y = ?l then l_next (?h x) else l_next (?h y))" for y
    using l by (auto simp: list_remove_def Let_def)
  have prev': "l_prev (list_remove ?h x y) = (if y = l_next (?h x) \<and> y \<noteq> NULL then ?l else l_prev (?h y))" for y
    using l by (auto simp: list_remove_def Let_def)
  have "chain (list_remove ?h x) (l_next (?h x)) vs"
    using nx by (rule chain_cong [THEN iffD1, rotated]) (use l in \<open>auto simp: next'\<close>)
  then show ?thesis using assms l by (auto simp: routes_of_def en_ip_route_del_def next' prev')
qed

section \<open>Properties\<close>

text \<open>C17: route lookup always returns, with the first route of least metric among those that match the destination, and with
  \<open>NULL\<close> exactly when none matches.\<close>

theorem route_lookup_best:
  assumes "chain (n_routes s) (l_next (n_routes s (n_ip_route_list s))) xs"
  shows "\<exists>r. en_ip_route_lookup s dst = Some r \<and> best_of (n_routes s) dst xs r"
proof -
  have "NULL \<notin> set xs" using chain_mem_nonnull [OF assms] by blast
  then have "best_of (n_routes s) dst xs (foldl (better (n_routes s) dst) NULL xs)"
    using best_of_fold [of xs "n_routes s" dst "[]" NULL] by (simp add: best_of_def)
  then show ?thesis by (simp add: en_ip_route_lookup_def route_scan_fold [OF assms])
qed

text \<open>C18: the routing table. A route with the destination, mask and interface of one in the table is refused; any other is
  put in front. Deleting a route also drops every route added after it: \<open>list_add_after\<close> does not set the predecessor of the
  old first node, so \<open>list_remove\<close> links the list head to the successor of the removed route.\<close>

theorem route_table_ops:
  assumes "routes_of s (us @ x # vs)" and "n \<notin> set (us @ x # vs)" and "n \<noteq> NULL" and "n \<noteq> n_ip_route_list s"
  shows "(if \<exists>y\<in>set (us @ x # vs). same_route (n_routes s y) (n_routes s n) then en_ip_route_add s n = Some (- 1, s)
      else \<exists>s'. en_ip_route_add s n = Some (0, s') \<and> routes_of s' (n # us @ x # vs)
        \<and> (\<forall>y. rt_dst (n_routes s' y) = rt_dst (n_routes s y) \<and> rt_metric (n_routes s' y) = rt_metric (n_routes s y)))
    \<and> routes_of (en_ip_route_del s x) vs"
  using en_ip_route_add_cases [OF assms(1), of n] routes_of_add [OF assms] routes_of_del [OF assms(1)]
  by (auto simp: list_add_after_route)

section \<open>Witnesses\<close>

text \<open>Two routes to one network in front of a route to another; the second of the two has the smaller metric.\<close>

definition route_ex :: "addr \<Rightarrow> addr \<Rightarrow> en_ip_route" where
  "route_ex e x = \<lparr>l_next = (if x = 1 then 2 else if x = 2 then 3 else if x = 3 then 4 else NULL), l_prev = 1,
     rt_dst = (if x = 4 then 0x0A010000 else 0x0A000000), rt_netmask = 0xFFFF0000, rt_gw = 0, rt_flags = 1,
     rt_metric = (if x = 2 then 5 else 3), rt_eth_if = x\<rparr>"

theorem route_lookup_best_witness:
  "\<exists>s :: net. en_ip_route_lookup s 0x0A000007 = Some 3"
proof -
  obtain s :: net and live p where s: "n_routes s = route_ex p" "n_ip_route_list s = 1"
    by (rule example_net [of "[]" "[]" 0 undefined route_ex]) auto
  have c: "chain (n_routes s) (l_next (n_routes s (n_ip_route_list s))) [2, 3, 4]" by (simp add: s route_ex_def)
  obtain r where r: "en_ip_route_lookup s 0x0A000007 = Some r" "best_of (n_routes s) 0x0A000007 [2, 3, 4] r"
    using route_lookup_best [OF c] by blast
  have m: "rt_match 0x0A000007 (route_ex p 2)" "rt_match 0x0A000007 (route_ex p 3)" "\<not> rt_match 0x0A000007 (route_ex p 4)"
    by (simp_all add: rt_match_def route_ex_def)
  have "r = 3"
    using r(2) m unfolding best_of_def s
    by (auto simp: Cons_eq_append_conv route_ex_def split: if_splits)
  then show ?thesis using r(1) by blast
qed

theorem route_table_ops_witness:
  "\<exists>s :: net. routes_of s [2, 3, 4] \<and> routes_of (en_ip_route_del s 3) [4] \<and> (\<exists>s'. en_ip_route_add s 5 = Some (0, s'))"
proof -
  obtain s :: net and live p where s: "n_routes s = route_ex p" "n_ip_route_list s = 1"
    by (rule example_net [of "[]" "[]" 0 undefined route_ex]) auto
  have t: "routes_of s ([2] @ 3 # [4])" by (simp add: routes_of_def s route_ex_def)
  have "\<not> (\<exists>y\<in>set ([2] @ 3 # [4]). same_route (n_routes s y) (n_routes s 5))" by (simp add: s same_route_def route_ex_def)
  then show ?thesis using route_table_ops [OF t, of 5] t by (auto simp: s)
qed

end
