(* ===== verification/EthInit.thy ===== *)
theory EthInit
  imports EthTx Routes
begin

text \<open>
  What \<open>ep9301_eth_init\<close> (arch/eth.c) sets up: the descriptor rings and their buffers, the interface, its address and the
  route to the local network.
\<close>

section \<open>Buffers\<close>

lemma off_heap_above:
  assumes "heap_ok B" and "B + 2097988 \<le> unat a" and "unat a + n < 2 ^ 32"
  shows "off_heap B a n"
proof -
  have "unat (caddr B i k) + csize i \<le> unat a" if "i < 9" "k < 128" for i k
  proof -
    have "cpos B i (k + 1) \<le> B + 2097988" by (rule cpos_bound(1) [OF assms(1)]) (use that in auto)
    then show ?thesis using unat_caddr [OF assms(1), of i k] that assms(2) by (simp add: cpos_def)
  qed
  then show ?thesis using assms(3) by (auto simp: off_heap_def chunks_def ALLOC_NUM_def apart_def)
qed

lemma smalloc_room:
  assumes "unat (heap_start m) \<le> unat (heap_cur m)" and "unat (heap_cur m) + unat sz \<le> unat (heap_start m) + unat (heap_size m)"
    and "unat (heap_start m) + unat (heap_size m) < 2 ^ 32" and "heap_cur m mod 4 = 0" and "sz mod 4 = 0"
  shows "smalloc m sz = (heap_cur m, m\<lparr>heap_cur := heap_cur m + sz\<rparr>)"
proof -
  have "unat (heap_size m - (heap_cur m - heap_start m)) = unat (heap_size m) - (unat (heap_cur m) - unat (heap_start m))"
    using assms(1-3) by (simp add: unat_sub word_le_nat_alt)
  then have "sz \<le> heap_size m - (heap_cur m - heap_start m)" using assms(1-3) by (simp add: word_le_nat_alt)
  moreover have "unat (heap_cur m + sz) = unat (heap_cur m) + unat sz"
    using assms(2,3) by (subst unat_add_lem [THEN iffD1]) auto
  moreover have "unat (heap_cur m) mod 4 = 0" "unat sz mod 4 = 0"
    using arg_cong [OF assms(4), of unat] arg_cong [OF assms(5), of unat] by (simp_all add: unat_mod)
  ultimately show ?thesis by (simp add: smalloc_def Let_def unat_eq_0 [symmetric] unat_mod mod_add_eq [symmetric])
qed

lemma live_ok_cur: "live_ok B (m\<lparr>heap_cur := c\<rparr>, live) \<longleftrightarrow> live_ok B (m, live)"
  by (simp add: live_ok_def mem_ok_def free_list_def)

section \<open>Rings\<close>

lemma init_tx_ring_eq: "init_tx_ring s = s\<lparr>ed_tx_desc := (\<lambda>i. if i < 64
    then tx_desc_zero\<lparr>td_TxBufAdr := ed_tx_buf s + of_nat (1520 * i), td_BufferIndex := of_nat i\<rparr> else ed_tx_desc s i)\<rparr>"
proof -
  let ?F = "\<lambda>s i. s\<lparr>ed_tx_desc := (ed_tx_desc s)(i := (ed_tx_desc s i)\<lparr>
               td_TxBufAdr := ed_tx_buf s + of_nat (TX_BUF_SIZE * i), td_BufferIndex := of_nat i\<rparr>)\<rparr>"
  have "foldl ?F t [0..<n] = t\<lparr>ed_tx_desc := (\<lambda>i. if i < n
      then (ed_tx_desc t i)\<lparr>td_TxBufAdr := ed_tx_buf t + of_nat (TX_BUF_SIZE * i), td_BufferIndex := of_nat i\<rparr> else ed_tx_desc t i)\<rparr>"
    for n and t :: "'a eth_drv"
  proof (induction n)
    case (Suc n)
    then show ?case by (auto simp: fun_eq_iff less_Suc_eq intro!: arg_cong [where f = "\<lambda>d. t\<lparr>ed_tx_desc := d\<rparr>"])
  qed simp
  then show ?thesis
    by (simp add: init_tx_ring_def TX_DESC_NUM_def RX_DESC_NUM_def TX_BUF_SIZE_def RX_BUF_SIZE_def cong: if_cong del: upt_Suc upt_conv_Cons)
qed

lemma init_rx_ring_eq: "init_rx_ring s = s\<lparr>ed_rx_desc := (\<lambda>i. if i < 64
    then rx_desc_zero\<lparr>rd_RxBufAdr := ed_rx_buf s + of_nat (1520 * i), rd_BufferIndex := of_nat i, rd_BufferLength := 1520\<rparr>
    else ed_rx_desc s i)\<rparr>"
proof -
  let ?F = "\<lambda>s i. s\<lparr>ed_rx_desc := (ed_rx_desc s)(i := (ed_rx_desc s i)\<lparr>
               rd_RxBufAdr := ed_rx_buf s + of_nat (RX_BUF_SIZE * i), rd_BufferIndex := of_nat i,
               rd_BufferLength := of_nat RX_BUF_SIZE\<rparr>)\<rparr>"
  have "foldl ?F t [0..<n] = t\<lparr>ed_rx_desc := (\<lambda>i. if i < n then (ed_rx_desc t i)\<lparr>rd_RxBufAdr := ed_rx_buf t + of_nat (RX_BUF_SIZE * i),
        rd_BufferIndex := of_nat i, rd_BufferLength := of_nat RX_BUF_SIZE\<rparr> else ed_rx_desc t i)\<rparr>"
    for n and t :: "'a eth_drv"
  proof (induction n)
    case (Suc n)
    then show ?case by (auto simp: fun_eq_iff less_Suc_eq intro!: arg_cong [where f = "\<lambda>d. t\<lparr>ed_rx_desc := d\<rparr>"])
  qed simp
  then show ?thesis
    by (simp add: init_rx_ring_def RX_DESC_NUM_def RX_BUF_SIZE_def cong: if_cong del: upt_Suc upt_conv_Cons)
qed

section \<open>Address and route\<close>

lemma kalloc_room:
  assumes "live_ok B (heap_of n, live)" and "length live < 128" and "unat sz \<le> 32"
  obtains p m where "kalloc n sz = (p, n\<lparr>ps_kern := (ps_kern n)\<lparr>k_mem := m\<rparr>\<rparr>)" "p \<noteq> NULL" "live_ok B (m, (p, sz) # live)"
proof -
  obtain p m where m: "malloc (heap_of n) sz = (p, m)" by fastforce
  have p: "p \<noteq> NULL"
    by (rule malloc_succeeds [OF assms(1,2) _ _ m, of 0]) (use assms(3) in \<open>simp_all add: csize_eq\<close>)
  show thesis
    by (rule that [of p m]) (use m p live_ok_malloc [OF assms(1) m p] in \<open>simp_all add: kalloc_def\<close>)
qed

text \<open>Where the structures of the stack are told apart from heap blocks: a list head outside the heap.\<close>

definition head_ok :: "nat \<Rightarrow> addr \<Rightarrow> bool" where
  "head_ok B l \<longleftrightarrow> l \<noteq> NULL \<and> (\<forall>i<9. l \<notin> set (chunks B i))"

lemma head_fresh: "head_ok B l \<Longrightarrow> live_ok B (m, (p, k) # live) \<Longrightarrow> p \<noteq> l"
  by (auto simp: head_ok_def live_ok_def)

lemma eth_init_addrs_ok:
  assumes heap: "live_ok B (heap_of (ed_net s), live)" and room: "length live < 127"
    and heads: "head_ok B (ip_addrs (ed_if s))" "head_ok B (n_ip_route_list (ed_net s))"
    and ips: "l_next (n_ips (ed_net s) (ip_addrs (ed_if s))) = NULL" and rts: "routes_of (ed_net s) []"
  shows "\<exists>s' d rt k i r t m live'. eth_init_addrs s = Some s' \<and> s' = s\<lparr>ed_net := (ed_net s)\<lparr>ps_kern := k, n_ips := i, n_routes := r\<rparr>, ed_task := t\<rparr>
    \<and> en_eth_ip_lookup (ed_net s') (ed_if s) 0xC0A80063 = Some d \<and> d \<noteq> NULL
    \<and> routes_of (ed_net s') [rt] \<and> rt_dst (r rt) = 0xC0A80000 \<and> rt_netmask (r rt) = 0xFFFFFF00 \<and> rt_eth_if (r rt) = ed_if s
    \<and> spawn ((ps_kern (ed_net s))\<lparr>k_mem := m\<rparr>) (ed_task_at s) eth_task_name PROC_SYSTEM = (t, k)
    \<and> live_ok B (m, live') \<and> fst ` set live \<subseteq> fst ` set live' \<and> length live' = length live + 2"
proof -
  let ?n = "ed_net s" let ?q = "ip_addrs (ed_if s)" let ?l = "n_ip_route_list ?n"
  have sz: "unat sizeof_ip_desc \<le> 32" "unat sizeof_en_ip_route \<le> 32" by (simp_all add: sizeof_ip_desc_def sizeof_en_ip_route_def)
  obtain d m1 where d: "kalloc ?n sizeof_ip_desc = (d, ?n\<lparr>ps_kern := (ps_kern ?n)\<lparr>k_mem := m1\<rparr>\<rparr>)" "d \<noteq> NULL"
    "live_ok B (m1, (d, sizeof_ip_desc) # live)" by (rule kalloc_room [OF heap _ sz(1)]) (use room in auto)
  have dq: "d \<noteq> ?q" by (rule head_fresh [OF heads(1) d(3)])
  let ?i0 = "(n_ips ?n)(d := ipd_zero\<lparr>ipd_addr := push_bit 24 192 OR push_bit 16 168 OR 0 OR 99\<rparr>)"
  let ?i = "list_add_after ?i0 ?q d" let ?n1 = "?n\<lparr>ps_kern := (ps_kern ?n)\<lparr>k_mem := m1\<rparr>, n_ips := ?i\<rparr>"
  have "live_ok B (heap_of ?n1, (d, sizeof_ip_desc) # live)" using d(3) by simp
  from kalloc_room [OF this _ sz(2)] room obtain rt m2 where
    rt0: "kalloc ?n1 sizeof_en_ip_route = (rt, ?n1\<lparr>ps_kern := (ps_kern ?n1)\<lparr>k_mem := m2\<rparr>\<rparr>)"
    "rt \<noteq> NULL" "live_ok B (m2, (rt, sizeof_en_ip_route) # (d, sizeof_ip_desc) # live)" by auto
  let ?k2 = "(ps_kern ?n)\<lparr>k_mem := m2\<rparr>"
  have rt: "kalloc ?n1 sizeof_en_ip_route = (rt, ?n1\<lparr>ps_kern := ?k2\<rparr>)" using rt0(1) by simp
  have rl: "rt \<noteq> ?l" by (rule head_fresh [OF heads(2) rt0(3)])
  let ?r0 = "(n_routes ?n)(rt := (n_routes ?n rt)\<lparr>rt_dst := push_bit 24 192 OR push_bit 16 168, rt_netmask := 0xFFFFFF00,
     rt_gw := 0, rt_flags := 1, rt_metric := 1, rt_eth_if := ed_if s\<rparr>)"
  let ?n3 = "?n1\<lparr>ps_kern := ?k2, n_routes := ?r0\<rparr>" let ?r = "list_add_after ?r0 ?l rt"
  have t3: "routes_of ?n3 []" using rts rl by (simp add: routes_of_def)
  have add: "en_ip_route_add ?n3 rt = Some (0, ?n3\<lparr>n_routes := ?r\<rparr>)" using en_ip_route_add_cases [OF t3, of rt] by simp
  have rts': "routes_of (?n3\<lparr>n_routes := ?r\<rparr>) [rt]" using routes_of_add [OF t3, of rt] rt0(2) rl by simp
  obtain p k3 where sp: "spawn ?k2 (ed_task_at s) eth_task_name PROC_SYSTEM = (p, k3)" by fastforce
  let ?s' = "s\<lparr>ed_net := ?n\<lparr>ps_kern := k3, n_ips := ?i, n_routes := ?r\<rparr>, ed_task := p\<rparr>"
  have "eth_init_addrs s = Some ?s'"
    using d(1,2) rt rt0(2) add sp by (simp add: eth_init_addrs_def Let_def eth_init_task_def on_net_def)
  moreover have "chain ?i (l_next (?i ?q)) [d]" by (rule list_add_after_chain) (use ips dq d(2) in auto)
  then have "en_eth_ip_lookup (ed_net ?s') (ed_if s) 0xC0A80063 = Some d"
    using list_find_chain [of ?i "l_next (?i ?q)" "[d]" "\<lambda>x. ipd_addr x = 0xC0A80063"]
    by (simp add: en_eth_ip_lookup_def list_add_after_def Let_def)
  moreover have "routes_of (ed_net ?s') [rt]" using rts' by (simp add: routes_of_def)
  moreover have "rt_dst (?r rt) = 0xC0A80000" "rt_netmask (?r rt) = 0xFFFFFF00" "rt_eth_if (?r rt) = ed_if s"
    by (simp_all add: list_add_after_route)
  ultimately show ?thesis using d(2) sp rt0(3)
    by (intro exI [of _ ?s'] exI [of _ d] exI [of _ rt] exI [of _ k3] exI [of _ ?i] exI [of _ ?r] exI [of _ p] exI [of _ m2]
        exI [of _ "(rt, sizeof_en_ip_route) # (d, sizeof_ip_desc) # live"]) auto
qed

lemma read_addr_length: "length (fst (read_addr b a n d)) = n"
  by (induction n arbitrary: a d) (auto split: prod.splits, metis fst_conv)

text \<open>The buffer areas as an array of 128 buffers: those of the receive ring, then those of the transmit ring.\<close>

definition buf_addr :: "'d eth_drv \<Rightarrow> nat \<Rightarrow> addr" where
  "buf_addr s i = (if i < 64 then rd_RxBufAdr (ed_rx_desc s i) else td_TxBufAdr (ed_tx_desc s (i - 64)))"

text \<open>The whole of the initialisation, with what it leaves to the kernel.\<close>

lemma ep9301_eth_init_ok:
  assumes heap: "live_ok B (heap_of (ed_net s), live)" and room: "length live < 127"
    and area: "B + 2097988 \<le> unat (heap_cur (heap_of (ed_net s)))" "heap_cur (heap_of (ed_net s)) mod 4 = 0"
      "unat (heap_start (heap_of (ed_net s))) \<le> unat (heap_cur (heap_of (ed_net s)))"
      "unat (heap_cur (heap_of (ed_net s))) + 194560 \<le> unat (heap_start (heap_of (ed_net s))) + unat (heap_size (heap_of (ed_net s)))"
      "unat (heap_start (heap_of (ed_net s))) + unat (heap_size (heap_of (ed_net s))) < 2 ^ 32"
    and heads: "head_ok B (ip_addrs (ed_if s))" "head_ok B (n_ip_route_list (ed_net s))" and rts: "routes_of (ed_net s) []"
    and mac: "read_addr b IndAd 6 (ed_dev s) = (bs, d)"
    and ifs: "chain (n_ifs (ed_net s)) (l_next (n_ifs (ed_net s) (n_eth_if_list (ed_net s)))) es" "ed_if s \<notin> set es"
      "ed_if s \<noteq> n_eth_if_list (ed_net s)" "ed_if s \<noteq> NULL" "n_eth_if_list (ed_net s) \<notin> set es"
  shows "\<exists>s' ipd rt t m live'. ep9301_eth_init b s = Some s'
    \<and> (\<forall>i<128. off_heap B (buf_addr s' i) 1520) \<and> (\<forall>i<128. \<forall>j<128. i \<noteq> j \<longrightarrow> apart (buf_addr s' i) 1520 (buf_addr s' j) 1520)
    \<and> (\<forall>i<64. unat (rd_BufferIndex (ed_rx_desc s' i)) = i \<and> rd_BufferLength (ed_rx_desc s' i) = 1520)
    \<and> chain (n_ifs (ed_net s')) (l_next (n_ifs (ed_net s') (n_eth_if_list (ed_net s')))) (ed_if s # es)
    \<and> if_bound (n_ifs (ed_net s') (ed_if s)) \<and> take 6 (if_addr (n_ifs (ed_net s') (ed_if s))) = bs
    \<and> en_eth_ip_lookup (ed_net s') (ed_if s) 0xC0A80063 = Some ipd \<and> ipd \<noteq> NULL
    \<and> (\<forall>dst. en_ip_route_lookup (ed_net s') dst = Some (if dst AND 0xFFFFFF00 = 0xC0A80000 then rt else NULL))
    \<and> rt \<noteq> NULL \<and> rt_eth_if (n_routes (ed_net s') rt) = ed_if s
    \<and> spawn ((ps_kern (ed_net s))\<lparr>k_mem := m\<rparr>) (ed_task_at s) eth_task_name PROC_SYSTEM = (t, ps_kern (ed_net s'))
    \<and> live_ok B (m, live') \<and> fst ` set live \<subseteq> fst ` set live' \<and> length live' = length live + 2
    \<and> n_rx_completion (ed_net s') = n_rx_completion (ed_net s) \<and> ed_if s' = ed_if s"
proof -
  let ?n = "ed_net s" let ?m = "heap_of ?n" let ?c = "heap_cur ?m" let ?e = "ed_if s"
  have sm1: "smalloc ?m 97280 = (?c, ?m\<lparr>heap_cur := ?c + 97280\<rparr>)" by (rule smalloc_room) (use area in auto)
  have c1: "unat (?c + 97280) = unat ?c + 97280" using area(4,5) by (subst unat_add_lem [THEN iffD1]) auto
  have c2: "unat (?c + 97280 + 97280) = unat ?c + 194560" using area(4,5) c1 by (subst unat_add_lem [THEN iffD1]) auto
  have "unat ((?c + 97280) mod 4) = 0" using arg_cong [OF area(2), of unat] c1 by (simp add: unat_mod mod_add_left_eq [symmetric])
  then have c1m: "(?c + 97280) mod 4 = 0" by (simp add: unat_eq_0)
  have sm2: "smalloc (?m\<lparr>heap_cur := ?c + 97280\<rparr>) 97280 = (?c + 97280, ?m\<lparr>heap_cur := ?c + 97280 + 97280\<rparr>)"
    using smalloc_room [of "?m\<lparr>heap_cur := ?c + 97280\<rparr>" 97280] area c1 c1m by simp
  have B: "heap_ok B" using heap by (simp add: live_ok_def mem_ok_def)
  have nn: "?c \<noteq> 0" "?c + 97280 \<noteq> 0" using area(1) c1 by (auto simp: unat_eq_0 [symmetric])
  let ?i = "list_add_after (n_ifs ?n) (n_eth_if_list ?n) ?e"
  let ?ie = "(?i ?e)\<lparr>if_addr := bs @ drop 6 (if_addr (?i ?e)), if_bound := True\<rparr>"
  let ?n6 = "?n\<lparr>ps_kern := (ps_kern ?n)\<lparr>k_mem := ?m\<lparr>heap_cur := ?c + 97280 + 97280\<rparr>\<rparr>,
     ps_pkts := list_clear (list_clear (ps_pkts ?n) (rx_queue ?e)) (tx_queue ?e), n_ips := list_clear (n_ips ?n) (ip_addrs ?e),
     n_ifs := ?i(?e := ?ie)\<rparr>"
  let ?s6 = "init_rx_ring (init_tx_ring (s\<lparr>ed_rx_buf := ?c, ed_tx_buf := ?c + 97280\<rparr>))\<lparr>ed_dev := d, ed_net := ?n6\<rparr>"
  have init: "ep9301_eth_init b s = eth_init_addrs ?s6"
    using sm1 sm2 nn mac by (simp add: ep9301_eth_init_def ksmalloc_def Let_def en_eth_register_if_def RX_DESC_NUM_def RX_BUF_SIZE_def
        TX_DESC_NUM_def TX_BUF_SIZE_def init_rx_ring_eq init_tx_ring_eq cong: if_cong)
  have sel: "ed_net ?s6 = ?n6" "ed_if ?s6 = ?e" by (simp_all add: init_rx_ring_eq init_tx_ring_eq)
  have lo6: "live_ok B (heap_of (ed_net ?s6), live)" unfolding sel using heap by (simp add: live_ok_cur)
  have ip6: "l_next (n_ips (ed_net ?s6) (ip_addrs (ed_if ?s6))) = NULL" unfolding sel by (simp add: list_clear_def)
  have hd6: "head_ok B (ip_addrs (ed_if ?s6))" "head_ok B (n_ip_route_list (ed_net ?s6))" "routes_of (ed_net ?s6) []"
    using heads rts unfolding sel by (simp_all add: routes_of_def)
  from eth_init_addrs_ok [OF lo6 room hd6(1,2) ip6 hd6(3)] obtain s' ipd rt k i r t m live' where s': "eth_init_addrs ?s6 = Some s'"
    "s' = ?s6\<lparr>ed_net := (ed_net ?s6)\<lparr>ps_kern := k, n_ips := i, n_routes := r\<rparr>, ed_task := t\<rparr>"
    "en_eth_ip_lookup (ed_net s') (ed_if ?s6) 0xC0A80063 = Some ipd" "ipd \<noteq> NULL"
    "routes_of (ed_net s') [rt]" "rt_dst (r rt) = 0xC0A80000" "rt_netmask (r rt) = 0xFFFFFF00" "rt_eth_if (r rt) = ed_if ?s6"
    and k: "spawn ((ps_kern (ed_net ?s6))\<lparr>k_mem := m\<rparr>) (ed_task_at ?s6) eth_task_name PROC_SYSTEM = (t, k)"
    "live_ok B (m, live')" "fst ` set live \<subseteq> fst ` set live'" "length live' = length live + 2"
    by (elim exE conjE) (rule that; assumption)
  note s' = s'(1,2) s'(3) [unfolded sel(2)] s'(4-7) s'(8) [unfolded sel(2)]
  have net': "ed_net s' = ?n6\<lparr>ps_kern := k, n_ips := i, n_routes := r\<rparr>"
    "ed_rx_desc s' = ed_rx_desc ?s6" "ed_tx_desc s' = ed_tx_desc ?s6"
    unfolding s'(2) by (simp_all add: init_rx_ring_eq init_tx_ring_eq)
  have rt: "rt \<noteq> NULL" using s'(5) by (simp add: routes_of_def)
  have "chain (n_routes (ed_net s')) (l_next (n_routes (ed_net s') (n_ip_route_list (ed_net s')))) [rt]"
    using s'(5) unfolding routes_of_def by blast
  from route_scan_fold [OF this] have lookup: "en_ip_route_lookup (ed_net s') dst = Some (if dst AND 0xFFFFFF00 = 0xC0A80000 then rt else NULL)"
    for dst using s'(6,7) net'(1) by (simp add: en_ip_route_lookup_def better_def rt_match_def)
  have buf: "unat (buf_addr s' i) = unat ?c + 1520 * i" if "i < 128" for i
  proof -
    have "buf_addr s' i = ?c + of_nat (1520 * i)"
    proof (cases "i < 64")
      case True
      then show ?thesis by (simp add: buf_addr_def net' init_rx_ring_eq init_tx_ring_eq)
    next
      case False
      then obtain j where "i = 64 + j" by (metis le_iff_add not_less)
      then show ?thesis using that by (simp add: buf_addr_def net' init_rx_ring_eq init_tx_ring_eq)
    qed
    moreover have "unat (?c + of_nat (1520 * i)) = unat ?c + 1520 * i"
      by (rule unat_offset [where n = 194560]) (use that area(4,5) in linarith)+
    ultimately show ?thesis by (simp only:)
  qed
  have bs: "length bs = 6" using read_addr_length [of b IndAd 6 "ed_dev s"] mac by simp
  have ch: "chain ?i (l_next (?i (n_eth_if_list ?n))) (?e # es)"
    by (rule list_add_after_chain) (use ifs in auto)
  have nifs: "n_ifs (ed_net s') = ?i(?e := ?ie)" "n_eth_if_list (ed_net s') = n_eth_if_list ?n" by (simp_all add: net')
  have lx: "l_next ((?i(?e := ?ie)) x) = l_next (?i x)" for x by simp
  have cc: "chain (?i(?e := ?ie)) q xs = chain ?i q xs" for q xs by (rule chain_cong) simp
  show ?thesis
  proof (rule exI [of _ s'], rule exI [of _ ipd], rule exI [of _ rt], rule exI [of _ t], rule exI [of _ m], rule exI [of _ live'], intro conjI)
    show "\<forall>i<128. off_heap B (buf_addr s' i) 1520"
      using off_heap_above [OF B] buf area by auto
    show "\<forall>i<128. \<forall>j<128. i \<noteq> j \<longrightarrow> apart (buf_addr s' i) 1520 (buf_addr s' j) 1520"
      using buf by (auto simp: apart_def)
    show "\<forall>i<64. unat (rd_BufferIndex (ed_rx_desc s' i)) = i \<and> rd_BufferLength (ed_rx_desc s' i) = 1520"
      by (simp add: net' init_rx_ring_eq init_tx_ring_eq unat_of_nat take_bit_nat_eq_self)
    show "chain (n_ifs (ed_net s')) (l_next (n_ifs (ed_net s') (n_eth_if_list (ed_net s')))) (?e # es)"
      using ch by (simp only: nifs lx cc)
    show "take 6 (if_addr (n_ifs (ed_net s') ?e)) = bs" using bs by (simp add: net')
    show "rt_eth_if (n_routes (ed_net s') rt) = ?e" using s'(8) by (simp add: net')
    show "if_bound (n_ifs (ed_net s') ?e)" by (simp add: net')
    show "spawn ((ps_kern ?n)\<lparr>k_mem := m\<rparr>) (ed_task_at s) eth_task_name PROC_SYSTEM = (t, ps_kern (ed_net s'))"
      using k(1) by (simp add: net' init_rx_ring_eq init_tx_ring_eq)
    show "n_rx_completion (ed_net s') = n_rx_completion ?n" by (simp add: net')
    show "ed_if s' = ?e" unfolding s'(2) by (simp add: init_rx_ring_eq init_tx_ring_eq)
  qed (use init s'(1,3,4) lookup rt k in auto)
qed

section \<open>Properties\<close>

text \<open>C24: initialisation of the Ethernet driver. When the heap has room for the buffers and the structures, all 128 buffers of
  1520 bytes are pairwise disjoint and outside the chunks of the heap, each receive descriptor names the buffer with its own
  index and its size, the interface is the first of the list, bound to the network, with the six bytes of the address
  register as its address, owns 192.168.0.99, and every address of 192.168.0.0/24 is routed to it.\<close>

theorem ethernet_init:
  assumes heap: "live_ok B (heap_of (ed_net s), live)" and room: "length live < 127"
    and area: "B + 2097988 \<le> unat (heap_cur (heap_of (ed_net s)))" "heap_cur (heap_of (ed_net s)) mod 4 = 0"
      "unat (heap_start (heap_of (ed_net s))) \<le> unat (heap_cur (heap_of (ed_net s)))"
      "unat (heap_cur (heap_of (ed_net s))) + 194560 \<le> unat (heap_start (heap_of (ed_net s))) + unat (heap_size (heap_of (ed_net s)))"
      "unat (heap_start (heap_of (ed_net s))) + unat (heap_size (heap_of (ed_net s))) < 2 ^ 32"
    and heads: "head_ok B (ip_addrs (ed_if s))" "head_ok B (n_ip_route_list (ed_net s))" and rts: "routes_of (ed_net s) []"
    and mac: "read_addr b IndAd 6 (ed_dev s) = (bs, d)"
    and ifs: "chain (n_ifs (ed_net s)) (l_next (n_ifs (ed_net s) (n_eth_if_list (ed_net s)))) es" "ed_if s \<notin> set es"
      "ed_if s \<noteq> n_eth_if_list (ed_net s)" "ed_if s \<noteq> NULL" "n_eth_if_list (ed_net s) \<notin> set es"
  shows "\<exists>s' ipd rt. ep9301_eth_init b s = Some s'
    \<and> (\<forall>i<128. off_heap B (buf_addr s' i) 1520) \<and> (\<forall>i<128. \<forall>j<128. i \<noteq> j \<longrightarrow> apart (buf_addr s' i) 1520 (buf_addr s' j) 1520)
    \<and> (\<forall>i<64. unat (rd_BufferIndex (ed_rx_desc s' i)) = i \<and> rd_BufferLength (ed_rx_desc s' i) = 1520)
    \<and> chain (n_ifs (ed_net s')) (l_next (n_ifs (ed_net s') (n_eth_if_list (ed_net s')))) (ed_if s # es)
    \<and> if_bound (n_ifs (ed_net s') (ed_if s)) \<and> take 6 (if_addr (n_ifs (ed_net s') (ed_if s))) = bs
    \<and> en_eth_ip_lookup (ed_net s') (ed_if s) 0xC0A80063 = Some ipd \<and> ipd \<noteq> NULL
    \<and> (\<forall>dst. en_ip_route_lookup (ed_net s') dst = Some (if dst AND 0xFFFFFF00 = 0xC0A80000 then rt else NULL))
    \<and> rt \<noteq> NULL \<and> rt_eth_if (n_routes (ed_net s') rt) = ed_if s"
  using ep9301_eth_init_ok [OF assms] by blast

section \<open>Witnesses\<close>

text \<open>A device that answers every 32-bit read with one value, every byte read with zero, and logs what is written; and a
  driver on it, with the buffers at 16 MB, frames of \<open>len\<close> bytes in the status ring and the position at entry 62.\<close>

type_synonym log = "(addr \<times> u32) list"

definition log_bus :: "u32 \<Rightarrow> log bus" where
  "log_bus v = \<lparr>bus_rd8 = (\<lambda>a d. (0, d)), bus_wr8 = (\<lambda>a v d. d @ [(a, ucast v)]), bus_rd16 = (\<lambda>a d. (0, d)),
     bus_wr16 = (\<lambda>a v d. d @ [(a, ucast v)]), bus_rd32 = (\<lambda>a d. (v, d)), bus_wr32 = (\<lambda>a v d. d @ [(a, v)])\<rparr>"

definition log_drv :: "net \<Rightarrow> u16 \<Rightarrow> log eth_drv" where
  "log_drv n len = \<lparr>ed_net = n, ed_dev = [], ed_vic = (\<lambda>_. 0), ed_stats = \<lparr>st_rx_bytes = 0, st_tx_bytes = 0, st_rx_frames = 0,
     st_tx_frames = 0, st_runts = 0, st_oversized = 0\<rparr>, ed_rx_desc = (\<lambda>_. rx_desc_zero\<lparr>rd_RxBufAdr := 0x1000000\<rparr>),
     ed_rx_sts = (\<lambda>i. \<lparr>rs_Status = 0, rs_RFP_Hi = False, rs_FrameLength = len, rs_BufferIndex = of_nat i, rs_RFP_Lo = False\<rparr>),
     ed_tx_desc = (\<lambda>_. tx_desc_zero\<lparr>td_TxBufAdr := 0x1000000\<rparr>), ed_tx_sts = (\<lambda>_. \<lparr>ts_BufferIndex = 0, ts_FrameStatus = 0,
     ts_TxFP = False, ts_TxWE = True\<rparr>), ed_rx_buf = 0, ed_tx_buf = 0, ed_rx_last = 62, ed_tx_next = 63, ed_tx_last = 64,
     ed_if = 0x2000000, ed_rx_desc_at = 0x3000000, ed_rx_sts_at = 0x3001000, ed_tx_desc_at = 0x3002000, ed_tx_sts_at = 0x3003000,
     ed_task = 0, ed_isr_at = 0x100, ed_task_at = 0x200\<rparr>"

lemma log_off_heap: "off_heap 0x8000 0x1000000 n" if "n < 0x1000000"
  by (rule off_heap_above) (use that in \<open>simp_all add: heap_ok_def mem_init_heap_size_eq\<close>)

lemma head_above:
  assumes "heap_ok B" and "B + 2097988 \<le> unat l"
  shows "head_ok B l"
proof -
  have ne: "l \<noteq> caddr B i k" if "i < 9" "k < 128" for i k
  proof -
    have "cpos B i (k + 1) \<le> B + 2097988" by (rule cpos_bound(1) [OF assms(1)]) (use that in auto)
    moreover have "0 < csize i" by (simp add: csize_eq)
    moreover have "cpos B i (k + 1) = unat (caddr B i k) + csize i"
      using unat_caddr [OF assms(1), of i k] that by (simp add: cpos_def)
    ultimately have "unat (caddr B i k) < unat l" using assms(2) by linarith
    then show ?thesis by blast
  qed
  have "l \<notin> set (chunks B i)" if "i < 9" for i
  proof
    assume "l \<in> set (chunks B i)"
    then obtain k where "k < 128" "l = caddr B i k" by (auto simp: chunks_def ALLOC_NUM_def)
    then show False using ne [OF that] by blast
  qed
  moreover have "l \<noteq> 0" using assms by (auto simp: heap_ok_def)
  ultimately show ?thesis by (simp add: head_ok_def)
qed

text \<open>A burst of three frames of 60 bytes, across the end of the ring.\<close>

theorem ethernet_burst_received_witness:
  "\<exists>(s :: log eth_drv) s' p1 p2 p3. queued (ps_pkts (ed_net s)) (rx_queue (ed_if s)) [] \<and> ed_rx_last s = 62
    \<and> process_rx_queue (log_bus 0x3001008) s = Inr s' \<and> ed_rx_last s' = 1 \<and> ed_dev s' = [(RXStsEnq, 3), (RXDEnq, 3)]
    \<and> queued (ps_pkts (ed_net s')) (rx_queue (ed_if s')) [p3, p2, p1] \<and> payload (ed_net s') p1 = replicate 60 7"
proof -
  obtain n0 :: net and live p where n0: "heap_live 0x8000 (heap_of n0) live" "length live = 11"
    by (rule example_net [of "[]" "[]" 0 undefined undefined]) auto
  let ?q = "rx_queue 0x2000000"
  let ?n = "n0\<lparr>ps_kern := (ps_kern n0)\<lparr>k_bfifos := (\<lambda>_. bfifo_init 4)\<rparr>, ps_mem := (\<lambda>_. 7), ps_pkts := (\<lambda>_. pkt_zero)\<rparr>"
  let ?s = "log_drv ?n 60"
  have q: "queued (ps_pkts ?n) ?q []" by (simp add: queued_def pkt_zero_def rx_queue_def)
  have "head_ok 0x8000 ?q" by (rule head_above) (simp_all add: heap_ok_def mem_init_heap_size_eq rx_queue_def)
  then have "rx_inv 0x8000 ?s live [] []"
    using n0(1) q bfifo_init_ok [of 4] by (simp add: rx_inv_def log_drv_def wake_ready_def head_ok_def)
  moreover have "rx_good 0x8000 ?s i" for i using log_off_heap [of 60] by (simp add: rx_good_def log_drv_def rx_desc_zero_def)
  moreover have "inl (log_bus 0x3001008) RXStsQCurAdd (ed_dev ?s) = (ed_rx_sts_at ?s + 8 * of_nat ((ed_rx_last ?s + 3) mod 64), [])"
    by (simp add: inl_def log_bus_def log_drv_def)
  moreover have "length live + 2 * 3 \<le> 128" "ed_rx_last ?s < 64" using n0(2) by (simp_all add: log_drv_def)
  ultimately obtain s' live' ps where s': "process_rx_queue (log_bus 0x3001008) ?s = Inr s'"
    "rx_inv 0x8000 s' live' ps (rev (map (\<lambda>j. rx_bytes_at ?s ((ed_rx_last ?s + j) mod 64)) [0..<3]))"
    "ed_rx_last s' = (ed_rx_last ?s + 3) mod 64"
    "ed_dev s' = outl (log_bus 0x3001008) RXDEnq (of_nat 3) (outl (log_bus 0x3001008) RXStsEnq (of_nat 3) [])"
    using ethernet_burst_received [of "0x8000" ?s live "[]" "[]" 3 "log_bus 0x3001008" "[]"] unfolding append_Nil2 by auto
  have "rx_bytes_at ?s i = replicate 60 7" for i
    by (simp add: rx_bytes_at_def log_drv_def mem_bytes_def map_replicate_const)
  then have all: "list_all2 (\<lambda>x f. pkt_ok 0x8000 (ed_net s') live' x \<and> payload (ed_net s') x = f) ps (replicate 3 (replicate 60 7))"
    "queued (ps_pkts (ed_net s')) (rx_queue (ed_if s')) ps"
    using s'(2) by (simp_all add: rx_inv_def Let_def map_replicate_const)
  then obtain p3 p2 p1 where "ps = [p3, p2, p1]" "payload (ed_net s') p1 = replicate 60 7"
    by (auto simp: numeral_3_eq_3 list_all2_Cons2)
  then show ?thesis using s' all(2) q
    by (intro exI [of _ ?s] exI [of _ s'] exI [of _ p1] exI [of _ p2] exI [of _ p3]) (simp add: log_drv_def outl_def log_bus_def)
qed

theorem wrong_size_blocks_reception_witness:
  "\<exists>(s :: log eth_drv) s'. process_rx_queue (log_bus 0x3001008) s = Inr s' \<and> ed_rx_last s = 62 \<and> ed_rx_last s' = 62
    \<and> ed_dev s' = [(RXStsEnq, 64), (RXDEnq, 64)]"
proof -
  let ?s = "log_drv undefined 59"
  have "rx_bad ?s" by (simp add: rx_bad_def log_drv_def)
  moreover have "inl (log_bus 0x3001008) RXStsQCurAdd (ed_dev ?s) = (0x3001008, [])" by (simp add: inl_def log_bus_def log_drv_def)
  ultimately obtain s' where "process_rx_queue (log_bus 0x3001008) ?s = Inr s'" "ed_rx_last s' = ed_rx_last ?s"
    "ed_dev s' = outl (log_bus 0x3001008) RXDEnq 64 (outl (log_bus 0x3001008) RXStsEnq 64 [])"
    using wrong_size_blocks_reception [of ?s "log_bus 0x3001008" "0x3001008" "[]"] by (auto simp: Let_def log_drv_def)
  then show ?thesis by (intro exI [of _ ?s] exI [of _ s']) (simp add: log_drv_def outl_def log_bus_def)
qed

theorem ethernet_transmit_round_witness:
  "\<exists>(s :: log eth_drv) s'. en_eth_tx_task ed_net on_net (ep_xmit (log_bus 0)) s = Some s' \<and> ed_tx_next s = 63 \<and> ed_tx_next s' = 0
    \<and> mem_bytes (ps_mem (ed_net s')) 0x1000000 2 = [1, 2] \<and> ed_dev s' = [(TXDEnq, 1)]"
proof -
  obtain n0 :: net and live p where n0: "heap_live 0x8000 (heap_of n0) live" "pkt_ok 0x8000 n0 live p" "payload n0 p = [1, 2]"
    by (rule example_net [of "[1, 2]" "[]" 0 undefined undefined]) auto
  let ?e = "0x2000000 :: addr" let ?q = "tx_queue ?e"
  have hq: "head_ok 0x8000 ?q" by (rule head_above) (simp_all add: heap_ok_def mem_init_heap_size_eq tx_queue_def)
  have pin: "(p, sizeof_en_net_pkt) \<in> set live" using n0(2) by (simp add: pkt_ok_def)
  have pq: "p \<noteq> ?q" using off_chunks [OF n0(1) pin] hq by (auto simp: head_ok_def)
  have pn: "p \<noteq> NULL" using heap.blocks_fit [OF n0(1) pin] by simp
  let ?h0 = "(ps_pkts n0)(?q := pkt_zero)"
  have "queued ?h0 ?q []" using hq by (simp add: queued_def pkt_zero_def head_ok_def)
  then have q: "queued (list_add_after ?h0 ?q p) ?q [p]" using queued_push [of ?h0 ?q "[]" p] pq pn by simp
  let ?n = "n0\<lparr>ps_pkts := list_add_after ?h0 ?q p, n_eth_if_list := 1,
     n_ifs := (\<lambda>x. \<lparr>l_next = (if x = 1 then ?e else NULL), l_prev = NULL, if_addr = [], if_bound = True\<rparr>)\<rparr>"
  let ?s = "log_drv ?n 60"
  have len: "unat (pk_len (ps_pkts n0 p)) = 2" using arg_cong [OF n0(3), of length] by (simp add: payload_def)
  have sel: "pk_len (ps_pkts ?n p) = pk_len (ps_pkts n0 p)" "payload ?n p = [1, 2]"
    using n0(3) pq by (simp_all add: payload_def list_add_after_pkt)
  have ok: "pkt_ok 0x8000 (ed_net ?s) live p" using n0(2) pq by (simp add: log_drv_def pkt_ok_def Let_def list_add_after_pkt)
  have heap: "heap_live 0x8000 (heap_of (ed_net ?s)) live" using n0(1) by (simp add: log_drv_def)
  have ifs: "chain (n_ifs (ed_net ?s)) (l_next (n_ifs (ed_net ?s) (n_eth_if_list (ed_net ?s)))) [?e]" by (simp add: log_drv_def)
  have qs: "queued (ps_pkts (ed_net ?s)) (tx_queue ?e) [p]" using q by (simp add: log_drv_def)
  have off: "off_heap 0x8000 (td_TxBufAdr (ed_tx_desc ?s (ed_tx_next ?s))) (unat (pk_len (ps_pkts (ed_net ?s) p)))"
    using log_off_heap [of 2] len sel(1) by (simp add: log_drv_def tx_desc_zero_def)
  have n: "ed_tx_next ?s < 64" by (simp add: log_drv_def)
  have le: "pk_len (ps_pkts (ed_net ?s) p) \<le> 1518" using len sel(1) by (simp add: log_drv_def word_le_nat_alt)
  from ethernet_transmit_round [OF heap ok ifs qs n off, of "log_bus 0"] le obtain s' where
    s': "en_eth_tx_task ed_net on_net (ep_xmit (log_bus 0)) ?s = Some s'" "ed_tx_next s' = (ed_tx_next ?s + 1) mod 64"
    "ed_dev s' = outl (log_bus 0) TXDEnq 1 (ed_dev ?s)"
    "let t = (ed_tx_desc ?s (ed_tx_next ?s))\<lparr>td_EOF := True, td_BufferLength := ucast (pk_len (ps_pkts (ed_net ?s) p))\<rparr>
       in ed_tx_desc s' = (ed_tx_desc ?s)(ed_tx_next ?s := t) \<and> unat (td_BufferLength t) = unat (pk_len (ps_pkts (ed_net ?s) p))
         \<and> mem_bytes (ps_mem (ed_net s')) (td_TxBufAdr t) (unat (pk_len (ps_pkts (ed_net ?s) p))) = payload (ed_net ?s) p" by auto
  have "mem_bytes (ps_mem (ed_net s')) 0x1000000 2 = [1, 2]"
    using s'(4) len sel by (simp add: log_drv_def tx_desc_zero_def Let_def)
  then show ?thesis using s' by (intro exI [of _ ?s] exI [of _ s']) (simp add: log_drv_def outl_def log_bus_def)
qed

theorem ethernet_init_witness:
  "\<exists>(s :: log eth_drv) s' rt. ep9301_eth_init (log_bus 0) s = Some s' \<and> en_ip_route_lookup (ed_net s') 0xC0A80007 = Some rt
    \<and> rt_eth_if (n_routes (ed_net s') rt) = ed_if s \<and> unat (rd_BufferIndex (ed_rx_desc s' 63)) = 63"
proof -
  obtain n0 :: net and live p where n0: "heap_live 0x8000 (heap_of n0) live" "length live = 11"
    by (rule example_net [of "[]" "[]" 0 undefined undefined]) auto
  let ?m = "(heap_of n0)\<lparr>heap_start := 0x8000, heap_size := 0x1000000, heap_cur := 0x800000\<rparr>"
  have hl: "live_ok 0x8000 (?m, live)" using n0(1) by (simp add: heap_live_def live_ok_def mem_ok_def free_list_def)
  let ?n = "n0\<lparr>ps_kern := (ps_kern n0)\<lparr>k_mem := ?m\<rparr>, n_routes := (\<lambda>_. route_ex 0 4), n_ip_route_list := 0x2000100,
     n_eth_if_list := 0x2000200, n_ifs := (\<lambda>x. \<lparr>l_next = NULL, l_prev = NULL, if_addr = [], if_bound = True\<rparr>)\<rparr>"
  let ?s = "log_drv ?n 60"
  have hk: "head_ok 0x8000 l" if "0x2000000 \<le> unat l" for l by (rule head_above) (use that in \<open>simp_all add: heap_ok_def mem_init_heap_size_eq\<close>)
  have "routes_of ?n []" by (simp add: routes_of_def route_ex_def)
  then have a: "live_ok 0x8000 (heap_of (ed_net ?s), live)" "length live < 127" "0x8000 + 2097988 \<le> unat (heap_cur (heap_of (ed_net ?s)))"
    "heap_cur (heap_of (ed_net ?s)) mod 4 = 0" "unat (heap_start (heap_of (ed_net ?s))) \<le> unat (heap_cur (heap_of (ed_net ?s)))"
    "unat (heap_cur (heap_of (ed_net ?s))) + 194560 \<le> unat (heap_start (heap_of (ed_net ?s))) + unat (heap_size (heap_of (ed_net ?s)))"
    "unat (heap_start (heap_of (ed_net ?s))) + unat (heap_size (heap_of (ed_net ?s))) < 2 ^ 32"
    "head_ok 0x8000 (ip_addrs (ed_if ?s))" "head_ok 0x8000 (n_ip_route_list (ed_net ?s))" "routes_of (ed_net ?s) []"
    "chain (n_ifs (ed_net ?s)) (l_next (n_ifs (ed_net ?s) (n_eth_if_list (ed_net ?s)))) []" "ed_if ?s \<notin> set []"
    "ed_if ?s \<noteq> n_eth_if_list (ed_net ?s)" "ed_if ?s \<noteq> NULL" "n_eth_if_list (ed_net ?s) \<notin> set []"
    using hl n0(2) hk by (simp_all add: log_drv_def ip_addrs_def)
  obtain bs d where mac: "read_addr (log_bus 0) IndAd 6 (ed_dev ?s) = (bs, d)" by fastforce
  from ethernet_init [OF a(1-10) mac a(11-15)] obtain s' rt where "ep9301_eth_init (log_bus 0) ?s = Some s'"
    "\<forall>i<64. unat (rd_BufferIndex (ed_rx_desc s' i)) = i \<and> rd_BufferLength (ed_rx_desc s' i) = 1520"
    "\<forall>dst. en_ip_route_lookup (ed_net s') dst = Some (if dst AND 0xFFFFFF00 = 0xC0A80000 then rt else NULL)"
    "rt_eth_if (n_routes (ed_net s') rt) = ed_if ?s" by blast
  then show ?thesis by (intro exI [of _ ?s] exI [of _ s'] exI [of _ rt]) simp
qed

theorem eth_positions_in_rings_witness:
  "\<exists>s0 s :: log eth_drv. eth_step (log_bus 0) s0 s \<and> ed_tx_last s0 = 64 \<and> ed_tx_next s = 1
    \<and> ed_tx_last (snd (process_tx_queue (log_bus 0) s)) < 64"
proof -
  let ?n = "(undefined :: net)\<lparr>ps_pkts := (\<lambda>_. pkt_zero)\<rparr>"
  let ?s0 = "(log_drv ?n 60)\<lparr>ed_rx_last := 0, ed_tx_next := 0, ed_tx_last := 64\<rparr>"
  obtain rc s where s: "ep9301_xmit (log_bus 0) 4 ?s0 = (rc, s)" by fastforce
  then have "ed_tx_next s = 1"
    by (auto simp: ep9301_xmit_def Let_def on_net_def on_stats_def on_dev_def pkt_zero_def ring_sizes log_drv_def split: if_split_asm)
  moreover have step: "eth_step (log_bus 0) ?s0 s" by (rule e_xmit [OF s])
  moreover have "ed_tx_last (snd (process_tx_queue (log_bus 0) s)) < 64"
    using eth_positions_in_rings [of "log_bus 0" ?s0 s] r_into_rtranclp [of "eth_step (log_bus 0)" ?s0 s] step
    by (simp add: log_drv_def)
  ultimately show ?thesis by (intro exI [of _ ?s0] exI [of _ s]) (simp add: log_drv_def)
qed

end
