(* ===== verification/Boot.thy ===== *)
theory Boot
  imports Syscall Board EthInit
begin

text \<open>
  kernel/main.c: the boot sequence, on the state of the whole machine: the kernel, the network and the driver (\<open>eth_drv\<close>), the
  tables and the port that \<open>arch_init\<close> sets up. It establishes the invariant that the step relation of the running system
  preserves, so that everything reachable from the entry point is consistent. What \<open>main\<close> prints is left out.
\<close>

section \<open>The machine\<close>

record 'd machine =
  mc_drv :: "'d eth_drv"
  mc_vec :: "nat \<Rightarrow> u32"
  mc_ttb :: "nat \<Rightarrow> u32"
  mc_uart1 :: uart
  mc_wait_at :: addr
  mc_cons :: "uart option"

definition mc_kern :: "'d machine \<Rightarrow> kern" where
  "mc_kern s = ps_kern (ed_net (mc_drv s))"

definition upd_kern :: "(kern \<Rightarrow> kern) \<Rightarrow> 'd machine \<Rightarrow> 'd machine" where
  "upd_kern f s = s\<lparr>mc_drv := on_net (\<lambda>n. n\<lparr>ps_kern := f (ps_kern n)\<rparr>) (mc_drv s)\<rparr>"

text \<open>\<open>arch_init\<close> on the machine. The wait queue of the port is that of the completion at \<open>mc_wait_at\<close>, which is \<open>uart1.wait\<close>.\<close>

definition board_init :: "'d bus \<Rightarrow> bool \<Rightarrow> entries \<Rightarrow> 'd machine \<Rightarrow> 'd machine" where
  "board_init b mmu e s =
     (let k = mc_kern s;
          p = arch_init b mmu e \<lparr>pl_regs = ed_vic (mc_drv s), pl_dev = ed_dev (mc_drv s), pl_vec = mc_vec s, pl_ttb = mc_ttb s,
                pl_uart1 = mc_uart1 s, pl_kmem = k_mem k, pl_bfifos = k_bfifos k, pl_cons = mc_cons s\<rparr>;
          k = k\<lparr>k_mem := pl_kmem p, k_bfifos := pl_bfifos p,
                k_completions := (k_completions k)(mc_wait_at s := u_wait (pl_uart1 p))\<rparr>;
          d = (mc_drv s)\<lparr>ed_vic := pl_regs p, ed_dev := pl_dev p\<rparr>
      in s\<lparr>mc_drv := on_net (\<lambda>n. n\<lparr>ps_kern := k\<rparr>) d, mc_vec := pl_vec p, mc_ttb := pl_ttb p, mc_uart1 := pl_uart1 p,
           mc_cons := pl_cons p\<rparr>)"

text \<open>What \<open>main\<close> does when \<open>CONFIG_NET\<close> is configured: the driver, then the tasks of the network with their entry points.
  Neither result is looked at.\<close>

definition net_init :: "'d bus \<Rightarrow> addr \<Rightarrow> addr \<Rightarrow> 'd machine \<Rightarrow> 'd machine option" where
  "net_init b tx_entry rx_entry s =
     (case ep9301_eth_init b (mc_drv s) of
        None \<Rightarrow> None
      | Some d \<Rightarrow> Some (s\<lparr>mc_drv := on_net (\<lambda>n. snd (eth_init n tx_entry rx_entry)) d\<rparr>))"

text \<open>What is fixed when the kernel is built: \<open>ENABLE_MMU\<close> and \<open>CONFIG_NET\<close>, the end of the image, the entry points, and the table of
  boot processes.\<close>

record build =
  bu_mmu :: bool
  bu_net :: bool
  bu_heap_end :: addr
  bu_entries :: entries
  bu_idle :: addr
  bu_eth_tx :: addr
  bu_eth_rx :: addr
  bu_boot :: "(addr \<times> u8 list) list"

text \<open>\<open>main\<close> up to the idle task; \<open>Inl\<close> is a fault, \<open>None\<close> a loop that does not end.\<close>

definition kernel_main :: "'d bus \<Rightarrow> build \<Rightarrow> 'd machine \<Rightarrow> (kern_error + 'd machine) option" where
  "kernel_main b bu s =
     (let s = upd_kern (\<lambda>k. k\<lparr>k_mem := mem_init (bu_heap_end bu)\<rparr>) s;
          s = board_init b (bu_mmu bu) (bu_entries bu) s
      in case sched_init (mc_kern s) (bu_idle bu) of
           Inl err \<Rightarrow> Some (Inl err)
         | Inr k \<Rightarrow>
             (let s = upd_kern (\<lambda>_. k\<lparr>k_kstat := 0\<rparr>) s;
                  s = upd_kern (\<lambda>k. k\<lparr>k_irq := True\<rparr>) s
              in case (if bu_net bu then net_init b (bu_eth_tx bu) (bu_eth_rx bu) s else Some s) of
                   None \<Rightarrow> None
                 | Some s \<Rightarrow>
                     (let s = upd_kern (\<lambda>k. run_boot_processes k (bu_boot bu)) s
                      in Some (Inr (upd_kern enable_scheduler s)))))"

section \<open>The area behind the chunks\<close>

definition heap_area :: "kmem \<Rightarrow> addr \<times> u32 \<times> addr \<times> bool" where
  "heap_area m = (heap_start m, heap_size m, heap_cur m, dmalloc_enabled m)"

lemma malloc_area: "dmalloc_enabled m \<Longrightarrow> malloc m sz = (p, m') \<Longrightarrow> heap_area m' = heap_area m"
  by (auto simp: malloc_def heap_area_def split: prod.splits)

lemma free_area: "heap_area (free m p) = heap_area m"
  by (simp add: free_def heap_area_def)

lemma do_spawn_area:
  assumes "dmalloc_enabled (k_mem s)" and "do_spawn s entry name mode = (p, s')"
  shows "heap_area (k_mem s') = heap_area (k_mem s)"
proof -
  obtain a m1 where 1: "malloc (k_mem s) sizeof_proc = (a, m1)" by fastforce
  have a1: "heap_area m1 = heap_area (k_mem s)" by (rule malloc_area [OF assms(1) 1])
  then have e1: "dmalloc_enabled m1" using assms(1) by (simp add: heap_area_def)
  obtain sb m2 where 2: "malloc m1 PROC_STACK_SIZE = (sb, m2)" by fastforce
  have a2: "heap_area m2 = heap_area m1" by (rule malloc_area [OF e1 2])
  then have e2: "dmalloc_enabled m2" using e1 by (simp add: heap_area_def)
  obtain sf m3 where 3: "malloc m2 sizeof_self = (sf, m3)" by fastforce
  have a3: "heap_area m3 = heap_area m2" by (rule malloc_area [OF e2 3])
  then have e3: "dmalloc_enabled m3" using e2 by (simp add: heap_area_def)
  obtain out m4 where 4: "malloc m3 STDOUT_SIZE = (out, m4)" by fastforce
  have a4: "heap_area m4 = heap_area m3" by (rule malloc_area [OF e3 4])
  show ?thesis
    using assms(2) 1 2 3 4 a1 a2 a3 a4
    by (auto simp: do_spawn_def upd_proc_def init_self_def spawn_out_err_def Let_def free_area split: if_splits)
qed

lemma heap_area_init: "heap_ok B \<Longrightarrow> heap_area (mem_init (of_nat B)) = (of_nat B, of_nat mem_init_heap_size, of_nat (B + 2097988), True)"
  by (simp add: heap_area_def mem_init_eq coff_eq)

section \<open>Starting processes\<close>

text \<open>A process that is ready to run a function for the first time, given with its name and its mode.\<close>

type_synonym start = "addr \<times> u8 list \<times> proc_mode"

definition started :: "kern \<Rightarrow> addr \<Rightarrow> start \<Rightarrow> bool" where
  "started s p w \<longleftrightarrow> (case w of (entry, name, mode) \<Rightarrow>
     p_state (k_ptab s p) = PROC_RUN \<and> p_name (k_ptab s p) = strncpy16 name
     \<and> p_regs (k_ptab s p) ! 0 = (if mode = PROC_SYSTEM then 0x1F else 0x10) \<and> p_regs (k_ptab s p) ! 1 = entry)"

text \<open>Every new process goes right behind the head of the run list.\<close>

fun behind_head :: "'a \<Rightarrow> 'a list \<Rightarrow> 'a list" where
  "behind_head x [] = [x]"
| "behind_head x (y # ys) = y # x # ys"

fun ring_order :: "'a list \<Rightarrow> 'a list" where
  "ring_order [] = []"
| "ring_order (x # xs) = x # rev xs"

lemma ring_order_snoc: "ring_order (xs @ [x]) = behind_head x (ring_order xs)"
  by (cases xs) simp_all

lemma behind_head_hd: "xs \<noteq> [] \<Longrightarrow> behind_head x xs = hd xs # x # tl xs"
  by (cases xs) simp_all

lemma list_all2_behind: "list_all2 P xs ys \<Longrightarrow> P x y \<Longrightarrow> list_all2 P (behind_head x xs) (behind_head y ys)"
  by (cases xs; cases ys) simp_all

text \<open>The invariant while processes are being started: it is that of the running system once there is a process.\<close>

definition booting :: "nat \<Rightarrow> proc \<Rightarrow> kern \<times> (addr \<times> u32) list \<Rightarrow> addr list \<Rightarrow> start list \<Rightarrow> bool" where
  "booting B idle c xs ws \<longleftrightarrow> (let s = fst c; i = k_idle_task s in
     k_irq s \<and> k_kstat s = 0 \<and> live_ok B (k_mem s, snd c) \<and> k_cur s = i \<and> i \<noteq> NULL \<and> i \<in> fst ` set (snd c) \<and> k_ptab s i = idle
     \<and> (if xs = [] then k_procs s = NULL else kinv B c xs) \<and> list_all2 (started s) xs (ring_order ws))"

text \<open>The fields that \<open>spawn\<close> keeps of the processes there are already.\<close>

lemma spawn_old:
  assumes "do_spawn s entry name mode = (p, t)" and "spawn s entry name mode = (p, s')" and "p \<noteq> NULL"
    and "\<And>q. q \<noteq> p \<Longrightarrow> k_ptab t q = k_ptab s q" and "q \<noteq> p"
  shows "p_state (k_ptab s' q) = p_state (k_ptab s q) \<and> p_name (k_ptab s' q) = p_name (k_ptab s q)
    \<and> p_regs (k_ptab s' q) = p_regs (k_ptab s q)"
  using assms by (auto simp: spawn_def Let_def list_add_after_def split: if_splits)

lemma kinv_more:
  assumes "kinv B (s, live) xs" and "live_ok B (k_mem t, live')" and "fst ` set live \<subseteq> fst ` set live'"
    and "k_procs t = k_procs s" and "k_idle_task t = k_idle_task s" and "k_cur t = k_cur s" and "k_ptab t = k_ptab s"
  shows "kinv B (t, live') xs"
proof -
  have "sched_inv t xs" "active_ok t xs" using assms(1,4-7) by (simp_all add: kinv_def sched_inv_def active_ok_def)
  moreover have "insert (k_idle_task t) (set xs) \<subseteq> fst ` set live'" using assms(1,3,5) unfolding kinv_def fst_conv snd_conv by blast
  ultimately show ?thesis using assms(2) by (simp add: kinv_def)
qed

lemma booting_more:
  assumes "booting B idle (s, live) xs ws" and "live_ok B (k_mem t, live')" and "fst ` set live \<subseteq> fst ` set live'"
    and "k_procs t = k_procs s" and "k_idle_task t = k_idle_task s" and "k_cur t = k_cur s" and "k_ptab t = k_ptab s"
    and "k_irq t = k_irq s" and "k_kstat t = k_kstat s"
  shows "booting B idle (t, live') xs ws"
proof -
  have "started t = started s" using assms(7) by (simp add: fun_eq_iff started_def)
  moreover have "kinv B (t, live') xs" if "kinv B (s, live) xs" using kinv_more [OF that assms(2-7)] .
  ultimately show ?thesis using assms(1,2,4-9) subsetD [OF assms(3)] by (auto simp: booting_def Let_def)
qed

lemma spawn_booting:
  assumes inv: "booting B idle (s, live) xs ws" and len: "length live < 125" and st: "p_state idle = PROC_SLEEP"
    and ti: "\<not> t_active (p_timer idle)" and r: "spawn s entry name mode = (p, s')"
  shows "p \<noteq> NULL \<and> (\<exists>live'. booting B idle (s', live') (behind_head p xs) (ws @ [(entry, name, mode)]) \<and> length live' = length live + 4)"
proof -
  let ?i = "k_idle_task s"
  have ks: "k_kstat s = 0" and lo: "live_ok B (k_mem s, live)" and i: "k_cur s = ?i" "?i \<noteq> NULL" "?i \<in> fst ` set live" "k_ptab s ?i = idle"
    and old: "list_all2 (started s) xs (ring_order ws)" using inv by (simp_all add: booting_def Let_def)
  obtain t where t: "do_spawn s entry name mode = (p, t)"
    using r by (auto simp: spawn_def Let_def split: prod.splits if_splits)
  have p: "p \<noteq> NULL" by (rule do_spawn_succeeds [OF lo len t])
  from lo t show ?thesis
  proof (cases rule: do_spawn_cases)
    case (success out sb sf)
    let ?live = "(out, STDOUT_SIZE) # (sf, sizeof_self) # (sb, PROC_STACK_SIZE) # (p, sizeof_proc) # live"
    have tk: "k_procs t = k_procs s" "k_idle_task t = ?i" "k_cur t = ?i" "k_kstat t = 0" by (subst success(3), simp add: i ks)+
    have pr: "p_state (k_ptab t p) = PROC_RUN" "\<not> t_active (p_timer (k_ptab t p))" "l_next (k_ptab t p) = p"
      "p_name (k_ptab t p) = strncpy16 name" "p_regs (k_ptab t p) ! 1 = entry"
      "p_regs (k_ptab t p) ! 0 = (if mode = PROC_SYSTEM then 0x1F else 0x10)"
      by (subst success(3), simp add: timer_zero_def proc_zero_def spawn_regs_def)+
    have ot: "k_ptab t q = k_ptab s q" if "q \<noteq> p" for q by (subst success(3)) (simp add: that)
    have pn: "p \<notin> fst ` set live" using success(2) by (auto simp: live_ok_def)
    then have ip: "?i \<noteq> p" using i(3) by auto
    have new: "started s' p (entry, name, mode)"
      using r t p pr by (auto simp: started_def spawn_def Let_def list_add_after_def split: if_splits)
    have keep: "started s' q w" if "started s q w" "q \<noteq> p" for q w
      using that spawn_old [OF t r p ot, of q] by (simp add: started_def)
    have px: "p \<notin> set xs" if "xs \<noteq> []"
    proof -
      have "set xs \<subseteq> fst ` set live" using inv that by (simp add: booting_def Let_def kinv_def)
      then show ?thesis using pn by blast
    qed
    then have px: "p \<notin> set xs" by (cases xs) auto
    have "list_all2 (started s') xs (ring_order ws)"
      by (rule list.rel_mono_strong [OF old]) (use px keep in blast)
    then have all: "list_all2 (started s') (behind_head p xs) (ring_order (ws @ [(entry, name, mode)]))"
      using new by (simp add: ring_order_snoc list_all2_behind)
    show ?thesis
    proof (cases "xs = []")
      case True
      have s': "s' = t\<lparr>k_irq := True, k_procs := p\<rparr>" using r t p tk inv True by (auto simp: spawn_def Let_def booting_def)
      have lo': "live_ok B (k_mem s', ?live)" using success(2) by (simp add: s')
      have "sched_inv s' [p]" using p pr(3) ip i(2) tk by (auto simp: s' sched_inv_def ring_def)
      moreover have "active_ok s' [p]" using pr(1,2) st ti ot [OF ip] i(4) tk by (simp add: s' active_ok_def)
      moreover have "insert (k_idle_task s') (set [p]) \<subseteq> fst ` set ?live" using i(3) tk by (auto simp: s')
      ultimately have "kinv B (s', ?live) [p]" using lo' by (simp add: kinv_def)
      then have "booting B idle (s', ?live) (behind_head p xs) (ws @ [(entry, name, mode)])"
        using i lo' all ot [OF ip] tk True by (simp add: booting_def s')
      then show ?thesis using p by (intro conjI exI [of _ ?live]) simp_all
    next
      case False
      then have k: "kinv B (s, live) xs" using inv by (simp add: booting_def Let_def)
      note k' = spawn_kinv [OF k r p]
      have h: "hd xs = k_procs s" "hd xs \<noteq> NULL" "hd xs \<noteq> ?i"
        using k False hd_in_set [OF False] by (auto simp: kinv_def sched_inv_def ring_def)
      have s': "s' = t\<lparr>k_irq := True, k_ptab := list_add_after (k_ptab t) (hd xs) p\<rparr>"
        using r t p tk(1) h by (auto simp: spawn_def Let_def)
      have idle: "k_ptab s' ?i = idle" using ot [OF ip] i(4) h(3) ip by (simp add: s' list_add_after_other)
      have "booting B idle (s', new_blocks s' p @ live) (behind_head p xs) (ws @ [(entry, name, mode)])"
        using k' i all idle tk False by (simp add: booting_def behind_head_hd s' kinv_def)
      then show ?thesis using p by (intro conjI exI [of _ "new_blocks s' p @ live"]) (simp_all add: new_blocks_def)
    qed
  qed (use p in simp)
qed

lemma run_boot_booting:
  assumes "booting B idle (s, live) xs ws" and "length live + 4 * length ps \<le> 128" and "p_state idle = PROC_SLEEP"
    and "\<not> t_active (p_timer idle)"
  shows "\<exists>live' ys. booting B idle (run_boot_processes s ps, live') ys
    (ws @ map (\<lambda>(m, n). (m, n, PROC_USER)) (takeWhile (\<lambda>(m, _). m \<noteq> NULL) ps))"
  using assms(1,2)
proof (induction ps arbitrary: s live xs ws)
  case (Cons a ps)
  obtain m n where a: "a = (m, n)" by fastforce
  obtain p s' where r: "spawn s m n PROC_USER = (p, s')" by fastforce
  show ?case
  proof (cases "m = NULL")
    case False
    have "length live < 125" using Cons.prems(2) by simp
    from spawn_booting [OF Cons.prems(1) this assms(3,4) r] obtain live' where
      "booting B idle (s', live') (behind_head p xs) (ws @ [(m, n, PROC_USER)])" "length live' = length live + 4" by blast
    from Cons.IH [OF this(1)] this(2) Cons.prems(2) show ?thesis using False a r by simp
  qed (use Cons.prems a in auto)
qed auto

lemma sched_init_booting:
  assumes lo: "live_ok B (k_mem s, live)" and len: "length live < 125" and "k_procs s = NULL"
  shows "\<exists>s' idle live'. sched_init s idle_fn = Inr s' \<and> booting B idle (s'\<lparr>k_kstat := 0, k_irq := True\<rparr>, live') [] [] \<and> length live' = length live + 4
    \<and> p_state idle = PROC_SLEEP \<and> \<not> t_active (p_timer idle) \<and> p_name idle = idle_name @ replicate 10 0 \<and> p_regs idle ! 0 = 0x1F
    \<and> p_regs idle ! 1 = idle_fn \<and> heap_area (k_mem s') = heap_area (k_mem s)"
proof -
  let ?s = "s\<lparr>k_self := k_kernel_self s\<rparr>"
  obtain i t where t: "do_spawn ?s idle_fn idle_name PROC_SYSTEM = (i, t)" by fastforce
  have lo': "live_ok B (k_mem ?s, live)" using lo by simp
  have i: "i \<noteq> NULL" by (rule do_spawn_succeeds [OF lo' len t])
  from lo' t show ?thesis
  proof (cases rule: do_spawn_cases)
    case (success out sb sf)
    let ?s' = "(upd_proc i (\<lambda>pr. pr\<lparr>p_state := PROC_SLEEP\<rparr>) (t\<lparr>k_idle_task := i\<rparr>))\<lparr>k_cur := i\<rparr>"
    let ?live = "(out, STDOUT_SIZE) # (sf, sizeof_self) # (sb, PROC_STACK_SIZE) # (i, sizeof_proc) # live"
    let ?idle = "(k_ptab t i)\<lparr>p_state := PROC_SLEEP\<rparr>"
    have 1: "sched_init s idle_fn = Inr ?s'" using t i by (simp add: sched_init_def Let_def)
    have idle: "\<not> t_active (p_timer ?idle)" "p_name ?idle = idle_name @ replicate 10 0" "p_regs ?idle ! 0 = 0x1F" "p_regs ?idle ! 1 = idle_fn"
      by (subst success(3), simp add: timer_zero_def proc_zero_def spawn_regs_def strncpy16_def idle_name_def)+
    have "k_procs t = k_procs s" by (subst success(3)) simp
    then have pr: "k_procs ?s' = NULL" using assms(3) by (simp add: step_simps)
    have lo'': "live_ok B (k_mem ?s', ?live)" using success(2) by (simp add: step_simps)
    have "dmalloc_enabled (k_mem ?s)" using live_ok_mem_ok [OF lo] by (simp add: mem_ok_def)
    from do_spawn_area [OF this t] have ar: "heap_area (k_mem ?s') = heap_area (k_mem s)" by (simp add: step_simps)
    have "booting B ?idle (?s'\<lparr>k_kstat := 0, k_irq := True\<rparr>, ?live) [] []" using pr lo'' i by (simp add: booting_def step_simps)
    then show ?thesis using 1 idle ar
      by (intro exI [of _ ?s'] exI [of _ ?idle] exI [of _ ?live] conjI) simp_all
  qed (use i in simp)
qed

section \<open>The steps of the boot sequence\<close>

lemma mc_kern_upd [simp]: "mc_kern (upd_kern f s) = f (mc_kern s)"
  by (simp add: mc_kern_def upd_kern_def on_net_def)

lemma drv_upd [simp]: "ed_if (mc_drv (upd_kern f s)) = ed_if (mc_drv s)" "ed_task_at (mc_drv (upd_kern f s)) = ed_task_at (mc_drv s)"
  "mc_uart1 (upd_kern f s) = mc_uart1 s" "mc_cons (upd_kern f s) = mc_cons s"
  by (simp_all add: upd_kern_def on_net_def)

text \<open>What the image has in the variables of the network: empty lists whose heads are outside the heap.\<close>

definition net_static :: "nat \<Rightarrow> 'd machine \<Rightarrow> bool" where
  "net_static B s \<longleftrightarrow> (let d = mc_drv s; n = ed_net d in
     head_ok B (ip_addrs (ed_if d)) \<and> head_ok B (n_ip_route_list n) \<and> routes_of n []
     \<and> l_next (n_ifs n (n_eth_if_list n)) = NULL \<and> ed_if d \<noteq> n_eth_if_list n \<and> ed_if d \<noteq> NULL)"

lemma net_static_upd [simp]: "net_static B (upd_kern f s) = net_static B s"
  by (simp add: net_static_def upd_kern_def on_net_def routes_of_def Let_def)

lemma bfifo_alloc_ok:
  assumes "live_ok B (m, live)" and "length live < 128" and "n = 1 \<or> n = 10"
  obtains w m' f where "bfifo_alloc m fs n = (w, m', f)" "w \<noteq> NULL"
    "live_ok B (m', (w, word_of_int (int sizeof_bfifo + 4 * (n - 1))) # live)" "heap_area m' = heap_area m"
proof -
  let ?z = "word_of_int (int sizeof_bfifo + 4 * (n - 1)) :: u32"
  obtain w m' where m: "malloc m ?z = (w, m')" by fastforce
  have "unat ?z \<le> 8192" using assms(3) by (auto simp: sizeof_bfifo_def)
  then have w: "w \<noteq> NULL" using live_ok_malloc_some [OF assms(1) m assms(2)] by simp
  have "dmalloc_enabled m" using live_ok_mem_ok [OF assms(1)] by (simp add: mem_ok_def)
  then show thesis using m w live_ok_malloc [OF assms(1) m w] malloc_area [OF _ m]
    by (intro that [of w m' "fs(w := bfifo_init n)"]) (simp_all add: bfifo_alloc_def)
qed

lemma board_init_ok:
  assumes "live_ok B (k_mem (mc_kern s), live)" and "length live < 128"
  shows "\<exists>live'. live_ok B (k_mem (mc_kern (board_init b mmu e s)), live') \<and> length live' = Suc (length live)
    \<and> heap_area (k_mem (mc_kern (board_init b mmu e s))) = heap_area (k_mem (mc_kern s))
    \<and> k_procs (mc_kern (board_init b mmu e s)) = k_procs (mc_kern s) \<and> net_static B (board_init b mmu e s) = net_static B s
    \<and> ed_task_at (mc_drv (board_init b mmu e s)) = ed_task_at (mc_drv s) \<and> ed_if (mc_drv (board_init b mmu e s)) = ed_if (mc_drv s)
    \<and> mc_cons (board_init b mmu e s) = Some (mc_uart1 (board_init b mmu e s)) \<and> u_state (mc_uart1 (board_init b mmu e s)) = UART_OPEN"
proof -
  obtain w m f where w: "bfifo_alloc (k_mem (mc_kern s)) (k_bfifos (mc_kern s)) 10 = (w, m, f)" "w \<noteq> NULL"
    "live_ok B (m, (w, word_of_int (int sizeof_bfifo + 4 * (10 - 1))) # live)" "heap_area m = heap_area (k_mem (mc_kern s))"
    by (rule bfifo_alloc_ok [OF assms, of 10 "k_bfifos (mc_kern s)"]) auto
  have k: "mc_kern (board_init b mmu e s) = (mc_kern s)\<lparr>k_mem := m, k_bfifos := f, k_completions := (k_completions (mc_kern s))(mc_wait_at s := w)\<rparr>"
    "net_static B (board_init b mmu e s) = net_static B s" "ed_task_at (mc_drv (board_init b mmu e s)) = ed_task_at (mc_drv s)"
    "ed_if (mc_drv (board_init b mmu e s)) = ed_if (mc_drv s)"
    "mc_cons (board_init b mmu e s) = Some (mc_uart1 (board_init b mmu e s))" "u_state (mc_uart1 (board_init b mmu e s)) = UART_OPEN"
    using w(1,2) by (simp_all add: board_init_def arch_init_def ep93xx_uart_open_def Let_def mc_kern_def on_net_def net_static_def routes_of_def
        split: prod.splits)
  show ?thesis unfolding k using w(3,4) by (intro exI [of _ "(w, word_of_int (int sizeof_bfifo + 4 * (10 - 1))) # live"]) simp
qed

text \<open>The interface is registered and bound, and owns its address.\<close>

definition net_up :: "'d machine \<Rightarrow> bool" where
  "net_up s \<longleftrightarrow> (let n = ed_net (mc_drv s); e = ed_if (mc_drv s) in
     l_next (n_ifs n (n_eth_if_list n)) = e \<and> l_next (n_ifs n e) = NULL \<and> if_bound (n_ifs n e)
     \<and> (\<exists>ipd. en_eth_ip_lookup n e 0xC0A80063 = Some ipd \<and> ipd \<noteq> NULL))"

lemma net_up_kern: "net_up (upd_kern f s) = net_up s"
  by (simp add: net_up_def upd_kern_def on_net_def Let_def en_eth_ip_lookup_def)

lemma eth_init_booting:
  assumes inv: "booting B idle (ps_kern n, live) xs ws" and len: "length live \<le> 116" and st: "p_state idle = PROC_SLEEP"
    and ti: "\<not> t_active (p_timer idle)"
  shows "\<exists>k live' ys. eth_init n tx rx = (0, n\<lparr>ps_kern := k\<rparr>) \<and> length live' = length live + 9
    \<and> booting B idle (k, live') ys (ws @ [(tx, eth_tx_name, PROC_SYSTEM), (rx, eth_rx_name, PROC_SYSTEM)])"
proof -
  have lo: "live_ok B (k_mem (ps_kern n), live)" using inv by (simp add: booting_def Let_def)
  let ?z = "word_of_int (int sizeof_bfifo + 4 * (1 - 1)) :: u32"
  obtain w m f where w: "bfifo_alloc (k_mem (ps_kern n)) (k_bfifos (ps_kern n)) 1 = (w, m, f)" "w \<noteq> NULL" "live_ok B (m, (w, ?z) # live)"
    by (rule bfifo_alloc_ok [OF lo, of 1 "k_bfifos (ps_kern n)"]) (use len in auto)
  let ?k1 = "(ps_kern n)\<lparr>k_mem := m, k_bfifos := f, k_completions := (k_completions (ps_kern n))(n_rx_completion n := w)\<rparr>"
  have b1: "booting B idle (?k1, (w, ?z) # live) xs ws" by (rule booting_more [OF inv]) (use w(3) in auto)
  obtain p k2 where r: "spawn ?k1 tx eth_tx_name PROC_SYSTEM = (p, k2)" by fastforce
  from spawn_booting [OF b1 _ st ti r] len obtain live2 where p: "p \<noteq> NULL"
    and b2: "booting B idle (k2, live2) (behind_head p xs) (ws @ [(tx, eth_tx_name, PROC_SYSTEM)])" "length live2 = length live + 5" by auto
  obtain q k3 where r3: "spawn k2 rx eth_rx_name PROC_SYSTEM = (q, k3)" by fastforce
  from spawn_booting [OF b2(1) _ st ti r3] len b2(2) obtain live3 where q: "q \<noteq> NULL"
    and b3: "booting B idle (k3, live3) (behind_head q (behind_head p xs)) ((ws @ [(tx, eth_tx_name, PROC_SYSTEM)]) @ [(rx, eth_rx_name, PROC_SYSTEM)])"
      "length live3 = length live + 9" by auto
  have "eth_init n tx rx = (0, n\<lparr>ps_kern := k3\<rparr>)" using w(1,2) r p r3 q by (simp add: eth_init_def Let_def)
  then show ?thesis using b3 by (intro exI conjI) simp_all
qed

lemma net_init_booting:
  assumes inv: "booting B idle (mc_kern s, live) [] []" and len: "length live \<le> 5" and st: "p_state idle = PROC_SLEEP"
    and ti: "\<not> t_active (p_timer idle)" and ns: "net_static B s"
    and ar: "heap_area (k_mem (mc_kern s)) = (of_nat B, of_nat mem_init_heap_size, of_nat (B + 2097988), True)"
  shows "\<exists>s' live' ys. net_init b tx rx s = Some s' \<and> length live' = length live + 15 \<and> net_up s'
    \<and> mc_cons s' = mc_cons s \<and> mc_uart1 s' = mc_uart1 s
    \<and> booting B idle (mc_kern s', live') ys [(ed_task_at (mc_drv s), eth_task_name, PROC_SYSTEM),
        (tx, eth_tx_name, PROC_SYSTEM), (rx, eth_rx_name, PROC_SYSTEM)]"
proof -
  let ?d = "mc_drv s" let ?n = "ed_net ?d"
  have lo: "live_ok B (heap_of ?n, live)" using inv by (simp add: booting_def Let_def mc_kern_def)
  then have B: "B + 3146564 < 2 ^ 32" "4 dvd B" "0 < B" by (simp_all add: live_ok_def mem_ok_def heap_ok_def mem_init_heap_size_eq)
  have m: "heap_start (heap_of ?n) = of_nat B" "heap_size (heap_of ?n) = of_nat mem_init_heap_size" "heap_cur (heap_of ?n) = of_nat (B + 2097988)"
    using ar by (simp_all add: heap_area_def mc_kern_def)
  have u: "unat (of_nat B :: u32) = B" "unat (of_nat mem_init_heap_size :: u32) = 3146564" "unat (of_nat (B + 2097988) :: u32) = B + 2097988"
    using B(1) by (simp_all only: mem_init_heap_size_eq unat_of_nat) simp_all
  have "unat (of_nat (B + 2097988) mod 4 :: u32) = 0" using B(2) by (simp only: unat_mod u) (simp add: mod_add_eq [symmetric] dvd_eq_mod_eq_0)
  then have c4: "heap_cur (heap_of ?n) mod 4 = 0" unfolding m by (simp only: unat_eq_0)
  have ar': "B + 2097988 \<le> unat (heap_cur (heap_of ?n))" "unat (heap_start (heap_of ?n)) \<le> unat (heap_cur (heap_of ?n))"
    "unat (heap_cur (heap_of ?n)) + 194560 \<le> unat (heap_start (heap_of ?n)) + unat (heap_size (heap_of ?n))"
    "unat (heap_start (heap_of ?n)) + unat (heap_size (heap_of ?n)) < 2 ^ 32"
    unfolding m u using B(1) by simp_all
  have st': "head_ok B (ip_addrs (ed_if ?d))" "head_ok B (n_ip_route_list ?n)" "routes_of ?n []"
    "chain (n_ifs ?n) (l_next (n_ifs ?n (n_eth_if_list ?n))) []" "ed_if ?d \<noteq> n_eth_if_list ?n" "ed_if ?d \<noteq> NULL"
    using ns by (simp_all add: net_static_def Let_def)
  obtain bs d where mac: "read_addr b IndAd 6 (ed_dev ?d) = (bs, d)" by fastforce
  have nin: "length live < 127" "ed_if ?d \<notin> set []" "n_eth_if_list ?n \<notin> set []" using len by simp_all
  from ep9301_eth_init_ok [OF lo nin(1) ar'(1) c4 ar'(2-4) st'(1-3) mac st'(4) nin(2) st'(5,6) nin(3)] obtain d' ipd t m1 live1 where
    d': "ep9301_eth_init b ?d = Some d'"
      "chain (n_ifs (ed_net d')) (l_next (n_ifs (ed_net d') (n_eth_if_list (ed_net d')))) [ed_if ?d]"
      "if_bound (n_ifs (ed_net d') (ed_if ?d))" "en_eth_ip_lookup (ed_net d') (ed_if ?d) 0xC0A80063 = Some ipd" "ipd \<noteq> NULL"
      "spawn ((ps_kern ?n)\<lparr>k_mem := m1\<rparr>) (ed_task_at ?d) eth_task_name PROC_SYSTEM = (t, ps_kern (ed_net d'))"
      "live_ok B (m1, live1)" "fst ` set live \<subseteq> fst ` set live1" "length live1 = length live + 2" "ed_if d' = ed_if ?d"
    by (elim exE conjE) (rule that; assumption)
  have "booting B idle ((ps_kern ?n)\<lparr>k_mem := m1\<rparr>, live1) [] []"
    by (rule booting_more [where s = "mc_kern s", OF inv]) (use d'(7,8) in \<open>simp_all add: mc_kern_def\<close>)
  from spawn_booting [OF this _ st ti d'(6)] d'(9) len obtain live2 where
    l2: "booting B idle (ps_kern (ed_net d'), live2) [t] [(ed_task_at ?d, eth_task_name, PROC_SYSTEM)]" "length live2 = length live + 6" by auto
  have "length live2 \<le> 116" using l2(2) len by simp
  from eth_init_booting [OF l2(1) this st ti, of tx rx] obtain k live3 ys where
    k: "eth_init (ed_net d') tx rx = (0, (ed_net d')\<lparr>ps_kern := k\<rparr>)" "length live3 = length live2 + 9"
      "booting B idle (k, live3) ys ([(ed_task_at ?d, eth_task_name, PROC_SYSTEM)] @ [(tx, eth_tx_name, PROC_SYSTEM), (rx, eth_rx_name, PROC_SYSTEM)])"
    by blast
  let ?s' = "s\<lparr>mc_drv := on_net (\<lambda>_. (ed_net d')\<lparr>ps_kern := k\<rparr>) d'\<rparr>"
  have "net_init b tx rx s = Some ?s'" using d'(1) k(1) by (simp add: net_init_def on_net_def)
  moreover have "net_up ?s'" using d'(2-5,10) by (simp add: net_up_def on_net_def en_eth_ip_lookup_def)
  moreover have "mc_kern ?s' = k" by (simp add: mc_kern_def on_net_def)
  ultimately show ?thesis using k(2,3) l2(2) by (intro exI [of _ ?s'] exI [of _ live3] exI [of _ ys]) simp
qed

section \<open>Properties\<close>

text \<open>The processes that a build starts, in the order of their creation: the three tasks of the network when it is configured, then
  the entries of the boot table up to its end.\<close>

definition boot_starts :: "build \<Rightarrow> 'd machine \<Rightarrow> start list" where
  "boot_starts bu s =
     (if bu_net bu then [(ed_task_at (mc_drv s), eth_task_name, PROC_SYSTEM), (bu_eth_tx bu, eth_tx_name, PROC_SYSTEM),
        (bu_eth_rx bu, eth_rx_name, PROC_SYSTEM)] else [])
     @ map (\<lambda>(main, name). (main, name, PROC_USER)) (takeWhile (\<lambda>(main, _). main \<noteq> NULL) (bu_boot bu))"

lemma kernel_main_booting:
  assumes B: "heap_ok B" and he: "bu_heap_end bu = of_nat B" and pr: "k_procs (mc_kern s) = NULL"
    and len: "length (bu_boot bu) \<le> 20" and ns: "bu_net bu \<Longrightarrow> net_static B s"
  shows "\<exists>s' idle live xs. kernel_main b bu s = Some (Inr (upd_kern enable_scheduler s')) \<and> booting B idle (mc_kern s', live) xs (boot_starts bu s)
    \<and> p_state idle = PROC_SLEEP \<and> p_name idle = idle_name @ replicate 10 0 \<and> p_regs idle ! 0 = 0x1F \<and> p_regs idle ! 1 = bu_idle bu
    \<and> mc_cons s' = Some (mc_uart1 s') \<and> u_state (mc_uart1 s') = UART_OPEN \<and> (bu_net bu \<longrightarrow> net_up s')"
proof -
  let ?s1 = "upd_kern (\<lambda>k. k\<lparr>k_mem := mem_init (bu_heap_end bu)\<rparr>) s"
  let ?s2 = "board_init b (bu_mmu bu) (bu_entries bu) ?s1"
  have m1: "k_mem (mc_kern ?s1) = mem_init (of_nat B)" by (simp add: he)
  have "live_ok B (k_mem (mc_kern ?s1), [])" unfolding m1 by (rule live_ok_init [OF B])
  from board_init_ok [OF this, of b "bu_mmu bu" "bu_entries bu"] obtain live2 where
    l2: "live_ok B (k_mem (mc_kern ?s2), live2)" "length live2 = 1"
      "heap_area (k_mem (mc_kern ?s2)) = (of_nat B, of_nat mem_init_heap_size, of_nat (B + 2097988), True)"
      "k_procs (mc_kern ?s2) = NULL" "net_static B ?s2 = net_static B s" "ed_task_at (mc_drv ?s2) = ed_task_at (mc_drv s)"
      "mc_cons ?s2 = Some (mc_uart1 ?s2)" "u_state (mc_uart1 ?s2) = UART_OPEN"
    unfolding m1 heap_area_init [OF B] by (auto simp: pr)
  from sched_init_booting [OF l2(1) _ l2(4), of "bu_idle bu"] l2(2) obtain k idle live3 where
    k: "sched_init (mc_kern ?s2) (bu_idle bu) = Inr k" "booting B idle (k\<lparr>k_kstat := 0, k_irq := True\<rparr>, live3) [] []" "length live3 = 5"
      "heap_area (k_mem k) = heap_area (k_mem (mc_kern ?s2))"
    and idle: "p_state idle = PROC_SLEEP" "\<not> t_active (p_timer idle)" "p_name idle = idle_name @ replicate 10 0" "p_regs idle ! 0 = 0x1F"
      "p_regs idle ! 1 = bu_idle bu" by auto
  let ?s3 = "upd_kern (\<lambda>k. k\<lparr>k_irq := True\<rparr>) (upd_kern (\<lambda>_. k\<lparr>k_kstat := 0\<rparr>) ?s2)"
  have b3: "booting B idle (mc_kern ?s3, live3) [] []" using k(2) by simp
  define net where "net = (if bu_net bu then net_init b (bu_eth_tx bu) (bu_eth_rx bu) ?s3 else Some ?s3)"
  obtain s4 live4 ys where s4: "net = Some s4" "length live4 \<le> 20" "bu_net bu \<longrightarrow> net_up s4"
    "mc_cons s4 = mc_cons ?s3" "mc_uart1 s4 = mc_uart1 ?s3"
    "booting B idle (mc_kern s4, live4) ys (if bu_net bu then [(ed_task_at (mc_drv s), eth_task_name, PROC_SYSTEM),
       (bu_eth_tx bu, eth_tx_name, PROC_SYSTEM), (bu_eth_rx bu, eth_rx_name, PROC_SYSTEM)] else [])"
  proof (cases "bu_net bu")
    case True
    have "net_static B ?s3" using ns [OF True] l2(5) by simp
    moreover have "heap_area (k_mem (mc_kern ?s3)) = (of_nat B, of_nat mem_init_heap_size, of_nat (B + 2097988), True)" using k(4) l2(3) by simp
    ultimately have "\<exists>s' live' ys. net_init b (bu_eth_tx bu) (bu_eth_rx bu) ?s3 = Some s' \<and> length live' = length live3 + 15 \<and> net_up s'
      \<and> mc_cons s' = mc_cons ?s3 \<and> mc_uart1 s' = mc_uart1 ?s3
      \<and> booting B idle (mc_kern s', live') ys [(ed_task_at (mc_drv ?s3), eth_task_name, PROC_SYSTEM),
          (bu_eth_tx bu, eth_tx_name, PROC_SYSTEM), (bu_eth_rx bu, eth_rx_name, PROC_SYSTEM)]"
      using k(3) by (intro net_init_booting [OF b3 _ idle(1,2)]) simp_all
    then show thesis by (elim exE conjE, intro that) (use True k(3) l2(6) in \<open>simp_all add: net_def\<close>)
  next
    case False
    then show thesis using b3 k(3) by (intro that [of ?s3 live3 "[]"]) (simp_all add: net_def)
  qed
  from run_boot_booting [OF s4(6) _ idle(1,2), of "bu_boot bu"] s4(2) len obtain live5 xs where
    b5: "booting B idle (run_boot_processes (mc_kern s4) (bu_boot bu), live5) xs (boot_starts bu s)" by (auto simp: boot_starts_def)
  let ?s5 = "upd_kern (\<lambda>k. run_boot_processes k (bu_boot bu)) s4"
  have "kernel_main b bu s = Some (Inr (upd_kern enable_scheduler ?s5))"
    using k(1) s4(1) by (simp add: kernel_main_def net_def Let_def)
  then show ?thesis using b5 idle s4(3,4,5) l2(7,8)
    by (intro exI [of _ ?s5] exI [of _ idle] exI [of _ live5] exI [of _ xs]) (simp add: net_up_kern)
qed

lemma kernel_main_booted:
  assumes "heap_ok B" and "bu_heap_end bu = of_nat B" and "k_procs (mc_kern s) = NULL" and "length (bu_boot bu) \<le> 20"
    and "bu_net bu \<Longrightarrow> net_static B s" and "boot_starts bu s \<noteq> []" and "kernel_main b bu s = Some (Inr s0)"
  shows "\<exists>live xs. kinv B (mc_kern s0, live) xs \<and> list_all2 (started (mc_kern s0)) xs (ring_order (boot_starts bu s))"
proof -
  obtain t idle live xs where t: "kernel_main b bu s = Some (Inr (upd_kern enable_scheduler t))"
    "booting B idle (mc_kern t, live) xs (boot_starts bu s)"
    using kernel_main_booting [OF assms(1-5)] by blast
  have l2: "list_all2 (started (mc_kern t)) xs (ring_order (boot_starts bu s))" using t(2) by (simp add: booting_def Let_def)
  then have "xs \<noteq> []" using assms(6) by (cases "boot_starts bu s") auto
  then have k: "kinv B (mc_kern t, live) xs" using t(2) by (simp add: booting_def Let_def)
  have "kinv B (enable_scheduler (mc_kern t), live) xs"
    by (rule kinv_more [OF k]) (use k in \<open>simp_all add: enable_scheduler_def kinv_def\<close>)
  moreover have "started (enable_scheduler (mc_kern t)) = started (mc_kern t)" by (simp add: fun_eq_iff started_def enable_scheduler_def)
  moreover have "s0 = upd_kern enable_scheduler t" using t(1) assms(7) by simp
  ultimately show ?thesis using l2 by auto
qed

text \<open>C10: the kernel boots. With a heap that fits, a boot table of at most twenty entries, an image in which the run list is empty
  and, with networking, the lists of the network are empty and their heads outside the heap, \<open>main\<close> comes to the idle task without a
  fault. The run list then holds exactly the processes that the build starts, each ready to run its own entry point in its own mode
  and under its own name; they stand in the order in which they are linked, the first at the head and the others behind it, the latest first. The
  idle task is the current process and sleeps, interrupts and the scheduler are enabled, the console is the open port, the network
  interface is registered, bound and has its address, and the invariant of the running system holds.\<close>

theorem kernel_main_boots:
  assumes "heap_ok B" and "bu_heap_end bu = of_nat B" and "k_procs (mc_kern s) = NULL" and "length (bu_boot bu) \<le> 20"
    and "bu_net bu \<Longrightarrow> net_static B s" and "boot_starts bu s \<noteq> []"
  shows "\<exists>s' live xs. kernel_main b bu s = Some (Inr s') \<and> kinv B (mc_kern s', live) xs
    \<and> list_all2 (started (mc_kern s')) xs (ring_order (boot_starts bu s))
    \<and> (let k = mc_kern s'; i = k_ptab k (k_idle_task k) in k_cur k = k_idle_task k \<and> p_state i = PROC_SLEEP
         \<and> p_name i = idle_name @ replicate 10 0 \<and> p_regs i ! 0 = 0x1F \<and> p_regs i ! 1 = bu_idle bu
         \<and> k_irq k \<and> k_sched_enabled k \<and> k_kstat k = 0)
    \<and> mc_cons s' = Some (mc_uart1 s') \<and> u_state (mc_uart1 s') = UART_OPEN \<and> (bu_net bu \<longrightarrow> net_up s')"
proof -
  obtain t idle live xs where t: "kernel_main b bu s = Some (Inr (upd_kern enable_scheduler t))"
    "booting B idle (mc_kern t, live) xs (boot_starts bu s)" "p_state idle = PROC_SLEEP" "p_name idle = idle_name @ replicate 10 0"
    "p_regs idle ! 0 = 0x1F" "p_regs idle ! 1 = bu_idle bu" "mc_cons t = Some (mc_uart1 t)" "u_state (mc_uart1 t) = UART_OPEN"
    "bu_net bu \<longrightarrow> net_up t"
    using kernel_main_booting [OF assms(1-5)] by blast
  obtain live' ys where k: "kinv B (mc_kern (upd_kern enable_scheduler t), live') ys"
    "list_all2 (started (mc_kern (upd_kern enable_scheduler t))) ys (ring_order (boot_starts bu s))"
    using kernel_main_booted [OF assms t(1)] by blast
  have "booting B idle (mc_kern t, live) xs (boot_starts bu s)" by (rule t(2))
  then show ?thesis using t(1,3-9) k
    by (intro exI [of _ "upd_kern enable_scheduler t"] exI [of _ live'] exI [of _ ys])
      (simp add: booting_def enable_scheduler_def net_up_kern Let_def)
qed

text \<open>What consistent means for the processes, and for the heap with the account \<open>live\<close> of its live blocks and their sizes.\<close>

definition procs_consistent :: "kern \<Rightarrow> bool" where
  "procs_consistent k \<longleftrightarrow> (\<exists>ys. ring (k_ptab k) ys \<and> hd ys = k_procs k \<and> k_cur k \<in> insert (k_idle_task k) (set ys)
     \<and> (\<forall>p\<in>insert (k_idle_task k) (set ys). \<forall>q\<in>insert (k_idle_task k) (set ys).
          p_state (k_ptab k p) = PROC_ACTIVE \<and> p_state (k_ptab k q) = PROC_ACTIVE \<longrightarrow> p = q))"

definition heap_consistent :: "nat \<Rightarrow> kmem \<Rightarrow> (addr \<times> u32) list \<Rightarrow> bool" where
  "heap_consistent B m live \<longleftrightarrow> distinct (map fst live)
     \<and> (\<forall>(p, n)\<in>set live. \<forall>(q, j)\<in>set live. p \<noteq> q \<longrightarrow> unat p + unat n \<le> unat q \<or> unat q + unat j \<le> unat p)
     \<and> (\<forall>(p, n)\<in>set live. p \<noteq> NULL \<and> B \<le> unat p \<and> unat p + unat n \<le> B + mem_init_heap_size
          \<and> (\<exists>i<9. p \<in> set (chunks B i) \<and> unat n \<le> csize i))
     \<and> (\<forall>i<9. set (free_list m i) = set (chunks B i) - fst ` set live)"

lemma kinv_consistent:
  assumes "kinv B (k, live) ys"
  shows "procs_consistent k \<and> schedule k \<noteq> None \<and> heap_consistent B (k_mem k) live"
    and "\<exists>zs. ring (k_ptab k) zs \<and> hd zs = k_procs k \<and> insert (k_idle_task k) (set zs) \<subseteq> fst ` set live"
proof -
  have si: "sched_inv k ys" and ao: "active_ok k ys" and lo: "live_ok B (k_mem k, live)"
    and own: "insert (k_idle_task k) (set ys) \<subseteq> fst ` set live" using assms by (simp_all add: kinv_def)
  have one: "p = q" if "p \<in> insert (k_idle_task k) (set ys)" "q \<in> insert (k_idle_task k) (set ys)"
    "p_state (k_ptab k p) = PROC_ACTIVE \<and> p_state (k_ptab k q) = PROC_ACTIVE" for p q
    using active_okD [OF ao that(1)] active_okD [OF ao that(2)] that(3) by simp
  have ring: "ring (k_ptab k) ys" "hd ys = k_procs k" "k_cur k \<in> insert (k_idle_task k) (set ys)"
    using si by (simp_all add: sched_inv_def)
  have "procs_consistent k"
    unfolding procs_consistent_def by (rule exI [of _ ys]) (intro conjI ballI impI ring; rule one; assumption)
  moreover have "schedule k \<noteq> None" using schedule_eq [OF si] by auto
  moreover have "heap_consistent B (k_mem k) live" unfolding heap_consistent_def by (rule live_ok_consistent [OF lo])
  ultimately show "procs_consistent k \<and> schedule k \<noteq> None \<and> heap_consistent B (k_mem k) live" by blast
  show "\<exists>zs. ring (k_ptab k) zs \<and> hd zs = k_procs k \<and> insert (k_idle_task k) (set zs) \<subseteq> fst ` set live"
    by (rule exI [of _ ys]) (intro conjI ring(1,2) own)
qed

text \<open>C1: the kernel stays consistent from boot on. Whatever sequence of system calls, faults, interrupts, reschedules and process
  creations follows \<open>main\<close>, the processes form a ring, the current process is on it or is the idle task, at most one process is
  active, and the next call of \<open>schedule\<close> returns. The heap is consistent too: there is an account of the live blocks, kept by the
  steps, by which all live blocks lie inside the heap, in chunks that are large enough, no two overlap, the free lists hold
  exactly the chunks that are not live, and every process on the ring and the idle task is in a live block. A creation that fails is
  followed only if none of the chunks it took is the first of a size class (see \<open>Proc\<close> for what happens otherwise).\<close>

theorem kernel_reachable_consistent:
  assumes "heap_ok B" and "bu_heap_end bu = of_nat B" and "k_procs (mc_kern s) = NULL" and "length (bu_boot bu) \<le> 20"
    and "bu_net bu \<Longrightarrow> net_static B s" and "boot_starts bu s \<noteq> []" and "kernel_main b bu s = Some (Inr s0)"
  shows "\<exists>live0. \<forall>k live. kstep\<^sup>*\<^sup>* (mc_kern s0, live0) (k, live) \<longrightarrow>
    procs_consistent k \<and> schedule k \<noteq> None \<and> heap_consistent B (k_mem k) live
    \<and> (\<exists>ys. ring (k_ptab k) ys \<and> hd ys = k_procs k \<and> insert (k_idle_task k) (set ys) \<subseteq> fst ` set live)"
proof -
  obtain live0 xs where k0: "kinv B (mc_kern s0, live0) xs" using kernel_main_booted [OF assms] by blast
  show ?thesis
  proof (intro exI [of _ live0] allI impI)
    fix k live assume "kstep\<^sup>*\<^sup>* (mc_kern s0, live0) (k, live)"
    then obtain ys where "kinv B (k, live) ys" using kreach_kinv k0 by blast
    from kinv_consistent [OF this] show "procs_consistent k \<and> schedule k \<noteq> None \<and> heap_consistent B (k_mem k) live
      \<and> (\<exists>ys. ring (k_ptab k) ys \<and> hd ys = k_procs k \<and> insert (k_idle_task k) (set ys) \<subseteq> fst ` set live)" by blast
  qed
qed

section \<open>Witnesses\<close>

text \<open>A machine as the image leaves it, on the device of \<open>EthInit\<close>, and a kernel for it with two boot processes, with or without networking.\<close>

definition net0 :: net where
  "net0 = \<lparr>ps_kern = kern0, ps_mem = (\<lambda>_. 0), ps_pkts = (\<lambda>_. pkt_zero),
     n_ifs = (\<lambda>_. \<lparr>l_next = NULL, l_prev = NULL, if_addr = replicate 6 0, if_bound = False\<rparr>), n_ips = (\<lambda>_. ipd_zero),
     n_arps = (\<lambda>_. \<lparr>l_next = NULL, l_prev = NULL, ae_hrd_addr = [], ae_proto_addr = 0, ae_created = 0\<rparr>),
     n_routes = (\<lambda>_. \<lparr>l_next = NULL, l_prev = NULL, rt_dst = 0, rt_netmask = 0, rt_gw = 0, rt_flags = 0, rt_metric = 0, rt_eth_if = NULL\<rparr>),
     n_eth_if_list = 0x2000200, n_arp_cache_list = 0x2000400, n_ip_route_list = 0x2000100, n_rx_completion = 0x2000500, n_frame = 0x2000600\<rparr>"

definition machine0 :: "log machine" where
  "machine0 = \<lparr>mc_drv = log_drv net0 60, mc_vec = (\<lambda>_. 0), mc_ttb = (\<lambda>_. 0), mc_uart1 = uart0, mc_wait_at = 0x2000300, mc_cons = None\<rparr>"

definition build0 :: "bool \<Rightarrow> build" where
  "build0 net = \<lparr>bu_mmu = True, bu_net = net, bu_heap_end = 0x8000,
     bu_entries = \<lparr>en_reset = 0x10, en_und = 0x20, en_svc = 0x30, en_pa = 0x40, en_da = 0x50, en_irq = 0x60, en_timer = 0x70, en_uart1 = 0x80\<rparr>,
     bu_idle = 0x5000, bu_eth_tx = 0x5100, bu_eth_rx = 0x5200, bu_boot = [(0x9000, [0x61]), (0xA000, [0x62]), (0, [])]\<rparr>"

lemma machine0_ok:
  "heap_ok 0x8000" "bu_heap_end (build0 net) = of_nat 0x8000" "k_procs (mc_kern machine0) = NULL" "length (bu_boot (build0 net)) \<le> 20"
  "net_static 0x8000 machine0" "boot_starts (build0 net) machine0 \<noteq> []"
proof -
  have "head_ok 0x8000 l" if "0x2000000 \<le> unat l" for l by (rule head_above) (use that in \<open>simp_all add: heap_ok_def mem_init_heap_size_eq\<close>)
  then show "net_static 0x8000 machine0"
    by (simp add: net_static_def machine0_def log_drv_def net0_def routes_of_def ip_addrs_def Let_def)
qed (simp_all add: heap_ok_8000 build0_def machine0_def mc_kern_def log_drv_def net0_def kern0_def boot_starts_def)

text \<open>With networking five processes are started: the last entry of the boot table stands right behind the task of the interface.\<close>

theorem kernel_main_boots_witness:
  "(\<exists>s' p q. kernel_main (log_bus 0) (build0 False) machine0 = Some (Inr s') \<and> ring (k_ptab (mc_kern s')) [p, q]
     \<and> started (mc_kern s') p (0x9000, [0x61], PROC_USER) \<and> started (mc_kern s') q (0xA000, [0x62], PROC_USER))
   \<and> (\<exists>s' p q r xs. kernel_main (log_bus 0) (build0 True) machine0 = Some (Inr s') \<and> ring (k_ptab (mc_kern s')) (p # q # r # xs)
     \<and> length xs = 2 \<and> started (mc_kern s') p (0x200, eth_task_name, PROC_SYSTEM) \<and> started (mc_kern s') q (0xA000, [0x62], PROC_USER)
     \<and> started (mc_kern s') r (0x9000, [0x61], PROC_USER) \<and> net_up s')"
proof -
  note m = machine0_ok
  have st: "boot_starts (build0 False) machine0 = [(0x9000, [0x61], PROC_USER), (0xA000, [0x62], PROC_USER)]"
    "boot_starts (build0 True) machine0 = [(0x200, eth_task_name, PROC_SYSTEM), (0x5100, eth_tx_name, PROC_SYSTEM),
       (0x5200, eth_rx_name, PROC_SYSTEM), (0x9000, [0x61], PROC_USER), (0xA000, [0x62], PROC_USER)]"
    by (simp_all add: boot_starts_def build0_def machine0_def log_drv_def)
  have "bu_net (build0 True)" "\<not> bu_net (build0 False)" by (simp_all add: build0_def)
  note net = this
  have ring: "ring (k_ptab k) xs" if "kinv B (k, live) xs" for B k live xs using that by (simp add: kinv_def sched_inv_def)
  from kernel_main_boots [OF m(1-4) m(5) m(6) [of False], of "log_bus 0"] obtain s1 live1 xs1 where
    1: "kernel_main (log_bus 0) (build0 False) machine0 = Some (Inr s1)" "kinv 0x8000 (mc_kern s1, live1) xs1"
      "list_all2 (started (mc_kern s1)) xs1 (ring_order (boot_starts (build0 False) machine0))" by blast
  obtain p q where pq: "xs1 = [p, q]" "started (mc_kern s1) p (0x9000, [0x61], PROC_USER)" "started (mc_kern s1) q (0xA000, [0x62], PROC_USER)"
    using 1(3) by (auto simp: st list_all2_Cons2)
  have "ring (k_ptab (mc_kern s1)) [p, q]" using ring [OF 1(2)] unfolding pq(1) .
  then have "\<exists>s' p q. kernel_main (log_bus 0) (build0 False) machine0 = Some (Inr s') \<and> ring (k_ptab (mc_kern s')) [p, q]
     \<and> started (mc_kern s') p (0x9000, [0x61], PROC_USER) \<and> started (mc_kern s') q (0xA000, [0x62], PROC_USER)"
    using 1(1) pq(2,3) by blast
  moreover from kernel_main_boots [OF m(1-4) m(5) m(6) [of True], of "log_bus 0"] obtain s2 live2 xs2 where
    2: "kernel_main (log_bus 0) (build0 True) machine0 = Some (Inr s2)" "kinv 0x8000 (mc_kern s2, live2) xs2" "net_up s2"
      "list_all2 (started (mc_kern s2)) xs2 (ring_order (boot_starts (build0 True) machine0))" using net(1) by blast
  obtain u v w vs where uv: "xs2 = u # v # w # vs" "length vs = 2" "started (mc_kern s2) u (0x200, eth_task_name, PROC_SYSTEM)"
    "started (mc_kern s2) v (0xA000, [0x62], PROC_USER)" "started (mc_kern s2) w (0x9000, [0x61], PROC_USER)"
    using 2(4) by (auto simp: st list_all2_Cons2)
  have "ring (k_ptab (mc_kern s2)) (u # v # w # vs)" using ring [OF 2(2)] unfolding uv(1) .
  then have "\<exists>s' p q r xs. kernel_main (log_bus 0) (build0 True) machine0 = Some (Inr s') \<and> ring (k_ptab (mc_kern s')) (p # q # r # xs)
     \<and> length xs = 2 \<and> started (mc_kern s') p (0x200, eth_task_name, PROC_SYSTEM) \<and> started (mc_kern s') q (0xA000, [0x62], PROC_USER)
     \<and> started (mc_kern s') r (0x9000, [0x61], PROC_USER) \<and> net_up s'"
    using 2(1,3) uv(2-5) by blast
  ultimately show ?thesis by blast
qed

text \<open>Two processes are booted, the timer ticks, and the interrupt is left, which runs the scheduler if it was asked to.\<close>

theorem kernel_reachable_consistent_witness:
  "\<exists>s0 k k' live n. kernel_main (log_bus 0) (build0 False) machine0 = Some (Inr s0) \<and> kstep\<^sup>*\<^sup>* (mc_kern s0, live) (k, live)
    \<and> k_clkticks k = k_clkticks (mc_kern s0) + 1 \<and> irq_exit k = Some k' \<and> kstep\<^sup>*\<^sup>* (mc_kern s0, live) (k', live)
    \<and> (\<exists>ys. ring (k_ptab k') ys \<and> hd ys = k_procs k') \<and> schedule k' \<noteq> None
    \<and> (k_idle_task k', n) \<in> set live \<and> 0x8000 \<le> unat (k_idle_task k')"
proof -
  note m = machine0_ok
  obtain s0 where s0: "kernel_main (log_bus 0) (build0 False) machine0 = Some (Inr s0)"
    using kernel_main_booting [OF m(1-4) m(5), of "log_bus 0" False] by blast
  obtain live where c: "\<And>k live'. kstep\<^sup>*\<^sup>* (mc_kern s0, live) (k, live') \<Longrightarrow>
      procs_consistent k \<and> schedule k \<noteq> None \<and> heap_consistent 0x8000 (k_mem k) live'
      \<and> (\<exists>ys. ring (k_ptab k) ys \<and> hd ys = k_procs k \<and> insert (k_idle_task k) (set ys) \<subseteq> fst ` set live')"
    using kernel_reachable_consistent [OF m(1-4) m(5) m(6) [of False] s0] by blast
  let ?k = "c_irq (mc_kern s0) (Handler timer_int)"
  have r: "kstep\<^sup>*\<^sup>* (mc_kern s0, live) (?k, live)" using k_timer by blast
  have "irq_exit ?k \<noteq> None" using c [OF r] by (auto simp: irq_exit_def)
  then obtain k' where k': "irq_exit ?k = Some k'" by blast
  have r': "kstep\<^sup>*\<^sup>* (mc_kern s0, live) (k', live)" using r k_exit [OF k'] by (rule rtranclp.rtrancl_into_rtrancl)
  have t: "k_clkticks ?k = k_clkticks (mc_kern s0) + 1" by (simp add: c_irq_def timer_int_def Let_def step_simps)
  from c [OF r'] obtain ys n where ys: "ring (k_ptab k') ys" "hd ys = k_procs k'" "schedule k' \<noteq> None" "(k_idle_task k', n) \<in> set live"
    "heap_consistent 0x8000 (k_mem k') live" by force
  have "0x8000 \<le> unat (k_idle_task k')" using ys(4,5) by (auto simp: heap_consistent_def)
  then show ?thesis using s0 r t k' r' ys(1-4) by blast
qed

end
