(* ===== verification/Sys.thy ===== *)
theory Sys
  imports Board Net "HOL-Library.Monad_Syntax"
begin

text \<open>
  The state the programs above the kernel work on: their output, the kernel with memory and network, the devices; and the
  calls of the standard library on it. The result \<open>None\<close> of an operation means that it waits for ever or runs out of input;
  \<open>printf\<close> gives it for an argument that is missing, and the one call of the code that passes too few is modelled with the
  stray value it finds (\<open>c_stray\<close> of the console).
\<close>

record 'd sys =
  c_out :: out
  c_net :: net
  c_dev :: 'd

abbreviation c_kern :: "('d, 'a) sys_scheme \<Rightarrow> kern" where "c_kern c \<equiv> ps_kern (c_net c)"
abbreviation c_mem :: "('d, 'a) sys_scheme \<Rightarrow> mem" where "c_mem c \<equiv> ps_mem (c_net c)"
abbreviation c_heap :: "('d, 'a) sys_scheme \<Rightarrow> kmem" where "c_heap c \<equiv> heap_of (c_net c)"

definition set_kern :: "kern \<Rightarrow> ('d, 'a) sys_scheme \<Rightarrow> ('d, 'a) sys_scheme" where
  "set_kern k c = c\<lparr>c_net := (c_net c)\<lparr>ps_kern := k\<rparr>\<rparr>"

definition set_mem :: "mem \<Rightarrow> ('d, 'a) sys_scheme \<Rightarrow> ('d, 'a) sys_scheme" where
  "set_mem m c = c\<lparr>c_net := (c_net c)\<lparr>ps_mem := m\<rparr>\<rparr>"

definition tab :: string where
  "tab = [CHR 0x09]"

definition cprintf :: "string \<Rightarrow> arg list \<Rightarrow> ('d, 'a) sys_scheme \<Rightarrow> ('d, 'a) sys_scheme option" where
  "cprintf fmt args c = map_option (\<lambda>o1. c\<lparr>c_out := o1\<rparr>) (say fmt args (c_out c))"

definition cputs :: "u8 list \<Rightarrow> ('d, 'a) sys_scheme \<Rightarrow> ('d, 'a) sys_scheme" where
  "cputs s c = c\<lparr>c_out := puts (c_out c) s\<rparr>"

definition cputchar :: "u8 \<Rightarrow> ('d, 'a) sys_scheme \<Rightarrow> ('d, 'a) sys_scheme" where
  "cputchar x c = c\<lparr>c_out := putchar (c_out c) x\<rparr>"

definition cbuf_disable :: "('d, 'a) sys_scheme \<Rightarrow> ('d, 'a) sys_scheme" where
  "cbuf_disable c = c\<lparr>c_out := stdio_buf_disable (c_out c)\<rparr>"

definition cbuf_enable :: "('d, 'a) sys_scheme \<Rightarrow> ('d, 'a) sys_scheme" where
  "cbuf_enable c = c\<lparr>c_out := stdio_buf_enable (c_out c)\<rparr>"

definition c_alloc :: "u32 \<Rightarrow> ('d, 'a) sys_scheme \<Rightarrow> addr \<times> ('d, 'a) sys_scheme" where
  "c_alloc n c = (case kalloc (c_net c) n of (p, net) \<Rightarrow> (p, c\<lparr>c_net := net\<rparr>))"

definition c_free :: "addr \<Rightarrow> ('d, 'a) sys_scheme \<Rightarrow> ('d, 'a) sys_scheme" where
  "c_free p c = c\<lparr>c_net := kfree (c_net c) p\<rparr>"

end
