(* ===== verification/UsbPkt.thy ===== *)
theory UsbPkt
  imports Bytes
begin

text \<open>
  include/usb.h and the checksums of dev/usb.c: packets, requests, descriptors with their bytes in memory, CRC5 and CRC16.
\<close>

section \<open>Constants\<close>

definition PID_IN :: u8 where "PID_IN = 0x09"
definition PID_SETUP :: u8 where "PID_SETUP = 0x0D"
definition PID_DATA0 :: u8 where "PID_DATA0 = 0x03"
definition PID_DATA1 :: u8 where "PID_DATA1 = 0x0B"
definition PID_ACK :: u8 where "PID_ACK = 0x02"
definition USB_DESC_DEVICE :: u8 where "USB_DESC_DEVICE = 1"
definition USB_DESC_CONFIGURATION :: u8 where "USB_DESC_CONFIGURATION = 2"
definition USB_DESC_STRING :: u8 where "USB_DESC_STRING = 3"
definition USB_DESC_INTERFACE :: u8 where "USB_DESC_INTERFACE = 4"
definition USB_DESC_ENDPOINT :: u8 where "USB_DESC_ENDPOINT = 5"
definition USB_DESC_HUB :: u8 where "USB_DESC_HUB = 0x29"
definition USB_SET_ADDRESS :: u8 where "USB_SET_ADDRESS = 5"
definition USB_GET_DESCRIPTOR :: u8 where "USB_GET_DESCRIPTOR = 6"
definition USB_CLASS_HUB :: u8 where "USB_CLASS_HUB = 9"
definition USB_EP_IN :: u8 where "USB_EP_IN = 0x80"
definition USB_XFER_CONTROL :: "2 word" where "USB_XFER_CONTROL = 0"
definition USB_XFER_INTR :: "2 word" where "USB_XFER_INTR = 3"
definition USB_HUB_PSM_GANGED :: "2 word" where "USB_HUB_PSM_GANGED = 0"
definition USB_HUB_PSM_INDIVIDUAL :: "2 word" where "USB_HUB_PSM_INDIVIDUAL = 1"
definition USB_HUB_TTTT_8 :: "2 word" where "USB_HUB_TTTT_8 = 0"

section \<open>Packets\<close>

definition PID_PACK :: "u8 \<Rightarrow> u8" where
  "PID_PACK x = x OR push_bit 4 (NOT x)"

record usb_token_pkt =
  tk_pid :: u8
  tk_data :: u16

definition usb_fill_token_pkt :: "u8 \<Rightarrow> u32 \<Rightarrow> u32 \<Rightarrow> u32 \<Rightarrow> usb_token_pkt" where
  "usb_fill_token_pkt pid a endp crc5 =
     (let data = 0;
          data = data OR ucast (push_bit 9 a);
          data = data OR ucast (push_bit 5 endp);
          data = data OR ucast crc5
      in \<lparr>tk_pid = PID_PACK pid, tk_data = data\<rparr>)"

definition usb_parse_token_pkt :: "usb_token_pkt \<Rightarrow> u8 \<times> u32 \<times> u32 \<times> u32" where
  "usb_parse_token_pkt pkt =
     (tk_pid pkt AND 0x0F, ucast (drop_bit 9 (tk_data pkt)) AND 0x7F, ucast (drop_bit 5 (tk_data pkt)) AND 0x0F,
      ucast (tk_data pkt) AND 0x1F)"

record usb_request =
  rq_bmRequestType :: u8
  rq_bRequest :: u8
  rq_wValue :: u16
  rq_wIndex :: u16
  rq_wLength :: u16

definition of_le16 :: "u8 \<Rightarrow> u8 \<Rightarrow> u16" where
  "of_le16 a b = ucast a OR push_bit 8 (ucast b)"

text \<open>The bytes of the packed structure.\<close>

definition request_bytes :: "usb_request \<Rightarrow> u8 list" where
  "request_bytes r = [rq_bmRequestType r, rq_bRequest r] @ le16 (rq_wValue r) @ le16 (rq_wIndex r) @ le16 (rq_wLength r)"

text \<open>The two packets the host sends, \<open>struct usb_token_pkt\<close> and \<open>struct usb_request_pkt\<close>; both begin with the identifier.\<close>

datatype usb_pkt = Token_Pkt usb_token_pkt | Request_Pkt u8 usb_request u16

fun pkt_pid :: "usb_pkt \<Rightarrow> u8" where
  "pkt_pid (Token_Pkt t) = tk_pid t"
| "pkt_pid (Request_Pkt pid r crc) = pid"

definition sizeof_token_pkt :: u32 where "sizeof_token_pkt = 3"
definition sizeof_request_pkt :: u32 where "sizeof_request_pkt = 11"

section \<open>Checksums\<close>

fun crc5_loop :: "nat \<Rightarrow> u32 \<Rightarrow> u32 \<Rightarrow> u32" where
  "crc5_loop 0 udata crc5 = crc5"
| "crc5_loop (Suc n) udata crc5 =
     crc5_loop n (push_bit 1 udata)
       (if (udata XOR crc5) AND 0x80000000 \<noteq> 0 then push_bit 1 crc5 XOR 0x28000000 else push_bit 1 crc5)"

definition usb_crc5 :: "u32 \<Rightarrow> int \<Rightarrow> u32" where
  "usb_crc5 dwInput iBitcnt =
     (let crc5 = 0xF8000000;
          udata = push_bit (nat (32 - iBitcnt)) dwInput
      in if iBitcnt < 1 \<or> iBitcnt > 32 then 0xFFFFFFFF
         else drop_bit 27 (crc5_loop (nat iBitcnt) udata crc5) XOR 0x1F)"

definition crc16_bit :: "u32 \<times> u32 \<Rightarrow> u32 \<times> u32" where
  "crc16_bit st =
     (case st of (a, b) \<Rightarrow>
        (let a = push_bit 1 a;
             newBit = b AND 1;
             b = drop_bit 1 b;
             lostBit = drop_bit 16 a;
             a = (if newBit \<noteq> lostBit then a XOR 0x8005 else a)
         in (a AND 0xFFFF, b)))"

definition usb_crc16 :: "u8 list \<Rightarrow> u16" where
  "usb_crc16 buffer = ucast (foldl (\<lambda>a v. fst ((crc16_bit ^^ 8) (a, ucast v))) 0xFFFF buffer XOR (0xFFFF :: u32))"

section \<open>Descriptors\<close>

record usb_device_desc =
  dd_bLength :: u8
  dd_bDescriptorType :: u8
  dd_bcdUSB :: u16
  dd_bDeviceClass :: u8
  dd_bDeviceSubClass :: u8
  dd_bDeviceProtocol :: u8
  dd_bMaxPacketSize0 :: u8
  dd_idVendor :: u16
  dd_idProduct :: u16
  dd_bcdDevice :: u16
  dd_iManufacturer :: u8
  dd_iProduct :: u8
  dd_iSerialNumber :: u8
  dd_bNumConfigurations :: u8

definition device_desc_zero :: usb_device_desc where
  "device_desc_zero = \<lparr>dd_bLength = 0, dd_bDescriptorType = 0, dd_bcdUSB = 0, dd_bDeviceClass = 0, dd_bDeviceSubClass = 0,
     dd_bDeviceProtocol = 0, dd_bMaxPacketSize0 = 0, dd_idVendor = 0, dd_idProduct = 0, dd_bcdDevice = 0, dd_iManufacturer = 0,
     dd_iProduct = 0, dd_iSerialNumber = 0, dd_bNumConfigurations = 0\<rparr>"

text \<open>The bytes of the packed structure on the little-endian target, and the structure over given bytes.\<close>

definition device_desc_bytes :: "usb_device_desc \<Rightarrow> u8 list" where
  "device_desc_bytes d =
     [dd_bLength d, dd_bDescriptorType d] @ le16 (dd_bcdUSB d)
     @ [dd_bDeviceClass d, dd_bDeviceSubClass d, dd_bDeviceProtocol d, dd_bMaxPacketSize0 d]
     @ le16 (dd_idVendor d) @ le16 (dd_idProduct d) @ le16 (dd_bcdDevice d)
     @ [dd_iManufacturer d, dd_iProduct d, dd_iSerialNumber d, dd_bNumConfigurations d]"

definition device_desc_of :: "u8 list \<Rightarrow> usb_device_desc" where
  "device_desc_of b = \<lparr>dd_bLength = b ! 0, dd_bDescriptorType = b ! 1, dd_bcdUSB = of_le16 (b ! 2) (b ! 3), dd_bDeviceClass = b ! 4,
     dd_bDeviceSubClass = b ! 5, dd_bDeviceProtocol = b ! 6, dd_bMaxPacketSize0 = b ! 7, dd_idVendor = of_le16 (b ! 8) (b ! 9),
     dd_idProduct = of_le16 (b ! 10) (b ! 11), dd_bcdDevice = of_le16 (b ! 12) (b ! 13), dd_iManufacturer = b ! 14,
     dd_iProduct = b ! 15, dd_iSerialNumber = b ! 16, dd_bNumConfigurations = b ! 17\<rparr>"

text \<open>The bit fields of \<open>bmAttributes\<close>, the first in the lowest bits.\<close>

record cfg_attributes =
  at_reserved0 :: "5 word"
  at_remoteWakeup :: bool
  at_selfPowered :: bool
  at_reserved1 :: bool

definition attributes_byte :: "cfg_attributes \<Rightarrow> u8" where
  "attributes_byte a = ucast (at_reserved0 a) OR (if at_remoteWakeup a then 0x20 else 0) OR (if at_selfPowered a then 0x40 else 0)
     OR (if at_reserved1 a then 0x80 else 0)"

record usb_configuration_desc =
  cd_bLength :: u8
  cd_bDescriptorType :: u8
  cd_wTotalLength :: u16
  cd_bNumInterfaces :: u8
  cd_bConfigurationValue :: u8
  cd_iConfiguration :: u8
  cd_bmAttributes :: cfg_attributes
  cd_bMaxPower :: u8

definition sizeof_configuration_desc :: nat where "sizeof_configuration_desc = 9"

definition configuration_desc_bytes :: "usb_configuration_desc \<Rightarrow> u8 list" where
  "configuration_desc_bytes d =
     [cd_bLength d, cd_bDescriptorType d] @ le16 (cd_wTotalLength d)
     @ [cd_bNumInterfaces d, cd_bConfigurationValue d, cd_iConfiguration d, attributes_byte (cd_bmAttributes d), cd_bMaxPower d]"

definition configuration_desc_of :: "u8 list \<Rightarrow> usb_configuration_desc" where
  "configuration_desc_of b = \<lparr>cd_bLength = b ! 0, cd_bDescriptorType = b ! 1, cd_wTotalLength = of_le16 (b ! 2) (b ! 3),
     cd_bNumInterfaces = b ! 4, cd_bConfigurationValue = b ! 5, cd_iConfiguration = b ! 6,
     cd_bmAttributes = \<lparr>at_reserved0 = ucast (b ! 7), at_remoteWakeup = bit (b ! 7) 5, at_selfPowered = bit (b ! 7) 6,
       at_reserved1 = bit (b ! 7) 7\<rparr>,
     cd_bMaxPower = b ! 8\<rparr>"

record usb_interface_desc =
  id_bLength :: u8
  id_bDescriptorType :: u8
  id_bInterfaceNumber :: u8
  id_bAlternateSetting :: u8
  id_bNumEndpoints :: u8
  id_bInterfaceClass :: u8
  id_bInterfaceSubClass :: u8
  id_bInterfaceProtocol :: u8
  id_iInterface :: u8

record usb_endpoint_desc =
  ep_bLength :: u8
  ep_bDescriptorType :: u8
  ep_bEndpointAddress :: u8
  ep_transferType :: "2 word"
  ep_syncType :: "2 word"
  ep_usageType :: "2 word"
  ep_reserved0 :: "2 word"
  ep_wMaxPacketSize :: u16
  ep_bInterval :: u8

definition endpoint_desc_zero :: usb_endpoint_desc where
  "endpoint_desc_zero = \<lparr>ep_bLength = 0, ep_bDescriptorType = 0, ep_bEndpointAddress = 0, ep_transferType = 0, ep_syncType = 0,
     ep_usageType = 0, ep_reserved0 = 0, ep_wMaxPacketSize = 0, ep_bInterval = 0\<rparr>"

text \<open>The pointers \<open>DeviceRemovable\<close> and \<open>PortPwrCtrlMask\<close> point to two bytes each.\<close>

record usb_hub_desc =
  hd_bLength :: u8
  hd_bDescriptorType :: u8
  hd_bNbrPorts :: u8
  hd_powerSwitchingMode :: "2 word"
  hd_compoundDevice :: bool
  hd_overCurrentProtectionMode :: "2 word"
  hd_ttThinkTime :: "2 word"
  hd_portIndicatorsSupported :: bool
  hd_bPwrOn2PwrGood :: u8
  hd_bHubContrCurrent :: u8
  hd_DeviceRemovable :: "u8 \<times> u8"
  hd_PortPwrCtrlMask :: "u8 \<times> u8"

record usb_hub =
  h_hub_desc :: usb_hub_desc
  h_device_desc :: usb_device_desc
  h_configuration_desc :: usb_configuration_desc
  h_interface_desc :: usb_interface_desc
  h_status_change_endpoint_desc :: usb_endpoint_desc

definition attributes_zero :: cfg_attributes where
  "attributes_zero = \<lparr>at_reserved0 = 0, at_remoteWakeup = False, at_selfPowered = False, at_reserved1 = False\<rparr>"

definition configuration_desc_zero :: usb_configuration_desc where
  "configuration_desc_zero = \<lparr>cd_bLength = 0, cd_bDescriptorType = 0, cd_wTotalLength = 0, cd_bNumInterfaces = 0,
     cd_bConfigurationValue = 0, cd_iConfiguration = 0, cd_bmAttributes = attributes_zero, cd_bMaxPower = 0\<rparr>"

definition interface_desc_zero :: usb_interface_desc where
  "interface_desc_zero = \<lparr>id_bLength = 0, id_bDescriptorType = 0, id_bInterfaceNumber = 0, id_bAlternateSetting = 0, id_bNumEndpoints = 0,
     id_bInterfaceClass = 0, id_bInterfaceSubClass = 0, id_bInterfaceProtocol = 0, id_iInterface = 0\<rparr>"

definition hub_desc_zero :: usb_hub_desc where
  "hub_desc_zero = \<lparr>hd_bLength = 0, hd_bDescriptorType = 0, hd_bNbrPorts = 0, hd_powerSwitchingMode = 0, hd_compoundDevice = False,
     hd_overCurrentProtectionMode = 0, hd_ttThinkTime = 0, hd_portIndicatorsSupported = False, hd_bPwrOn2PwrGood = 0,
     hd_bHubContrCurrent = 0, hd_DeviceRemovable = (0, 0), hd_PortPwrCtrlMask = (0, 0)\<rparr>"

definition hub_zero :: usb_hub where
  "hub_zero = \<lparr>h_hub_desc = hub_desc_zero, h_device_desc = device_desc_zero, h_configuration_desc = configuration_desc_zero,
     h_interface_desc = interface_desc_zero, h_status_change_endpoint_desc = endpoint_desc_zero\<rparr>"

end
