(* ===== verification/Usb.thy ===== *)
theory Usb
  imports Sys UsbPkt
begin

text \<open>
  The host side of USB (dev/usb.c): control transfers to a device and its enumeration. The host controller driver is a record
  of its operations, as \<open>struct usb_hcd\<close> is in the code. The result \<open>(rc, s)\<close> of an operation is its return value
  and the state it leaves.
\<close>

section \<open>Devices and the controller's operations\<close>

text \<open>\<open>dv_wait\<close> is \<open>in_completion.wait\<close>; the descriptors of the configurations and the strings are in memory.\<close>

record usb_dev = list_node +
  dv_address :: u32
  dv_control_ep :: usb_endpoint_desc
  dv_device_desc :: usb_device_desc
  dv_configuration_desc :: addr
  dv_sManufacturer :: addr
  dv_sProduct :: addr
  dv_sSerialNumber :: addr
  dv_wait :: addr

definition usb_dev_zero :: usb_dev where
  "usb_dev_zero = \<lparr>l_next = NULL, l_prev = NULL, dv_address = 0, dv_control_ep = endpoint_desc_zero, dv_device_desc = device_desc_zero,
     dv_configuration_desc = NULL, dv_sManufacturer = NULL, dv_sProduct = NULL, dv_sSerialNumber = NULL, dv_wait = NULL\<rparr>"

definition sizeof_usb_dev :: u32 where "sizeof_usb_dev = 64"

text \<open>\<open>&dev->in_completion\<close>.\<close>

definition in_completion :: "addr \<Rightarrow> addr" where "in_completion dev = dev + 60"

text \<open>\<open>ub_next\<close> is \<open>nextAddress\<close>, \<open>ub_devices\<close> the address of the list head \<open>usb_devices\<close>.\<close>

record 'd usb = "'d sys" +
  ub_next :: u8
  ub_devs :: "addr \<Rightarrow> usb_dev"
  ub_devices :: addr

text \<open>Operations get the address, the endpoint, the packet or the room for one, and its length; \<open>in\<close> also yields the bytes
  it stored.\<close>

record 's usb_hcd =
  hcd_out :: "u32 \<Rightarrow> u32 \<Rightarrow> usb_pkt \<Rightarrow> u32 \<Rightarrow> 's \<Rightarrow> (int \<times> 's) option"
  hcd_in :: "u32 \<Rightarrow> u32 \<Rightarrow> u32 \<Rightarrow> 's \<Rightarrow> (int \<times> u8 list \<times> 's) option"
  hcd_register_ep :: "usb_endpoint_desc \<Rightarrow> 's \<Rightarrow> int \<times> 's"

definition upd_dev :: "addr \<Rightarrow> (usb_dev \<Rightarrow> usb_dev) \<Rightarrow> ('d, 'a) usb_scheme \<Rightarrow> ('d, 'a) usb_scheme" where
  "upd_dev p f s = s\<lparr>ub_devs := (ub_devs s)(p := f (ub_devs s p))\<rparr>"

text \<open>\<open>if (call) return -1;\<close> and \<open>if (call) { printf(msg); goto out_err; }\<close>.\<close>

definition or_fail :: "(int \<times> 's) option \<Rightarrow> ('s \<Rightarrow> (int \<times> 's) option) \<Rightarrow> (int \<times> 's) option" where
  "or_fail m f = do { (rc, s) \<leftarrow> m; (if rc \<noteq> 0 then Some (- 1, s) else f s) }"

definition fail_msg :: "string \<Rightarrow> arg list \<Rightarrow> ('d, 'a) sys_scheme \<Rightarrow> (int \<times> ('d, 'a) sys_scheme) option" where
  "fail_msg msg args s = map_option (\<lambda>s. (- 1, s)) (cprintf (msg @ crlf) args s)"

section \<open>Control transfers\<close>

definition usb_token :: "('d, 'a) usb_scheme usb_hcd \<Rightarrow> addr \<Rightarrow> u8 \<Rightarrow> u32 \<Rightarrow> ('d, 'a) usb_scheme \<Rightarrow> (int \<times> ('d, 'a) usb_scheme) option" where
  "usb_token h dev pid ep s =
     (case c_alloc sizeof_token_pkt s of
        (token, s) \<Rightarrow>
          if token = NULL then fail_msg ''Unable to allocate SETUP token packet'' [] s
          else (let a = dv_address (ub_devs s dev);
                    crc5 = usb_crc5 (push_bit 4 a OR ep) 11
                in do {
                  (rc, s) \<leftarrow> hcd_out h a 0 (Token_Pkt (usb_fill_token_pkt pid a ep crc5)) sizeof_token_pkt s;
                  (if rc \<noteq> 0 then do { s \<leftarrow> cprintf (''Unable to queue token'' @ crlf) [] s; Some (- 1, c_free token s) }
                   else Some (0, s))
                }))"

text \<open>The data packet of a request. The functions differ in the message for a failed transfer and in whether they then free
  the packet.\<close>

definition usb_data0 :: "('d, 'a) usb_scheme usb_hcd \<Rightarrow> addr \<Rightarrow> usb_request \<Rightarrow> string \<Rightarrow> bool \<Rightarrow> ('d, 'a) usb_scheme
    \<Rightarrow> (int \<times> ('d, 'a) usb_scheme) option" where
  "usb_data0 h dev r msg freeing s =
     (case c_alloc sizeof_request_pkt s of
        (req, s) \<Rightarrow>
          if req = NULL then fail_msg ''Unable to allocate token packet'' [] s
          else (let pkt = Request_Pkt (PID_PACK PID_DATA0) r (usb_crc16 (request_bytes r))
                in do {
                  (rc, s) \<leftarrow> hcd_out h (dv_address (ub_devs s dev)) 0 pkt sizeof_request_pkt s;
                  (if rc \<noteq> 0 then do { s \<leftarrow> cprintf (msg @ crlf) [] s; Some (- 1, if freeing then c_free req s else s) }
                   else Some (0, s))
                }))"

definition usb_wait :: "addr \<Rightarrow> ('d, 'a) usb_scheme \<Rightarrow> ('d, 'a) usb_scheme option" where
  "usb_wait dev s = (case wait (c_kern s) (in_completion dev) of Inl e \<Rightarrow> None | Inr (rc, k) \<Rightarrow> Some (set_kern k s))"

definition set_address_request :: "u32 \<Rightarrow> usb_request" where
  "set_address_request a = \<lparr>rq_bmRequestType = 0, rq_bRequest = USB_SET_ADDRESS, rq_wValue = ucast a, rq_wIndex = 0, rq_wLength = 0\<rparr>"

definition usb_set_address :: "('d, 'a) usb_scheme usb_hcd \<Rightarrow> addr \<Rightarrow> u32 \<Rightarrow> ('d, 'a) usb_scheme \<Rightarrow> (int \<times> ('d, 'a) usb_scheme) option" where
  "usb_set_address h dev a s =
     or_fail (usb_token h dev PID_SETUP 0 s) (\<lambda>s.
     or_fail (usb_data0 h dev (set_address_request a) ''Unable to queue SET_ADDRESS SETUP data'' True s) (\<lambda>s.
     or_fail (usb_token h dev PID_IN 0 s) (\<lambda>s.
       do {
         s \<leftarrow> (if sint a > 1 then usb_wait dev s else Some s);
         Some (0, upd_dev dev (\<lambda>v. v\<lparr>dv_address := a\<rparr>) s)
       })))"

definition get_desc_request :: "u16 \<Rightarrow> usb_request" where
  "get_desc_request v = \<lparr>rq_bmRequestType = 0x80, rq_bRequest = USB_GET_DESCRIPTOR, rq_wValue = v, rq_wIndex = 0, rq_wLength = 18\<rparr>"

text \<open>What \<open>usb_get_desc\<close> and \<open>usb_get_string_desc\<close> have in common: they differ in \<open>wValue\<close> only. The bytes are those stored
  in the caller's buffer.\<close>

definition usb_control_in :: "('d, 'a) usb_scheme usb_hcd \<Rightarrow> addr \<Rightarrow> u16 \<Rightarrow> u32 \<Rightarrow> ('d, 'a) usb_scheme
    \<Rightarrow> (int \<times> u8 list \<times> ('d, 'a) usb_scheme) option" where
  "usb_control_in h dev v len s = do {
     (rc, s) \<leftarrow> or_fail (usb_token h dev PID_SETUP 0 s) (\<lambda>s.
       or_fail (usb_data0 h dev (get_desc_request v) ''Unable to queue GET_DESCRIPTOR data'' False s) (\<lambda>s.
         usb_token h dev PID_IN 0 s));
     (if rc \<noteq> 0 then Some (- 1, [], s)
      else do {
        (rc, bs, s) \<leftarrow> hcd_in h (dv_address (ub_devs s dev)) 0 len s;
        (if rc \<noteq> 0 then map_option (\<lambda>s. (- 1, bs, s)) (cprintf (''Unable to queue IN'' @ crlf) [] s)
         else do {
           s \<leftarrow> (if sint (dv_address (ub_devs s dev)) > 1 then usb_wait dev s else Some s);
           Some (0, bs, s)
         })
      })
   }"

definition usb_get_desc :: "('d, 'a) usb_scheme usb_hcd \<Rightarrow> addr \<Rightarrow> u8 \<Rightarrow> u32 \<Rightarrow> ('d, 'a) usb_scheme
    \<Rightarrow> (int \<times> u8 list \<times> ('d, 'a) usb_scheme) option" where
  "usb_get_desc h dev type = usb_control_in h dev (push_bit 8 (ucast type))"

definition usb_get_string_desc :: "('d, 'a) usb_scheme usb_hcd \<Rightarrow> addr \<Rightarrow> u8 \<Rightarrow> u32 \<Rightarrow> ('d, 'a) usb_scheme
    \<Rightarrow> (int \<times> u8 list \<times> ('d, 'a) usb_scheme) option" where
  "usb_get_string_desc h dev idx = usb_control_in h dev (push_bit 8 (ucast USB_DESC_STRING) OR ucast idx)"

section \<open>Enumeration\<close>

text \<open>A new content of the first bytes of a buffer.\<close>

definition overlay :: "u8 list \<Rightarrow> u8 list \<Rightarrow> u8 list" where
  "overlay bs buf = bs @ drop (length bs) buf"

text \<open>The completion, the address and the control endpoint of a new device.\<close>

definition usb_attach_setup :: "('d, 'a) usb_scheme usb_hcd \<Rightarrow> addr \<Rightarrow> ('d, 'a) usb_scheme \<Rightarrow> (int \<times> ('d, 'a) usb_scheme) option" where
  "usb_attach_setup h dev s =
     (case bfifo_alloc (c_heap s) (k_bfifos (c_kern s)) 10 of
        (w, m, fifos) \<Rightarrow>
          (let k = (c_kern s)\<lparr>k_mem := m, k_bfifos := fifos, k_completions := (k_completions (c_kern s))(in_completion dev := w)\<rparr>;
               s = upd_dev dev (\<lambda>v. v\<lparr>dv_wait := w\<rparr>) (set_kern k s)
           in if w = NULL then fail_msg ''Unable to allocation in_completion'' [] s
              else (let s = upd_dev dev (\<lambda>v. v\<lparr>dv_address := 0, dv_control_ep := (dv_control_ep v)\<lparr>ep_bEndpointAddress := 0,
                             ep_transferType := USB_XFER_CONTROL, ep_wMaxPacketSize := 64\<rparr>\<rparr>) s
                    in case hcd_register_ep h (dv_control_ep (ub_devs s dev)) s of
                         (rc, s) \<Rightarrow>
                           if rc \<noteq> 0 then fail_msg ''Failed to register default control endpoint'' [] s
                           else do {
                             let a = ub_next s;
                             (rc, s) \<leftarrow> usb_set_address h dev (ucast a) (s\<lparr>ub_next := a + 1\<rparr>);
                             (if rc \<noteq> 0 then fail_msg ''Failed to assign address'' [] s
                              else do {
                                s \<leftarrow> cprintf (''New device assigned address %d'' @ crlf) [Int_Arg (dv_address (ub_devs s dev))] s;
                                let s = upd_dev dev (\<lambda>v. v\<lparr>dv_control_ep := (dv_control_ep v)\<lparr>ep_bEndpointAddress := ucast (dv_address v)\<rparr>\<rparr>) s;
                                (case hcd_register_ep h (dv_control_ep (ub_devs s dev)) s of
                                   (rc, s) \<Rightarrow>
                                     if rc \<noteq> 0 then fail_msg ''Failed to register default control endpoint for device %d''
                                       [Int_Arg (dv_address (ub_devs s dev))] s
                                     else Some (0, s))
                              })
                           })))"

text \<open>One of the three strings: the descriptor is read into the buffer, and copied to fresh memory if the pointer \<open>chk\<close> looks at
  is not null. Copying more than the buffer holds reads behind it.\<close>

definition usb_attach_string :: "('d, 'a) usb_scheme usb_hcd \<Rightarrow> addr \<Rightarrow> u8 \<Rightarrow> (addr \<Rightarrow> usb_dev \<Rightarrow> usb_dev) \<Rightarrow> (usb_dev \<Rightarrow> addr)
    \<Rightarrow> u8 list \<times> ('d, 'a) usb_scheme \<Rightarrow> (u8 list \<times> ('d, 'a) usb_scheme) option" where
  "usb_attach_string h dev idx set_ptr chk st =
     (case st of (buf, s) \<Rightarrow>
        if idx > 0
        then do {
          (rc, bs, s) \<leftarrow> usb_get_string_desc h dev idx 64 s;
          let buf = overlay bs buf;
          (if rc \<noteq> 0 then Some (buf, s)
           else (case c_alloc (ucast (buf ! 0)) s of
                   (p, s) \<Rightarrow>
                     (let s = upd_dev dev (set_ptr p) s
                      in if chk (ub_devs s dev) = NULL then Some (buf, s)
                         else if unat (buf ! 0) \<le> length buf
                         then Some (buf, set_mem (put_list (c_mem s) p (take (unat (buf ! 0)) buf)) s)
                         else None)))
        }
        else Some (buf, s))"

fun usb_attach_configs :: "('d, 'a) usb_scheme usb_hcd \<Rightarrow> addr \<Rightarrow> nat list \<Rightarrow> ('d, 'a) usb_scheme \<Rightarrow> (int \<times> ('d, 'a) usb_scheme) option" where
  "usb_attach_configs h dev [] s = Some (0, s)"
| "usb_attach_configs h dev (i # is) s = do {
     (rc, bs, s) \<leftarrow> usb_get_desc h dev USB_DESC_CONFIGURATION (of_nat sizeof_configuration_desc) s;
     let s = set_mem (put_list (c_mem s) (dv_configuration_desc (ub_devs s dev) + of_nat (i * sizeof_configuration_desc)) bs) s;
     (if rc \<noteq> 0 then fail_msg ''Failed to get configuration descriptor %d'' [Int_Arg (of_nat i)] s
      else usb_attach_configs h dev is s)
   }"

text \<open>What follows the address: the descriptors. The third string is copied when the first has memory.\<close>

definition usb_attach_descs :: "('d, 'a) usb_scheme usb_hcd \<Rightarrow> addr \<Rightarrow> u8 list \<Rightarrow> ('d, 'a) usb_scheme \<Rightarrow> (int \<times> ('d, 'a) usb_scheme) option" where
  "usb_attach_descs h dev buf s = do {
     (rc, bs, s) \<leftarrow> usb_get_desc h dev USB_DESC_DEVICE 18 s;
     let s = upd_dev dev (\<lambda>v. v\<lparr>dv_device_desc := device_desc_of (overlay bs (device_desc_bytes (dv_device_desc v)))\<rparr>) s;
     (if rc \<noteq> 0 then fail_msg ''Failed to read device descriptor'' [] s
      else do {
        (buf, s) \<leftarrow> usb_attach_string h dev (dd_iManufacturer (dv_device_desc (ub_devs s dev))) (\<lambda>p v. v\<lparr>dv_sManufacturer := p\<rparr>)
          dv_sManufacturer (buf, s);
        (buf, s) \<leftarrow> usb_attach_string h dev (dd_iProduct (dv_device_desc (ub_devs s dev))) (\<lambda>p v. v\<lparr>dv_sProduct := p\<rparr>)
          dv_sProduct (buf, s);
        (buf, s) \<leftarrow> usb_attach_string h dev (dd_iSerialNumber (dv_device_desc (ub_devs s dev))) (\<lambda>p v. v\<lparr>dv_sSerialNumber := p\<rparr>)
          dv_sManufacturer (buf, s);
        let n = dd_bNumConfigurations (dv_device_desc (ub_devs s dev));
        (if n = 0 then fail_msg ''Device has no configurations'' [] s
         else (case c_alloc (of_nat sizeof_configuration_desc * ucast n) s of
                 (p, s) \<Rightarrow>
                   (let s = upd_dev dev (\<lambda>v. v\<lparr>dv_configuration_desc := p\<rparr>) s
                    in if p = NULL then fail_msg ''Failed to allocate configuration descriptors'' [] s
                       else or_fail (usb_attach_configs h dev [0..<unat n] s)
                         (\<lambda>s. Some (0, s\<lparr>ub_devs := list_add_after (ub_devs s) (ub_devices s) dev\<rparr>)))))
      })
   }"

definition usb_attach_err :: "addr \<Rightarrow> ('d, 'a) usb_scheme \<Rightarrow> ('d, 'a) usb_scheme" where
  "usb_attach_err dev s =
     (let v = ub_devs s dev;
          s = (if dv_wait v \<noteq> NULL then set_kern ((c_kern s)\<lparr>k_mem := bfifo_free (c_heap s) (dv_wait v)\<rparr>) s else s);
          s = (if dv_configuration_desc v \<noteq> NULL then c_free (dv_configuration_desc v) s else s);
          s = (if dv_sManufacturer v \<noteq> NULL then c_free (dv_sManufacturer v) s else s);
          s = (if dv_sProduct v \<noteq> NULL then c_free (dv_sProduct v) s else s);
          s = (if dv_sSerialNumber v \<noteq> NULL then c_free (dv_sSerialNumber v) s else s)
      in c_free dev s)"

text \<open>\<open>buf\<close> is what the local buffer of 64 bytes holds at the beginning.\<close>

definition usb_attach_device :: "('d, 'a) usb_scheme usb_hcd \<Rightarrow> u8 list \<Rightarrow> ('d, 'a) usb_scheme \<Rightarrow> ('d, 'a) usb_scheme option" where
  "usb_attach_device h buf s = do {
     s \<leftarrow> cprintf (''New device attached on USB'' @ crlf) [] s;
     (case c_alloc sizeof_usb_dev s of
        (dev, s) \<Rightarrow>
          if dev = NULL then cprintf (''Unable to allocate usb_dev'' @ crlf) [] s
          else do {
            let s = upd_dev dev (\<lambda>v. usb_dev_zero) s;
            (rc, s) \<leftarrow> or_fail (usb_attach_setup h dev s) (usb_attach_descs h dev buf);
            Some (if rc \<noteq> 0 then usb_attach_err dev s else s)
          })
   }"

end
