(* ===== verification/Ohci.thy ===== *)
theory Ohci
  imports Usb
begin

text \<open>
  The OHCI driver (dev/ohci.c): the root hub it emulates, the operations it gives to the USB core, the interrupt and the
  initialisation. The controller's registers are on the bus; those of the interrupt controllers are a map, as in \<open>Uart\<close>.
\<close>

section \<open>Registers\<close>

definition OHCI_BASE :: addr where "OHCI_BASE = 0x80020000"
definition HcRevision :: addr where "HcRevision = OHCI_BASE"
definition HcControl :: addr where "HcControl = OHCI_BASE + 0x04"
definition HcCommandStatus :: addr where "HcCommandStatus = OHCI_BASE + 0x08"
definition HcInterruptStatus :: addr where "HcInterruptStatus = OHCI_BASE + 0x0C"
definition HcInterruptEnable :: addr where "HcInterruptEnable = OHCI_BASE + 0x10"
definition HcHCCA :: addr where "HcHCCA = OHCI_BASE + 0x18"
definition HcFmInterval :: addr where "HcFmInterval = OHCI_BASE + 0x34"
definition HcRhDescriptorA :: addr where "HcRhDescriptorA = OHCI_BASE + 0x48"
definition HcRhDescriptorB :: addr where "HcRhDescriptorB = OHCI_BASE + 0x4C"
definition HcRhPortStatus1 :: addr where "HcRhPortStatus1 = OHCI_BASE + 0x54"
definition HcRhPortStatus2 :: addr where "HcRhPortStatus2 = OHCI_BASE + 0x5C"
definition HcControl_HCFS_MASK :: u32 where "HcControl_HCFS_MASK = 0xC0"
definition HcControl_USBRESET :: u32 where "HcControl_USBRESET = 0"
definition HcControl_USBOPERATIONAL :: u32 where "HcControl_USBOPERATIONAL = 0x80"
definition HcControl_IR :: u32 where "HcControl_IR = 0x100"
definition HcCommandStatus_HCR :: u32 where "HcCommandStatus_HCR = 1"
definition HcInterruptEnable_SF :: u32 where "HcInterruptEnable_SF = 4"
definition HcInterruptEnable_RHSC :: u32 where "HcInterruptEnable_RHSC = 0x40"
definition HcRhPortStatus_CCS :: u32 where "HcRhPortStatus_CCS = 1"
definition HcRhPortStatus_CSC :: u32 where "HcRhPortStatus_CSC = 0x10000"
definition PwrCnt :: addr where "PwrCnt = INTERNAL_BASE + 0x0004"
definition PwrCnt_USH_EN :: u32 where "PwrCnt_USH_EN = 0x10000000"
definition USHINTR :: int where "USHINTR = 56"

section \<open>The state of the driver\<close>

datatype hub_state = HUB_IDLE | HUB_SETUP | HUB_DATA | HUB_STATUS

record hub_data =
  hb_address :: u32
  hb_new_address :: u32
  hb_ep0_data :: "u8 list"
  hb_ep0_len :: u32
  hb_state :: hub_state
  hb_status :: u8

definition hub_init :: hub_data where
  "hub_init = \<lparr>hb_address = 0, hb_new_address = 0, hb_ep0_data = replicate 64 0, hb_ep0_len = 0, hb_state = HUB_IDLE, hb_status = 0\<rparr>"

text \<open>\<open>oh_root\<close> is \<open>root_hub\<close>, \<open>oh_isr\<close> the address of \<open>ohci_isr\<close>.\<close>

record 'd ohci = "'d usb" +
  oh_hub :: hub_data
  oh_root :: usb_hub
  oh_hcca :: addr
  oh_vic :: "addr \<Rightarrow> u32"
  oh_isr :: addr

definition on_hub :: "(hub_data \<Rightarrow> hub_data) \<Rightarrow> ('d, 'a) ohci_scheme \<Rightarrow> ('d, 'a) ohci_scheme" where
  "on_hub f s = s\<lparr>oh_hub := f (oh_hub s)\<rparr>"

definition ohci_str :: "string list" where
  "ohci_str = [''<null>'', ''EEnright'', ''OHCI Root Hub'', ''12345678'', ''Hub'']"

definition ohci_str_max :: nat where "ohci_str_max = 5"

section \<open>The descriptors of the root hub\<close>

definition RH_HUB_DESC_LEN :: u8 where "RH_HUB_DESC_LEN = 6 + (2 * 2)"
definition RH_CONFIGURATION_DESC_TOTAL_LEN :: u16 where
  "RH_CONFIGURATION_DESC_TOTAL_LEN = 9 + 9 + 7 + ucast RH_HUB_DESC_LEN"

definition rh_hub_desc :: "u32 \<Rightarrow> u32 \<Rightarrow> usb_hub_desc" where
  "rh_hub_desc a b = hub_desc_zero\<lparr>hd_bLength := RH_HUB_DESC_LEN, hd_bDescriptorType := USB_DESC_HUB, hd_bNbrPorts := ucast (a AND 0xFF),
     hd_powerSwitchingMode := (if a AND 0x10 \<noteq> 0 then USB_HUB_PSM_INDIVIDUAL else USB_HUB_PSM_GANGED), hd_compoundDevice := False,
     hd_overCurrentProtectionMode := (if a AND 0x80 \<noteq> 0 then 1 else 0), hd_ttThinkTime := USB_HUB_TTTT_8,
     hd_bPwrOn2PwrGood := ucast (drop_bit 24 (a AND 0xFF000000)),
     hd_DeviceRemovable := (ucast (drop_bit 24 (b AND 0xFF000000)), ucast (drop_bit 16 (b AND 0x0FF00000))),
     hd_PortPwrCtrlMask := (0xFF, 0xFF)\<rparr>"

definition rh_device_desc :: usb_device_desc where
  "rh_device_desc = device_desc_zero\<lparr>dd_bLength := 18, dd_bDescriptorType := USB_DESC_DEVICE, dd_bcdUSB := 0x0200,
     dd_bDeviceClass := USB_CLASS_HUB, dd_bMaxPacketSize0 := 64, dd_idVendor := 0xEEEE, dd_idProduct := 0xAAAA, dd_bcdDevice := 0x0001,
     dd_iManufacturer := 1, dd_iProduct := 2, dd_iSerialNumber := 3, dd_bNumConfigurations := 1\<rparr>"

definition rh_configuration_desc :: usb_configuration_desc where
  "rh_configuration_desc = configuration_desc_zero\<lparr>cd_bLength := 9, cd_bDescriptorType := USB_DESC_CONFIGURATION,
     cd_wTotalLength := RH_CONFIGURATION_DESC_TOTAL_LEN, cd_bNumInterfaces := 1, cd_iConfiguration := 4,
     cd_bmAttributes := attributes_zero\<lparr>at_selfPowered := True, at_reserved1 := True\<rparr>, cd_bMaxPower := 0\<rparr>"

definition rh_interface_desc :: usb_interface_desc where
  "rh_interface_desc = interface_desc_zero\<lparr>id_bLength := 9, id_bDescriptorType := USB_DESC_INTERFACE, id_bNumEndpoints := 1,
     id_bInterfaceClass := USB_CLASS_HUB\<rparr>"

definition rh_endpoint_desc :: usb_endpoint_desc where
  "rh_endpoint_desc = endpoint_desc_zero\<lparr>ep_bLength := 7, ep_bDescriptorType := USB_DESC_ENDPOINT, ep_bEndpointAddress := 1 OR USB_EP_IN,
     ep_transferType := USB_XFER_INTR, ep_wMaxPacketSize := 64, ep_bInterval := 0xFF\<rparr>"

text \<open>With too many ports only the first fields of the hub descriptor are set.\<close>

definition root_hub_probe :: "'d bus \<Rightarrow> ('d, 'a) ohci_scheme \<Rightarrow> (int \<times> ('d, 'a) ohci_scheme) option" where
  "root_hub_probe b s =
     (case inl b HcRhDescriptorA (c_dev s) of (da, d) \<Rightarrow>
      case inl b HcRhDescriptorB d of (db, d) \<Rightarrow>
        (let s = s\<lparr>c_dev := d\<rparr>;
             hd = rh_hub_desc da db
         in if unat (hd_bNbrPorts hd) > 15
            then (let s = s\<lparr>oh_root := hub_zero\<lparr>h_hub_desc := hub_desc_zero\<lparr>hd_bLength := hd_bLength hd,
                         hd_bDescriptorType := hd_bDescriptorType hd, hd_bNbrPorts := hd_bNbrPorts hd\<rparr>\<rparr>\<rparr>
                  in map_option (\<lambda>s. (- 1, s)) (cprintf (''Illegal number of ports in root hub: %d'' @ crlf) [Int_Arg (ucast (hd_bNbrPorts hd))] s))
            else Some (0, s\<lparr>oh_root := \<lparr>h_hub_desc = hd, h_device_desc = rh_device_desc, h_configuration_desc = rh_configuration_desc,
                   h_interface_desc = rh_interface_desc, h_status_change_endpoint_desc = rh_endpoint_desc\<rparr>\<rparr>)))"

section \<open>Interrupts\<close>

definition root_hub_status_change :: "'d bus \<Rightarrow> addr \<Rightarrow> u32 \<Rightarrow> ('d, 'a) ohci_scheme \<Rightarrow> ('d, 'a) ohci_scheme option" where
  "root_hub_status_change b sreg port s =
     (case inl b sreg (c_dev s) of
        (v, d) \<Rightarrow>
          (let s = s\<lparr>c_dev := d\<rparr>
           in if v AND HcRhPortStatus_CSC \<noteq> 0
              then do {
                s \<leftarrow> cprintf (''Device %sconnected on port %d'' @ crlf)
                  [Str_Arg (ascii (if v AND HcRhPortStatus_CCS \<noteq> 0 then '''' else ''dis'')), Int_Arg port] s;
                Some (s\<lparr>c_dev := outl b sreg HcRhPortStatus_CSC (c_dev s)\<rparr>)
              }
              else Some s))"

definition ohci_isr :: "'d bus \<Rightarrow> ('d, 'a) ohci_scheme \<Rightarrow> ('d, 'a) ohci_scheme option" where
  "ohci_isr b s =
     (case inl b HcInterruptStatus (c_dev s) of
        (v, d) \<Rightarrow> do {
          s \<leftarrow> cprintf (''ohci_isr: %x'' @ crlf) [Int_Arg v] (s\<lparr>c_dev := d\<rparr>);
          (if v AND HcInterruptEnable_RHSC \<noteq> 0
           then do {
             s \<leftarrow> root_hub_status_change b HcRhPortStatus1 1 s;
             s \<leftarrow> root_hub_status_change b HcRhPortStatus2 2 s;
             Some (s\<lparr>c_dev := outl b HcInterruptStatus HcInterruptEnable_RHSC (c_dev s)\<rparr>)
           }
           else Some (s\<lparr>c_dev := outl b HcInterruptStatus 0 (c_dev s)\<rparr>))
        })"

section \<open>The root hub as a device\<close>

definition hub_in :: "u32 \<Rightarrow> u32 \<Rightarrow> ('d, 'a) ohci_scheme \<Rightarrow> int \<times> u8 list \<times> ('d, 'a) ohci_scheme" where
  "hub_in ep len s =
     (if ep AND 0x7F = 0
      then (let h = oh_hub s;
                len = (if len > hb_ep0_len h then hb_ep0_len h else len)
            in (0, take (unat len) (hb_ep0_data h), on_hub (\<lambda>h. h\<lparr>hb_state := HUB_STATUS, hb_status := PID_ACK\<rparr>) s))
      else if ep AND 0x7F = 1 then (0, [], s)
      else (- 1, [], s))"

definition ohci_in :: "u32 \<Rightarrow> u32 \<Rightarrow> u32 \<Rightarrow> ('d, 'a) ohci_scheme \<Rightarrow> (int \<times> u8 list \<times> ('d, 'a) ohci_scheme) option" where
  "ohci_in a ep len s =
     (if a = hb_address (oh_hub s) then Some (hub_in ep len s)
      else map_option (\<lambda>s. (0, [], s)) (cprintf (''device in needed'' @ crlf) [] s))"

text \<open>\<open>None\<close> for the index that the test admits and the table lacks.\<close>

definition create_string_desc :: "nat \<Rightarrow> ('d, 'a) ohci_scheme \<Rightarrow> ('d, 'a) ohci_scheme option" where
  "create_string_desc idx s =
     (if idx > ohci_str_max
      then do { s \<leftarrow> cprintf (''invalid index'' @ crlf) [] s; Some (on_hub (\<lambda>h. h\<lparr>hb_ep0_len := 0\<rparr>) s) }
      else if idx \<ge> length ohci_str then None
      else (let str = ascii (ohci_str ! idx);
                d = [of_nat (2 + length str * 2), USB_DESC_STRING] @ concat (map (\<lambda>c. [0, c]) str)
            in Some (on_hub (\<lambda>h. h\<lparr>hb_ep0_data := overlay d (hb_ep0_data h), hb_ep0_len := ucast (d ! 0)\<rparr>) s)))"

text \<open>The device and the configuration descriptor, cut to the length the request asks for.\<close>

definition serve_bytes :: "u8 list \<Rightarrow> usb_request \<Rightarrow> ('d, 'a) ohci_scheme \<Rightarrow> ('d, 'a) ohci_scheme" where
  "serve_bytes bs r = on_hub (\<lambda>h.
     (let n = (if unat (rq_wLength r) > length bs then of_nat (length bs) else ucast (rq_wLength r))
      in h\<lparr>hb_ep0_len := n, hb_ep0_data := overlay (take (unat n) bs) (hb_ep0_data h)\<rparr>))"

definition get_descriptor :: "usb_request \<Rightarrow> ('d, 'a) ohci_scheme \<Rightarrow> ('d, 'a) ohci_scheme option" where
  "get_descriptor r s =
     (let type = drop_bit 8 (rq_wValue r AND 0xFF00);
          data = map_option (on_hub (\<lambda>h. h\<lparr>hb_state := HUB_DATA\<rparr>))
      in if type = ucast USB_DESC_DEVICE then data (Some (serve_bytes (device_desc_bytes (h_device_desc (oh_root s))) r s))
         else if type = ucast USB_DESC_CONFIGURATION
         then data (Some (serve_bytes (configuration_desc_bytes (h_configuration_desc (oh_root s))) r s))
         else if type = ucast USB_DESC_STRING then data (create_string_desc (unat (rq_wValue r AND 0xFF)) s)
         else cprintf (''ohci: unhandled GET_DESCRIPTOR: %d'' @ crlf) [Int_Arg (ucast type)] s)"

definition hub_handle_request :: "usb_request \<Rightarrow> ('d, 'a) ohci_scheme \<Rightarrow> ('d, 'a) ohci_scheme option" where
  "hub_handle_request r s =
     (if rq_bRequest r = USB_SET_ADDRESS
      then Some (on_hub (\<lambda>h. h\<lparr>hb_new_address := ucast (rq_wValue r), hb_state := HUB_STATUS, hb_status := PID_ACK\<rparr>) s)
      else if rq_bRequest r = USB_GET_DESCRIPTOR then get_descriptor r s
      else cprintf (''hub_handle_request: unhandled request: %d'' @ crlf) [Int_Arg (ucast (rq_bRequest r))] s)"

text \<open>A data packet in the setup state is taken as a request; \<open>None\<close> when it is the shorter token packet.\<close>

definition hub_packet :: "usb_pkt \<Rightarrow> ('d, 'a) ohci_scheme \<Rightarrow> ('d, 'a) ohci_scheme option" where
  "hub_packet pkt s =
     (let pid = pkt_pid pkt AND 0x0F
      in if pid = PID_SETUP then Some (on_hub (\<lambda>h. h\<lparr>hb_state := HUB_SETUP\<rparr>) s)
         else if pid = PID_DATA0 \<or> pid = PID_DATA1
         then (if hb_state (oh_hub s) = HUB_SETUP
               then (case pkt of Token_Pkt t \<Rightarrow> None | Request_Pkt p r c \<Rightarrow> hub_handle_request r s)
               else Some s)
         else if pid = PID_IN
         then (if hb_state (oh_hub s) = HUB_STATUS
               then Some (on_hub (\<lambda>h. (let h = h\<lparr>hb_state := HUB_IDLE\<rparr>
                  in if hb_new_address h \<noteq> 0 then h\<lparr>hb_address := hb_new_address h, hb_new_address := 0\<rparr> else h)) s)
               else Some s)
         else Some s)"

definition hub_out :: "u32 \<Rightarrow> usb_pkt \<Rightarrow> u32 \<Rightarrow> ('d, 'a) ohci_scheme \<Rightarrow> (int \<times> ('d, 'a) ohci_scheme) option" where
  "hub_out ep pkt len s =
     (if ep AND 0x7F = 0 then map_option (\<lambda>s. (0, s)) (hub_packet pkt s)
      else if ep AND 0x7F = 1 then Some (0, s)
      else Some (- 1, s))"

definition ohci_out :: "u32 \<Rightarrow> u32 \<Rightarrow> usb_pkt \<Rightarrow> u32 \<Rightarrow> ('d, 'a) ohci_scheme \<Rightarrow> (int \<times> ('d, 'a) ohci_scheme) option" where
  "ohci_out a ep pkt len s =
     (if a = hb_address (oh_hub s) then hub_out ep pkt len s
      else map_option (\<lambda>s. (0, s)) (cprintf (''device out needed'' @ crlf) [] s))"

definition ohci_register_ep :: "usb_endpoint_desc \<Rightarrow> ('d, 'a) ohci_scheme \<Rightarrow> int \<times> ('d, 'a) ohci_scheme" where
  "ohci_register_ep ep s = (if ucast (ep_bEndpointAddress ep) = hb_address (oh_hub s) then (0, s) else (0, s))"

definition ohci_unregister_ep :: "usb_endpoint_desc \<Rightarrow> ('d, 'a) ohci_scheme \<Rightarrow> int \<times> ('d, 'a) ohci_scheme" where
  "ohci_unregister_ep ep s = (if ucast (ep_bEndpointAddress ep) = hb_address (oh_hub s) then (0, s) else (0, s))"

text \<open>The initialiser names \<open>register_ep\<close> twice; the second value stays.\<close>

definition ohci_hcd :: "('d, 'a) ohci_scheme usb_hcd" where
  "ohci_hcd = \<lparr>hcd_out = ohci_out, hcd_in = ohci_in, hcd_register_ep = ohci_unregister_ep\<rparr>"

section \<open>Initialisation\<close>

definition sizeof_hcca :: u32 where "sizeof_hcca = 252"

definition hcca_align :: "addr \<Rightarrow> addr" where
  "hcca_align p = p + (256 - p mod 256)"

definition ohci_reset :: "'d bus \<Rightarrow> addr \<Rightarrow> u32 \<Rightarrow> 'd \<Rightarrow> 'd option" where
  "ohci_reset b hcca fmInterval d = do {
     d \<leftarrow> poll32 b HcCommandStatus (\<lambda>v. v AND HcCommandStatus_HCR \<noteq> 0) (modl b HcCommandStatus (\<lambda>v. v OR HcCommandStatus_HCR) d);
     let d = outl b HcFmInterval fmInterval d;
     let d = outl b HcHCCA hcca d;
     let d = outl b HcInterruptEnable (0xFFFFFFFF AND NOT HcInterruptEnable_SF) d;
     Some (modl b HcControl (\<lambda>v. v OR HcControl_USBOPERATIONAL) d)
   }"

definition ohci_start :: "'d bus \<Rightarrow> u8 list \<Rightarrow> ('d, 'a) ohci_scheme \<Rightarrow> ('d, 'a) ohci_scheme option" where
  "ohci_start b buf s =
     (case smalloc (c_heap s) 512 of
        (p, m) \<Rightarrow>
          (let s = set_kern ((c_kern s)\<lparr>k_mem := m\<rparr>) s
           in if p = NULL then cprintf (''Failed to allocate HCCA'' @ crlf) [] s
              else (let hcca = hcca_align p;
                        s = set_mem (memset (c_mem s) hcca 0 sizeof_hcca) (s\<lparr>oh_hcca := hcca\<rparr>)
                    in case inl b HcFmInterval (c_dev s) of
                         (fmInterval, d) \<Rightarrow> do {
                           d \<leftarrow> ohci_reset b hcca fmInterval d;
                           (rc, s) \<leftarrow> root_hub_probe b (s\<lparr>c_dev := d\<rparr>);
                           (if rc \<noteq> 0 then Some s
                            else do {
                              s \<leftarrow> usb_attach_device ohci_hcd buf s;
                              let vic = snd (register_irq_handler (oh_vic s) USHINTR (oh_isr s) False);
                              Some (s\<lparr>oh_vic := enable_irq vic USHINTR\<rparr>)
                            })
                         })))"

definition ohci_init :: "'d bus \<Rightarrow> u8 list \<Rightarrow> ('d, 'a) ohci_scheme \<Rightarrow> ('d, 'a) ohci_scheme option" where
  "ohci_init b buf s =
     (let d = modl b PwrCnt (\<lambda>v. v OR PwrCnt_USH_EN) (c_dev s)
      in case inl b HcRevision d of
           (r, d) \<Rightarrow>
             if r AND 0xFF \<noteq> 0x10
             then cprintf (''Unsupported OHCI revision: %d.%d'' @ crlf) [Int_Arg (drop_bit 4 r AND 0xF), Int_Arg (r AND 0xF)] (s\<lparr>c_dev := d\<rparr>)
             else (case inl b HcControl d of
                     (ctrl, d) \<Rightarrow>
                       if ctrl AND HcControl_IR \<noteq> 0 \<or> ctrl AND HcControl_HCFS_MASK \<noteq> HcControl_USBRESET
                       then cprintf (''Something else owns the OHCI controller'' @ crlf) [] (s\<lparr>c_dev := d\<rparr>)
                       else ohci_start b buf (s\<lparr>c_dev := d\<rparr>)))"

end
