(* ===== verification/Console.thy ===== *)
theory Console
  imports Ohci
begin

text \<open>
  The commands of user/console.c about processes, time, memory and network. A command works on the state of the console:
  the system with its USB devices and what the console's reads will get.
\<close>

section \<open>The state of the console\<close>

text \<open>\<open>c_in\<close> are the reports the reads will get, \<open>c_names\<close> and \<open>c_stats\<close> the name and the counters of the interface at an
  address, \<open>c_local\<close> the address of the structure a command passes to a system call, \<open>c_handler\<close> that of \<open>handle_alarm\<close>,
  \<open>c_stray\<close> what a \<open>printf\<close> finds in place of an argument that was not passed, for the page at hand.\<close>

record if_stats =
  fs_rx_bytes :: u32
  fs_tx_bytes :: u32
  fs_rx_frames :: u32
  fs_tx_frames :: u32
  fs_runts :: u32
  fs_oversized :: u32
  fs_fcs_errors :: u32

record 'd con = "'d ohci" +
  c_in :: "read_result list"
  c_names :: "addr \<Rightarrow> u8 list"
  c_stats :: "addr \<Rightarrow> if_stats"
  c_ticker_done :: bool
  c_local :: addr
  c_handler :: addr
  c_stray :: "nat \<Rightarrow> u32"

definition cgetchar :: "'d con \<Rightarrow> (int \<times> 'd con) option" where
  "cgetchar c = map_option (\<lambda>(x, rs). (x, c\<lparr>c_in := rs\<rparr>)) (getchar (c_in c))"

text \<open>The bytes of a string an argument points to.\<close>

definition c_bytes :: "mem \<Rightarrow> addr \<Rightarrow> u8 list option" where
  "c_bytes m p = map_option (\<lambda>n. mem_bytes m p (unat n)) (strlen m p)"

section \<open>Processes, time, memory\<close>

fun state_name :: "proc_state \<Rightarrow> string" where
  "state_name PROC_ACTIVE = ''ACTIVE''"
| "state_name PROC_RUN = ''RUN''"
| "state_name PROC_SLEEP = ''SLEEP''"
| "state_name PROC_KILLED = ''KILLED''"

text \<open>One round of \<open>cmd_ps\<close>, for the process at \<open>p\<close>.\<close>

definition ps_line :: "addr \<Rightarrow> 'd con \<Rightarrow> 'd con option" where
  "ps_line p c = do {
     let q = k_ptab (c_kern c) p;
     c \<leftarrow> cprintf (''0x%x'' @ tab) [Int_Arg (p_pid q)] c;
     c \<leftarrow> cprintf (state_name (p_state q) @ tab) [] c;
     cprintf (''%s'' @ crlf) [Str_Arg (takeWhile (\<lambda>x. x \<noteq> 0) (p_name q))] c
   }"

partial_function (option) ps_loop :: "addr \<Rightarrow> addr \<Rightarrow> 'd con \<Rightarrow> 'd con option" where
  "ps_loop op p c =
     (case ps_line p c of
        None \<Rightarrow> None
      | Some c \<Rightarrow> (let p = l_next (k_ptab (c_kern c) p) in if p \<noteq> op then ps_loop op p c else Some c))"

definition cmd_ps :: "'d con \<Rightarrow> 'd con option" where
  "cmd_ps c = do {
     c \<leftarrow> cprintf (''PID'' @ tab @ ''State'' @ tab @ ''Name'' @ crlf) [] c;
     let p = k_cur (c_kern c);
     ps_loop p p c
   }"

definition ticker :: "u8 list" where
  "ticker = ascii [CHR ''/'', CHR ''-'', CHR 0x5C, CHR ''|'']"

text \<open>Each round sleeps and then reads, which gets the next report.\<close>

fun ticker_loop :: "nat \<Rightarrow> read_result list \<Rightarrow> 'd con \<Rightarrow> 'd con option" where
  "ticker_loop t [] c = None"
| "ticker_loop t (r # rs) c =
     (case sleep (c_kern c) 250 of
        Inl e \<Rightarrow> None
      | Inr (rc, k) \<Rightarrow>
          (let c = set_kern k c;
               c = cputchar 13 c;
               c = cputchar (ticker ! t) c;
               t = (if t + 1 \<ge> length ticker then 0 else t + 1)
           in case r of
                Read_Byte x \<Rightarrow> Some (c\<lparr>c_in := rs, c_ticker_done := True\<rparr>)
              | _ \<Rightarrow> ticker_loop t rs c))"

definition cmd_ticker :: "'d con \<Rightarrow> 'd con option" where
  "cmd_ticker c = do {
     let c = c\<lparr>c_ticker_done := False\<rparr>;
     c \<leftarrow> ticker_loop 0 (c_in c) c;
     Some (cputchar 13 c)
   }"

definition cmd_exit :: "'d con \<Rightarrow> 'd con option" where
  "cmd_exit c = Some (c\<lparr>c_ticker_done := False\<rparr>)"

fun dumpmem_loop :: "nat \<Rightarrow> addr \<Rightarrow> nat \<Rightarrow> 'd con \<Rightarrow> 'd con option" where
  "dumpmem_loop 0 a x c = Some c"
| "dumpmem_loop (Suc len) a x c = do {
     c \<leftarrow> (if x = 0 then cprintf ''%x| '' [Int_Arg a] c else if x = 4 then cprintf ''   '' [] c else Some c);
     c \<leftarrow> cprintf ''%x '' [Int_Arg (ucast (c_mem c a))] c;
     (if x + 1 \<ge> 8 then dumpmem_loop len (a + 1) 0 (cputs [] c) else dumpmem_loop len (a + 1) (x + 1) c)
   }"

text \<open>\<open>argv\<close> is the list of the arguments' addresses, so \<open>argc\<close> is its length.\<close>

definition cmd_dumpmem :: "addr list \<Rightarrow> 'd con \<Rightarrow> 'd con option" where
  "cmd_dumpmem argv c =
     (if length argv \<noteq> 3 then Some (cputs (ascii ''dumpmem <addr> <len>'') c)
      else do {
        a \<leftarrow> atoi (c_mem c) (argv ! 1);
        len \<leftarrow> atoi (c_mem c) (argv ! 2);
        let len = (if len = 0 then 16 else len);
        c \<leftarrow> cprintf (''dumping 0x%x+0x%x'' @ crlf @ crlf) [Int_Arg a, Int_Arg len] c;
        c \<leftarrow> dumpmem_loop (nat (sint len)) a 0 c;
        Some (cputs [] c)
      })"

definition cmd_alarm :: "addr list \<Rightarrow> 'd con \<Rightarrow> 'd con option" where
  "cmd_alarm argv c =
     (if length argv \<noteq> 3 then cprintf (''alarm <msec> <oneshot>'' @ crlf) [] c
      else do {
        msec \<leftarrow> atoi (c_mem c) (argv ! 1);
        oneshot \<leftarrow> atoi (c_mem c) (argv ! 2);
        let a = \<lparr>a_msec = msec, a_handler = c_handler c, a_oneshot = (oneshot \<noteq> 0)\<rparr>;
        let k = (c_kern c)\<lparr>k_alarms := (k_alarms (c_kern c))(c_local c := a)\<rparr>;
        (case alarm_set k (c_local c) of
           Inl e \<Rightarrow> None
         | Inr (rc, k) \<Rightarrow> cprintf (''alarm armed'' @ crlf) [] (set_kern k c))
      })"

definition handle_alarm :: "'d con \<Rightarrow> 'd con option" where
  "handle_alarm = cprintf (''alarm hit!'' @ crlf) []"

text \<open>The call does not come back, so the message is never printed.\<close>

definition cmd_reset :: "'d con \<Rightarrow> 'd con option" where
  "cmd_reset c =
     (case reset (c_kern c) of
        Inl e \<Rightarrow> None
      | Inr (rc, k) \<Rightarrow> cprintf (''reset failed!?'' @ crlf) [] (set_kern k c))"

definition cmd_kstat :: "'d con \<Rightarrow> 'd con option" where
  "cmd_kstat c =
     (case kstat_get (c_kern c) (c_local c) of
        Inl e \<Rightarrow> None
      | Inr (rc, k) \<Rightarrow>
          (let c = set_kern k c
           in if rc \<noteq> 9 then cprintf (''kstat_get: %d'' @ crlf) [Int_Arg (word_of_int rc)] c
              else cprintf (''ISR recursions prevented: %d'' @ crlf) [Int_Arg (k_user_kstat k (c_local c))] c))"

section \<open>Network\<close>

text \<open>With \<open>CONFIG_NET\<close> the table of system calls has an eleventh entry; the structure it fills is the result. What it prints without
  an interface goes to the kernel's own output.\<close>

definition stats_zero :: if_stats where
  "stats_zero = \<lparr>fs_rx_bytes = 0, fs_tx_bytes = 0, fs_rx_frames = 0, fs_tx_frames = 0, fs_runts = 0, fs_oversized = 0, fs_fcs_errors = 0\<rparr>"

definition sys_netstat :: "'d con \<Rightarrow> u8 list \<times> if_stats" where
  "sys_netstat c =
     (let p = l_next (n_ifs (c_net c) (n_eth_if_list (c_net c)))
      in if p \<noteq> NULL then (takeWhile (\<lambda>x. x \<noteq> 0) (c_names c p), c_stats c p) else ([], stats_zero))"

text \<open>The number the wrapper returns is that of the call, 10.\<close>

definition cmd_netstat :: "'d con \<Rightarrow> 'd con option" where
  "cmd_netstat c = do {
     let (name, st) = sys_netstat c;
     let c = cputs name c;
     c \<leftarrow> cprintf (tab @ ''Bytes received:  %d'' @ crlf) [Int_Arg (fs_rx_bytes st)] c;
     c \<leftarrow> cprintf (tab @ ''Bytes sent:      %d'' @ crlf) [Int_Arg (fs_tx_bytes st)] c;
     c \<leftarrow> cprintf (tab @ ''Frames received: %d'' @ crlf) [Int_Arg (fs_rx_frames st)] c;
     c \<leftarrow> cprintf (tab @ ''Frames sent:     %d'' @ crlf) [Int_Arg (fs_tx_frames st)] c;
     c \<leftarrow> cprintf (tab @ ''Runts:           %d'' @ crlf) [Int_Arg (fs_runts st)] c;
     c \<leftarrow> cprintf (tab @ ''Oversized:       %d'' @ crlf) [Int_Arg (fs_oversized st)] c;
     cprintf (tab @ ''FCS errors:      %d'' @ crlf) [Int_Arg (fs_fcs_errors st)] c
   }"

definition ip_args :: "u32 \<Rightarrow> arg list" where
  "ip_args a = [Int_Arg (drop_bit 24 (a AND 0xFF000000)), Int_Arg (drop_bit 16 (a AND 0x00FF0000)),
     Int_Arg (drop_bit 8 (a AND 0x0000FF00)), Int_Arg (a AND 0x000000FF)]"

definition arp_line :: "en_arp_entry \<Rightarrow> 'd con \<Rightarrow> 'd con option" where
  "arp_line e c = do {
     c \<leftarrow> cprintf (''%x:%x:%x:%x:%x:%x'' @ tab) (map (\<lambda>i. Int_Arg (ucast (ae_hrd_addr e ! i))) [0..<6]) c;
     cprintf (''%d.%d.%d.%d'' @ crlf) (ip_args (ae_proto_addr e)) c
   }"

partial_function (option) arp_loop :: "addr \<Rightarrow> 'd con \<Rightarrow> 'd con option" where
  "arp_loop p c =
     (if p = NULL then Some c
      else (case arp_line (n_arps (c_net c) p) c of
              None \<Rightarrow> None | Some c \<Rightarrow> arp_loop (l_next (n_arps (c_net c) p)) c))"

definition cmd_arp :: "'d con \<Rightarrow> 'd con option" where
  "cmd_arp c = do {
     c \<leftarrow> cprintf (''MAC'' @ tab @ tab @ tab @ ''IP'' @ crlf) [] c;
     arp_loop (l_next (n_arps (c_net c) (n_arp_cache_list (c_net c)))) c
   }"

partial_function (option) ip_loop :: "addr \<Rightarrow> 'd con \<Rightarrow> 'd con option" where
  "ip_loop p c =
     (if p = NULL then Some c
      else (case cprintf (tab @ ''address %d.%d.%d.%d'' @ crlf) (ip_args (ipd_addr (n_ips (c_net c) p))) c of
              None \<Rightarrow> None | Some c \<Rightarrow> ip_loop (l_next (n_ips (c_net c) p)) c))"

partial_function (option) if_loop :: "addr \<Rightarrow> 'd con \<Rightarrow> 'd con option" where
  "if_loop p c =
     (if p = NULL then Some c
      else (case ip_loop (l_next (n_ips (c_net c) (ip_addrs p))) (cputs (takeWhile (\<lambda>x. x \<noteq> 0) (c_names c p)) c) of
              None \<Rightarrow> None | Some c \<Rightarrow> if_loop (l_next (n_ifs (c_net c) p)) c))"

definition cmd_ifconfig :: "'d con \<Rightarrow> 'd con option" where
  "cmd_ifconfig c = if_loop (l_next (n_ifs (c_net c) (n_eth_if_list (c_net c)))) c"

end
