(* ===== verification/Tokens.thy ===== *)
theory Tokens
  imports LibString
begin

text \<open>
  How the console splits a line into a command and its arguments (the loop of \<open>console_task\<close> in user/console.c), and that it
  yields the words of the line.
\<close>

section \<open>The loop\<close>

definition isspace :: "u8 \<Rightarrow> bool" where
  "isspace c \<longleftrightarrow> c = 0x20 \<or> c = 9 \<or> c = 13 \<or> c = 10 \<or> c = 12 \<or> c = 11"

definition MAX_ARGS :: nat where "MAX_ARGS = 8"

partial_function (option) skip_space :: "mem \<Rightarrow> addr \<Rightarrow> (mem \<times> addr) option" where
  "skip_space m p = (if isspace (m p) then skip_space (m(p := 0)) (p + 1) else Some (m, p))"

partial_function (option) skip_word :: "mem \<Rightarrow> addr \<Rightarrow> addr option" where
  "skip_word m p = (if \<not> isspace (m p) \<and> m p \<noteq> 0 then skip_word m (p + 1) else Some p)"

text \<open>The array \<open>argv\<close> has \<open>MAX_ARGS\<close> elements and the loop does not look: the ninth word is written behind it.\<close>

datatype con_error = Argv_Overflow

partial_function (option) split_args :: "mem \<Rightarrow> addr \<Rightarrow> addr list \<Rightarrow> (con_error + mem \<times> addr list) option" where
  "split_args m p argv =
     (if m p = 0 then Some (Inr (m, argv))
      else (case skip_space m p of
              None \<Rightarrow> None
            | Some (m, p) \<Rightarrow>
                if m p = 0 then Some (Inr (m, argv))
                else if length argv \<ge> MAX_ARGS then Some (Inl Argv_Overflow)
                else (case skip_word m p of None \<Rightarrow> None | Some q \<Rightarrow> split_args m q (argv @ [p]))))"

section \<open>Words\<close>

text \<open>The words of a line: the maximal runs of characters that are not white space.\<close>

function words :: "u8 list \<Rightarrow> u8 list list" where
  "words s = (case dropWhile isspace s of
      [] \<Rightarrow> []
    | c # cs \<Rightarrow> (c # takeWhile (\<lambda>c. \<not> isspace c) cs) # words (dropWhile (\<lambda>c. \<not> isspace c) cs))"
  by pat_completeness auto
termination
proof (relation "measure length")
  fix s c and cs :: "u8 list" assume "dropWhile isspace s = c # cs"
  then have "Suc (length cs) \<le> length s" using length_dropWhile_le [of isspace s] by simp
  then show "(dropWhile (\<lambda>c. \<not> isspace c) cs, s) \<in> measure length"
    using length_dropWhile_le [of "\<lambda>c. \<not> isspace c" cs] by simp
qed simp

declare words.simps [simp del]

lemma words_Nil [simp]: "words [] = []"
  by (simp add: words.simps)

lemma words_space: "isspace c \<Longrightarrow> words (c # s) = words s"
  by (subst (1 2) words.simps) simp

lemma words_word:
  "\<not> isspace c \<Longrightarrow> words (c # s) = (c # takeWhile (\<lambda>c. \<not> isspace c) s) # words (dropWhile (\<lambda>c. \<not> isspace c) s)"
  by (subst words.simps) simp

lemma not_isspace_0 [simp]: "\<not> isspace 0"
  by (simp add: isspace_def)

section \<open>The loop finds the words\<close>

lemma next_addr: "unat p + Suc n < 2 ^ 32 \<Longrightarrow> unat (p + 1 :: addr) = unat p + 1"
  by (rule unat_plus_one_u32) simp

text \<open>A string depends only on the bytes it occupies.\<close>

lemma cstr_cong:
  assumes "cstr m p s" and "unat p + length s < 2 ^ 32" and "\<And>x. unat p \<le> unat x \<Longrightarrow> unat x \<le> unat p + length s \<Longrightarrow> m' x = m x"
  shows "cstr m' p s"
  using assms
proof (induction s arbitrary: p)
  case (Cons c s)
  have p: "unat (p + 1) = unat p + 1" using Cons.prems(2) next_addr by simp
  have "cstr m' (p + 1) s"
    by (rule Cons.IH) (use Cons.prems p in auto)
  then show ?case using Cons.prems(1) Cons.prems(3) [of p] by simp
qed simp

lemma skip_space_eq:
  assumes "cstr m p s" and "unat p + length s < 2 ^ 32"
  shows "\<exists>m' q. skip_space m p = Some (m', q) \<and> cstr m' q (dropWhile isspace s) \<and> unat q + length (dropWhile isspace s) = unat p + length s
    \<and> (\<forall>x. unat x < unat p \<or> unat q \<le> unat x \<longrightarrow> m' x = m x) \<and> (\<forall>x. unat p \<le> unat x \<and> unat x < unat q \<longrightarrow> m' x = 0)"
  using assms
proof (induction s arbitrary: m p)
  case Nil
  then show ?case by (subst skip_space.simps) auto
next
  case (Cons c s)
  show ?case
  proof (cases "isspace c")
    case True
    have p: "unat (p + 1) = unat p + 1" using Cons.prems(2) next_addr by simp
    have c: "cstr (m(p := 0)) (p + 1) s"
      by (rule cstr_cong [of m]) (use Cons.prems p in auto)
    have r: "unat (p + 1) + length s < 2 ^ 32" using Cons.prems(2) p by simp
    obtain m' q where q: "skip_space (m(p := 0)) (p + 1) = Some (m', q)" "cstr m' q (dropWhile isspace s)"
      "unat q + length (dropWhile isspace s) = unat (p + 1) + length s"
      "\<forall>x. unat x < unat (p + 1) \<or> unat q \<le> unat x \<longrightarrow> m' x = (m(p := 0)) x" "\<forall>x. unat (p + 1) \<le> unat x \<and> unat x < unat q \<longrightarrow> m' x = 0"
      using Cons.IH [OF c r] by blast
    have l: "unat p < unat q" using q(3) p length_dropWhile_le [of isspace s] by linarith
    have "m' x = m x" if "unat x < unat p \<or> unat q \<le> unat x" for x
      using q(4) that l p by auto
    moreover have "m' x = 0" if "unat p \<le> unat x" "unat x < unat q" for x
    proof (cases "x = p")
      case True
      then show ?thesis using q(4) p by simp
    next
      case False
      then have "unat p \<noteq> unat x" by (simp add: word_unat_eq_iff)
      then show ?thesis using q(5) p that by simp
    qed
    moreover have "skip_space m p = Some (m', q)" using Cons.prems(1) True q(1) by (subst skip_space.simps) simp
    ultimately show ?thesis using q(2,3) True p by (intro exI [of _ m'] exI [of _ q]) simp
  next
    case False
    then show ?thesis using Cons.prems by (subst skip_space.simps) auto
  qed
qed

lemma skip_word_eq:
  assumes "cstr m p s" and "unat p + length s < 2 ^ 32"
  shows "\<exists>q. skip_word m p = Some q \<and> cstr m q (dropWhile (\<lambda>c. \<not> isspace c) s)
    \<and> unat q = unat p + length (takeWhile (\<lambda>c. \<not> isspace c) s)"
  using assms
proof (induction s arbitrary: p)
  case Nil
  then show ?case by (subst skip_word.simps) auto
next
  case (Cons c s)
  show ?case
  proof (cases "isspace c")
    case False
    have p: "unat (p + 1) = unat p + 1" using Cons.prems(2) next_addr by simp
    have c: "cstr m (p + 1) s" "unat (p + 1) + length s < 2 ^ 32" using Cons.prems p by simp_all
    have "skip_word m p = skip_word m (p + 1)" using Cons.prems(1) False by (subst skip_word.simps) simp
    then show ?thesis using Cons.IH [OF c] False p by auto
  next
    case True
    then show ?thesis using Cons.prems by (subst skip_word.simps) auto
  qed
qed

text \<open>A prefix of a string becomes a string when the byte behind it is cleared.\<close>

lemma cstr_prefix:
  assumes "cstr m p (xs @ ys)" and "unat p + length xs + length ys < 2 ^ 32"
    and "\<And>x. unat p \<le> unat x \<Longrightarrow> unat x < unat p + length xs \<Longrightarrow> m' x = m x"
    and "\<And>x. unat x = unat p + length xs \<Longrightarrow> m' x = 0"
  shows "cstr m' p xs"
  using assms
proof (induction xs arbitrary: p)
  case (Cons c xs)
  have p: "unat (p + 1) = unat p + 1" using Cons.prems(2) next_addr [of p 0] by simp
  have "cstr m' (p + 1) xs"
    by (rule Cons.IH) (use Cons.prems p in auto)
  then show ?case using Cons.prems(1) Cons.prems(3) [of p] by simp
qed simp

text \<open>Where the words are: each is a string of its own in the memory the loop leaves.\<close>

definition tokens_at :: "mem \<Rightarrow> nat \<Rightarrow> nat \<Rightarrow> addr list \<Rightarrow> u8 list list \<Rightarrow> bool" where
  "tokens_at m lo hi = list_all2 (\<lambda>a w. cstr m a w \<and> lo \<le> unat a \<and> unat a + length w \<le> hi)"

lemma tokens_at_mono: "tokens_at m lo hi as ws \<Longrightarrow> lo' \<le> lo \<Longrightarrow> hi \<le> hi' \<Longrightarrow> tokens_at m lo' hi' as ws"
  unfolding tokens_at_def by (erule list.rel_mono_strong) auto

definition split_spec :: "mem \<Rightarrow> addr \<Rightarrow> u8 list \<Rightarrow> addr list \<Rightarrow> bool" where
  "split_spec m p s argv \<longleftrightarrow>
     (length argv + length (words s) \<le> MAX_ARGS \<longrightarrow>
        (\<exists>m' as. split_args m p argv = Some (Inr (m', argv @ as)) \<and> tokens_at m' (unat p) (unat p + length s) as (words s)
           \<and> (\<forall>x. unat x < unat p \<or> unat p + length s \<le> unat x \<longrightarrow> m' x = m x) \<and> (s = [] \<or> isspace (hd s) \<longrightarrow> m' p = 0)))
     \<and> (length argv + length (words s) > MAX_ARGS \<and> length argv \<le> MAX_ARGS \<longrightarrow> split_args m p argv = Some (Inl Argv_Overflow))"

lemma dropWhile_hd_space: "s \<noteq> [] \<Longrightarrow> isspace (hd s) \<Longrightarrow> length (dropWhile isspace s) < length s"
  using length_dropWhile_le [of isspace "tl s"] by (cases s) auto

lemma words_dropWhile: "dropWhile isspace s = c # cs \<Longrightarrow>
    words s = (c # takeWhile (\<lambda>c. \<not> isspace c) cs) # words (dropWhile (\<lambda>c. \<not> isspace c) cs)"
  by (subst words.simps) simp

lemma split_spec_word:
  assumes s: "cstr m p s" "unat p + length s < 2 ^ 32" "s \<noteq> []"
    and q: "skip_space m p = Some (m1, q)" "cstr m1 q (c # cs)" "unat q + length (c # cs) = unat p + length s"
      "\<forall>x. unat x < unat p \<or> unat q \<le> unat x \<longrightarrow> m1 x = m x" "\<forall>x. unat p \<le> unat x \<and> unat x < unat q \<longrightarrow> m1 x = 0"
    and t: "dropWhile isspace s = c # cs"
    and r: "skip_word m1 q = Some r" "unat r = unat q + length (c # takeWhile (\<lambda>c. \<not> isspace c) cs)"
    and IH: "split_spec m1 r (dropWhile (\<lambda>c. \<not> isspace c) cs) (argv @ [q])"
  shows "split_spec m p s argv"
proof -
  let ?w = "c # takeWhile (\<lambda>c. \<not> isspace c) cs" let ?rest = "dropWhile (\<lambda>c. \<not> isspace c) cs"
  have "m p \<noteq> 0" using s(1,3) by (cases s) auto
  then have m: "m p \<noteq> 0" "m1 q \<noteq> 0" using q(2) by simp_all
  have w: "words s = ?w # words ?rest" by (rule words_dropWhile [OF t])
  have ws: "?w @ ?rest = c # cs" by simp
  have len: "length ?w + length ?rest = length (c # cs)" using arg_cong [OF ws, of length] by (simp only: length_append)
  have step: "split_args m p argv = (if length argv \<ge> MAX_ARGS then Some (Inl Argv_Overflow) else split_args m1 r (argv @ [q]))"
    using m q(1) r(1) by (subst split_args.simps) simp
  have over: "split_args m p argv = Some (Inl Argv_Overflow)" if "length argv + length (words s) > MAX_ARGS" "length argv \<le> MAX_ARGS"
  proof (cases "length argv = MAX_ARGS")
    case False
    then have "length (argv @ [q]) + length (words ?rest) > MAX_ARGS" "length (argv @ [q]) \<le> MAX_ARGS" using that by (simp_all add: w)
    then have "split_args m1 r (argv @ [q]) = Some (Inl Argv_Overflow)" using IH unfolding split_spec_def by blast
    then show ?thesis using step by simp
  qed (simp add: step)
  have "\<exists>m' as. split_args m p argv = Some (Inr (m', argv @ as)) \<and> tokens_at m' (unat p) (unat p + length s) as (words s)
      \<and> (\<forall>x. unat x < unat p \<or> unat p + length s \<le> unat x \<longrightarrow> m' x = m x) \<and> (s = [] \<or> isspace (hd s) \<longrightarrow> m' p = 0)"
    if le: "length argv + length (words s) \<le> MAX_ARGS"
  proof -
    have "length (argv @ [q]) + length (words ?rest) \<le> MAX_ARGS" using le by (simp add: w)
    then obtain m' as where a: "split_args m1 r (argv @ [q]) = Some (Inr (m', (argv @ [q]) @ as))"
      "tokens_at m' (unat r) (unat r + length ?rest) as (words ?rest)"
      "\<forall>x. unat x < unat r \<or> unat r + length ?rest \<le> unat x \<longrightarrow> m' x = m1 x" "?rest = [] \<or> isspace (hd ?rest) \<longrightarrow> m' r = 0"
      using IH unfolding split_spec_def by blast
    have e: "unat r + length ?rest = unat p + length s" using r(2) q(3) len by simp
    have pq: "unat p \<le> unat q" "isspace (hd s) \<longrightarrow> unat p < unat q"
      using q(3) t length_dropWhile_le [of isspace s] dropWhile_hd_space [OF s(3)] by auto
    have "?rest = [] \<or> isspace (hd ?rest)" using hd_dropWhile [of "\<lambda>c. \<not> isspace c" cs] by blast
    then have "m' r = 0" using a(4) by blast
    then have z: "m' x = 0" if "unat x = unat q + length ?w" for x
      using that r(2) word_unat_eq_iff [of x r] by simp
    have "cstr m' q ?w"
    proof (rule cstr_prefix [of m1 q ?w ?rest])
      show "cstr m1 q (?w @ ?rest)" using q(2) by (simp only: ws)
      show "unat q + length ?w + length ?rest < 2 ^ 32" using q(3) s(2) len by linarith
      show "m' x = m1 x" if "unat x < unat q + length ?w" for x using a(3) that r(2) by simp
    qed (rule z)
    then have "tokens_at m' (unat p) (unat p + length s) (q # as) (words s)"
      using tokens_at_mono [OF a(2), of "unat p" "unat p + length s"] e pq(1) r(2) by (simp add: w tokens_at_def)
    moreover have "m' x = m x" if "unat x < unat p \<or> unat p + length s \<le> unat x" for x
    proof -
      have "unat x < unat r \<or> unat r + length ?rest \<le> unat x" "unat x < unat p \<or> unat q \<le> unat x"
        using that e pq(1) r(2) q(3) by auto
      then show ?thesis using a(3) q(4) by metis
    qed
    moreover have "m' p = 0" if "isspace (hd s)"
      using a(3) q(5) pq that r(2) by simp
    moreover have "split_args m p argv = Some (Inr (m', argv @ q # as))" using step a(1) le by (simp add: w)
    ultimately show ?thesis using s(3) by blast
  qed
  then show ?thesis using over unfolding split_spec_def by blast
qed

lemma split_args_words:
  assumes "cstr m p s" and "unat p + length s < 2 ^ 32"
  shows "split_spec m p s argv"
  using assms
proof (induction "length s" arbitrary: m p s argv rule: less_induct)
  case (less s m p argv)
  show ?case
  proof (cases "s = []")
    case True
    then show ?thesis using less.prems unfolding split_spec_def tokens_at_def by (subst split_args.simps) auto
  next
    case False
    obtain m1 q where q: "skip_space m p = Some (m1, q)" "cstr m1 q (dropWhile isspace s)"
      "unat q + length (dropWhile isspace s) = unat p + length s" "\<forall>x. unat x < unat p \<or> unat q \<le> unat x \<longrightarrow> m1 x = m x"
      "\<forall>x. unat p \<le> unat x \<and> unat x < unat q \<longrightarrow> m1 x = 0"
      using skip_space_eq [OF less.prems] by blast
    show ?thesis
    proof (cases "dropWhile isspace s")
      case Nil
      have "m p \<noteq> 0" using less.prems(1) False by (cases s) auto
      moreover have "m1 q = 0" using q(2) Nil by simp
      moreover have "words s = []" by (subst words.simps) (simp only: Nil list.case)
      moreover have "unat q = unat p + length s" using q(3) Nil by simp
      ultimately show ?thesis using q False unfolding split_spec_def tokens_at_def by (subst split_args.simps) auto
    next
      case (Cons c cs)
      have c: "cstr m1 q (c # cs)" "unat q + length (c # cs) < 2 ^ 32" using q(2,3) less.prems(2) Cons by simp_all
      have ns: "\<not> isspace c" using hd_dropWhile [of isspace s] Cons by simp
      obtain r where r: "skip_word m1 q = Some r" "cstr m1 r (dropWhile (\<lambda>c. \<not> isspace c) (c # cs))"
        "unat r = unat q + length (takeWhile (\<lambda>c. \<not> isspace c) (c # cs))"
        using skip_word_eq [OF c] by blast
      have l: "length (takeWhile (\<lambda>c. \<not> isspace c) cs) + length (dropWhile (\<lambda>c. \<not> isspace c) cs) = length cs"
        by (metis length_append takeWhile_dropWhile_id)
      have "length (dropWhile (\<lambda>c. \<not> isspace c) cs) < length s"
        using length_dropWhile_le [of isspace s] Cons l by simp
      moreover have "unat r + length (dropWhile (\<lambda>c. \<not> isspace c) cs) < 2 ^ 32" using c(2) r(3) ns l by simp
      ultimately have IH: "split_spec m1 r (dropWhile (\<lambda>c. \<not> isspace c) cs) (argv @ [q])"
        using less.hyps [of "dropWhile (\<lambda>c. \<not> isspace c) cs" m1 r "argv @ [q]"] r(2) ns by simp
      show ?thesis
        by (rule split_spec_word [OF less.prems False q(1) c(1) _ q(4,5) Cons r(1) _ IH]) (use q(3) Cons r(3) ns in simp_all)
    qed
  qed
qed

end
