(* ===== verification/ConsoleNand.thy ===== *)
theory ConsoleNand
  imports Console Tokens
begin

text \<open>
  The commands of user/console.c on the NAND flash and on the serial flash behind the SPI port, with the hexadecimal pager
  three of them contain.
\<close>

text \<open>\<open>!strcmp(s, argv[i])\<close>.\<close>

definition arg_is :: "'d con \<Rightarrow> addr \<Rightarrow> string \<Rightarrow> bool" where
  "arg_is c p s \<longleftrightarrow> cstr (c_mem c) p (ascii s)"

section \<open>The pager\<close>

text \<open>A question to the user, with the output buffer switched off.\<close>

definition ask :: "string \<Rightarrow> 'd con \<Rightarrow> (int \<times> 'd con) option" where
  "ask s c = do {
     c \<leftarrow> cprintf s [] (cbuf_disable c);
     (x, c) \<leftarrow> cgetchar c;
     Some (x, cputs [] (cbuf_enable c))
   }"

definition byte_key :: "char \<Rightarrow> int" where
  "byte_key k = of_char k"

text \<open>The loop over the buffer: \<open>x\<close> counts the bytes of a line, \<open>y\<close> the lines of a screen. The result is \<open>x\<close>.\<close>

fun dump_loop :: "u32 \<Rightarrow> u8 list \<Rightarrow> nat \<Rightarrow> nat \<Rightarrow> 'd con \<Rightarrow> (nat \<times> 'd con) option" where
  "dump_loop i [] x y c = Some (x, c)"
| "dump_loop i (v # vs) x y c = do {
     c \<leftarrow> (if x = 0 then cprintf ''%x| '' [Int_Arg i] c else if x = 4 then cprintf ''   '' [] c else Some c);
     c \<leftarrow> cprintf ''%x '' [Int_Arg (ucast v)] c;
     (if x + 1 \<ge> 8
      then (let c = cputs [] c
            in if y + 1 = 23
               then do {
                 (k, c) \<leftarrow> ask ''More...'' c;
                 (if k = byte_key CHR ''q'' then Some (0, c) else dump_loop (i + 1) vs 0 0 c)
               }
               else dump_loop (i + 1) vs 0 (y + 1) c)
      else dump_loop (i + 1) vs (x + 1) y c)
   }"

section \<open>NAND flash\<close>

definition NAND_NUM_PAGES :: nat where "NAND_NUM_PAGES = 128 * 1024 * 1024 div NAND_PAGE_SIZE"

definition cmd_nand_read_page :: "'d bus \<Rightarrow> u32 \<Rightarrow> 'd con \<Rightarrow> 'd con option" where
  "cmd_nand_read_page b page c =
     (case c_alloc (of_nat NAND_RAW_PAGE_SIZE) c of
        (buf, c) \<Rightarrow>
          if buf = NULL then cprintf (''Unable to allocate buffer for read'' @ crlf) [] c
          else do {
            (rcs, data, d) \<leftarrow> nand_read_page b page (c_dev c);
            (x, c) \<leftarrow> dump_loop 0 data 0 0 (c\<lparr>c_dev := d\<rparr>);
            let c = (if x \<noteq> 0 then cputs [] c else c);
            Some (c_free buf c)
          })"

definition cmd_nand_read :: "'d bus \<Rightarrow> u32 \<Rightarrow> u32 \<Rightarrow> u32 \<Rightarrow> 'd con \<Rightarrow> 'd con option" where
  "cmd_nand_read b page off len c =
     (case c_alloc len c of
        (buf, c) \<Rightarrow>
          if buf = NULL then cprintf (''Unable to allocate buffer for read'' @ crlf) [] c
          else do {
            (data, d) \<leftarrow> nand_read b page off len (c_dev c);
            (x, c) \<leftarrow> dump_loop off (if sint len < 0 then [] else data) 0 0 (c\<lparr>c_dev := d\<rparr>);
            let c = (if x \<noteq> 0 then cputs [] c else c);
            Some (c_free buf c)
          })"

text \<open>The format of a bad page has no argument: \<open>printf\<close> takes what it finds in its place.\<close>

fun bbscan_loop :: "'d bus \<Rightarrow> nat list \<Rightarrow> nat \<Rightarrow> 'd con \<Rightarrow> (nat \<times> 'd con) option" where
  "bbscan_loop b [] bad c = Some (bad, c)"
| "bbscan_loop b (i # is) bad c = do {
     (data, d) \<leftarrow> nand_read b (of_nat i) (of_nat NAND_PAGE_SIZE) 1 (c_dev c);
     let c = c\<lparr>c_dev := d\<rparr>;
     (if data ! 0 \<noteq> 0xFF then do { c \<leftarrow> cprintf (''0x%x'' @ crlf) [Int_Arg (c_stray c i)] c; bbscan_loop b is (bad + 1) c }
      else bbscan_loop b is bad c)
   }"

definition cmd_nand_bbscan :: "'d bus \<Rightarrow> 'd con \<Rightarrow> 'd con option" where
  "cmd_nand_bbscan b c = do {
     (bad, c) \<leftarrow> bbscan_loop b [0..<NAND_NUM_PAGES] 0 c;
     cprintf (''%d bad pages found'' @ crlf) [Int_Arg (of_nat bad)] c
   }"

definition block_bytes :: u32 where
  "block_bytes = NAND_PAGES_PER_BLOCK * of_nat NAND_PAGE_SIZE"

definition protected :: "u32 \<Rightarrow> bool" where
  "protected a \<longleftrightarrow> sint a < 128 * 1024 \<or> (sint a \<ge> 0x07D20000 \<and> sint a < 0x07D60000)"

definition erase_now :: "'d bus \<Rightarrow> u32 \<Rightarrow> 'd con \<Rightarrow> 'd con option" where
  "erase_now b block c = do {
     let a = block * block_bytes;
     (status, d) \<leftarrow> nand_erase b block (c_dev c);
     cprintf (''Erase status for %d to %d: 0x%x'' @ crlf) [Int_Arg a, Int_Arg (a + block_bytes), Int_Arg (ucast status)] (c\<lparr>c_dev := d\<rparr>)
   }"

definition cmd_nand_eraseblock :: "'d bus \<Rightarrow> u32 \<Rightarrow> 'd con \<Rightarrow> 'd con option" where
  "cmd_nand_eraseblock b block c =
     (if protected (block * block_bytes)
      then do {
        (k, c) \<leftarrow> ask ''This area includes the bootrom or RedBoot. Continue? [y/n] '' c;
        (if k \<noteq> byte_key CHR ''y'' then Some c else erase_now b block c)
      }
      else erase_now b block c)"

definition fill_pattern :: "u32 \<Rightarrow> u8 list" where
  "fill_pattern pattern =
     (if sint pattern > 0xFF then map (\<lambda>i. of_nat i AND 0xFF) [0..<512] else replicate 512 (ucast (pattern AND 0xFF)))"

definition cmd_nand_fillsect :: "'d bus \<Rightarrow> u32 \<Rightarrow> u32 \<Rightarrow> u32 \<Rightarrow> 'd con \<Rightarrow> 'd con option" where
  "cmd_nand_fillsect b page sect pattern c =
     (case c_alloc 512 c of
        (buf, c) \<Rightarrow>
          if buf = NULL then cprintf (''cmd_nand_fillsect: failed to allocate buffer'' @ crlf) [] c
          else do {
            (status, d) \<leftarrow> nand_write_sector b page sect (fill_pattern pattern) (c_dev c);
            c \<leftarrow> cprintf (''Program status: 0x%x'' @ crlf) [Int_Arg (ucast status)] (c\<lparr>c_dev := d\<rparr>);
            Some (c_free buf c)
          })"

definition nand_usage :: "'d con \<Rightarrow> 'd con option" where
  "nand_usage c = do {
     c \<leftarrow> cprintf (''supported commands:'' @ crlf) [] c;
     c \<leftarrow> cprintf (tab @ ''bbscan'' @ crlf) [] c;
     c \<leftarrow> cprintf (tab @ ''eraseblock <block>'' @ crlf) [] c;
     c \<leftarrow> cprintf (tab @ ''read <page> <offset> <len>'' @ crlf) [] c;
     c \<leftarrow> cprintf (tab @ ''readpage <page>'' @ crlf) [] c;
     c \<leftarrow> cprintf (tab @ ''reset'' @ crlf) [] c;
     c \<leftarrow> cprintf (tab @ ''readid'' @ crlf) [] c;
     cprintf (tab @ ''fillsect <page> <sect> <pattern>'' @ crlf) [] c
   }"

definition cmd_nand :: "'d bus \<Rightarrow> addr list \<Rightarrow> 'd con \<Rightarrow> 'd con option" where
  "cmd_nand b argv c =
     (if length argv < 2 then nand_usage c
      else if arg_is c (argv ! 1) ''reset'' then map_option (\<lambda>d. c\<lparr>c_dev := d\<rparr>) (nand_reset b (c_dev c))
      else if arg_is c (argv ! 1) ''readid'' then
        do { (i, d) \<leftarrow> nand_read_id b (c_dev c); cprintf (''%x'' @ crlf) [Int_Arg (ucast i)] (c\<lparr>c_dev := d\<rparr>) }
      else if arg_is c (argv ! 1) ''readpage'' then
        (if length argv \<noteq> 3 then nand_usage c
         else do { page \<leftarrow> atoi (c_mem c) (argv ! 2); cmd_nand_read_page b page c })
      else if arg_is c (argv ! 1) ''read'' then
        (if length argv \<noteq> 5 then nand_usage c
         else do {
           page \<leftarrow> atoi (c_mem c) (argv ! 2); off \<leftarrow> atoi (c_mem c) (argv ! 3); len \<leftarrow> atoi (c_mem c) (argv ! 4);
           cmd_nand_read b page off len c })
      else if arg_is c (argv ! 1) ''bbscan'' then cmd_nand_bbscan b c
      else if arg_is c (argv ! 1) ''eraseblock'' then
        (if length argv \<noteq> 3 then nand_usage c
         else do { block \<leftarrow> atoi (c_mem c) (argv ! 2); cmd_nand_eraseblock b block c })
      else if arg_is c (argv ! 1) ''fillsect'' then
        (if length argv \<noteq> 5 then nand_usage c
         else do {
           page \<leftarrow> atoi (c_mem c) (argv ! 2); sect \<leftarrow> atoi (c_mem c) (argv ! 3); pattern \<leftarrow> atoi (c_mem c) (argv ! 4);
           cmd_nand_fillsect b page sect pattern c })
      else nand_usage c)"

section \<open>SPI and the serial flash\<close>

definition cmd_spi :: "'d bus \<Rightarrow> addr list \<Rightarrow> 'd con \<Rightarrow> 'd con option" where
  "cmd_spi b argv c =
     (if length argv \<ge> 2 \<and> arg_is c (argv ! 1) ''loopback''
      then map_option (\<lambda>(o1, d). c\<lparr>c_out := o1, c_dev := d\<rparr>) (spi_loopback_test b (c_out c, c_dev c))
      else do { c \<leftarrow> cprintf (''supported commands:'' @ crlf) [] c; cprintf (tab @ ''loopback'' @ crlf) [] c })"

text \<open>The chip selects are low when active. For the second chip the code reads one port and writes the other.\<close>

definition cmd_hmm_cs :: "'d bus \<Rightarrow> u32 \<Rightarrow> bool \<Rightarrow> 'd \<Rightarrow> 'd" where
  "cmd_hmm_cs b chip on d =
     (if chip = 1 then modl b PCDR (\<lambda>v. if on then v AND NOT 1 else v OR 1) d
      else (case inl b PFDR d of (v, d) \<Rightarrow> outl b PCDR (if on then v AND NOT 2 else v OR 2) d))"

definition cmd_hmm_status :: "'d bus \<Rightarrow> u32 \<Rightarrow> 'd con \<Rightarrow> 'd con option" where
  "cmd_hmm_status b chip c =
     (let d = cmd_hmm_cs b chip True (c_dev c);
          d = spi_write b [0xD7] d
      in case spi_read b 1 d of
           (reg, d) \<Rightarrow>
             cprintf (''Chip %d status: 0x%x'' @ crlf) [Int_Arg chip, Int_Arg (ucast (reg ! 0))] (c\<lparr>c_dev := cmd_hmm_cs b chip False d\<rparr>))"

definition hmm_read_cmd :: "u32 \<Rightarrow> u8 list" where
  "hmm_read_cmd page = [0xE8, ucast (drop_bit 6 (page AND 0x1FC0)), ucast (push_bit 2 (page AND 0x3F)), 0, 0, 0, 0, 0]"

definition cmd_hmm_readpage :: "'d bus \<Rightarrow> u32 \<Rightarrow> u32 \<Rightarrow> 'd con \<Rightarrow> 'd con option" where
  "cmd_hmm_readpage b chip page c =
     (case c_alloc 528 c of
        (buf, c) \<Rightarrow>
          if buf = NULL then cprintf (''Unable to allocate buffer'' @ crlf) [] c
          else (let d = cmd_hmm_cs b chip True (c_dev c);
                    d = spi_write b (hmm_read_cmd page) d
                in case spi_read b 528 d of
                     (data, d) \<Rightarrow> do {
                       (x, c) \<leftarrow> dump_loop 0 data 0 0 (c\<lparr>c_dev := cmd_hmm_cs b chip False d\<rparr>);
                       Some (c_free buf c)
                     }))"

definition hmm_usage :: "'d con \<Rightarrow> 'd con option" where
  "hmm_usage c = do {
     c \<leftarrow> cprintf (''supported commands:'' @ crlf) [] c;
     c \<leftarrow> cprintf (tab @ ''hmm <chip> readpage <page>'' @ crlf) [] c;
     cprintf (tab @ ''hmm <chip> status'' @ crlf) [] c
   }"

definition cmd_hmm :: "'d bus \<Rightarrow> addr list \<Rightarrow> 'd con \<Rightarrow> 'd con option" where
  "cmd_hmm b argv c =
     (if length argv < 3 then hmm_usage c
      else do {
        chip \<leftarrow> atoi (c_mem c) (argv ! 1);
        (if arg_is c (argv ! 2) ''status'' then cmd_hmm_status b chip c
         else if arg_is c (argv ! 2) ''readpage'' then
           (if length argv \<noteq> 4 then hmm_usage c
            else do { page \<leftarrow> atoi (c_mem c) (argv ! 3); cmd_hmm_readpage b chip page c })
         else hmm_usage c)
      })"

end
