(* ===== verification/ConsoleTask.thy ===== *)
theory ConsoleTask
  imports ConsoleNand
begin

text \<open>
  The rest of user/console.c: the USB commands, the table of commands with its configurations, the dispatch, and a round of
  the console's loop.
\<close>

section \<open>USB\<close>

definition usb_class_str :: "string list" where
  "usb_class_str = replicate 9 ''Unknown'' @ [''Hub'']"

definition usb_class_str_max :: nat where "usb_class_str_max = 9"

text \<open>The characters of a string descriptor at \<open>p\<close>, of which the second byte of each pair is printed.\<close>

definition string_desc_chars :: "mem \<Rightarrow> addr \<Rightarrow> u8 list" where
  "string_desc_chars m p = map (\<lambda>i. m (p + 2 + of_nat (i * 2) + 1)) [0..<(unat (m p) - 2) div 2]"

definition usb_print_string :: "addr \<Rightarrow> 'd con \<Rightarrow> 'd con" where
  "usb_print_string p c = foldl (\<lambda>c x. cputchar x c) c (string_desc_chars (c_mem c) p)"

definition usb_config_line :: "usb_dev \<Rightarrow> 'd con \<Rightarrow> nat \<Rightarrow> 'd con option" where
  "usb_config_line v c i = do {
     let d = configuration_desc_of (mem_bytes (c_mem c) (dv_configuration_desc v + of_nat (i * sizeof_configuration_desc)) sizeof_configuration_desc);
     c \<leftarrow> cprintf (tab @ ''C%d: %d mA '') [Int_Arg (ucast (cd_bMaxPower d) * 2), Int_Arg (ucast (cd_bConfigurationValue d))] c;
     c \<leftarrow> (if at_remoteWakeup (cd_bmAttributes d) then cprintf ''RemoteWakeup '' [] c else Some c);
     c \<leftarrow> (if at_selfPowered (cd_bmAttributes d) then cprintf ''SelfPowered '' [] c else Some c);
     Some (cputs [] c)
   }"

fun usb_config_lines :: "usb_dev \<Rightarrow> nat list \<Rightarrow> 'd con \<Rightarrow> 'd con option" where
  "usb_config_lines v [] c = Some c"
| "usb_config_lines v (i # is) c = do { c \<leftarrow> usb_config_line v c i; usb_config_lines v is c }"

definition print_or_unknown :: "addr \<Rightarrow> addr \<Rightarrow> 'd con \<Rightarrow> 'd con option" where
  "print_or_unknown chk p c = (if chk \<noteq> NULL then Some (usb_print_string p c) else cprintf ''<unknown>'' [] c)"

definition usb_tree_dev :: "usb_dev \<Rightarrow> 'd con \<Rightarrow> 'd con option" where
  "usb_tree_dev v c = do {
     let d = dv_device_desc v;
     let cls = unat (dd_bDeviceClass d);
     c \<leftarrow> cprintf (''[%d] %s (%d)'' @ crlf) [Int_Arg (dv_address v),
       Str_Arg (ascii (if cls > usb_class_str_max then ''Unknown'' else usb_class_str ! cls)), Int_Arg (of_nat cls)] c;
     c \<leftarrow> cprintf (tab @ ''VID:PID %x:%x'' @ crlf) [Int_Arg (ucast (dd_idVendor d)), Int_Arg (ucast (dd_idProduct d))] c;
     c \<leftarrow> cprintf tab [] c;
     c \<leftarrow> print_or_unknown (dv_sProduct v) (dv_sProduct v) c;
     c \<leftarrow> cprintf '' by '' [] c;
     c \<leftarrow> print_or_unknown (dv_sManufacturer v) (dv_sManufacturer v) c;
     let c = cputs [] c;
     c \<leftarrow> cprintf (tab @ ''S/N '') [] c;
     c \<leftarrow> print_or_unknown (dv_sManufacturer v) (dv_sSerialNumber v) c;
     c \<leftarrow> cprintf ('' Rev %x.%x'' @ crlf) [Int_Arg (ucast (drop_bit 8 (dd_bcdDevice d AND 0xFF00))), Int_Arg (ucast (dd_bcdDevice d AND 0xFF))] c;
     c \<leftarrow> cprintf (tab @ ''Configurations: %d'' @ crlf) [Int_Arg (ucast (dd_bNumConfigurations d))] c;
     usb_config_lines v [0..<unat (dd_bNumConfigurations d)] c
   }"

partial_function (option) usb_tree_loop :: "addr \<Rightarrow> 'd con \<Rightarrow> 'd con option" where
  "usb_tree_loop p c =
     (if p = NULL then Some c
      else (case usb_tree_dev (ub_devs c p) c of None \<Rightarrow> None | Some c \<Rightarrow> usb_tree_loop (l_next (ub_devs c p)) c))"

definition cmd_usb_tree :: "'d con \<Rightarrow> 'd con option" where
  "cmd_usb_tree c = usb_tree_loop (l_next (ub_devs c (ub_devices c))) c"

text \<open>\<open>junk\<close> is what the 64 bytes of the stack hold that the enumeration uses as its buffer.\<close>

definition cmd_usb :: "'d bus \<Rightarrow> u8 list \<Rightarrow> addr list \<Rightarrow> 'd con \<Rightarrow> 'd con option" where
  "cmd_usb b junk argv c =
     (if length argv \<ge> 2 \<and> arg_is c (argv ! 1) ''init'' then ohci_init b junk c
      else if length argv \<ge> 2 \<and> arg_is c (argv ! 1) ''tree'' then cmd_usb_tree c
      else do {
        c \<leftarrow> cprintf (''supported commands:'' @ crlf) [] c;
        c \<leftarrow> cprintf (tab @ ''init'' @ crlf) [] c;
        cprintf (tab @ ''tree'' @ crlf) [] c
      })"

section \<open>The table of commands\<close>

record config =
  cf_net :: bool
  cf_nand :: bool
  cf_spi :: bool
  cf_usb :: bool

datatype command = Cmd_Help | Cmd_Alarm | Cmd_Arp | Cmd_Dumpmem | Cmd_Exit | Cmd_Hmm | Cmd_Ifconfig | Cmd_Kstat | Cmd_Nand
  | Cmd_Netstat | Cmd_Ps | Cmd_Reset | Cmd_Spi | Cmd_Usb

definition commands :: "config \<Rightarrow> (string \<times> command \<times> string) list" where
  "commands cf =
     [(''?'', Cmd_Help, ''synonym for \"help\"''), (''alarm'', Cmd_Alarm, ''test alarm: alarm <msec> <oneshot>'')]
     @ (if cf_net cf then [(''arp'', Cmd_Arp, ''display ARP cache'')] else [])
     @ [(''dumpmem'', Cmd_Dumpmem, ''dump memory location: dumpmem <addr> <len>''), (''exit'', Cmd_Exit, ''exit the console''),
        (''help'', Cmd_Help, ''list available commands'')]
     @ (if cf_spi cf then [(''hmm'', Cmd_Hmm, ''HMM commands'')] else [])
     @ (if cf_net cf then [(''ifconfig'', Cmd_Ifconfig, ''configure Ethernet interfaces'')] else [])
     @ [(''kstat'', Cmd_Kstat, ''dump kernel statistics'')]
     @ (if cf_nand cf then [(''nand'', Cmd_Nand, ''NAND flash operations'')] else [])
     @ (if cf_net cf then [(''netstat'', Cmd_Netstat, ''dump network statistics'')] else [])
     @ [(''ps'', Cmd_Ps, ''list running processes''), (''reset'', Cmd_Reset, ''reset the system'')]
     @ (if cf_spi cf then [(''spi'', Cmd_Spi, ''SPI commands'')] else [])
     @ (if cf_usb cf then [(''usb'', Cmd_Usb, ''USB commands'')] else [])"

fun help_loop :: "(string \<times> command \<times> string) list \<Rightarrow> 'd con \<Rightarrow> 'd con option" where
  "help_loop [] c = Some c"
| "help_loop ((name, f, desc) # cs) c = do {
     c \<leftarrow> cprintf (''%s - %s'' @ crlf) [Str_Arg (ascii name), Str_Arg (ascii desc)] c;
     help_loop cs c
   }"

definition cmd_help :: "config \<Rightarrow> 'd con \<Rightarrow> 'd con option" where
  "cmd_help cf c = help_loop (commands cf) c"

definition run_command :: "'d bus \<Rightarrow> config \<Rightarrow> u8 list \<Rightarrow> command \<Rightarrow> addr list \<Rightarrow> 'd con \<Rightarrow> 'd con option" where
  "run_command b cf junk f argv c =
     (case f of
        Cmd_Help \<Rightarrow> cmd_help cf c
      | Cmd_Alarm \<Rightarrow> cmd_alarm argv c
      | Cmd_Arp \<Rightarrow> cmd_arp c
      | Cmd_Dumpmem \<Rightarrow> cmd_dumpmem argv c
      | Cmd_Exit \<Rightarrow> cmd_exit c
      | Cmd_Hmm \<Rightarrow> cmd_hmm b argv c
      | Cmd_Ifconfig \<Rightarrow> cmd_ifconfig c
      | Cmd_Kstat \<Rightarrow> cmd_kstat c
      | Cmd_Nand \<Rightarrow> cmd_nand b argv c
      | Cmd_Netstat \<Rightarrow> cmd_netstat c
      | Cmd_Ps \<Rightarrow> cmd_ps c
      | Cmd_Reset \<Rightarrow> cmd_reset c
      | Cmd_Spi \<Rightarrow> cmd_spi b argv c
      | Cmd_Usb \<Rightarrow> cmd_usb b junk argv c)"

fun find_command :: "(string \<times> command \<times> string) list \<Rightarrow> 'd con \<Rightarrow> addr \<Rightarrow> command option" where
  "find_command [] c p = None"
| "find_command ((name, f, desc) # cs) c p = (if arg_is c p name then Some f else find_command cs c p)"

definition handle_command :: "'d bus \<Rightarrow> config \<Rightarrow> u8 list \<Rightarrow> addr list \<Rightarrow> 'd con \<Rightarrow> 'd con option" where
  "handle_command b cf junk argv c =
     (case find_command (commands cf) c (argv ! 0) of
        Some f \<Rightarrow> run_command b cf junk f argv c
      | None \<Rightarrow> do { s \<leftarrow> c_bytes (c_mem c) (argv ! 0); cprintf (''unknown command: %s'' @ crlf) [Str_Arg s] c })"

section \<open>The console task\<close>

text \<open>One round of the loop of \<open>console_task\<close>: \<open>buf\<close> is the address of the line, \<open>c0\<close> what the variable holds that \<open>gets\<close>
  does not initialise. The error is the write behind \<open>argv\<close>.\<close>

definition console_line :: "'d bus \<Rightarrow> config \<Rightarrow> u8 list \<Rightarrow> addr \<Rightarrow> 'd con \<Rightarrow> (con_error + 'd con) option" where
  "console_line b cf junk buf c =
     (if c_mem c buf = 0 then Some (Inr c)
      else (let c = cbuf_enable c
            in case split_args (c_mem c) buf [] of
                 None \<Rightarrow> None
               | Some (Inl e) \<Rightarrow> Some (Inl e)
               | Some (Inr (m, argv)) \<Rightarrow>
                   (let c = set_mem m c
                    in if argv = [] then Some (Inr c) else map_option Inr (handle_command b cf junk argv c))))"

definition console_round :: "'d bus \<Rightarrow> config \<Rightarrow> u8 list \<Rightarrow> u8 \<Rightarrow> addr \<Rightarrow> 'd con \<Rightarrow> (con_error + 'd con) option" where
  "console_round b cf junk c0 buf c = do {
     let c = cbuf_disable c;
     c \<leftarrow> (if \<not> c_ticker_done c then cmd_ticker c else Some c);
     c \<leftarrow> cprintf ''> '' [] c;
     (p, m, o1, rs) \<leftarrow> gets c0 (c_mem c) (c_out c) buf 128 (c_in c);
     let c = set_mem m (c\<lparr>c_out := o1, c_in := rs\<rparr>);
     (if p = NULL then Some (Inr (cputs (ascii ''error reading string'') c))
      else console_line b cf junk buf (cputs [] c))
   }"

end
