(* ===== verification/ConsoleProps.thy ===== *)
theory ConsoleProps
  imports ConsoleTask
begin

text \<open>
  What the console of \<open>ConsoleTask\<close> does: a line is split into its words and run as the command its first word names, the
  process list is complete, the pager shows every byte, and the erase command asks before it touches the boot areas.
\<close>

section \<open>Printing\<close>

text \<open>What a sequence of calls prints.\<close>

definition prints :: "u8 list \<Rightarrow> ('d, 'a) sys_scheme \<Rightarrow> ('d, 'a) sys_scheme" where
  "prints s c = c\<lparr>c_out := put_s (c_out c) s\<rparr>"

lemma prints_prints [simp]: "prints t (prints s c) = prints (s @ t) c"
  by (simp add: prints_def put_s_append)

lemma prints_Nil [simp]: "prints [] c = c"
  by (simp add: prints_def)

lemma prints_sel [simp]: "c_net (prints s c) = c_net c" "c_dev (prints s c) = c_dev c" "c_out (prints s c) = put_s (c_out c) s"
  by (simp_all add: prints_def)

lemma cprintf_prints: "cprintf fmt args c = map_option (\<lambda>r. prints r c) (render (ascii fmt @ [0]) args)"
  by (simp add: cprintf_def say_put_s option.map_comp comp_def prints_def)

lemma cputs_prints: "cputs s c = prints (s @ [13, 10]) c"
  by (simp add: cputs_def puts_put_s prints_def)

lemma cputchar_prints: "cputchar x c = prints [x] c"
  by (simp add: cputchar_def put_s_def prints_def)

lemmas print_simps = cprintf_prints cputs_prints cputchar_prints ascii_def tab_def crlf_def

section \<open>The process list\<close>

definition ps_text :: "proc \<Rightarrow> u8 list" where
  "ps_text q = ascii ''0x'' @ hex_digits (p_pid q) @ [9] @ ascii (state_name (p_state q)) @ [9]
     @ takeWhile (\<lambda>x. x \<noteq> 0) (p_name q) @ [13, 10]"

lemma ps_line_text: "ps_line p c = Some (prints (ps_text (k_ptab (c_kern c) p)) c)"
  by (cases "p_state (k_ptab (c_kern c) p)") (simp_all add: ps_line_def print_simps ps_text_def Let_def)

lemma ps_loop_seg:
  assumes "seg (k_ptab (c_kern c)) p xs op" and "op \<notin> set (tl xs)" and "xs \<noteq> []"
  shows "ps_loop op p c = Some (prints (concat (map (\<lambda>q. ps_text (k_ptab (c_kern c) q)) xs)) c)"
  using assms
proof (induction xs arbitrary: p c)
  case (Cons x xs)
  have p: "p = x" "seg (k_ptab (c_kern c)) (l_next (k_ptab (c_kern c) x)) xs op" using Cons.prems(1) by simp_all
  show ?case
  proof (cases "xs = []")
    case True
    then show ?thesis using p by (subst ps_loop.simps) (simp add: ps_line_text)
  next
    case False
    then have n: "l_next (k_ptab (c_kern c) x) = hd xs" using p(2) by (cases xs) auto
    have "op \<noteq> hd xs" "op \<notin> set (tl xs)" using Cons.prems(2) False by (cases xs; simp)+
    then show ?thesis using p n Cons.IH [of "prints (ps_text (k_ptab (c_kern c) x)) c" "hd xs"] False
      by (subst ps_loop.simps) (simp add: ps_line_text)
  qed
qed simp

text \<open>C38: the process list. On a consistent ring \<open>cmd_ps\<close> ends, and prints one line for every process of the ring, each
  once and from the current one on in ring order; it changes nothing but the output.\<close>

theorem cmd_ps_lists_ring:
  assumes "ring (k_ptab (c_kern c)) (p # xs)" and "k_cur (c_kern c) = p"
  shows "cmd_ps c = Some (prints (ascii (''PID'' @ tab @ ''State'' @ tab @ ''Name'' @ crlf)
    @ concat (map (\<lambda>q. ps_text (k_ptab (c_kern c) q)) (p # xs))) c)"
proof -
  have "ps_loop p p (prints t c) = Some (prints (concat (map (\<lambda>q. ps_text (k_ptab (c_kern c) q)) (p # xs))) (prints t c))" for t
    using ps_loop_seg [of "prints t c" p "p # xs" p] assms(1) by (simp add: ring_def)
  then show ?thesis using assms(2) by (simp add: cmd_ps_def print_simps)
qed

section \<open>The dispatch\<close>

lemma cstr_unique: "cstr m p s \<Longrightarrow> cstr m p t \<Longrightarrow> s = t"
proof (induction s arbitrary: p t)
  case (Cons c s)
  then show ?case by (cases t) auto
next
  case Nil
  then show ?case by (cases t) auto
qed

text \<open>\<open>!strcmp\<close> of an argument with a literal is the test the model uses.\<close>

lemma strcmp_arg_is:
  assumes "cstr (c_mem c) q (ascii s)" and "cstr (c_mem c) p t" and "s \<noteq> []"
  shows "\<exists>r. strcmp (c_mem c) q p = Some r \<and> (r = 0 \<longleftrightarrow> arg_is c p s)"
proof -
  have "ascii s \<noteq> []" using assms(3) by (simp add: ascii_def)
  then obtain r where r: "strcmp (c_mem c) q p = Some r" "r = 0 \<longleftrightarrow> ascii s = t" using strcmp_cstr [OF assms(1,2)] by blast
  moreover have "arg_is c p s \<longleftrightarrow> ascii s = t" unfolding arg_is_def using assms(2) cstr_unique [OF assms(2), of "ascii s"] by metis
  ultimately show ?thesis by blast
qed

definition command_of :: "config \<Rightarrow> u8 list \<Rightarrow> command option" where
  "command_of cf w = map_of (map (\<lambda>(name, f, desc). (ascii name, f)) (commands cf)) w"

lemma find_command_map_of:
  assumes "cstr (c_mem c) p w"
  shows "find_command cs c p = map_of (map (\<lambda>(name, f, desc). (ascii name, f)) cs) w"
proof (induction cs)
  case (Cons x cs)
  obtain name f desc where x: "x = (name, f, desc)" by (cases x) auto
  have "arg_is c p name \<longleftrightarrow> ascii name = w" unfolding arg_is_def using assms cstr_unique [OF assms, of "ascii name"] by metis
  then show ?case using Cons by (simp add: x)
qed simp

lemma c_bytes_cstr:
  assumes "cstr m p s" and "unat p + length s < 2 ^ 32"
  shows "c_bytes m p = Some s"
proof -
  have l: "unat (of_nat (length s) :: u32) = length s" using assms(2) by (simp add: unat_of_nat take_bit_nat_eq_self)
  have "mem_bytes m p (length s) = s"
    by (rule nth_equalityI) (use cstr_byte [OF assms(1)] in \<open>simp_all add: mem_bytes_def\<close>)
  then show ?thesis using strlen_loop_cstr [OF assms(1), of 0] by (simp add: c_bytes_def strlen_def l)
qed

lemma handle_command_word:
  assumes "cstr (c_mem c) (argv ! 0) w" and "unat (argv ! 0) + length w < 2 ^ 32"
  shows "handle_command b cf junk argv c = (case command_of cf w of
      Some f \<Rightarrow> run_command b cf junk f argv c
    | None \<Rightarrow> Some (prints (ascii ''unknown command: '' @ w @ [13, 10]) c))"
  by (simp add: handle_command_def find_command_map_of [OF assms(1)] command_of_def c_bytes_cstr [OF assms] print_simps split: option.split)

text \<open>C34: a line of the console. A line is split into its words. With no word nothing happens; with at most eight, the command
  its first word names runs with the words as its arguments, each a string of its own in the memory, which is otherwise as
  before outside the line, or an unknown first word is reported; with more than eight, the loop writes behind its array.\<close>

theorem console_line_dispatch:
  assumes line: "cstr (c_mem c) buf s" and fits: "unat buf + length s < 2 ^ 32" and s: "s \<noteq> []"
  shows "if length (words s) > MAX_ARGS then console_line b cf junk buf c = Some (Inl Argv_Overflow)
    else \<exists>m argv. tokens_at m (unat buf) (unat buf + length s) argv (words s)
      \<and> (\<forall>x. unat x < unat buf \<or> unat buf + length s \<le> unat x \<longrightarrow> m x = c_mem c x)
      \<and> console_line b cf junk buf c = (case words s of
          [] \<Rightarrow> Some (Inr (set_mem m (cbuf_enable c)))
        | w # ws \<Rightarrow> map_option Inr (case command_of cf w of
              Some f \<Rightarrow> run_command b cf junk f argv (set_mem m (cbuf_enable c))
            | None \<Rightarrow> Some (prints (ascii ''unknown command: '' @ w @ [13, 10]) (set_mem m (cbuf_enable c)))))"
proof -
  have m0: "c_mem c buf \<noteq> 0" using line s by (cases s) auto
  have e: "c_mem (cbuf_enable c) = c_mem c" by (simp add: cbuf_enable_def)
  note spec = split_args_words [OF line fits, of "[]", unfolded split_spec_def, simplified]
  show ?thesis
  proof (cases "length (words s) > MAX_ARGS")
    case True
    then show ?thesis using spec m0 by (simp add: console_line_def e Let_def)
  next
    case False
    then obtain m argv where a: "split_args (c_mem c) buf [] = Some (Inr (m, argv))"
      "tokens_at m (unat buf) (unat buf + length s) argv (words s)"
      "\<forall>x. unat x < unat buf \<or> unat buf + length s \<le> unat x \<longrightarrow> m x = c_mem c x"
      using spec by auto
    have mem: "c_mem (set_mem m c') = m" for c' :: "'a con" by (simp add: set_mem_def)
    have "console_line b cf junk buf c = (case words s of
          [] \<Rightarrow> Some (Inr (set_mem m (cbuf_enable c)))
        | w # ws \<Rightarrow> map_option Inr (case command_of cf w of
              Some f \<Rightarrow> run_command b cf junk f argv (set_mem m (cbuf_enable c))
            | None \<Rightarrow> Some (prints (ascii ''unknown command: '' @ w @ [13, 10]) (set_mem m (cbuf_enable c)))))"
    proof (cases "words s")
      case Nil
      then have "argv = []" using a(2) by (simp add: tokens_at_def)
      then show ?thesis using a(1) m0 Nil by (simp add: console_line_def e Let_def)
    next
      case (Cons w ws)
      then obtain p ps where p: "argv = p # ps" "cstr m p w" "unat p + length w \<le> unat buf + length s"
        using a(2) by (auto simp: tokens_at_def list_all2_Cons2)
      have "handle_command b cf junk argv (set_mem m (cbuf_enable c)) = (case command_of cf w of
          Some f \<Rightarrow> run_command b cf junk f argv (set_mem m (cbuf_enable c))
        | None \<Rightarrow> Some (prints (ascii ''unknown command: '' @ w @ [13, 10]) (set_mem m (cbuf_enable c))))"
        by (rule handle_command_word) (use p fits in \<open>simp_all add: mem\<close>)
      then show ?thesis using a(1) m0 Cons p(1) by (simp add: console_line_def e Let_def)
    qed
    then show ?thesis using a(2,3) False by (intro if_not_P [THEN iffD2] exI conjI) auto
  qed
qed

end
