(* ===== verification/ConsoleFlash.thy ===== *)
theory ConsoleFlash
  imports ConsoleProps
begin

text \<open>
  What the flash commands of \<open>ConsoleNand\<close> do: the pager, the guard of the erase command, the scan for bad pages, and the
  read command of the serial flash.
\<close>

section \<open>The pager\<close>

text \<open>The text of a dump from offset \<open>i\<close> on, the first byte of which is number \<open>x\<close> of its line.\<close>

definition dump_item :: "u32 \<Rightarrow> nat \<Rightarrow> u8 \<Rightarrow> u8 list" where
  "dump_item i x v = (if x = 0 then hex_digits i @ ascii ''| '' else if x = 4 then ascii ''   '' else []) @ hex_digits (ucast v) @ ascii '' ''"

fun dump_text :: "u32 \<Rightarrow> nat \<Rightarrow> u8 list \<Rightarrow> u8 list" where
  "dump_text i x [] = []"
| "dump_text i x (v # vs) =
     dump_item i x v @ (if x + 1 \<ge> 8 then [13, 10] @ dump_text (i + 1) 0 vs else dump_text (i + 1) (x + 1) vs)"

definition next_screen :: "u32 \<Rightarrow> u8 list \<Rightarrow> 'd con \<Rightarrow> (nat \<times> 'd con) option" where
  "next_screen i vs c = do {
     (k, c) \<leftarrow> ask ''More...'' c;
     (if k = byte_key CHR ''q'' then Some (0, c) else dump_loop i vs 0 0 c)
   }"

lemma dump_loop_step:
  "dump_loop i (v # vs) x y c =
    (let c = prints (dump_item i x v) c
     in if x + 1 \<ge> 8
        then (if y + 1 = 23 then next_screen (i + 1) vs (prints [13, 10] c) else dump_loop (i + 1) vs 0 (y + 1) (prints [13, 10] c))
        else dump_loop (i + 1) vs (x + 1) y c)"
  by (simp add: print_simps next_screen_def dump_item_def Let_def)

declare dump_loop.simps(2) [simp del]

lemma dump_loop_screen:
  assumes "8 * y + x + room = 184" and "x < 8" and "0 < room"
  shows "dump_loop i vs x y c =
    (if length vs < room then Some ((x + length vs) mod 8, prints (dump_text i x vs) c)
     else next_screen (i + of_nat room) (drop room vs) (prints (dump_text i x (take room vs)) c))"
  using assms
proof (induction vs arbitrary: i x y c room)
  case (Cons v vs)
  let ?t = "dump_item i x v"
  obtain r where r: "room = Suc r" using Cons.prems(3) by (cases room) auto
  show ?case
  proof (cases "x = 7")
    case False
    then have x: "8 * y + Suc x + r = 184" "Suc x < 8" "0 < r" using Cons.prems r by presburger+
    have "dump_loop i (v # vs) x y c = dump_loop (i + 1) vs (Suc x) y (prints ?t c)"
      using x(2) unfolding dump_loop_step Let_def by simp
    then show ?thesis using x(2) by (simp add: Cons.IH [OF x] add.assoc r)
  next
    case True
    show ?thesis
    proof (cases "y + 1 = 23")
      case last: True
      then have "r = 0" using Cons.prems(1) True r by simp
      then show ?thesis using True last unfolding dump_loop_step Let_def by (simp add: r)
    next
      case False
      then have x: "8 * Suc y + 0 + r = 184" "(0::nat) < 8" "0 < r" using Cons.prems True r by presburger+
      have "dump_loop i (v # vs) x y c = dump_loop (i + 1) vs 0 (Suc y) (prints (?t @ [13, 10]) c)"
        using True False unfolding dump_loop_step Let_def by simp
      then show ?thesis using True by (simp add: Cons.IH [OF x] add.assoc r)
    qed
  qed
qed simp

text \<open>C36: the pager. Up to 183 bytes are shown as they are; more are shown in screens of 23 lines, and at the end of each the
  user is asked: the key \<open>q\<close> ends the dump there, every other key goes on with the byte that follows.\<close>

theorem pager_screens:
  "dump_loop i vs 0 0 c =
    (if length vs < 184 then Some (length vs mod 8, prints (dump_text i 0 vs) c)
     else do {
       (k, c) \<leftarrow> ask ''More...'' (prints (dump_text i 0 (take 184 vs)) c);
       (if k = byte_key CHR ''q'' then Some (0, c) else dump_loop (i + 184) (drop 184 vs) 0 0 c)
     })"
  using dump_loop_screen [of 0 0 184 i vs c] by (simp add: next_screen_def)

section \<open>The erase command\<close>

lemma block_bytes_eq: "block_bytes = 131072"
  by (simp add: block_bytes_def NAND_PAGES_PER_BLOCK_def NAND_PAGE_SIZE_def)

lemma protected_blocks:
  assumes "unat block < 1024"
  shows "protected (block * block_bytes) \<longleftrightarrow> unat block \<in> {0, 0x3E9, 0x3EA}"
proof -
  obtain n where n: "unat block = n" "uint block = int n" "n < 1024" using uint_nat [of block] assms by blast
  have "uint (block * block_bytes) = uint block * 131072 mod 2 ^ 32"
    by (simp add: block_bytes_eq uint_word_ariths)
  also have "\<dots> = int n * 131072" unfolding n(2) using n(3) by (intro mod_pos_pos_trivial) auto
  finally have s: "sint (block * block_bytes) = int n * 131072" using n(3) by (simp add: sint_u32)
  have "int n * 131072 < 128 * 1024 \<or> (int n * 131072 \<ge> 0x07D20000 \<and> int n * 131072 < 0x07D60000)
      \<longleftrightarrow> n = 0 \<or> n = 0x3E9 \<or> n = 0x3EA"
    by linarith
  then show ?thesis unfolding protected_def s n(1) by simp
qed

text \<open>C35: the erase command. Among the 1024 blocks of the chip exactly those of the boot ROM and of RedBoot are not erased
  without a question; an answer other than \<open>y\<close> leaves the devices as they are, and with \<open>y\<close>, as for all other blocks, the
  block is erased.\<close>

theorem erase_asks_first:
  assumes "unat block < 1024" and "c_in c = Read_Byte k # rs"
  shows "if unat block \<in> {0, 0x3E9, 0x3EA}
    then \<exists>c'. c_dev c' = c_dev c \<and> c_net c' = c_net c \<and> c_in c' = rs
      \<and> cmd_nand_eraseblock b block c = (if k = of_char CHR ''y'' then erase_now b block c' else Some c')
    else cmd_nand_eraseblock b block c = erase_now b block c"
proof -
  let ?q = "''This area includes the bootrom or RedBoot. Continue? [y/n] ''"
  let ?c = "prints [13, 10] (cbuf_enable ((prints (ascii ?q) (cbuf_disable c))\<lparr>c_in := rs\<rparr>))"
  have a: "ask ?q c = Some (uint k, ?c)"
    using assms(2) by (simp add: ask_def print_simps cgetchar_def cbuf_disable_def prints_def)
  have "uint k = byte_key CHR ''y'' \<longleftrightarrow> k = of_char CHR ''y''"
    by (simp add: byte_key_def word_uint_eq_iff)
  then have e: "cmd_nand_eraseblock b block c = (if k = of_char CHR ''y'' then erase_now b block ?c else Some ?c)"
    if "protected (block * block_bytes)"
    using that a by (simp add: cmd_nand_eraseblock_def)
  have "c_dev ?c = c_dev c" "c_net ?c = c_net c" "c_in ?c = rs" by (simp_all add: prints_def cbuf_enable_def cbuf_disable_def)
  then show ?thesis using e unfolding protected_blocks [OF assms(1), symmetric]
    by (metis (no_types, lifting) cmd_nand_eraseblock_def)
qed

section \<open>The scan for bad pages\<close>

text \<open>The marks the scan reads, one for each page, and what the chip becomes.\<close>

fun scan_marks :: "'d bus \<Rightarrow> nat list \<Rightarrow> 'd \<Rightarrow> u8 list \<times> 'd" where
  "scan_marks b [] d = ([], d)"
| "scan_marks b (i # is) d =
     (case nand_read b (of_nat i) (of_nat NAND_PAGE_SIZE) 1 d of
        None \<Rightarrow> ([], d)
      | Some (data, d) \<Rightarrow> (case scan_marks b is d of (ms, d) \<Rightarrow> (data ! 0 # ms, d)))"

lemma nand_read_total:
  assumes "gets_ready b"
  obtains data d' where "nand_read b page col len d = Some (data, d')"
proof -
  have w: "nand_wait b x \<noteq> None" for x using assms by (auto simp: gets_ready_def)
  have "nand_read b page col len d \<noteq> None"
    by (simp add: nand_read_def nand_load_page_def w Let_def split: option.split prod.split)
  then show thesis using that by auto
qed

lemma scan_marks_length:
  assumes "gets_ready b"
  shows "length (fst (scan_marks b is d)) = length is"
proof (induction "is" arbitrary: d)
  case (Cons i "is")
  obtain data d1 where "nand_read b (of_nat i) (of_nat NAND_PAGE_SIZE) 1 d = Some (data, d1)" by (rule nand_read_total [OF assms])
  then show ?case using Cons.IH [of d1] by (simp add: split_beta)
qed simp

text \<open>The pages of a list whose mark is not 0xFF, and the line the scan prints for each.\<close>

definition bad_pages :: "nat list \<Rightarrow> u8 list \<Rightarrow> nat list" where
  "bad_pages is ms = map fst (filter (\<lambda>(i, m). m \<noteq> 0xFF) (zip is ms))"

definition bad_line :: "('d con) \<Rightarrow> nat \<Rightarrow> u8 list" where
  "bad_line c i = [0x30, 0x78] @ hex_digits (c_stray c i) @ [13, 10]"

lemma bbscan_loop_marks:
  assumes "gets_ready b"
  shows "bbscan_loop b is bad c = (case scan_marks b is (c_dev c) of
    (ms, d) \<Rightarrow> Some (bad + length (bad_pages is ms), prints (concat (map (bad_line c) (bad_pages is ms))) (c\<lparr>c_dev := d\<rparr>)))"
proof (induction "is" arbitrary: bad c)
  case Nil
  then show ?case by (simp add: bad_pages_def)
next
  case (Cons i "is")
  obtain data d where r: "nand_read b (of_nat i) (of_nat NAND_PAGE_SIZE) 1 (c_dev c) = Some (data, d)"
    by (rule nand_read_total [OF assms])
  obtain ms d' where m: "scan_marks b is d = (ms, d')" by fastforce
  show ?case
  proof (cases "data ! 0 = 0xFF")
    case True
    then show ?thesis using r m Cons.IH [of bad "c\<lparr>c_dev := d\<rparr>"] by (simp add: Let_def bad_pages_def bad_line_def)
  next
    case False
    let ?c = "prints (bad_line c i) (c\<lparr>c_dev := d\<rparr>)"
    have p: "cprintf (''0x%x'' @ crlf) [Int_Arg (c_stray c i)] (c\<lparr>c_dev := d\<rparr>) = Some ?c"
      by (simp add: print_simps bad_line_def)
    have st: "c_stray ?c = c_stray c" "bad_line ?c = bad_line c" by (simp_all add: prints_def bad_line_def fun_eq_iff)
    have "bbscan_loop b (i # is) bad c = bbscan_loop b is (bad + 1) ?c" using r p False by (simp add: Let_def)
    moreover have "c_dev ?c = d" "?c\<lparr>c_dev := d'\<rparr> = prints (bad_line c i) (c\<lparr>c_dev := d'\<rparr>)" by (simp_all add: prints_def)
    ultimately show ?thesis using r m False Cons.IH [of "bad + 1" ?c] unfolding st by (simp add: bad_pages_def)
  qed
qed

text \<open>C37: the scan for bad pages. On a chip that gets ready the scan looks at the mark of every page and ends. For every page
  whose mark is not 0xFF it prints one line, and at the end how many there were; but the number in such a line is whatever
  \<open>printf\<close> finds in place of the argument it was not given, not the page.\<close>

theorem bbscan_counts_bad_pages:
  assumes "gets_ready b" and "scan_marks b [0..<NAND_NUM_PAGES] (c_dev c) = (ms, d)"
  defines "bad \<equiv> filter (\<lambda>i. ms ! i \<noteq> 0xFF) [0..<NAND_NUM_PAGES]"
  shows "length ms = NAND_NUM_PAGES
    \<and> cmd_nand_bbscan b c = Some (prints (concat (map (\<lambda>i. [0x30, 0x78] @ hex_digits (c_stray c i) @ [13, 10]) bad)
        @ decimal (of_nat (length bad)) @ ascii ('' bad pages found'' @ crlf)) (c\<lparr>c_dev := d\<rparr>))"
proof -
  have l: "length ms = NAND_NUM_PAGES" using scan_marks_length [OF assms(1), of "[0..<NAND_NUM_PAGES]" "c_dev c"] assms(2) by simp
  have "filter (\<lambda>(i, m). m \<noteq> 0xFF) (zip [0..<n] ms) = map (\<lambda>i. (i, ms ! i)) (filter (\<lambda>i. ms ! i \<noteq> 0xFF) [0..<n])"
    if "n = length ms" for n
  proof -
    have "zip [0..<n] ms = map (\<lambda>i. (i, ms ! i)) [0..<n]" by (rule nth_equalityI) (simp_all add: that)
    then show ?thesis by (simp add: filter_map comp_def)
  qed
  then have b: "bad_pages [0..<NAND_NUM_PAGES] ms = bad" using l by (simp add: bad_pages_def bad_def comp_def)
  show ?thesis using l unfolding cmd_nand_bbscan_def bbscan_loop_marks [OF assms(1)] assms(2)
    by (simp add: print_simps b bad_line_def [abs_def])
qed

end
