(* ===== verification/ConsoleExample.thy ===== *)
theory ConsoleExample
  imports ConsoleFlash
begin

text \<open>
  A concrete system with a console, for the witnesses of the properties about it.
\<close>

definition console_on :: "'d \<Rightarrow> mem \<Rightarrow> read_result list \<Rightarrow> 'd con" where
  "console_on d m rs =
     \<lparr>c_out = out0,
      c_net = \<lparr>ps_kern = kern2 0x100, ps_mem = m, ps_pkts = (\<lambda>_. undefined), n_ifs = (\<lambda>_. undefined), n_ips = (\<lambda>_. undefined),
        n_arps = (\<lambda>_. undefined), n_routes = (\<lambda>_. undefined), n_eth_if_list = 1, n_arp_cache_list = 2, n_ip_route_list = 3,
        n_rx_completion = 4, n_frame = 5\<rparr>,
      c_dev = d, ub_next = 1, ub_devs = (\<lambda>_. usb_dev_zero), ub_devices = 6, oh_hub = hub_init, oh_root = hub_zero, oh_hcca = NULL,
      oh_vic = (\<lambda>_. 0), oh_isr = 0x300, c_in = rs, c_names = (\<lambda>_. []), c_stats = (\<lambda>_. stats_zero), c_ticker_done = False,
      c_local = 0x5000, c_handler = 0x400, c_stray = (\<lambda>i. 0xAB)\<rparr>"

definition console0 :: "mem \<Rightarrow> read_result list \<Rightarrow> unit con" where
  "console0 = console_on ()"

lemma console_on_sel: "c_dev (console_on d m rs) = d" "c_stray (console_on d m rs) = (\<lambda>i. 0xAB)"
  by (simp_all add: console_on_def)

lemma console0_sel [simp]:
  "c_kern (console0 m rs) = kern2 0x100" "c_mem (console0 m rs) = m" "c_in (console0 m rs) = rs" "c_dev (console0 m rs) = ()"
  "(console0 m rs)\<lparr>c_dev := ()\<rparr> = console0 m rs"
  by (simp_all add: console0_def console_on_def)

text \<open>A bus on which every byte reads as 0xFF: no page is marked as bad and the flash is always ready.\<close>

definition high_bus :: "unit bus" where
  "high_bus = \<lparr>bus_rd8 = (\<lambda>a d. (0xFF, d)), bus_wr8 = (\<lambda>a v d. d), bus_rd16 = (\<lambda>a d. (0, d)), bus_wr16 = (\<lambda>a v d. d),
     bus_rd32 = (\<lambda>a d. (0, d)), bus_wr32 = (\<lambda>a v d. d)\<rparr>"

lemma high_wait: "nand_wait high_bus d = Some ()"
  by (simp add: nand_wait_def poll8.simps inb_def high_bus_def nand_busy_def NAND_BUSY_BIT_def)

text \<open>A chip whose sixth page is marked as bad; the device counts the marks it has given.\<close>

definition mark_bus :: "nat bus" where
  "mark_bus = \<lparr>bus_rd8 = (\<lambda>a n. if a = NAND_DATA then (if n = 5 then 0 else 0xFF, n + 1) else (0xFF, n)),
     bus_wr8 = (\<lambda>a v n. n), bus_rd16 = (\<lambda>a n. (0, n)), bus_wr16 = (\<lambda>a v n. n), bus_rd32 = (\<lambda>a n. (0, n)), bus_wr32 = (\<lambda>a v n. n)\<rparr>"

lemma mark_wait: "nand_wait mark_bus n = Some n"
  by (simp add: nand_wait_def poll8.simps inb_def mark_bus_def nand_busy_def NAND_BUSY_BIT_def NAND_BUSY_def NAND_DATA_def)

lemma mark_ctrl: "nand_cmd mark_bus v n = n" "nand_addr mark_bus vs n = n" "nand_select mark_bus n = n" "nand_deselect mark_bus n = n"
proof -
  have w: "writeb mark_bus NAND_DATA vs n = n" for vs n
    by (induction vs arbitrary: n) (simp_all add: outb_def mark_bus_def)
  have m: "modb mark_bus NAND_CTRL f n = n" for f n
    by (simp add: modb_def inb_def outb_def mark_bus_def NAND_CTRL_def NAND_DATA_def)
  have o: "outb mark_bus a v n = n" for a v n by (simp add: outb_def mark_bus_def)
  show "nand_cmd mark_bus v n = n" "nand_addr mark_bus vs n = n" "nand_select mark_bus n = n" "nand_deselect mark_bus n = n"
    by (simp_all add: nand_cmd_def nand_addr_def nand_select_def nand_deselect_def Let_def w m o)
qed

lemma mark_read: "nand_read mark_bus page col 1 n = Some ([if n = 5 then 0 else 0xFF], n + 1)"
  by (simp add: nand_read_def nand_load_page_def mark_wait mark_ctrl Let_def inb_def) (simp add: mark_bus_def)

lemma mark_marks: "scan_marks mark_bus is n = (map (\<lambda>j. if j = 5 then 0 else 0xFF) [n..<n + length is], n + length is)"
proof (induction "is" arbitrary: n)
  case (Cons i "is")
  show ?case using upt_conv_Cons [of n "n + Suc (length is)"] by (simp add: mark_read Cons.IH del: upt_Suc)
qed simp

lemma bbscan_counts_bad_pages_witness:
  "cmd_nand_bbscan mark_bus (console_on 0 (\<lambda>_. 0) []) =
     Some (prints (ascii (''0xAB'' @ crlf @ ''1 bad pages found'' @ crlf)) (console_on NAND_NUM_PAGES (\<lambda>_. 0) []))"
proof -
  let ?c = "console_on (0 :: nat) (\<lambda>_. 0) []" let ?ms = "map (\<lambda>j. if j = 5 then 0 else 0xFF) [0..<NAND_NUM_PAGES] :: u8 list"
  have r: "gets_ready mark_bus" by (simp add: gets_ready_def mark_wait)
  have m: "scan_marks mark_bus [0..<NAND_NUM_PAGES] (c_dev ?c) = (?ms, NAND_NUM_PAGES)"
    unfolding console_on_sel mark_marks by simp
  have "filter (\<lambda>i. ?ms ! i \<noteq> 0xFF) [0..<NAND_NUM_PAGES] = filter (\<lambda>i. i = 5) [0..<NAND_NUM_PAGES]"
    by (rule filter_cong) (auto split: if_splits)
  also have "\<dots> = [5]"
  proof -
    have "filter (\<lambda>i. i = k) [0..<n] = (if k < n then [k] else [])" for k n :: nat by (induction n) auto
    then show ?thesis by (simp only: NAND_NUM_PAGES_def NAND_PAGE_SIZE_def) simp
  qed
  finally have bad: "filter (\<lambda>i. ?ms ! i \<noteq> 0xFF) [0..<NAND_NUM_PAGES] = [5]" .
  have h: "hex_digits 0xAB = [0x41, 0x42]"
    by (simp add: hex_digits_def hex_step_def hexbyte_def hexdigit_def Let_def)
  have d: "decimal 1 = [0x31]" by (simp add: decimal_def digits_rev.simps)
  from bbscan_counts_bad_pages [OF r m, unfolded bad] have
    "cmd_nand_bbscan mark_bus ?c = Some (prints ([0x30, 0x78, 0x41, 0x42, 13, 10, 0x31] @ ascii ('' bad pages found'' @ crlf)) (?c\<lparr>c_dev := NAND_NUM_PAGES\<rparr>))"
    by (simp add: console_on_sel h d)
  moreover have "?c\<lparr>c_dev := NAND_NUM_PAGES\<rparr> = console_on NAND_NUM_PAGES (\<lambda>_. 0) []" by (simp add: console_on_def)
  ultimately show ?thesis by (simp add: ascii_def crlf_def)
qed

lemma cmd_ps_lists_ring_witness:
  "cmd_ps (console0 (\<lambda>_. 0) []) = Some (prints (ascii (''PID'' @ tab @ ''State'' @ tab @ ''Name'' @ crlf)
    @ ps_text (k_ptab (kern2 0x100) 0x100) @ ps_text (k_ptab (kern2 0x100) 0x200)) (console0 (\<lambda>_. 0) []))"
  using cmd_ps_lists_ring [of "console0 (\<lambda>_. 0) []" "0x100" "[0x200]"] kern2_inv [of "0x100"]
  by (simp add: sched_inv_def kern2_def)

text \<open>The line "help", one with an unknown word, and one with nine words.\<close>

lemma console_line_dispatch_witness:
  "\<exists>m argv c cf junk. console_line high_bus cf junk 0x5000 (c :: unit con) = map_option Inr (cmd_help cf (set_mem m (cbuf_enable c)))
     \<and> tokens_at m 0x5000 0x5004 argv [ascii ''help'']"
proof -
  let ?m = "\<lambda>x. if 0x5000 \<le> x \<and> x < 0x5004 then ascii ''help'' ! unat (x - 0x5000) else 0"
  have c: "cstr ?m 0x5000 (ascii ''help'')" by (simp add: ascii_def)
  have w: "words (ascii ''help'') = [ascii ''help'']" by (simp add: ascii_def words_word isspace_def)
  have d: "command_of cf (ascii ''help'') = Some Cmd_Help" for cf by (simp add: command_of_def commands_def ascii_def)
  have "\<exists>m argv. tokens_at m 0x5000 0x5004 argv [ascii ''help'']
      \<and> console_line high_bus cf junk 0x5000 (console0 ?m []) = map_option Inr (run_command high_bus cf junk Cmd_Help argv (set_mem m (cbuf_enable (console0 ?m []))))" for cf junk
    using console_line_dispatch [of "console0 ?m []" "0x5000" "ascii ''help''" high_bus cf junk] c by (simp add: w d MAX_ARGS_def) (auto simp: ascii_def)
  then show ?thesis by (fastforce simp: run_command_def)
qed

lemma erase_asks_first_witness:
  "\<exists>c'. c_dev c' = () \<and> c_in c' = [] \<and> cmd_nand_eraseblock high_bus 0x3E9 (console0 (\<lambda>_. 0) [Read_Byte (of_char CHR ''n'')]) = Some c'"
  using erase_asks_first [of "0x3E9" "console0 (\<lambda>_. 0) [Read_Byte (of_char CHR ''n'')]" _ "[]" high_bus] by auto

end
