(* ===== verification/LibMath.thy ===== *)
theory LibMath
  imports Prelude
begin

text \<open>
  lib/math.c: the division routines the compiler calls on a processor without a divide
  instruction. \<open>udivmodsi4\<close> is a shift-and-subtract division; the four entry points wrap it for
  unsigned and signed operands. \<open>long\<close> is 32 bits wide.
\<close>

section \<open>Definitions\<close>

text \<open>First loop: shift the denominator up until it reaches the numerator.\<close>

function udiv_align :: "u32 \<Rightarrow> u32 \<Rightarrow> u32 \<Rightarrow> u32 \<times> u32" where
  "udiv_align num den cbit =
     (if den < num \<and> cbit \<noteq> 0 \<and> den AND push_bit 31 1 = 0
      then udiv_align num (push_bit 1 den) (push_bit 1 cbit)
      else (den, cbit))"
  by pat_completeness auto
termination
proof (relation "measure (\<lambda>(num, den, cbit). LEAST k. push_bit k cbit = 0)", goal_cases)
  case 1
  show ?case by simp
next
  case (2 num den cbit)
  let ?P = "\<lambda>c k. push_bit k (c :: u32) = 0"
  have ex: "?P c 32" for c
    by (rule bit_word_eqI) (simp add: bit_push_bit_iff)
  have "?P cbit (LEAST k. ?P cbit k)" by (rule LeastI [where k = 32]) (rule ex)
  moreover have "\<not> ?P cbit 0" using 2 by simp
  ultimately have pos: "0 < (LEAST k. ?P cbit k)" by (metis gr0I)
  then obtain m where m: "(LEAST k. ?P cbit k) = Suc m" by (metis gr0_implies_Suc)
  have "?P cbit (Suc m)" using m LeastI [of "?P cbit" 32, OF ex] by simp
  then have "?P (push_bit 1 cbit) m" by (simp only: push_bit_push_bit) simp
  then have "(LEAST k. ?P (push_bit 1 cbit) k) \<le> m" by (rule Least_le)
  with m show ?case by simp
qed

text \<open>Second loop: subtract and shift back down.\<close>

function udiv_subtract :: "u32 \<Rightarrow> u32 \<Rightarrow> u32 \<Rightarrow> u32 \<Rightarrow> u32 \<times> u32" where
  "udiv_subtract num den cbit res =
     (if cbit \<noteq> 0
      then (let (num', res') = (if num \<ge> den then (num - den, res OR cbit) else (num, res))
            in udiv_subtract num' (drop_bit 1 den) (drop_bit 1 cbit) res')
      else (num, res))"
  by pat_completeness auto
termination
proof (relation "measure (\<lambda>(num, den, cbit, res). unat cbit)", goal_cases)
  case 1
  show ?case by simp
next
  case (2 num den cbit res)
  then have "0 < unat cbit" by (simp add: unat_gt_0)
  then show ?case by (simp add: unat_drop_bit_u32 del: drop_bit_of_1)
qed

declare udiv_align.simps [simp del] udiv_subtract.simps [simp del]

definition udivmodsi4 :: "u32 \<Rightarrow> u32 \<Rightarrow> bool \<Rightarrow> u32" where
  "udivmodsi4 num den modwanted =
     (let (den', cbit) = udiv_align num den 1;
          (num', res) = udiv_subtract num den' cbit 0
      in if modwanted then num' else res)"

definition udivsi3 :: "u32 \<Rightarrow> u32 \<Rightarrow> u32" where
  "udivsi3 a b = udivmodsi4 a b False"

definition umodsi3 :: "u32 \<Rightarrow> u32 \<Rightarrow> u32" where
  "umodsi3 a b = udivmodsi4 a b True"

definition divsi3 :: "u32 \<Rightarrow> u32 \<Rightarrow> u32" where
  "divsi3 a b =
     (let (a, neg) = (if a <s 0 then (- a, True) else (a, False));
          (b, neg) = (if b <s 0 then (- b, \<not> neg) else (b, neg));
          res = udivmodsi4 a b False
      in if neg then - res else res)"

definition modsi3 :: "u32 \<Rightarrow> u32 \<Rightarrow> u32" where
  "modsi3 a b =
     (let (a, neg) = (if a <s 0 then (- a, True) else (a, False));
          b = (if b <s 0 then - b else b);
          res = udivmodsi4 a b True
      in if neg then - res else res)"

section \<open>Correctness\<close>

lemma udiv_align_spec:
  assumes "unat den = d * 2 ^ k" and "unat cbit = 2 ^ k" and "k \<le> 31" and "0 < d"
  shows "\<exists>k'. k' \<le> 31 \<and> unat (fst (udiv_align num den cbit)) = d * 2 ^ k'
      \<and> unat (snd (udiv_align num den cbit)) = 2 ^ k' \<and> unat num < d * 2 ^ Suc k'"
  using assms
proof (induction num den cbit arbitrary: k rule: udiv_align.induct)
  case (1 num den cbit)
  show ?case
  proof (cases "den < num \<and> cbit \<noteq> 0 \<and> den AND push_bit 31 1 = 0")
    case True
    then have den: "d * 2 ^ k < 2 ^ 31"
      using "1.prems"(1) by (simp only: top_bit_clear_u32)
    then have "(2::nat) ^ k < 2 ^ 31" using "1.prems"(4)
      by (metis Suc_leI dual_order.strict_trans2 mult_1 mult_le_mono1 One_nat_def)
    then have k: "Suc k \<le> 31" by (simp only: power_strict_increasing_iff Suc_le_eq one_less_numeral_iff semiring_norm)
    then have two: "(2::nat) ^ Suc k \<le> 2 ^ 31" by (intro power_increasing) auto
    have "unat (push_bit 1 den) = d * 2 ^ Suc k"
      using den "1.prems"(1) by (subst unat_push_bit_u32) simp_all
    moreover have "unat (push_bit 1 cbit) = 2 ^ Suc k"
      using two "1.prems"(2) by (subst unat_push_bit_u32) simp_all
    ultimately have "\<exists>k'. k' \<le> 31 \<and> unat (fst (udiv_align num (push_bit 1 den) (push_bit 1 cbit))) = d * 2 ^ k'
      \<and> unat (snd (udiv_align num (push_bit 1 den) (push_bit 1 cbit))) = 2 ^ k' \<and> unat num < d * 2 ^ Suc k'"
      by (rule "1.IH" [OF True _ _ k "1.prems"(4)])
    moreover have "udiv_align num den cbit = udiv_align num (push_bit 1 den) (push_bit 1 cbit)"
      by (rule trans [OF udiv_align.simps if_P [OF True]])
    ultimately show ?thesis by (simp only:)
  next
    case False
    have "cbit \<noteq> 0" using "1.prems"(2) by (metis power_not_zero unat_0 zero_neq_numeral)
    with False have "unat num \<le> unat den \<or> 2 ^ 31 \<le> unat den"
      by (auto simp only: top_bit_clear_u32 word_less_nat_alt not_less)
    then have "unat num < d * 2 ^ Suc k"
    proof
      assume "unat num \<le> unat den"
      moreover have "0 < d * 2 ^ k" using "1.prems"(4) by simp
      moreover have "d * 2 ^ Suc k = 2 * (d * 2 ^ k)" by simp
      ultimately show ?thesis using "1.prems"(1) by linarith
    next
      assume "2 ^ 31 \<le> unat den"
      moreover have "unat num < 2 ^ 32" using unsigned_less [of num, where ?'a = nat] by simp
      ultimately show ?thesis using "1.prems"(1) by simp
    qed
    moreover have "udiv_align num den cbit = (den, cbit)"
      by (rule trans [OF udiv_align.simps if_not_P [OF False]])
    ultimately show ?thesis using "1.prems" by auto
  qed
qed

lemma udiv_subtract_step:
  assumes "cbit \<noteq> 0"
  shows "udiv_subtract num den cbit res =
    (if num \<ge> den then udiv_subtract (num - den) (drop_bit 1 den) (drop_bit 1 cbit) (res OR cbit)
     else udiv_subtract num (drop_bit 1 den) (drop_bit 1 cbit) res)"
  using assms by (subst udiv_subtract.simps) simp

lemma udiv_subtract_done [simp]: "udiv_subtract num den 0 res = (num, res)"
  by (subst udiv_subtract.simps) simp

lemma div_mod_step:
  assumes "(d::nat) * q \<le> n" and "0 < d"
  shows "n mod d = (n - d * q) mod d" and "n div d = q + (n - d * q) div d"
proof -
  obtain r where n: "n = d * q + r" using assms(1) le_Suc_ex by blast
  show "n mod d = (n - d * q) mod d" and "n div d = q + (n - d * q) div d"
    using assms(2) by (simp_all add: n)
qed

lemma udiv_subtract_spec:
  assumes "unat den = d * 2 ^ k" and "unat cbit = 2 ^ k" and "unat num < d * 2 ^ Suc k"
    and "2 ^ Suc k dvd unat res" and "0 < d"
  shows "unat (fst (udiv_subtract num den cbit res)) = unat num mod d
       \<and> unat (snd (udiv_subtract num den cbit res)) = unat res + unat num div d"
  using assms
proof (induction k arbitrary: num den cbit res)
  case 0
  have c: "cbit = 1" using "0.prems"(2) by (simp add: word_unat_eq_iff)
  have z: "drop_bit 1 (1 :: u32) = 0" by simp
  show ?case
  proof (cases "den \<le> num")
    case True
    then have le: "d \<le> unat num" using "0.prems"(1) by (simp add: word_le_nat_alt)
    have "unat (res OR cbit) = unat res + 2 ^ 0"
      using "0.prems"(2,4) by (intro unat_or_pow2_u32) simp_all
    moreover have "unat (num - den) = unat num - d"
      using True "0.prems"(1) by (simp add: unat_sub)
    moreover have "unat num - d < d" using "0.prems"(3) by simp
    ultimately show ?thesis
      using True z div_mod_step [of d 1 "unat num"] le "0.prems"(5)
      by (simp add: udiv_subtract_step c)
  next
    case False
    then have "unat num < d" using "0.prems"(1) by (simp add: word_le_nat_alt)
    with False z show ?thesis by (simp add: udiv_subtract_step c)
  qed
next
  case (Suc k)
  have c: "cbit \<noteq> 0" using Suc.prems(2) by (metis power_not_zero unat_0 zero_neq_numeral)
  have den': "unat (drop_bit 1 den) = d * 2 ^ k"
    using Suc.prems(1) by (simp only: unat_drop_bit_u32) simp
  have cbit': "unat (drop_bit 1 cbit) = 2 ^ k"
    using Suc.prems(2) by (simp only: unat_drop_bit_u32) simp
  show ?case
  proof (cases "den \<le> num")
    case True
    then have le: "d * 2 ^ Suc k \<le> unat num" using Suc.prems(1) by (simp add: word_le_nat_alt)
    have r: "unat (res OR cbit) = unat res + 2 ^ Suc k"
      by (rule unat_or_pow2_u32 [OF Suc.prems(2,4)])
    have n: "unat (num - den) = unat num - d * 2 ^ Suc k"
      using True Suc.prems(1) by (simp add: unat_sub)
    have "unat (num - den) < d * 2 ^ Suc k" using n Suc.prems(3) by simp
    moreover have "2 ^ Suc k dvd unat (res OR cbit)"
      using r Suc.prems(4) by (metis dvd_add dvd_refl le_imp_power_dvd dvd_trans le_SucI order_refl)
    ultimately have "unat (fst (udiv_subtract (num - den) (drop_bit 1 den) (drop_bit 1 cbit) (res OR cbit)))
          = unat (num - den) mod d
       \<and> unat (snd (udiv_subtract (num - den) (drop_bit 1 den) (drop_bit 1 cbit) (res OR cbit)))
          = unat (res OR cbit) + unat (num - den) div d"
      by (rule Suc.IH [OF den' cbit' _ _ Suc.prems(5)])
    then show ?thesis
      using True r n div_mod_step [OF le Suc.prems(5)] by (simp only: udiv_subtract_step [OF c] if_True) simp
  next
    case False
    then have "unat num < d * 2 ^ Suc k" using Suc.prems(1) by (simp add: word_le_nat_alt)
    moreover have "2 ^ Suc k dvd unat res"
      using Suc.prems(4) by (metis dvd_trans le_imp_power_dvd le_SucI order_refl)
    ultimately show ?thesis
      using Suc.IH [OF den' cbit' _ _ Suc.prems(5)] False
      by (simp only: udiv_subtract_step [OF c] if_False)
  qed
qed

lemma udivmodsi4_nat:
  assumes "den \<noteq> 0"
  shows "unat (udivmodsi4 num den m) = (if m then unat num mod unat den else unat num div unat den)"
proof -
  have d: "0 < unat den" using assms by (simp add: unat_gt_0)
  obtain k where k: "unat (fst (udiv_align num den 1)) = unat den * 2 ^ k"
      "unat (snd (udiv_align num den 1)) = 2 ^ k" "unat num < unat den * 2 ^ Suc k"
    using udiv_align_spec [of den "unat den" 0 1 num] d by auto
  show ?thesis
    using udiv_subtract_spec [OF k, of 0] d
    by (auto simp: udivmodsi4_def split: prod.splits)
qed

lemma udivsi3_div: "b \<noteq> 0 \<Longrightarrow> udivsi3 a b = a div b"
  by (simp add: udivsi3_def word_unat_eq_iff udivmodsi4_nat unat_div_distrib)

lemma umodsi3_mod: "b \<noteq> 0 \<Longrightarrow> umodsi3 a b = a mod b"
  by (simp add: umodsi3_def word_unat_eq_iff udivmodsi4_nat unat_mod_distrib)

lemma udivmodsi4_int:
  assumes "den \<noteq> 0"
  shows "uint (udivmodsi4 num den m) = (if m then uint num mod uint den else uint num div uint den)"
  using udivmodsi4_nat [OF assms, of num m] by (cases m) (simp_all only: uint_nat zmod_int zdiv_int if_True if_False)

lemma uint_abs_u32: "uint (if a <s 0 then - a else a) = \<bar>sint (a :: u32)\<bar>"
proof (cases "a = 0")
  case False
  then show ?thesis
    using uint_u32_bounds [of a] uint_uminus_u32 [OF False] by (auto simp: word_sless_alt sint_u32)
qed simp

lemma abs_sint_u32_le: "\<bar>sint (a :: u32)\<bar> \<le> 2 ^ 31"
  using sint_u32_range [of a] by linarith

lemma signed_result:
  assumes "uint (r :: u32) = q" and "q \<le> 2 ^ 31" and "\<not> neg \<Longrightarrow> q < 2 ^ 31"
  shows "sint (if neg then - r else r) = (if neg then - q else q)"
  using assms sint_uminus_u32 [of r] by (cases neg) (auto simp: sint_u32 [of r])

lemma divsi3_alt:
  "divsi3 a b =
    (let r = udivmodsi4 (if a <s 0 then - a else a) (if b <s 0 then - b else b) False
     in if (a <s 0) \<noteq> (b <s 0) then - r else r)"
  by (simp add: divsi3_def Let_def)

lemma modsi3_alt:
  "modsi3 a b =
    (let r = udivmodsi4 (if a <s 0 then - a else a) (if b <s 0 then - b else b) True
     in if a <s 0 then - r else r)"
  by (simp add: modsi3_def Let_def)

lemma abs_u32_nonzero: "b \<noteq> 0 \<Longrightarrow> (if b <s 0 then - b else b) \<noteq> (0 :: u32)"
  by simp

lemma abs_div_lt:
  fixes a b :: int
  assumes "b \<noteq> 0" and "\<not> (a = - (2 ^ 31) \<and> b = - 1)" and "(a < 0) = (b < 0)"
    and "- (2 ^ 31) \<le> a" and "a < 2 ^ 31"
  shows "\<bar>a\<bar> div \<bar>b\<bar> < 2 ^ 31"
proof (cases "\<bar>b\<bar> = 1")
  case True
  then have "b = 1 \<or> b = - 1" by linarith
  then have "\<bar>a\<bar> < 2 ^ 31" using assms by auto
  with True show ?thesis by simp
next
  case False
  with assms(1) have "2 \<le> \<bar>b\<bar>" by linarith
  then have "\<bar>a\<bar> div \<bar>b\<bar> \<le> \<bar>a\<bar> div 2" by (intro zdiv_mono2) auto
  moreover have "\<bar>a\<bar> div 2 \<le> 2 ^ 31 div 2" using assms(4,5) by (intro zdiv_mono1) auto
  ultimately show ?thesis by simp
qed

lemma sdiv_abs:
  fixes a b :: int
  shows "a sdiv b = (if (a < 0) \<noteq> (b < 0) then - (\<bar>a\<bar> div \<bar>b\<bar>) else \<bar>a\<bar> div \<bar>b\<bar>)"
  by (auto simp: signed_divide_int_def sgn_if)

lemma smod_abs:
  fixes a b :: int
  shows "a smod b = (if a < 0 then - (\<bar>a\<bar> mod \<bar>b\<bar>) else \<bar>a\<bar> mod \<bar>b\<bar>)"
  by (auto simp: signed_modulo_int_def sgn_if)

section \<open>Properties\<close>

text \<open>C29: for every nonzero divisor the unsigned entry points compute exactly the quotient and
  the remainder of the operands.\<close>

theorem udiv_umod_correct:
  assumes "b \<noteq> 0"
  shows "udivsi3 a b = a div b \<and> umodsi3 a b = a mod b"
  using assms by (simp add: udivsi3_div umodsi3_mod)

theorem udiv_umod_correct_witness:
  "(7 :: u32) \<noteq> 0 \<and> udivsi3 100 7 = 100 div 7 \<and> umodsi3 100 7 = 100 mod 7"
  using udiv_umod_correct [of 7 100] by simp

text \<open>signed division and remainder are C's truncating \<open>/\<close> and \<open>%\<close> for every nonzero divisor,
  but for the one overflowing pair (the least integer divided by -1), where the quotient wraps
  to the least integer.\<close>

theorem sdiv_smod_correct:
  assumes "b \<noteq> 0"
  shows "sint (modsi3 a b) = sint a smod sint b
    \<and> sint (divsi3 a b) = (if sint a = - (2 ^ 31) \<and> sint b = - 1 then sint a else sint a sdiv sint b)"
proof
  let ?a = "if a <s 0 then - a else a" and ?b = "if b <s 0 then - b else b"
  note nz = abs_u32_nonzero [OF assms]
  have b0: "sint b \<noteq> 0" using assms sint_u32_eq_iff [of b 0] by simp
  have m: "uint (udivmodsi4 ?a ?b True) = \<bar>sint a\<bar> mod \<bar>sint b\<bar>"
    by (simp only: udivmodsi4_int [OF nz] if_True uint_abs_u32)
  have "\<bar>sint a\<bar> mod \<bar>sint b\<bar> < \<bar>sint b\<bar>" using b0 by simp
  with abs_sint_u32_le [of b] have "\<bar>sint a\<bar> mod \<bar>sint b\<bar> < 2 ^ 31" by linarith
  then show "sint (modsi3 a b) = sint a smod sint b"
    unfolding modsi3_alt Let_def
    by (subst signed_result [OF m]) (auto simp: smod_abs word_sless_alt)
  have q: "uint (udivmodsi4 ?a ?b False) = \<bar>sint a\<bar> div \<bar>sint b\<bar>"
    by (simp only: udivmodsi4_int [OF nz] if_False uint_abs_u32)
  have "\<bar>sint a\<bar> div \<bar>sint b\<bar> \<le> \<bar>sint a\<bar> div 1" using b0 by (intro zdiv_mono2) auto
  then have qle: "\<bar>sint a\<bar> div \<bar>sint b\<bar> \<le> 2 ^ 31" using abs_sint_u32_le [of a] by simp
  show "sint (divsi3 a b) = (if sint a = - (2 ^ 31) \<and> sint b = - 1 then sint a else sint a sdiv sint b)"
  proof (cases "sint a = - (2 ^ 31) \<and> sint b = - 1")
    case True
    then have "uint (udivmodsi4 ?a ?b False) = 2 ^ 31" using q by simp
    then have "sint (divsi3 a b) = - (2 ^ 31)"
      using True by (simp add: divsi3_alt Let_def word_sless_alt sint_u32 split del: if_split) 
    with True show ?thesis by simp
  next
    case False
    then have "sint (divsi3 a b) = sint a sdiv sint b"
      unfolding divsi3_alt Let_def
      using abs_div_lt [OF b0 False _ sint_u32_range] qle
      by (subst signed_result [OF q]) (auto simp: sdiv_abs word_sless_alt)
    with False show ?thesis by (simp only: if_False)
  qed
qed

theorem sdiv_smod_correct_witness:
  "(2 :: u32) \<noteq> 0 \<and> sint (divsi3 (- 7) 2) = - 3 \<and> sint (modsi3 (- 7) 2) = - 1"
  using sdiv_smod_correct [of 2 "- 7"] by (simp add: signed_divide_int_def signed_modulo_int_def)

end
