(* ===== verification/UsbProps.thy ===== *)
theory UsbProps
  imports UsbPkt
begin

text \<open>
  The packets and checksums of \<open>UsbPkt\<close>: token packets and descriptors survive their encoding, and CRC5 detects every one or two
  flipped bits of a token.
\<close>

section \<open>CRC5\<close>

lemma top_bit: "(x AND 0x80000000 \<noteq> 0) \<longleftrightarrow> bit (x :: u32) 31"
proof -
  have b: "(0x80000000 :: u32) = push_bit 31 1" by (simp add: push_bit_eq_mult)
  show ?thesis unfolding b by (simp only: push_bit_eq_mult mult_1 and_exp_eq_0_iff_not_bit not_not)
qed

definition crc5_feed :: "u32 \<Rightarrow> u32" where
  "crc5_feed x = (if bit x 31 then 0x28000000 else 0)"

lemma crc5_loop_Suc: "crc5_loop (Suc n) u c = crc5_loop n (push_bit 1 u) (push_bit 1 c XOR crc5_feed (u XOR c))"
  by (simp add: top_bit crc5_feed_def)

lemma crc5_feed_xor: "crc5_feed (x XOR y) = crc5_feed x XOR crc5_feed y"
  by (auto simp: crc5_feed_def bit_xor_iff)

text \<open>The register is a linear function of the input and of its initial value.\<close>

lemma crc5_loop_xor: "crc5_loop n (u XOR v) (c XOR d) = crc5_loop n u c XOR crc5_loop n v d"
proof (induction n arbitrary: u v c d)
  case (Suc n)
  have "crc5_feed ((u XOR v) XOR (c XOR d)) = crc5_feed (u XOR c) XOR crc5_feed (v XOR d)"
    by (simp add: crc5_feed_xor xor.assoc xor.left_commute)
  then have "push_bit 1 (c XOR d) XOR crc5_feed ((u XOR v) XOR (c XOR d))
      = (push_bit 1 c XOR crc5_feed (u XOR c)) XOR (push_bit 1 d XOR crc5_feed (v XOR d))"
    by (simp add: push_bit_xor xor.assoc xor.left_commute)
  then have "crc5_loop (Suc n) (u XOR v) (c XOR d)
      = crc5_loop n (push_bit 1 u XOR push_bit 1 v) ((push_bit 1 c XOR crc5_feed (u XOR c)) XOR (push_bit 1 d XOR crc5_feed (v XOR d)))"
    by (simp only: crc5_loop_Suc push_bit_xor)
  also have "\<dots> = crc5_loop (Suc n) u c XOR crc5_loop (Suc n) v d"
    by (simp only: Suc.IH crc5_loop_Suc)
  finally show ?case .
qed simp

text \<open>What a flipped bit does to the checksum of an eleven-bit token.\<close>

definition crc5_syndrome :: "nat \<Rightarrow> u32" where
  "crc5_syndrome i = drop_bit 27 (crc5_loop 11 (push_bit 21 (push_bit i 1)) 0)"

lemma usb_crc5_flip: "usb_crc5 (a XOR push_bit i 1) 11 = usb_crc5 a 11 XOR crc5_syndrome i"
proof -
  have "crc5_loop 11 (push_bit 21 (a XOR push_bit i 1)) 0xF8000000
      = crc5_loop 11 (push_bit 21 a) 0xF8000000 XOR crc5_loop 11 (push_bit 21 (push_bit i 1)) 0"
    using crc5_loop_xor [of 11 "push_bit 21 a" "push_bit 21 (push_bit i 1)" "0xF8000000" 0] by (simp only: push_bit_xor xor.right_neutral)
  then show ?thesis by (simp add: usb_crc5_def crc5_syndrome_def drop_bit_xor xor.assoc xor.left_commute xor.commute)
qed

lemma crc5_loop_numeral: "crc5_loop (numeral k) u c = crc5_loop (pred_numeral k) (push_bit 1 u) (push_bit 1 c XOR crc5_feed (u XOR c))"
  by (simp only: numeral_eq_Suc crc5_loop_Suc)

lemma crc5_syndromes:
  "map crc5_syndrome [0..<11] = [5, 10, 20, 13, 26, 17, 7, 14, 28, 29, 31]"
  by (simp add: upt_rec crc5_syndrome_def crc5_loop_numeral crc5_feed_def)

lemma crc5_syndromes_distinct: "distinct (map crc5_syndrome [0..<11])" "0 \<notin> set (map crc5_syndrome [0..<11])"
  unfolding crc5_syndromes by simp_all

lemma crc5_syndrome_nonzero:
  assumes "i < 11"
  shows "crc5_syndrome i \<noteq> 0"
proof
  assume "crc5_syndrome i = 0"
  moreover have "crc5_syndrome i \<in> set (map crc5_syndrome [0..<11])" using assms by auto
  ultimately show False using crc5_syndromes_distinct(2) by simp
qed

lemma crc5_syndrome_inj:
  assumes "i < 11" "j < 11" "crc5_syndrome i = crc5_syndrome j"
  shows "i = j"
  using crc5_syndromes_distinct(1) assms by (simp add: distinct_map inj_on_def)

lemma xor_zero_iff: "a XOR b = 0 \<longleftrightarrow> a = (b :: 'a :: len word)"
proof
  assume "a XOR b = 0"
  then have "(a XOR b) XOR b = b" by simp
  then show "a = b" by (simp add: xor.assoc)
qed simp

text \<open>C39: the five check bits of a token (the device address and the endpoint, eleven bits) detect every error of one or of two bits: a
  token with a flipped bit, or with two, has another CRC5 than the token that was sent.\<close>

theorem usb_crc5_detects:
  assumes "i < 11" and "j < 11" and "i \<noteq> j"
  shows "usb_crc5 (a XOR push_bit i 1) 11 \<noteq> usb_crc5 a 11 \<and> usb_crc5 (a XOR push_bit i 1 XOR push_bit j 1) 11 \<noteq> usb_crc5 a 11"
proof
  have x: "c XOR s = c \<longleftrightarrow> s = 0" for c s :: u32
    using xor_zero_iff [of "c XOR s" c] by (auto simp: xor.commute xor.left_commute)
  show "usb_crc5 (a XOR push_bit i 1) 11 \<noteq> usb_crc5 a 11"
    by (simp only: usb_crc5_flip x crc5_syndrome_nonzero [OF assms(1)] not_False_eq_True)
  have "usb_crc5 (a XOR push_bit i 1 XOR push_bit j 1) 11 = usb_crc5 a 11 XOR (crc5_syndrome i XOR crc5_syndrome j)"
    using usb_crc5_flip [of "a XOR push_bit i 1" j] by (simp only: usb_crc5_flip xor.assoc)
  moreover have "crc5_syndrome i XOR crc5_syndrome j \<noteq> 0"
    using crc5_syndrome_inj [OF assms(1,2)] assms(3) by (auto simp only: xor_zero_iff)
  ultimately show "usb_crc5 (a XOR push_bit i 1 XOR push_bit j 1) 11 \<noteq> usb_crc5 a 11" by (simp only: x not_False_eq_True)
qed

lemma usb_crc5_detects_witness:
  "usb_crc5 (0x547 XOR push_bit 0 1) 11 \<noteq> usb_crc5 0x547 11 \<and> usb_crc5 (0x547 XOR push_bit 0 1 XOR push_bit 7 1) 11 \<noteq> usb_crc5 0x547 11"
  using usb_crc5_detects [of 0 7 "0x547"] by simp

section \<open>Tokens and descriptors\<close>

lemma low_bits:
  fixes x :: "'a :: len word"
  assumes "unat x < 2 ^ n" and "bit x k"
  shows "k < n"
proof (rule ccontr)
  assume "\<not> k < n"
  then have "(2 :: nat) ^ n \<le> 2 ^ k" by simp
  with assms(1) have "unat x < 2 ^ k" by linarith
  moreover have "bit (unat x) k" using assms(2) by (simp add: bit_unsigned_iff)
  ultimately show False by (simp add: bit_nat_def)
qed

text \<open>C40: what a token packet was filled with is read back from it, for identifiers, addresses, endpoints and checksums of their widths.\<close>

theorem token_pkt_round_trip:
  assumes "pid < 16" and "a < 128" and "ep < 16" and "crc < 32"
  shows "usb_parse_token_pkt (usb_fill_token_pkt pid a ep crc) = (pid, a, ep, crc)"
proof -
  have n: "bit pid k \<Longrightarrow> k < 4" "bit a k \<Longrightarrow> k < 7" "bit ep k \<Longrightarrow> k < 4" "bit crc k \<Longrightarrow> k < 5" for k
    using assms low_bits [of pid 4 k] low_bits [of a 7 k] low_bits [of ep 4 k] low_bits [of crc 5 k] by (auto simp: word_less_nat_alt)
  have "PID_PACK pid AND mask 4 = pid"
    unfolding PID_PACK_def using n(1) by (intro bit_word_eqI) (auto simp: bit_simps)
  moreover have "ucast (drop_bit 9 (ucast (push_bit 9 a) OR ucast (push_bit 5 ep) OR ucast crc :: u16)) AND mask 7 = a" (is "?x = _")
  proof (rule bit_word_eqI)
    fix k show "bit ?x k = bit a k" using n(2) [of k] n(3) [of "4 + k"] n(4) [of "9 + k"] by (auto simp: bit_simps)
  qed
  moreover have "ucast (drop_bit 5 (ucast (push_bit 9 a) OR ucast (push_bit 5 ep) OR ucast crc :: u16)) AND mask 4 = ep" (is "?y = _")
  proof (rule bit_word_eqI)
    fix k show "bit ?y k = bit ep k" using n(3) [of k] n(4) [of "5 + k"] by (auto simp: bit_simps)
  qed
  moreover have "ucast (ucast (push_bit 9 a) OR ucast (push_bit 5 ep) OR ucast crc :: u16) AND mask 5 = crc" (is "?z = _")
  proof (rule bit_word_eqI)
    fix k show "bit ?z k = bit crc k" using n(4) [of k] by (auto simp: bit_simps)
  qed
  ultimately show ?thesis
    by (simp add: usb_parse_token_pkt_def usb_fill_token_pkt_def mask_eq_exp_minus_1 or.assoc)
qed

lemma token_pkt_round_trip_witness: "usb_parse_token_pkt (usb_fill_token_pkt PID_SETUP 5 0 0x17) = (PID_SETUP, 5, 0, 0x17)"
  unfolding PID_SETUP_def by (rule token_pkt_round_trip) simp_all

lemma of_le16_bytes: "of_le16 (ucast x) (ucast (drop_bit 8 x)) = x"
  unfolding of_le16_def by (rule byte_eqI_16; simp only: bytes_bits; simp add: bit_u8_high)

lemma attributes_byte_bits:
  "ucast (attributes_byte a) = at_reserved0 a" "bit (attributes_byte a) 5 = at_remoteWakeup a" "bit (attributes_byte a) 6 = at_selfPowered a"
  "bit (attributes_byte a) 7 = at_reserved1 a"
proof -
  show "ucast (attributes_byte a) = at_reserved0 a"
  proof (rule bit_word_eqI)
    fix k assume "k < LENGTH(5)"
    then have "k \<in> {0, 1, 2, 3, 4}" by auto
    then show "bit (ucast (attributes_byte a) :: 5 word) k = bit (at_reserved0 a) k"
      unfolding attributes_byte_def by (auto simp: bit_or_iff bit_ucast_iff)
  qed
  have r: "\<not> bit (at_reserved0 a) 5" "\<not> bit (at_reserved0 a) 6" "\<not> bit (at_reserved0 a) 7" by (auto dest: bit_imp_le_length)
  show "bit (attributes_byte a) 5 = at_remoteWakeup a" "bit (attributes_byte a) 6 = at_selfPowered a" "bit (attributes_byte a) 7 = at_reserved1 a"
    unfolding attributes_byte_def by (simp_all add: bit_or_iff bit_ucast_iff r)
qed

text \<open>the descriptors survive their bytes: the structure read from the bytes of a structure is that structure.\<close>

theorem descriptor_round_trip:
  "device_desc_of (device_desc_bytes d) = d \<and> configuration_desc_of (configuration_desc_bytes c) = c"
  by (cases d, cases c) (simp add: device_desc_of_def device_desc_bytes_def configuration_desc_of_def configuration_desc_bytes_def
    le16_def nth_Cons_numeral of_le16_bytes attributes_byte_bits)

end
