(* ===== verification/UsbHost.thy ===== *)
theory UsbHost
  imports Usb Frames UsbProps
begin

text \<open>
  What the host of \<open>Usb\<close> does with a device that answers: the interface between the USB core and a host controller as the
  core relies on it, and control transfers and the steps of the enumeration on every controller that provides it.
\<close>

section \<open>Progress of the host\<close>

definition host_eq :: "('d, 'a) usb_scheme \<Rightarrow> ('d, 'a) usb_scheme \<Rightarrow> bool" where
  "host_eq s s' \<longleftrightarrow> c_out s' = c_out s \<and> c_net s' = c_net s \<and> c_dev s' = c_dev s \<and> ub_next s' = ub_next s \<and> ub_devs s' = ub_devs s
     \<and> ub_devices s' = ub_devices s"

text \<open>The bytes \<open>bs\<close> are in memory at \<open>p\<close>, in a block of their own.\<close>

definition stored :: "mem \<Rightarrow> (addr \<times> u32) list \<Rightarrow> addr \<Rightarrow> u8 list \<Rightarrow> bool" where
  "stored m live p bs \<longleftrightarrow> (\<exists>n. (p, n) \<in> set live \<and> length bs \<le> unat n) \<and> mem_bytes m p (length bs) = bs"

text \<open>The host has allocated \<open>n\<close> blocks and nothing that was stored has changed.\<close>

definition onward :: "nat \<Rightarrow> nat \<Rightarrow> ('d, 'a) usb_scheme \<Rightarrow> (addr \<times> u32) list \<Rightarrow> ('d, 'a) usb_scheme \<Rightarrow> (addr \<times> u32) list \<Rightarrow> bool" where
  "onward B n s live s' live' \<longleftrightarrow> heap_live B (c_heap s') live' \<and> length live' = length live + n \<and> set live \<subseteq> set live'
     \<and> ub_devices s' = ub_devices s \<and> ub_next s' = ub_next s \<and> (\<forall>p bs. stored (c_mem s) live p bs \<longrightarrow> stored (c_mem s') live' p bs)"

lemma onward_trans: "onward B n s live s1 live1 \<Longrightarrow> onward B k s1 live1 s2 live2 \<Longrightarrow> onward B (n + k) s live s2 live2"
  by (auto simp: onward_def)

lemma onward_heap: "onward B n s live s' live' \<Longrightarrow> heap_live B (c_heap s') live'" "onward B n s live s' live' \<Longrightarrow> length live' = length live + n"
  by (simp_all add: onward_def)

lemma onward_upd_dev [simp]: "onward B n s live (upd_dev dev f s') live' \<longleftrightarrow> onward B n s live s' live'"
  by (simp add: onward_def upd_dev_def)

lemma host_eq_onward: "host_eq s' s'' \<Longrightarrow> onward B n s live s' live' \<Longrightarrow> onward B n s live s'' live'"
  by (simp add: host_eq_def onward_def)

lemma fresh_block:
  assumes "heap_live B m live" and "length live < 128" and "unat n \<le> 8192"
  obtains p m' where "malloc m n = (p, m')" "p \<noteq> NULL" "heap_live B m' ((p, n) # live)" "p \<notin> fst ` set live"
proof -
  obtain p m' where a: "malloc m n = (p, m')" by fastforce
  have "p \<noteq> NULL"
    by (rule malloc_succeeds [OF _ assms(2) _ _ a, of B 8]) (use assms in \<open>simp_all add: heap_live_def csize_eq\<close>)
  then show thesis using that [OF a] heap.alloc_ok [OF assms(1) a] heap.fresh(1) [OF assms(1) a] by simp
qed

lemma c_alloc_onward:
  assumes "heap_live B (c_heap s) live" and "length live < 128" and "unat n \<le> 8192"
  obtains p s' where "c_alloc n s = (p, s')" "p \<noteq> NULL" "p \<notin> fst ` set live" "onward B 1 s live s' ((p, n) # live)"
    "s' = s\<lparr>c_net := c_net s'\<rparr>" "c_mem s' = c_mem s"
proof -
  obtain p m' where a: "malloc (c_heap s) n = (p, m')" "p \<noteq> NULL" "heap_live B m' ((p, n) # live)" "p \<notin> fst ` set live"
    by (rule fresh_block [OF assms])
  let ?s = "s\<lparr>c_net := (c_net s)\<lparr>ps_kern := (c_kern s)\<lparr>k_mem := m'\<rparr>\<rparr>\<rparr>"
  have "stored (c_mem s) ((p, n) # live) q bs" if "stored (c_mem s) live q bs" for q bs
    using that by (auto simp: stored_def)
  then have "onward B 1 s live ?s ((p, n) # live)" using a(3) by (auto simp: onward_def)
  then show thesis using that [of p ?s] a by (simp add: c_alloc_def kalloc_def)
qed

lemma cprintf_onward:
  assumes "render (ascii fmt @ [0]) args \<noteq> None"
  obtains o1 where "cprintf fmt args s = Some (s\<lparr>c_out := o1\<rparr>)"
  using assms by (auto simp: cprintf_def say_put_s)

lemma onward_out [simp]: "onward B n s live (s'\<lparr>c_out := o1\<rparr>) live' \<longleftrightarrow> onward B n s live s' live'"
  by (simp add: onward_def)

lemma onward_out_left [simp]: "onward B n (s\<lparr>c_out := o1\<rparr>) live s' live' \<longleftrightarrow> onward B n s live s' live'"
  by (simp add: onward_def)

lemma onward_upd_dev_left [simp]: "onward B n (upd_dev dev f s) live s' live' \<longleftrightarrow> onward B n s live s' live'"
  by (simp add: onward_def upd_dev_def)

text \<open>Writing to a block changes nothing that is stored in the others.\<close>

lemma put_block:
  assumes h: "heap_live B m live" and p: "(p, n) \<in> set live" and bs: "length bs \<le> unat n"
  shows "stored (put_list ms p bs) live p bs"
    and "q \<noteq> p \<Longrightarrow> stored ms live q cs \<Longrightarrow> stored (put_list ms p bs) live q cs"
proof -
  have fit: "unat p + unat n < 2 ^ 32" using heap.blocks_fit [OF h p] by simp
  have puts: "puts_bytes ms (put_list ms p bs) p bs" by (rule put_list_puts) (use fit bs in simp)
  show "stored (put_list ms p bs) live p bs"
    using puts_bytes_read [OF puts] p bs by (auto simp: stored_def)
  assume q: "q \<noteq> p" and st: "stored ms live q cs"
  then obtain k where k: "(q, k) \<in> set live" "length cs \<le> unat k" "mem_bytes ms q (length cs) = cs" by (auto simp: stored_def)
  then have ap: "apart p (length bs) q (length cs)"
    using heap.blocks_apart [OF h p, of q k] q bs by (auto simp: apart_def)
  have "mem_bytes (put_list ms p bs) q (length cs) = mem_bytes ms q (length cs)"
    by (rule puts_bytes_other [OF puts ap]) (use heap.blocks_fit [OF h, of q k] k(1,2) in simp)
  then show "stored (put_list ms p bs) live q cs" using k by (auto simp: stored_def)
qed

lemma stored_older: "heap_live B m ((p, n) # live) \<Longrightarrow> stored ms live q cs \<Longrightarrow> q \<noteq> p \<and> stored ms ((p, n) # live) q cs"
  using heap.blocks_distinct [of B m "(p, n) # live"] by (force simp: stored_def)

lemma put_stored:
  assumes "heap_live B m ((p, n) # live)" and "length bs \<le> unat n"
  shows "stored (put_list ms p bs) ((p, n) # live) p bs"
    and "stored ms live q cs \<Longrightarrow> stored (put_list ms p bs) ((p, n) # live) q cs"
  using put_block [OF assms(1) _ assms(2), where p = p] stored_older [OF assms(1)] by auto

section \<open>The interface\<close>

text \<open>
  A device behind a controller, as the host sees it: \<open>part\<close> is the controller's part of the state, which the host's own
  steps leave alone. The device is \<open>at\<close> an address, is \<open>asked\<close> after a SETUP token, \<open>offers\<close> bytes after a request it answers, and
  \<open>moves\<close> to a new address after a request for one.
\<close>

locale control_device =
  fixes hc :: "('d, 'a) usb_scheme usb_hcd"
    and part :: "('d, 'a) usb_scheme \<Rightarrow> 'h"
    and at :: "u32 \<Rightarrow> 'h \<Rightarrow> bool"
    and asked :: "u32 \<Rightarrow> 'h \<Rightarrow> bool"
    and offers :: "u32 \<Rightarrow> u8 list \<Rightarrow> 'h \<Rightarrow> bool"
    and moves :: "u32 \<Rightarrow> u32 \<Rightarrow> 'h \<Rightarrow> bool"
    and answer :: "usb_request \<Rightarrow> u8 list option"
  assumes part_net: "part (s\<lparr>c_net := net1\<rparr>) = part s"
    and part_out: "part (s\<lparr>c_out := o1\<rparr>) = part s"
    and part_next: "part (s\<lparr>ub_next := x\<rparr>) = part s"
    and part_devs: "part (s\<lparr>ub_devs := ds\<rparr>) = part s"
    and out_setup: "at a (part s) \<Longrightarrow> \<exists>s'. hcd_out hc a 0 (Token_Pkt (usb_fill_token_pkt PID_SETUP a 0 crc)) n s = Some (0, s')
      \<and> host_eq s s' \<and> asked a (part s')"
    and out_get: "asked a (part s) \<Longrightarrow> rq_bRequest r = USB_GET_DESCRIPTOR \<Longrightarrow> answer r = Some bs \<Longrightarrow>
      \<exists>s'. hcd_out hc a 0 (Request_Pkt (PID_PACK PID_DATA0) r c) n s = Some (0, s') \<and> host_eq s s' \<and> offers a bs (part s')"
    and out_set: "asked a (part s) \<Longrightarrow> rq_bRequest r = USB_SET_ADDRESS \<Longrightarrow> rq_wValue r \<noteq> 0 \<Longrightarrow>
      \<exists>s'. hcd_out hc a 0 (Request_Pkt (PID_PACK PID_DATA0) r c) n s = Some (0, s') \<and> host_eq s s' \<and> moves a (ucast (rq_wValue r)) (part s')"
    and out_in_data: "offers a bs (part s) \<Longrightarrow> \<exists>s'. hcd_out hc a 0 (Token_Pkt (usb_fill_token_pkt PID_IN a 0 crc)) n s = Some (0, s')
      \<and> host_eq s s' \<and> offers a bs (part s')"
    and out_in_move: "moves a b (part s) \<Longrightarrow> \<exists>s'. hcd_out hc a 0 (Token_Pkt (usb_fill_token_pkt PID_IN a 0 crc)) n s = Some (0, s')
      \<and> host_eq s s' \<and> at b (part s')"
    and in_data: "offers a bs (part s) \<Longrightarrow> \<exists>s'. hcd_in hc a 0 n s = Some (0, take (unat n) bs, s') \<and> host_eq s s' \<and> at a (part s')"
    and register: "\<exists>s'. hcd_register_ep hc ep s = (0, s') \<and> host_eq s s' \<and> part s' = part s"
begin

lemma part_alloc: "s' = s\<lparr>c_net := c_net s'\<rparr> \<Longrightarrow> part s' = part s"
  using part_net [where s = s and ?net1.0 = "c_net s'"] by simp

lemma part_upd_dev [simp]: "part (upd_dev dev f s) = part s"
  by (simp add: upd_dev_def part_devs)

lemma part_set_mem [simp]: "part (set_mem m s) = part s"
  by (simp add: set_mem_def part_net)

text \<open>A token and the data packet, whatever the device does with them.\<close>

lemma token_sent:
  assumes "heap_live B (c_heap s) live" and "length live < 128" and "dv_address (ub_devs s dev) = a" and "P (part s)"
    and "\<And>s1 n. P (part s1) \<Longrightarrow> \<exists>s'. hcd_out hc a 0 (Token_Pkt (usb_fill_token_pkt pid a 0 (usb_crc5 (push_bit 4 a OR 0) 11))) n s1 = Some (0, s')
      \<and> host_eq s1 s' \<and> Q (part s')"
  shows "\<exists>s' live'. usb_token hc dev pid 0 s = Some (0, s') \<and> onward B 1 s live s' live' \<and> ub_devs s' = ub_devs s \<and> Q (part s')"
proof -
  obtain p s1 where a: "c_alloc sizeof_token_pkt s = (p, s1)" "p \<noteq> NULL" "onward B 1 s live s1 ((p, sizeof_token_pkt) # live)"
    "s1 = s\<lparr>c_net := c_net s1\<rparr>"
    by (rule c_alloc_onward [OF assms(1,2), of sizeof_token_pkt]) (auto simp: sizeof_token_pkt_def)
  have d: "ub_devs s1 = ub_devs s" by (subst a(4)) simp
  have "P (part s1)" using assms(4) part_alloc [OF a(4)] by simp
  from assms(5) [OF this] obtain s' where o: "hcd_out hc a 0 (Token_Pkt (usb_fill_token_pkt pid a 0 (usb_crc5 (push_bit 4 a OR 0) 11)))
      sizeof_token_pkt s1 = Some (0, s')" "host_eq s1 s'" "Q (part s')" by blast
  have "usb_token hc dev pid 0 s = Some (0, s')"
    unfolding usb_token_def a(1) using a(2) d o(1) assms(3) by (simp add: Let_def)
  moreover have "ub_devs s' = ub_devs s" using o(2) d by (simp add: host_eq_def)
  ultimately show ?thesis using host_eq_onward [OF o(2) a(3)] o(3) by blast
qed

lemma data_sent:
  assumes "heap_live B (c_heap s) live" and "length live < 128" and "dv_address (ub_devs s dev) = a" and "P (part s)"
    and "\<And>s1 c n. P (part s1) \<Longrightarrow> \<exists>s'. hcd_out hc a 0 (Request_Pkt (PID_PACK PID_DATA0) r c) n s1 = Some (0, s') \<and> host_eq s1 s' \<and> Q (part s')"
  shows "\<exists>s' live'. usb_data0 hc dev r msg freeing s = Some (0, s') \<and> onward B 1 s live s' live' \<and> ub_devs s' = ub_devs s \<and> Q (part s')"
proof -
  obtain p s1 where a: "c_alloc sizeof_request_pkt s = (p, s1)" "p \<noteq> NULL" "onward B 1 s live s1 ((p, sizeof_request_pkt) # live)"
    "s1 = s\<lparr>c_net := c_net s1\<rparr>"
    by (rule c_alloc_onward [OF assms(1,2), of sizeof_request_pkt]) (auto simp: sizeof_request_pkt_def)
  have d: "ub_devs s1 = ub_devs s" by (subst a(4)) simp
  have "P (part s1)" using assms(4) part_alloc [OF a(4)] by simp
  from assms(5) [OF this] obtain s' where o: "hcd_out hc a 0 (Request_Pkt (PID_PACK PID_DATA0) r (usb_crc16 (request_bytes r)))
      sizeof_request_pkt s1 = Some (0, s')" "host_eq s1 s'" "Q (part s')" by blast
  have "usb_data0 hc dev r msg freeing s = Some (0, s')"
    unfolding usb_data0_def a(1) using a(2) d o(1) assms(3) by (simp add: Let_def)
  moreover have "ub_devs s' = ub_devs s" using o(2) d by (simp add: host_eq_def)
  ultimately show ?thesis using host_eq_onward [OF o(2) a(3)] o(3) by blast
qed

text \<open>A control transfer that reads takes three packets, and gives the device's answer.\<close>

lemma control_in:
  assumes "heap_live B (c_heap s) live" and "length live + 3 \<le> 128" and "dv_address (ub_devs s dev) = a" and "sint a \<le> 1"
    and "at a (part s)" and "answer (get_desc_request v) = Some bs"
  shows "\<exists>s' live'. usb_control_in hc dev v len s = Some (0, take (unat len) bs, s') \<and> onward B 3 s live s' live' \<and> ub_devs s' = ub_devs s
    \<and> at a (part s')"
proof -
  obtain s1 l1 where 1: "usb_token hc dev PID_SETUP 0 s = Some (0, s1)" "onward B 1 s live s1 l1" "ub_devs s1 = ub_devs s" "asked a (part s1)"
    using token_sent [OF assms(1) _ assms(3), of "at a" PID_SETUP "asked a"] assms(2,5) out_setup by (auto simp: PID_SETUP_def)
  obtain s2 l2 where 2: "usb_data0 hc dev (get_desc_request v) ''Unable to queue GET_DESCRIPTOR data'' False s1 = Some (0, s2)"
      "onward B 1 s1 l1 s2 l2" "ub_devs s2 = ub_devs s1" "offers a bs (part s2)"
    using data_sent [OF onward_heap(1) [OF 1(2)], of dev a "asked a" "get_desc_request v" "offers a bs"
        "''Unable to queue GET_DESCRIPTOR data''" False] onward_heap(2) [OF 1(2)] 1(3,4) assms(2,3) out_get [OF _ _ assms(6)]
    by (auto simp: get_desc_request_def)
  obtain s3 l3 where 3: "usb_token hc dev PID_IN 0 s2 = Some (0, s3)" "onward B 1 s2 l2 s3 l3" "ub_devs s3 = ub_devs s2" "offers a bs (part s3)"
    using token_sent [OF onward_heap(1) [OF 2(2)], of dev a "offers a bs" PID_IN "offers a bs"] onward_heap(2) [OF 1(2)]
      onward_heap(2) [OF 2(2)] 1(3) 2(3,4) assms(2,3) out_in_data by auto
  obtain s4 where 4: "hcd_in hc a 0 len s3 = Some (0, take (unat len) bs, s4)" "host_eq s3 s4" "at a (part s4)"
    using in_data [OF 3(4)] by blast
  have u: "ub_devs s4 = ub_devs s" using 1(3) 2(3) 3(3) 4(2) by (simp add: host_eq_def)
  have "usb_control_in hc dev v len s = Some (0, take (unat len) bs, s4)"
    using 1 2 3 4 u assms(3,4) by (simp add: usb_control_in_def or_fail_def)
  moreover have "onward B 3 s live s4 l3"
    using host_eq_onward [OF 4(2) onward_trans [OF onward_trans [OF 1(2) 2(2)] 3(2)]] by (simp add: numeral_eq_Suc)
  ultimately show ?thesis using u 4(3) by blast
qed

lemma set_address:
  assumes "heap_live B (c_heap s) live" and "length live + 3 \<le> 128" and "dv_address (ub_devs s dev) = a"
    and "at a (part s)" and "b \<noteq> 0" "sint b \<le> 1" "ucast (ucast b :: u16) = b"
  shows "\<exists>s' live'. usb_set_address hc dev b s = Some (0, upd_dev dev (\<lambda>v. v\<lparr>dv_address := b\<rparr>) s') \<and> onward B 3 s live s' live'
    \<and> ub_devs s' = ub_devs s \<and> at b (part s')"
proof -
  have w: "(ucast b :: u16) \<noteq> 0" using assms(5,7) by auto
  obtain s1 l1 where 1: "usb_token hc dev PID_SETUP 0 s = Some (0, s1)" "onward B 1 s live s1 l1" "ub_devs s1 = ub_devs s" "asked a (part s1)"
    using token_sent [OF assms(1) _ assms(3), of "at a" PID_SETUP "asked a"] assms(2,4) out_setup by auto
  obtain s2 l2 where 2: "usb_data0 hc dev (set_address_request b) ''Unable to queue SET_ADDRESS SETUP data'' True s1 = Some (0, s2)"
      "onward B 1 s1 l1 s2 l2" "ub_devs s2 = ub_devs s1" "moves a b (part s2)"
    using data_sent [OF onward_heap(1) [OF 1(2)], of dev a "asked a" "set_address_request b" "moves a b"
        "''Unable to queue SET_ADDRESS SETUP data''" True] onward_heap(2) [OF 1(2)] 1(3,4) assms(2,3,7) w
      out_set [of a _ "set_address_request b"]
    by (auto simp: set_address_request_def)
  obtain s3 l3 where 3: "usb_token hc dev PID_IN 0 s2 = Some (0, s3)" "onward B 1 s2 l2 s3 l3" "ub_devs s3 = ub_devs s2" "at b (part s3)"
    using token_sent [OF onward_heap(1) [OF 2(2)], of dev a "moves a b" PID_IN "at b"] onward_heap(2) [OF 1(2)]
      onward_heap(2) [OF 2(2)] 1(3) 2(3,4) assms(2,3) out_in_move by auto
  have "usb_set_address hc dev b s = Some (0, upd_dev dev (\<lambda>v. v\<lparr>dv_address := b\<rparr>) s3)"
    using 1 2 3 assms(6) by (simp add: usb_set_address_def or_fail_def)
  moreover have "onward B 3 s live s3 l3"
    using onward_trans [OF onward_trans [OF 1(2) 2(2)] 3(2)] by (simp add: numeral_eq_Suc)
  moreover have "ub_devs s3 = ub_devs s" using 1(3) 2(3) 3(3) by simp
  ultimately show ?thesis using 3(4) by blast
qed

lemma bfifo_onward:
  assumes "heap_live B (c_heap s) live" and "length live < 128"
  obtains w m f where "bfifo_alloc (c_heap s) (k_bfifos (c_kern s)) 10 = (w, m, f)" "w \<noteq> NULL"
    "heap_live B m ((w, 56) # live)"
proof -
  obtain w m where "malloc (c_heap s) 56 = (w, m)" "w \<noteq> NULL" "heap_live B m ((w, 56) # live)"
    by (rule fresh_block [OF assms, of 56]) auto
  then show thesis using that by (simp add: bfifo_alloc_def sizeof_bfifo_def)
qed

lemma registered:
  obtains s' where "hcd_register_ep hc ep s = (0, s')" "host_eq s s'" "part s' = part s"
  using register by blast

text \<open>A new device gets the first address.\<close>

lemma attach_setup:
  assumes "heap_live B (c_heap s) live" and "length live + 4 \<le> 128" and "ub_next s = 1" and "at 0 (part s)"
  shows "\<exists>s' live' v. usb_attach_setup hc dev s = Some (0, s') \<and> onward B 4 (s\<lparr>ub_next := 2\<rparr>) live s' live'
    \<and> ub_devs s' = (ub_devs s)(dev := v) \<and> dv_address v = 1 \<and> at 1 (part s')"
proof -
  obtain w m f where w: "bfifo_alloc (c_heap s) (k_bfifos (c_kern s)) 10 = (w, m, f)" "w \<noteq> NULL" "heap_live B m ((w, 56) # live)"
    by (rule bfifo_onward [OF assms(1)]) (use assms(2) in auto)
  let ?k = "(c_kern s)\<lparr>k_mem := m, k_bfifos := f, k_completions := (k_completions (c_kern s))(in_completion dev := w)\<rparr>"
  let ?s1 = "upd_dev dev (\<lambda>v. v\<lparr>dv_address := 0, dv_control_ep := (dv_control_ep v)\<lparr>ep_bEndpointAddress := 0,
    ep_transferType := USB_XFER_CONTROL, ep_wMaxPacketSize := 64\<rparr>\<rparr>) (upd_dev dev (\<lambda>v. v\<lparr>dv_wait := w\<rparr>) (set_kern ?k s))"
  have 1: "onward B 1 s live ?s1 ((w, 56) # live)" "ub_next ?s1 = 1" "part ?s1 = part s" "dv_address (ub_devs ?s1 dev) = 0"
    "(ub_devs ?s1)(dev := v) = (ub_devs s)(dev := v)" for v
    using w(3) assms(3) by (auto simp: onward_def stored_def set_kern_def upd_dev_def part_net part_devs)
  obtain s2 where 2: "hcd_register_ep hc (dv_control_ep (ub_devs ?s1 dev)) ?s1 = (0, s2)" "host_eq ?s1 s2" "part s2 = part ?s1"
    by (rule registered)
  let ?s2 = "s2\<lparr>ub_next := 2\<rparr>"
  have o2: "onward B 1 (s\<lparr>ub_next := 2\<rparr>) live ?s2 ((w, 56) # live)"
    using host_eq_onward [OF 2(2) 1(1)] by (simp add: onward_def)
  have h2: "heap_live B (c_heap ?s2) ((w, 56) # live)" "dv_address (ub_devs ?s2 dev) = 0" "at 0 (part ?s2)" "ub_next s2 = 1"
    using onward_heap(1) [OF o2] 1(2,3,4) 2(2,3) assms(4) by (simp_all add: host_eq_def part_next)
  obtain s3 live' where 3: "usb_set_address hc dev 1 ?s2 = Some (0, upd_dev dev (\<lambda>v. v\<lparr>dv_address := 1\<rparr>) s3)"
      "onward B 3 ?s2 ((w, 56) # live) s3 live'" "ub_devs s3 = ub_devs s2" "at 1 (part s3)"
    using set_address [OF h2(1) _ h2(2,3), of 1] assms(2) by auto
  let ?s3 = "upd_dev dev (\<lambda>v. v\<lparr>dv_address := 1\<rparr>) s3"
  have "render (ascii (''New device assigned address %d'' @ crlf) @ [0]) [Int_Arg x] \<noteq> None" for x
    by (simp add: ascii_def crlf_def)
  then obtain o1 where o: "cprintf (''New device assigned address %d'' @ crlf) [Int_Arg (dv_address (ub_devs ?s3 dev))] ?s3 = Some (?s3\<lparr>c_out := o1\<rparr>)"
    by (rule cprintf_onward)
  let ?s4 = "upd_dev dev (\<lambda>v. v\<lparr>dv_control_ep := (dv_control_ep v)\<lparr>ep_bEndpointAddress := ucast (dv_address v)\<rparr>\<rparr>) (?s3\<lparr>c_out := o1\<rparr>)"
  obtain s5 where 5: "hcd_register_ep hc (dv_control_ep (ub_devs ?s4 dev)) ?s4 = (0, s5)" "host_eq ?s4 s5" "part s5 = part ?s4"
    by (rule registered)
  have run: "usb_attach_setup hc dev s = Some (0, s5)"
    unfolding usb_attach_setup_def w(1) prod.case Let_def
    by (simp add: w(2) 2(1) [unfolded USB_XFER_CONTROL_def] USB_XFER_CONTROL_def) (simp add: h2(4) 3(1), simp only: o [simplified] Option.bind.bind_lunit, simp add: 5(1))
  have "ub_devs s2 = ub_devs ?s1" using 2(2) by (simp add: host_eq_def)
  then have d: "ub_devs s5 = (ub_devs s)(dev := ub_devs s5 dev)" "dv_address (ub_devs s5 dev) = 1"
    using 5(2) 3(3) by (simp_all add: host_eq_def upd_dev_def set_kern_def)
  have "onward B 4 (s\<lparr>ub_next := 2\<rparr>) live ?s4 live'" using onward_trans [OF o2 3(2)] by simp
  from host_eq_onward [OF 5(2) this] have "onward B 4 (s\<lparr>ub_next := 2\<rparr>) live s5 live'" .
  moreover have "at 1 (part s5)" using 5(3) 3(4) by (simp add: part_out)
  ultimately show ?thesis using run d by blast
qed

text \<open>Reading a string: the device's answer is stored in a fresh block.\<close>

lemma attach_string:
  assumes "heap_live B (c_heap s) live" and "length live + 4 \<le> 128" and "dv_address (ub_devs s dev) = a" and "sint a \<le> 1"
    and "at a (part s)" and "answer (get_desc_request (push_bit 8 (ucast USB_DESC_STRING) OR ucast idx)) = Some bs"
    and "idx \<noteq> 0" and "length buf = 64" and "bs \<noteq> []" "unat (bs ! 0) = length bs" "length bs \<le> 64"
    and "\<And>p. p \<noteq> NULL \<Longrightarrow> chk (set_ptr p (ub_devs s dev)) \<noteq> NULL"
  shows "\<exists>s' live' p. usb_attach_string hc dev idx set_ptr chk (buf, s) = Some (overlay bs buf, s') \<and> onward B 4 s live s' live'
    \<and> ub_devs s' = (ub_devs s)(dev := set_ptr p (ub_devs s dev)) \<and> p \<noteq> NULL \<and> stored (c_mem s') live' p bs \<and> at a (part s')"
proof -
  obtain s1 l1 where 1: "usb_get_string_desc hc dev idx 64 s = Some (0, bs, s1)" "onward B 3 s live s1 l1" "ub_devs s1 = ub_devs s" "at a (part s1)"
    using control_in [OF assms(1) _ assms(3-6), of 64] assms(2,11) by (auto simp: usb_get_string_desc_def)
  have b: "overlay bs buf ! 0 = bs ! 0" "take (unat (bs ! 0)) (overlay bs buf) = bs" "length (overlay bs buf) = 64"
    using assms(8-11) by (auto simp: overlay_def nth_append)
  let ?n = "ucast (bs ! 0) :: u32"
  have n: "unat ?n = length bs" using assms(10,11) by (simp add: unsigned_ucast_eq take_bit_nat_eq_self)
  obtain p s2 where 2: "c_alloc ?n s1 = (p, s2)" "p \<noteq> NULL" "onward B 1 s1 l1 s2 ((p, ?n) # l1)" "s2 = s1\<lparr>c_net := c_net s2\<rparr>" "c_mem s2 = c_mem s1"
    by (rule c_alloc_onward [OF onward_heap(1) [OF 1(2)], of ?n]) (use onward_heap(2) [OF 1(2)] assms(2,11) n in auto)
  have d: "ub_devs s2 = ub_devs s" using 1(3) by (subst 2(4)) simp
  let ?s3 = "upd_dev dev (set_ptr p) s2"
  let ?s4 = "set_mem (put_list (c_mem ?s3) p bs) ?s3"
  have h: "heap_live B (c_heap s2) ((p, ?n) # l1)" by (rule onward_heap(1) [OF 2(3)])
  note st = put_stored [OF h, of bs "c_mem s1"]
  have m: "c_mem ?s4 = put_list (c_mem s1) p bs" using 2(5) by (simp add: set_mem_def upd_dev_def)
  have "onward B 4 s live ?s4 ((p, ?n) # l1)"
    using onward_trans [OF 1(2) 2(3)] st(2) 1(2) n 2(5) by (auto simp: onward_def set_mem_def upd_dev_def)
  moreover have "usb_attach_string hc dev idx set_ptr chk (buf, s) = Some (overlay bs buf, ?s4)"
    using 1(1) 2(1,2) assms(7,10,11,12) b d by (simp add: usb_attach_string_def word_gt_0 Let_def upd_dev_def)
  moreover have "ub_devs ?s4 = (ub_devs s)(dev := set_ptr p (ub_devs s dev))" using d by (simp add: set_mem_def upd_dev_def)
  moreover have "stored (c_mem ?s4) ((p, ?n) # l1) p bs" unfolding m using st(1) n by simp
  moreover have "at a (part ?s4)" using 1(4) part_alloc [OF 2(4)] by simp
  ultimately show ?thesis using 2(2) by blast
qed

end

section \<open>Enumeration\<close>

text \<open>A device that answers what the enumeration asks: its descriptors \<open>dd\<close> and \<open>cd\<close> and the strings \<open>text\<close> they name.\<close>

locale enumerable_device = control_device +
  fixes dd :: usb_device_desc and cd :: usb_configuration_desc and str :: "u8 \<Rightarrow> u8 list"
  assumes device_answer: "answer (get_desc_request 0x100) = Some (device_desc_bytes dd)"
    and configuration_answer: "answer (get_desc_request 0x200) = Some (configuration_desc_bytes cd)"
    and string_answer: "i \<in> {dd_iManufacturer dd, dd_iProduct dd, dd_iSerialNumber dd} \<Longrightarrow>
      answer (get_desc_request (push_bit 8 (ucast USB_DESC_STRING) OR ucast i)) = Some (str i)
      \<and> i \<noteq> 0 \<and> str i \<noteq> [] \<and> unat (str i ! 0) = length (str i) \<and> length (str i) \<le> 64"
    and one_configuration: "dd_bNumConfigurations dd = 1"
begin

lemma device_desc_read: "device_desc_of (overlay (device_desc_bytes dd) (device_desc_bytes v)) = dd"
proof -
  have "overlay (device_desc_bytes dd) (device_desc_bytes v) = device_desc_bytes dd"
    by (simp add: overlay_def device_desc_bytes_def le16_def)
  then show ?thesis by (simp add: descriptor_round_trip)
qed

lemma overlay_length: "length bs \<le> length buf \<Longrightarrow> length (overlay bs buf) = length buf"
  by (simp add: overlay_def)

lemma attach_configs:
  assumes "heap_live B (c_heap s) live" and "length live + 3 \<le> 128" and "dv_address (ub_devs s dev) = a" and "sint a \<le> 1"
    and "at a (part s)" and "live = (p, n) # rest" "9 \<le> unat n" "dv_configuration_desc (ub_devs s dev) = p"
  shows "\<exists>s' live'. usb_attach_configs hc dev [0] s = Some (0, s') \<and> heap_live B (c_heap s') live' \<and> length live' = length live + 3 \<and> set live \<subseteq> set live'
    \<and> ub_devices s' = ub_devices s \<and> ub_next s' = ub_next s \<and> ub_devs s' = ub_devs s \<and> at a (part s')
    \<and> stored (c_mem s') live' p (configuration_desc_bytes cd)
    \<and> (\<forall>q bs. stored (c_mem s) rest q bs \<longrightarrow> stored (c_mem s') live' q bs)"
proof -
  let ?bs = "configuration_desc_bytes cd"
  have l: "length ?bs = 9" by (simp add: configuration_desc_bytes_def le16_def)
  obtain s1 l1 where 1: "usb_get_desc hc dev USB_DESC_CONFIGURATION (of_nat sizeof_configuration_desc) s = Some (0, ?bs, s1)"
      "onward B 3 s live s1 l1" "ub_devs s1 = ub_devs s" "at a (part s1)"
    using control_in [OF assms(1-5) configuration_answer, of "of_nat sizeof_configuration_desc"] l
    by (auto simp: usb_get_desc_def USB_DESC_CONFIGURATION_def sizeof_configuration_desc_def)
  let ?s2 = "set_mem (put_list (c_mem s1) p ?bs) s1"
  note h = onward_heap(1) [OF 1(2)]
  have p: "(p, n) \<in> set l1" using 1(2) assms(6) by (auto simp: onward_def)
  have "stored (put_list (c_mem s1) p ?bs) l1 q cs" if st: "stored (c_mem s) rest q cs" for q cs
  proof (rule put_block(2) [OF h p])
    have q: "q \<noteq> p \<and> stored (c_mem s) live q cs" using stored_older [OF assms(1) [unfolded assms(6)] st] assms(6) by simp
    then show "q \<noteq> p" "stored (c_mem s1) l1 q cs" using 1(2) by (auto simp: onward_def)
  qed (use l assms(7) in simp)
  moreover have "stored (put_list (c_mem s1) p ?bs) l1 p ?bs" by (rule put_block(1) [OF h p]) (use l assms(7) in simp)
  moreover have "usb_attach_configs hc dev [0] s = Some (0, ?s2)" using 1(1,3) assms(8) by (simp add: Let_def)
  moreover have "c_mem ?s2 = put_list (c_mem s1) p ?bs" "c_heap ?s2 = c_heap s1" "ub_devs ?s2 = ub_devs s1"
    "ub_devices ?s2 = ub_devices s1" "ub_next ?s2 = ub_next s1" by (simp_all add: set_mem_def)
  ultimately show ?thesis using 1(2-4) by (intro exI [of _ ?s2] exI [of _ l1]) (simp add: onward_def)
qed

lemma attach_descs:
  assumes "heap_live B (c_heap s) live" and "length live + 19 \<le> 128" and "dv_address (ub_devs s dev) = 1" and "at 1 (part s)"
    and "length buf = 64"
  shows "\<exists>s' live' v. usb_attach_descs hc dev buf s = Some (0, s') \<and> onward B 19 s live s' live'
    \<and> ub_devs s' = list_add_after ((ub_devs s)(dev := v)) (ub_devices s) dev \<and> dv_address v = 1 \<and> dv_device_desc v = dd
    \<and> stored (c_mem s') live' (dv_sManufacturer v) (str (dd_iManufacturer dd)) \<and> stored (c_mem s') live' (dv_sProduct v) (str (dd_iProduct dd))
    \<and> stored (c_mem s') live' (dv_sSerialNumber v) (str (dd_iSerialNumber dd))
    \<and> stored (c_mem s') live' (dv_configuration_desc v) (configuration_desc_bytes cd)
    \<and> dv_sManufacturer v \<noteq> NULL \<and> dv_sProduct v \<noteq> NULL \<and> at 1 (part s')"
proof -
  have s1: "sint (1 :: u32) \<le> 1" by simp
  obtain s1 l1 where 1: "usb_get_desc hc dev USB_DESC_DEVICE 18 s = Some (0, device_desc_bytes dd, s1)" "onward B 3 s live s1 l1"
      "ub_devs s1 = ub_devs s" "at 1 (part s1)"
    using control_in [OF assms(1) _ assms(3) s1 assms(4) device_answer, of 18] assms(2)
    by (auto simp: usb_get_desc_def USB_DESC_DEVICE_def device_desc_bytes_def le16_def)
  let ?s1 = "upd_dev dev (\<lambda>v. v\<lparr>dv_device_desc := device_desc_of (overlay (device_desc_bytes dd) (device_desc_bytes (dv_device_desc v)))\<rparr>) s1"
  define v1 where "v1 = (ub_devs s dev)\<lparr>dv_device_desc := dd\<rparr>"
  have d1: "ub_devs ?s1 = (ub_devs s)(dev := v1)" "onward B 3 s live ?s1 l1" "at 1 (part ?s1)"
    using 1 by (simp add: upd_dev_def device_desc_read v1_def, simp, simp)
  note o1 = onward_heap [OF d1(2)]
  obtain s2 l2 pm where 2: "usb_attach_string hc dev (dd_iManufacturer dd) (\<lambda>p v. v\<lparr>dv_sManufacturer := p\<rparr>) dv_sManufacturer (buf, ?s1)
        = Some (overlay (str (dd_iManufacturer dd)) buf, s2)" "onward B 4 ?s1 l1 s2 l2"
      "ub_devs s2 = (ub_devs s)(dev := v1\<lparr>dv_sManufacturer := pm\<rparr>)" "pm \<noteq> NULL" "stored (c_mem s2) l2 pm (str (dd_iManufacturer dd))" "at 1 (part s2)"
    using attach_string [OF o1(1), of dev 1 "dd_iManufacturer dd" "str (dd_iManufacturer dd)" buf dv_sManufacturer "\<lambda>p v. v\<lparr>dv_sManufacturer := p\<rparr>"]
      string_answer [of "dd_iManufacturer dd"] o1(2) d1 assms(2,3,5) by (auto simp: v1_def)
  note o2 = onward_heap [OF 2(2)]
  have x2: "ub_devs s2 dev = v1\<lparr>dv_sManufacturer := pm\<rparr>" by (simp add: 2(3))
  obtain s3 l3 pp where 3: "usb_attach_string hc dev (dd_iProduct dd) (\<lambda>p v. v\<lparr>dv_sProduct := p\<rparr>) dv_sProduct
        (overlay (str (dd_iManufacturer dd)) buf, s2) = Some (overlay (str (dd_iProduct dd)) (overlay (str (dd_iManufacturer dd)) buf), s3)"
      "onward B 4 s2 l2 s3 l3" "ub_devs s3 = (ub_devs s)(dev := v1\<lparr>dv_sManufacturer := pm, dv_sProduct := pp\<rparr>)" "pp \<noteq> NULL"
      "stored (c_mem s3) l3 pp (str (dd_iProduct dd))" "at 1 (part s3)"
    using attach_string [OF o2(1), of dev 1 "dd_iProduct dd" "str (dd_iProduct dd)" "overlay (str (dd_iManufacturer dd)) buf" dv_sProduct
        "\<lambda>p v. v\<lparr>dv_sProduct := p\<rparr>"]
      string_answer [of "dd_iProduct dd"] string_answer [of "dd_iManufacturer dd"] o1(2) o2(2) 2(3,6) x2 assms(2,3,5)
    by (auto simp: v1_def overlay_length)
  note o3 = onward_heap [OF 3(2)]
  have x3: "ub_devs s3 dev = v1\<lparr>dv_sManufacturer := pm, dv_sProduct := pp\<rparr>" by (simp add: 3(3))
  let ?buf = "overlay (str (dd_iProduct dd)) (overlay (str (dd_iManufacturer dd)) buf)"
  define v3 where "v3 q = v1\<lparr>dv_sManufacturer := pm, dv_sProduct := pp, dv_sSerialNumber := q\<rparr>" for q
  obtain s4 l4 ps where 4: "usb_attach_string hc dev (dd_iSerialNumber dd) (\<lambda>p v. v\<lparr>dv_sSerialNumber := p\<rparr>) dv_sManufacturer (?buf, s3)
        = Some (overlay (str (dd_iSerialNumber dd)) ?buf, s4)" "onward B 4 s3 l3 s4 l4" "ub_devs s4 = (ub_devs s)(dev := v3 ps)"
      "stored (c_mem s4) l4 ps (str (dd_iSerialNumber dd))" "at 1 (part s4)"
    using attach_string [OF o3(1), of dev 1 "dd_iSerialNumber dd" "str (dd_iSerialNumber dd)" ?buf dv_sManufacturer
        "\<lambda>p v. v\<lparr>dv_sSerialNumber := p\<rparr>"]
      string_answer [of "dd_iSerialNumber dd"] string_answer [of "dd_iProduct dd"] string_answer [of "dd_iManufacturer dd"]
      o1(2) o2(2) o3(2) 2(4) 3(3,6) x3 assms(2,3,5)
    by (auto simp: v1_def v3_def overlay_length)
  note o4 = onward_heap [OF 4(2)]
  obtain pc s5 where 5: "c_alloc 9 s4 = (pc, s5)" "pc \<noteq> NULL" "onward B 1 s4 l4 s5 ((pc, 9) # l4)" "s5 = s4\<lparr>c_net := c_net s5\<rparr>" "c_mem s5 = c_mem s4"
    by (rule c_alloc_onward [OF o4(1), of 9]) (use o1(2) o2(2) o3(2) o4(2) assms(2) in auto)
  define v where "v = v3 ps\<lparr>dv_configuration_desc := pc\<rparr>"
  let ?s5 = "upd_dev dev (\<lambda>v. v\<lparr>dv_configuration_desc := pc\<rparr>) s5"
  have u5: "ub_devs s5 = ub_devs s4" by (subst 5(4)) simp
  have d5: "ub_devs ?s5 = (ub_devs s)(dev := v)" "at 1 (part ?s5)" "c_heap ?s5 = c_heap s5" "c_mem ?s5 = c_mem s4"
    using 4(3,5) 5(5) part_alloc [OF 5(4)] u5 by (simp_all add: upd_dev_def v_def part_devs)
  obtain s6 l6 where 6: "usb_attach_configs hc dev [0] ?s5 = Some (0, s6)" "heap_live B (c_heap s6) l6" "length l6 = length l4 + 4"
      "ub_devices s6 = ub_devices ?s5" "ub_next s6 = ub_next ?s5" "ub_devs s6 = ub_devs ?s5" "at 1 (part s6)"
      "stored (c_mem s6) l6 pc (configuration_desc_bytes cd)" "\<And>q bs. stored (c_mem s4) l4 q bs \<Longrightarrow> stored (c_mem s6) l6 q bs" "set l4 \<subseteq> set l6"
    using attach_configs [of B ?s5 "(pc, 9) # l4" dev 1 pc 9 l4] onward_heap(1) [OF 5(3)] o1(2) o2(2) o3(2) o4(2) assms(2,3) d5
    by (auto simp: v_def v3_def v1_def)
  let ?s7 = "s6\<lparr>ub_devs := list_add_after (ub_devs s6) (ub_devices s6) dev\<rparr>"
  have "dv_device_desc (ub_devs ?s1 dev) = dd" "dv_device_desc (ub_devs s2 dev) = dd" "dv_device_desc (ub_devs s3 dev) = dd"
    "dv_device_desc (ub_devs s4 dev) = dd" by (simp_all add: d1 x2 x3 4(3) v1_def v3_def)
  then have "usb_attach_descs hc dev buf s = Some (0, ?s7)"
    unfolding usb_attach_descs_def using 1(1) 2(1) 3(1) 4(1) 5(1,2) 6(1) one_configuration
    by (simp add: Let_def sizeof_configuration_desc_def or_fail_def del: usb_attach_configs.simps)
  moreover have "onward B 19 s live ?s7 l6"
    using onward_trans [OF onward_trans [OF onward_trans [OF d1(2) 2(2)] 3(2)] 4(2)] 5(3) 6 by (auto simp: onward_def upd_dev_def)
  moreover have "ub_devs ?s7 = list_add_after ((ub_devs s)(dev := v)) (ub_devices s) dev"
    using 6(4,6) d5(1) 1(2) 2(2) 3(2) 4(2) 5(3) by (simp add: onward_def upd_dev_def)
  moreover have "stored (c_mem s6) l6 pm (str (dd_iManufacturer dd))" "stored (c_mem s6) l6 pp (str (dd_iProduct dd))"
    "stored (c_mem s6) l6 ps (str (dd_iSerialNumber dd))"
    using 2(5) 3(2,5) 4(2,4) 6(9) by (auto simp: onward_def)
  moreover have "at 1 (part ?s7)" using 6(7) by (simp add: part_devs)
  ultimately show ?thesis using 2(4) 3(4) 6(8) assms(3)
    by (intro exI [of _ ?s7] exI [of _ l6] exI [of _ v]) (simp add: v_def v3_def v1_def)
qed

text \<open>The whole enumeration.\<close>

lemma attach_device:
  assumes "heap_live B (c_heap s) live" and "length live + 24 \<le> 128" and "ub_next s = 1" and "at 0 (part s)" and "length buf = 64"
  shows "\<exists>s' live' dev v. usb_attach_device hc buf s = Some s' \<and> dev \<notin> fst ` set live \<and> heap_live B (c_heap s') live'
    \<and> length live' = length live + 24 \<and> ub_next s' = 2
    \<and> ub_devs s' = list_add_after ((ub_devs s)(dev := v)) (ub_devices s) dev \<and> dv_address v = 1 \<and> dv_device_desc v = dd
    \<and> stored (c_mem s') live' (dv_sManufacturer v) (str (dd_iManufacturer dd)) \<and> stored (c_mem s') live' (dv_sProduct v) (str (dd_iProduct dd))
    \<and> stored (c_mem s') live' (dv_sSerialNumber v) (str (dd_iSerialNumber dd))
    \<and> stored (c_mem s') live' (dv_configuration_desc v) (configuration_desc_bytes cd)
    \<and> dv_sManufacturer v \<noteq> NULL \<and> dv_sProduct v \<noteq> NULL \<and> at 1 (part s')"
proof -
  have "render (ascii (''New device attached on USB'' @ crlf) @ [0]) [] \<noteq> None" by (simp add: ascii_def crlf_def)
  then obtain o1 where o: "cprintf (''New device attached on USB'' @ crlf) [] s = Some (s\<lparr>c_out := o1\<rparr>)" by (rule cprintf_onward)
  let ?s0 = "s\<lparr>c_out := o1\<rparr>"
  obtain dev s1 where 1: "c_alloc sizeof_usb_dev ?s0 = (dev, s1)" "dev \<noteq> NULL" "dev \<notin> fst ` set live"
      "onward B 1 ?s0 live s1 ((dev, sizeof_usb_dev) # live)" "s1 = ?s0\<lparr>c_net := c_net s1\<rparr>"
    by (rule c_alloc_onward [of B ?s0 live sizeof_usb_dev]) (use assms in \<open>simp_all add: sizeof_usb_dev_def\<close>)
  let ?l1 = "(dev, sizeof_usb_dev) # live"
  let ?s2 = "upd_dev dev (\<lambda>v. usb_dev_zero) s1"
  have u: "ub_devs s1 = ub_devs s" by (subst 1(5)) simp
  have u': "ub_next s1 = 1" "part s1 = part s"
    using 1(4) assms(3) part_alloc [OF 1(5)] part_out by (simp_all add: onward_def)
  have h2: "heap_live B (c_heap ?s2) ?l1" "ub_next ?s2 = 1" "at 0 (part ?s2)" "(ub_devs ?s2)(dev := v) = (ub_devs s)(dev := v)" for v
    using onward_heap(1) [OF 1(4)] u u' assms(4) by (simp_all add: upd_dev_def part_devs)
  obtain s3 l3 v3 where 3: "usb_attach_setup hc dev ?s2 = Some (0, s3)" "onward B 4 (?s2\<lparr>ub_next := 2\<rparr>) ?l1 s3 l3"
      "ub_devs s3 = (ub_devs s)(dev := v3)" "dv_address v3 = 1" "at 1 (part s3)"
    using attach_setup [OF h2(1) _ h2(2,3), of dev] assms(2) h2(4) by auto
  have l3: "length l3 + 19 \<le> 128" "dv_address (ub_devs s3 dev) = 1" using onward_heap(2) [OF 3(2)] 3(3,4) assms(2) by simp_all
  obtain s4 l4 v where 4: "usb_attach_descs hc dev buf s3 = Some (0, s4)" "onward B 19 s3 l3 s4 l4"
      "ub_devs s4 = list_add_after ((ub_devs s)(dev := v)) (ub_devices s3) dev" "dv_address v = 1" "dv_device_desc v = dd"
      "stored (c_mem s4) l4 (dv_sManufacturer v) (str (dd_iManufacturer dd))" "stored (c_mem s4) l4 (dv_sProduct v) (str (dd_iProduct dd))"
      "stored (c_mem s4) l4 (dv_sSerialNumber v) (str (dd_iSerialNumber dd))"
      "stored (c_mem s4) l4 (dv_configuration_desc v) (configuration_desc_bytes cd)"
      "dv_sManufacturer v \<noteq> NULL" "dv_sProduct v \<noteq> NULL" "at 1 (part s4)"
    using attach_descs [OF onward_heap(1) [OF 3(2)] l3 3(5) assms(5)] 3(3) by auto
  have "usb_attach_device hc buf s = Some s4"
    unfolding usb_attach_device_def o using 1(1,2) 3(1) 4(1) by (simp add: Let_def or_fail_def)
  moreover have "heap_live B (c_heap s4) l4" "length l4 = length live + 24" "ub_next s4 = 2" "ub_devices s3 = ub_devices s"
    using 1(4) 3(2) 4(2) by (simp_all add: onward_def upd_dev_def)
  ultimately show ?thesis using 1(3) 4 by (intro exI [of _ s4] exI [of _ l4] exI [of _ dev] exI [of _ v]) simp
qed

end

end
