(* ===== verification/RootHub.thy ===== *)
theory RootHub
  imports UsbHost ConsoleExample
begin

text \<open>
  The root hub of \<open>Ohci\<close> is a device as the USB core expects one, so it is enumerated from the first to the last step; and the
  bounds of the memory the driver uses.
\<close>

section \<open>The root hub answers\<close>

definition string_desc :: "string \<Rightarrow> u8 list" where
  "string_desc s = [of_nat (2 + length s * 2), USB_DESC_STRING] @ concat (map (\<lambda>c. [0, c]) (ascii s))"

definition rh_string :: "u8 \<Rightarrow> u8 list" where
  "rh_string i = string_desc (ohci_str ! unat i)"

text \<open>What the root hub answers to a request for a descriptor.\<close>

definition rh_answer :: "usb_request \<Rightarrow> u8 list option" where
  "rh_answer r =
     (let type = drop_bit 8 (rq_wValue r AND 0xFF00); i = unat (rq_wValue r AND 0xFF); n = unat (rq_wLength r)
      in if type = 1 then Some (take n (device_desc_bytes rh_device_desc))
         else if type = 2 then Some (take n (configuration_desc_bytes rh_configuration_desc))
         else if type = 3 \<and> i < length ohci_str then Some (string_desc (ohci_str ! i))
         else None)"

text \<open>The driver's part of the state, with the descriptors \<open>root_hub_probe\<close> made, and the states of a control transfer.\<close>

type_synonym rh = "hub_data \<times> usb_hub"

definition rh_ready :: "u32 \<Rightarrow> rh \<Rightarrow> bool" where
  "rh_ready a h \<longleftrightarrow> hb_address (fst h) = a \<and> length (hb_ep0_data (fst h)) = 64 \<and> h_device_desc (snd h) = rh_device_desc
     \<and> h_configuration_desc (snd h) = rh_configuration_desc"

definition rh_at :: "u32 \<Rightarrow> rh \<Rightarrow> bool" where
  "rh_at a h \<longleftrightarrow> rh_ready a h \<and> hb_new_address (fst h) = 0"

definition rh_asked :: "u32 \<Rightarrow> rh \<Rightarrow> bool" where
  "rh_asked a h \<longleftrightarrow> rh_ready a h \<and> hb_new_address (fst h) = 0 \<and> hb_state (fst h) = HUB_SETUP"

definition rh_offers :: "u32 \<Rightarrow> u8 list \<Rightarrow> rh \<Rightarrow> bool" where
  "rh_offers a bs h \<longleftrightarrow> rh_ready a h \<and> hb_new_address (fst h) = 0 \<and> hb_state (fst h) = HUB_DATA \<and> length bs \<le> 64
     \<and> hb_ep0_len (fst h) = of_nat (length bs) \<and> take (length bs) (hb_ep0_data (fst h)) = bs"

definition rh_moves :: "u32 \<Rightarrow> u32 \<Rightarrow> rh \<Rightarrow> bool" where
  "rh_moves a b h \<longleftrightarrow> rh_ready a h \<and> hb_new_address (fst h) = b \<and> b \<noteq> 0 \<and> hb_state (fst h) = HUB_STATUS"

abbreviation rh_part :: "('d, 'a) ohci_scheme \<Rightarrow> rh" where "rh_part s \<equiv> (oh_hub s, oh_root s)"

lemma pids:
  "tk_pid (usb_fill_token_pkt PID_SETUP a e c) AND 0x0F = PID_SETUP" "tk_pid (usb_fill_token_pkt PID_IN a e c) AND 0x0F = PID_IN"
  "PID_PACK PID_DATA0 AND 0x0F = PID_DATA0"
  by (simp_all add: usb_fill_token_pkt_def PID_PACK_def PID_SETUP_def PID_IN_def PID_DATA0_def)

lemma hub_host_eq [simp]: "host_eq s (on_hub f s') \<longleftrightarrow> host_eq s s'" "host_eq s s"
  by (simp_all add: host_eq_def on_hub_def)

lemma on_hub_sel [simp]: "oh_hub (on_hub f s) = f (oh_hub s)" "oh_root (on_hub f s) = oh_root s"
  by (simp_all add: on_hub_def)

lemma out_to_hub: "hb_address (oh_hub s) = a \<Longrightarrow> ohci_out a 0 pkt n s = map_option (\<lambda>s. (0, s)) (hub_packet pkt s)"
  by (simp add: ohci_out_def hub_out_def)

lemma hub_setup:
  assumes "rh_at a (rh_part s)"
  shows "\<exists>s'. ohci_out a 0 (Token_Pkt (usb_fill_token_pkt PID_SETUP a 0 crc)) n s = Some (0, s') \<and> host_eq s s' \<and> rh_asked a (rh_part s')"
proof -
  have "ohci_out a 0 (Token_Pkt (usb_fill_token_pkt PID_SETUP a 0 crc)) n s = Some (0, on_hub (\<lambda>h. h\<lparr>hb_state := HUB_SETUP\<rparr>) s)"
    using assms by (simp add: out_to_hub rh_at_def rh_ready_def hub_packet_def pids)
  then show ?thesis using assms by (auto simp: rh_at_def rh_asked_def rh_ready_def)
qed

lemma overlay_64: "length bs \<le> 64 \<Longrightarrow> length buf = 64 \<Longrightarrow> length (overlay bs buf) = 64 \<and> take (length bs) (overlay bs buf) = bs"
  by (simp add: overlay_def)

lemma small_length: "n \<le> 64 \<Longrightarrow> unat (of_nat n :: u32) = n"
  by (simp add: unat_of_nat take_bit_nat_eq_self)

lemma served:
  assumes "rh_ready a (rh_part s)" and "hb_new_address (oh_hub s) = 0" and "length bs \<le> 64"
  shows "rh_offers a (take (unat (rq_wLength r)) bs) (rh_part (on_hub (\<lambda>h. h\<lparr>hb_state := HUB_DATA\<rparr>) (serve_bytes bs r s)))"
proof -
  let ?w = "unat (rq_wLength r)"
  let ?n = "if length bs < ?w then of_nat (length bs) else ucast (rq_wLength r) :: u32"
  have n: "unat ?n = min ?w (length bs)" using assms(3) small_length [of "length bs"] by (simp add: unsigned_ucast_eq take_bit_nat_eq_self)
  then have t: "take (unat ?n) bs = take ?w bs" "length (take ?w bs) \<le> 64" "?n = of_nat (length (take ?w bs))"
    using assms(3) by (auto simp: min_def intro: word_unat_eq_iff [THEN iffD2] simp flip: small_length)
  show ?thesis
    using assms(1,2) overlay_64 [of "take ?w bs" "hb_ep0_data (oh_hub s)"] t
    by (simp add: rh_offers_def rh_ready_def serve_bytes_def Let_def)
qed

lemma byte_length: "k < 256 \<Longrightarrow> ucast (of_nat k :: u8) = (of_nat k :: u32)"
  unfolding word_unat_eq_iff by (simp add: unsigned_ucast_eq unat_of_nat take_bit_nat_eq_self)

lemma string_desc_length: "length (string_desc x) = 2 + 2 * length x"
  by (induction x) (simp_all add: string_desc_def ascii_def)

lemma strings_fit: "i < length ohci_str \<Longrightarrow> length (ohci_str ! i) \<le> 13"
  by (simp add: ohci_str_def less_Suc_eq_0_disj numeral_eq_Suc) auto

lemma string_served:
  assumes "rh_ready a (rh_part s)" and "hb_new_address (oh_hub s) = 0" and "i < length ohci_str"
  shows "\<exists>f. create_string_desc i s = Some (on_hub f s)
    \<and> rh_offers a (string_desc (ohci_str ! i)) (rh_part (on_hub (\<lambda>h. h\<lparr>hb_state := HUB_DATA\<rparr>) (on_hub f s)))"
proof -
  let ?d = "string_desc (ohci_str ! i)"
  have l: "length ?d \<le> 64" "length ?d < 256" using strings_fit [OF assms(3)] string_desc_length [of "ohci_str ! i"] by simp_all
  have d: "?d = [of_nat (2 + length (ascii (ohci_str ! i)) * 2), USB_DESC_STRING] @ concat (map (\<lambda>c. [0, c]) (ascii (ohci_str ! i)))"
    by (simp add: string_desc_def ascii_def)
  have n: "ucast (?d ! 0) = (of_nat (length ?d) :: u32)"
    using byte_length [OF l(2)] string_desc_length [of "ohci_str ! i"] by (simp add: d ascii_def mult.commute)
  have "\<not> i > ohci_str_max" using assms(3) by (simp add: ohci_str_def ohci_str_max_def)
  then have "create_string_desc i s = Some (on_hub (\<lambda>h. h\<lparr>hb_ep0_data := overlay ?d (hb_ep0_data h), hb_ep0_len := ucast (?d ! 0)\<rparr>) s)"
    using assms(3) unfolding create_string_desc_def d Let_def by simp
  then show ?thesis
    using assms(1,2) overlay_64 [OF l(1), of "hb_ep0_data (oh_hub s)"] l n by (auto simp: rh_offers_def rh_ready_def)
qed

lemma hub_packet_data:
  "hub_packet (Request_Pkt (PID_PACK PID_DATA0) r c) s = (if hb_state (oh_hub s) = HUB_SETUP then hub_handle_request r s else Some s)"
  unfolding hub_packet_def pkt_pid.simps pids Let_def by (simp add: PID_SETUP_def PID_DATA0_def)

lemma hub_get:
  assumes "rh_asked a (rh_part s)" and "rq_bRequest r = USB_GET_DESCRIPTOR" and "rh_answer r = Some bs"
  shows "\<exists>s'. ohci_out a 0 (Request_Pkt (PID_PACK PID_DATA0) r c) n s = Some (0, s') \<and> host_eq s s' \<and> rh_offers a bs (rh_part s')"
proof -
  have r: "rh_ready a (rh_part s)" "hb_new_address (oh_hub s) = 0" using assms(1) by (simp_all add: rh_asked_def)
  have "\<exists>s'. get_descriptor r s = Some s' \<and> host_eq s s' \<and> rh_offers a bs (rh_part s')"
  proof -
    let ?t = "drop_bit 8 (rq_wValue r AND 0xFF00)"
    note d = get_descriptor_def Let_def USB_DESC_DEVICE_def USB_DESC_CONFIGURATION_def USB_DESC_STRING_def
    have "?t = 1 \<or> ?t = 2 \<or> ?t = 3" using assms(3) by (auto simp: rh_answer_def Let_def split: if_splits)
    then show ?thesis
    proof (elim disjE)
      assume t: "?t = 1"
      then have "bs = take (unat (rq_wLength r)) (device_desc_bytes rh_device_desc)" using assms(3) by (simp add: rh_answer_def Let_def)
      moreover have "length (device_desc_bytes rh_device_desc) \<le> 64" by (simp add: device_desc_bytes_def le16_def)
      ultimately show ?thesis using served [OF r] t r(1) by (simp add: d rh_ready_def) (simp add: serve_bytes_def)
    next
      assume t: "?t = 2"
      then have "bs = take (unat (rq_wLength r)) (configuration_desc_bytes rh_configuration_desc)" using assms(3) by (simp add: rh_answer_def Let_def)
      moreover have "length (configuration_desc_bytes rh_configuration_desc) \<le> 64" by (simp add: configuration_desc_bytes_def le16_def)
      ultimately show ?thesis using served [OF r] t r(1) by (simp add: d rh_ready_def) (simp add: serve_bytes_def)
    next
      assume t: "?t = 3"
      let ?i = "unat (rq_wValue r AND 0xFF)"
      have i: "?i < length ohci_str" "bs = string_desc (ohci_str ! ?i)" using t assms(3) by (auto simp: rh_answer_def Let_def split: if_splits)
      from string_served [OF r i(1)] obtain f where "create_string_desc ?i s = Some (on_hub f s)"
        "rh_offers a bs (rh_part (on_hub (\<lambda>h. h\<lparr>hb_state := HUB_DATA\<rparr>) (on_hub f s)))" unfolding i(2) by blast
      then show ?thesis using t by (intro exI [of _ "on_hub (\<lambda>h. h\<lparr>hb_state := HUB_DATA\<rparr>) (on_hub f s)"]) (simp add: d)
    qed
  qed
  then obtain s' where f: "get_descriptor r s = Some s'" "host_eq s s'" "rh_offers a bs (rh_part s')" by blast
  have "ohci_out a 0 (Request_Pkt (PID_PACK PID_DATA0) r c) n s = Some (0, s')"
    using assms(1,2) f(1) by (simp add: out_to_hub rh_asked_def rh_ready_def hub_packet_data hub_handle_request_def
      USB_GET_DESCRIPTOR_def USB_SET_ADDRESS_def)
  then show ?thesis using f(2,3) by auto
qed

lemma hub_set:
  assumes "rh_asked a (rh_part s)" and "rq_bRequest r = USB_SET_ADDRESS" and "rq_wValue r \<noteq> 0"
  shows "\<exists>s'. ohci_out a 0 (Request_Pkt (PID_PACK PID_DATA0) r c) n s = Some (0, s') \<and> host_eq s s'
    \<and> rh_moves a (ucast (rq_wValue r)) (rh_part s')"
proof -
  have "(ucast (rq_wValue r) :: u32) \<noteq> 0" using assms(3) unsigned_less [of "rq_wValue r", where 'a = nat]
    by (simp add: word_unat_eq_iff unsigned_ucast_eq take_bit_nat_eq_self)
  moreover have "ohci_out a 0 (Request_Pkt (PID_PACK PID_DATA0) r c) n s
      = Some (0, on_hub (\<lambda>h. h\<lparr>hb_new_address := ucast (rq_wValue r), hb_state := HUB_STATUS, hb_status := PID_ACK\<rparr>) s)"
    using assms(1,2) by (simp add: out_to_hub rh_asked_def rh_ready_def hub_packet_data hub_handle_request_def)
  ultimately show ?thesis using assms(1) by (auto simp: rh_asked_def rh_moves_def rh_ready_def)
qed

definition hub_status_done :: "hub_data \<Rightarrow> hub_data" where
  "hub_status_done h = (let h = h\<lparr>hb_state := HUB_IDLE\<rparr>
     in if hb_new_address h \<noteq> 0 then h\<lparr>hb_address := hb_new_address h, hb_new_address := 0\<rparr> else h)"

lemma hub_packet_in:
  "hub_packet (Token_Pkt (usb_fill_token_pkt PID_IN a e c)) s = Some (if hb_state (oh_hub s) = HUB_STATUS then on_hub hub_status_done s else s)"
  unfolding hub_packet_def pkt_pid.simps pids Let_def
  by (simp add: PID_IN_def PID_SETUP_def PID_DATA0_def PID_DATA1_def hub_status_done_def [abs_def] Let_def)

lemma hub_in_token:
  assumes "rh_offers a bs (rh_part s)"
  shows "\<exists>s'. ohci_out a 0 (Token_Pkt (usb_fill_token_pkt PID_IN a 0 crc)) n s = Some (0, s') \<and> host_eq s s' \<and> rh_offers a bs (rh_part s')"
  using assms by (intro exI [of _ s]) (simp add: out_to_hub rh_offers_def rh_ready_def hub_packet_in host_eq_def)

lemma hub_moved:
  assumes "rh_moves a b (rh_part s)"
  shows "\<exists>s'. ohci_out a 0 (Token_Pkt (usb_fill_token_pkt PID_IN a 0 crc)) n s = Some (0, s') \<and> host_eq s s' \<and> rh_at b (rh_part s')"
proof -
  have "ohci_out a 0 (Token_Pkt (usb_fill_token_pkt PID_IN a 0 crc)) n s = Some (0, on_hub hub_status_done s)"
    using assms by (simp add: out_to_hub rh_moves_def rh_ready_def hub_packet_in)
  then show ?thesis using assms by (auto simp: rh_moves_def rh_at_def rh_ready_def hub_status_done_def)
qed

lemma hub_data_read:
  assumes "rh_offers a bs (rh_part s)"
  shows "\<exists>s'. ohci_in a 0 n s = Some (0, take (unat n) bs, s') \<and> host_eq s s' \<and> rh_at a (rh_part s')"
proof -
  have "take (unat (if n > of_nat (length bs) then of_nat (length bs) else n)) (hb_ep0_data (oh_hub s)) = take (unat n) bs"
  proof (cases "n > of_nat (length bs)")
    case True
    then have "length bs \<le> unat n" using assms small_length [of "length bs"] by (simp add: rh_offers_def word_less_nat_alt)
    then show ?thesis using True assms small_length [of "length bs"] by (simp add: rh_offers_def)
  next
    case False
    then have "unat n \<le> length bs" using assms small_length [of "length bs"] by (simp add: rh_offers_def word_less_nat_alt)
    then show ?thesis using False assms by (simp add: rh_offers_def) (metis min.absorb1 take_take)
  qed
  then show ?thesis using assms by (auto simp: ohci_in_def hub_in_def rh_offers_def rh_at_def rh_ready_def Let_def)
qed

lemma rh_answers:
  "rh_answer (get_desc_request 0x100) = Some (device_desc_bytes rh_device_desc)"
  "rh_answer (get_desc_request 0x200) = Some (configuration_desc_bytes rh_configuration_desc)"
  by (simp_all add: rh_answer_def get_desc_request_def device_desc_bytes_def configuration_desc_bytes_def le16_def)

lemma rh_strings:
  assumes "i = 1 \<or> i = 2 \<or> i = 3"
  shows "rh_answer (get_desc_request (push_bit 8 (ucast USB_DESC_STRING) OR ucast i)) = Some (rh_string i)"
    and "rh_string i \<noteq> []" and "unat (rh_string i ! 0) = length (rh_string i)" and "length (rh_string i) \<le> 64"
  using assms
  by (auto simp: rh_answer_def get_desc_request_def rh_string_def string_desc_def ohci_str_def ascii_def USB_DESC_STRING_def)

interpretation root_hub: enumerable_device ohci_hcd rh_part rh_at rh_asked rh_offers rh_moves rh_answer
  rh_device_desc rh_configuration_desc rh_string
proof unfold_locales
  fix i assume "i \<in> {dd_iManufacturer rh_device_desc, dd_iProduct rh_device_desc, dd_iSerialNumber rh_device_desc}"
  then have i: "i = 1 \<or> i = 2 \<or> i = 3" by (simp add: rh_device_desc_def)
  then have "i \<noteq> 0" by auto
  then show "rh_answer (get_desc_request (push_bit 8 (ucast USB_DESC_STRING) OR ucast i)) = Some (rh_string i)
      \<and> i \<noteq> 0 \<and> rh_string i \<noteq> [] \<and> unat (rh_string i ! 0) = length (rh_string i) \<and> length (rh_string i) \<le> 64"
    using rh_strings [OF i] by blast
qed (simp_all add: ohci_hcd_def hub_setup hub_get hub_set hub_in_token hub_moved hub_data_read ohci_unregister_ep_def rh_answers,
  simp add: rh_device_desc_def)

section \<open>Enumeration of the root hub\<close>

lemma pairs_nth: "i < length xs \<Longrightarrow> concat (map (\<lambda>c. [0, c]) xs) ! (2 * i + 1) = xs ! i"
  by (induction xs arbitrary: i) (auto simp: nth_Cons split: nat.splits)

lemma stored_chars:
  assumes "stored m live p (string_desc x)" and "length x < 127"
  shows "string_desc_chars m p = ascii x"
proof -
  let ?d = "string_desc x"
  have l: "length ?d = 2 + 2 * length x" by (rule string_desc_length)
  have b: "m (p + of_nat k) = ?d ! k" if "k < length ?d" for k
    using assms(1) mem_bytes_nth [OF that, of m p] by (simp add: stored_def)
  have "m p = of_nat (2 + length x * 2)" using b [of 0] by (simp add: string_desc_def)
  moreover have "unat (of_nat (2 + length x * 2) :: u8) = 2 + length x * 2"
    using assms(2) unfolding unat_of_nat by (intro mod_less) simp
  ultimately have n: "(unat (m p) - 2) div 2 = length x" by simp
  have "m (p + 2 + of_nat (i * 2) + 1) = ascii x ! i" if i: "i < length x" for i
  proof -
    have q: "p + 2 + of_nat (i * 2) + 1 = p + of_nat (2 * i + 3)" by (simp add: algebra_simps)
    have "m (p + 2 + of_nat (i * 2) + 1) = ?d ! (2 * i + 3)" unfolding q by (rule b) (use l i in simp)
    moreover have "?d ! (2 * i + 3) = concat (map (\<lambda>c. [0, c]) (ascii x)) ! (2 * i + 1)" by (simp add: string_desc_def numeral_eq_Suc)
    ultimately show ?thesis using i pairs_nth [of i "ascii x"] by (simp only: ascii_def length_map)
  qed
  then show ?thesis unfolding string_desc_chars_def n by (intro nth_equalityI) (simp_all add: ascii_def)
qed

text \<open>C32: enumeration. When the root hub is attached as the first device of the bus, on a heap with 24 blocks to spare, the host reads
  everything the hub has to say: the device it puts on the list has address 1, at which the hub now answers, the hub's device
  descriptor, its configuration descriptor in memory, and the strings the console will print. Of the 24 blocks 18 are packets
  of the six transfers, which nothing ever gives back.\<close>

theorem root_hub_enumerated:
  assumes "heap_live B (c_heap s) live" and "length live + 24 \<le> 128" and "ub_next s = 1" and "length buf = 64"
    and "hb_address (oh_hub s) = 0" and "hb_new_address (oh_hub s) = 0" and "length (hb_ep0_data (oh_hub s)) = 64"
    and "h_device_desc (oh_root s) = rh_device_desc" and "h_configuration_desc (oh_root s) = rh_configuration_desc"
  shows "\<exists>s' live' dev v. usb_attach_device ohci_hcd buf s = Some s' \<and> dev \<notin> fst ` set live
    \<and> heap_live B (c_heap s') live' \<and> length live' = length live + 24
    \<and> ub_devs s' = list_add_after ((ub_devs s)(dev := v)) (ub_devices s) dev
    \<and> dv_address v = 1 \<and> hb_address (oh_hub s') = 1 \<and> ub_next s' = 2 \<and> dv_device_desc v = rh_device_desc
    \<and> string_desc_chars (c_mem s') (dv_sManufacturer v) = ascii ''EEnright''
    \<and> string_desc_chars (c_mem s') (dv_sProduct v) = ascii ''OHCI Root Hub''
    \<and> string_desc_chars (c_mem s') (dv_sSerialNumber v) = ascii ''12345678''
    \<and> configuration_desc_of (mem_bytes (c_mem s') (dv_configuration_desc v) sizeof_configuration_desc) = rh_configuration_desc"
proof -
  have at: "rh_at 0 (rh_part s)" using assms(5-9) by (simp add: rh_at_def rh_ready_def)
  obtain s' live' dev v where r: "usb_attach_device ohci_hcd buf s = Some s'" "dev \<notin> fst ` set live" "heap_live B (c_heap s') live'"
      "length live' = length live + 24" "ub_next s' = 2" "ub_devs s' = list_add_after ((ub_devs s)(dev := v)) (ub_devices s) dev"
      "dv_address v = 1" "dv_device_desc v = rh_device_desc" "rh_at 1 (rh_part s')"
    and st: "stored (c_mem s') live' (dv_sManufacturer v) (rh_string 1)" "stored (c_mem s') live' (dv_sProduct v) (rh_string 2)"
      "stored (c_mem s') live' (dv_sSerialNumber v) (rh_string 3)"
      "stored (c_mem s') live' (dv_configuration_desc v) (configuration_desc_bytes rh_configuration_desc)"
    using root_hub.attach_device [OF assms(1-3) at assms(4)] by (auto simp: rh_device_desc_def)
  have "rh_string 1 = string_desc ''EEnright''" "rh_string 2 = string_desc ''OHCI Root Hub''" "rh_string 3 = string_desc ''12345678''"
    by (simp_all add: rh_string_def ohci_str_def)
  then have "string_desc_chars (c_mem s') (dv_sManufacturer v) = ascii ''EEnright''"
    "string_desc_chars (c_mem s') (dv_sProduct v) = ascii ''OHCI Root Hub''"
    "string_desc_chars (c_mem s') (dv_sSerialNumber v) = ascii ''12345678''"
    using stored_chars [of "c_mem s'" live'] st(1-3) by simp_all
  moreover have "mem_bytes (c_mem s') (dv_configuration_desc v) sizeof_configuration_desc = configuration_desc_bytes rh_configuration_desc"
    using st(4) unfolding stored_def sizeof_configuration_desc_def
    by (simp add: configuration_desc_bytes_def le16_def numeral_eq_Suc)
  moreover have "hb_address (oh_hub s') = 1" using r(9) by (simp add: rh_at_def rh_ready_def)
  ultimately show ?thesis using r descriptor_round_trip by (intro exI [of _ s'] exI [of _ live'] exI [of _ dev] exI [of _ v]) simp
qed

lemma root_hub_enumerated_witness:
  "\<exists>(s :: unit con) s' dev v. ub_next s = 1 \<and> usb_attach_device ohci_hcd (replicate 64 0) s = Some s'
    \<and> ub_devs s' = list_add_after ((ub_devs s)(dev := v)) (ub_devices s) dev \<and> dv_address v = 1
    \<and> string_desc_chars (c_mem s') (dv_sProduct v) = ascii ''OHCI Root Hub''"
proof -
  obtain m live where m: "heap_live 0x8000 m live" "length live = 8"
    using pinned_heap [of "0x8000"] by (auto simp: heap_ok_def mem_init_heap_size_eq)
  let ?s = "(set_kern (kern0\<lparr>k_mem := m\<rparr>) (console0 (\<lambda>_. 0) []))
    \<lparr>oh_root := hub_zero\<lparr>h_device_desc := rh_device_desc, h_configuration_desc := rh_configuration_desc\<rparr>\<rparr>"
  have "c_heap ?s = m" "oh_hub ?s = hub_init" "ub_next ?s = 1" by (simp_all add: set_kern_def console0_def console_on_def)
  moreover have "hb_address hub_init = 0" "hb_new_address hub_init = 0" "length (hb_ep0_data hub_init) = 64" by (simp_all add: hub_init_def)
  ultimately obtain s' dev v where r: "usb_attach_device ohci_hcd (replicate 64 0) ?s = Some s'"
      "ub_devs s' = list_add_after ((ub_devs ?s)(dev := v)) (ub_devices ?s) dev" "dv_address v = 1"
      "string_desc_chars (c_mem s') (dv_sProduct v) = ascii ''OHCI Root Hub''"
    using root_hub_enumerated [of "0x8000" ?s live "replicate 64 0"] m by (auto simp: hub_zero_def)
  have "ub_next ?s = 1" by (simp add: set_kern_def console0_def console_on_def)
  then show ?thesis by (intro exI [of _ ?s] exI [of _ s'] exI [of _ dev] exI [of _ v] conjI r)
qed

section \<open>The host controller communication area\<close>

text \<open>C33: alignment. In the 512 bytes of boot memory at \<open>p\<close> the area the controller is told of is aligned to 256 bytes and has 256
  bytes of room, also when the block is aligned already, and clearing it writes to no byte outside the block.\<close>

theorem hcca_in_block:
  assumes "unat p + 512 < 2 ^ 32"
  shows "256 dvd unat (hcca_align p) \<and> unat p < unat (hcca_align p) \<and> unat (hcca_align p) + 256 \<le> unat p + 512
    \<and> (\<forall>x. unat x < unat p \<or> unat p + 512 \<le> unat x \<longrightarrow> memset m (hcca_align p) 0 sizeof_hcca x = m x)"
proof -
  obtain q r where p: "unat p = 256 * q + r" "r < 256" by (metis div_mult_mod_eq mod_less_divisor mult.commute zero_less_numeral)
  have m: "unat (p mod 256) = r" using p by (simp add: unat_mod_distrib)
  have "unat (256 - p mod 256) = 256 - r" using m p(2) by (subst unat_sub) (simp_all add: word_le_nat_alt)
  then have h: "unat (hcca_align p) = 256 * (q + 1)"
    using p assms unfolding hcca_align_def by (subst unat_add_lem [THEN iffD1]) simp_all
  have "puts_bytes m (memset m (hcca_align p) 0 sizeof_hcca) (hcca_align p) (replicate (unat sizeof_hcca) (ucast (0 :: u32)))"
    by (rule memset_puts) (use h p assms in \<open>simp add: sizeof_hcca_def\<close>)
  then have "memset m (hcca_align p) 0 sizeof_hcca x = m x" if "unat x < unat p \<or> unat p + 512 \<le> unat x" for x
    using that h p by (auto simp: puts_bytes_def sizeof_hcca_def)
  then show ?thesis using h p by auto
qed

lemma hcca_in_block_witness:
  "256 dvd unat (hcca_align 0x9000) \<and> unat (0x9000 :: addr) < unat (hcca_align 0x9000) \<and> unat (hcca_align 0x9000) + 256 \<le> unat (0x9000 :: addr) + 512"
  using hcca_in_block [of "0x9000" "\<lambda>_. 0"] by simp

end
