(* ===== verification/UserTasks.thy ===== *)
theory UserTasks
  imports Board "HOL-Library.Monad_Syntax"
begin

text \<open>
  The processes of user/processes.c but the console: user/red.c, which toggles the red light, and the trampoline of
  user/timers.c through which a task runs the handler of its timer. The state is the kernel's and the devices'.
\<close>

definition LED_RED :: u8 where "LED_RED = 2"

text \<open>A call of the kernel by a process; an error of the kernel ends the run.\<close>

definition on_kern :: "(kern \<Rightarrow> kern_error + int \<times> kern) \<Rightarrow> kern \<times> 'd \<Rightarrow> (kern \<times> 'd) option" where
  "on_kern f s = (case f (fst s) of Inl e \<Rightarrow> None | Inr (rc, k) \<Rightarrow> Some (k, snd s))"

definition on_led :: "'d bus \<Rightarrow> (u8 \<Rightarrow> u8) \<Rightarrow> kern \<times> 'd \<Rightarrow> kern \<times> 'd" where
  "on_led b f s = (fst s, modb b LEDS f (snd s))"

section \<open>The red light\<close>

fun red_alarm_loop :: "'d bus \<Rightarrow> nat \<Rightarrow> kern \<times> 'd \<Rightarrow> (kern \<times> 'd) option" where
  "red_alarm_loop b 0 s = Some s"
| "red_alarm_loop b (Suc n) s = do {
     s \<leftarrow> on_kern (\<lambda>k. sleep k 100) (on_led b (\<lambda>v. v XOR LED_RED) s);
     red_alarm_loop b n s
   }"

definition red_handle_alarm :: "'d bus \<Rightarrow> kern \<times> 'd \<Rightarrow> (kern \<times> 'd) option" where
  "red_handle_alarm b = red_alarm_loop b 10"

text \<open>What comes before the loop: \<open>a\<close> is the address of the local alarm, \<open>h\<close> that of \<open>handle_alarm\<close>.\<close>

definition red_start :: "'d bus \<Rightarrow> addr \<Rightarrow> addr \<Rightarrow> kern \<times> 'd \<Rightarrow> (kern \<times> 'd) option" where
  "red_start b a h s = do {
     let al = \<lparr>a_msec = 10000, a_handler = h, a_oneshot = False\<rparr>;
     s \<leftarrow> on_kern (\<lambda>k. alarm_set (k\<lparr>k_alarms := (k_alarms k)(a := al)\<rparr>) a) s;
     Some (on_led b (\<lambda>v. v AND NOT LED_RED) s)
   }"

definition red_round :: "'d bus \<Rightarrow> kern \<times> 'd \<Rightarrow> (kern \<times> 'd) option" where
  "red_round b s = map_option (on_led b (\<lambda>v. v XOR LED_RED)) (on_kern (\<lambda>k. sleep k 1000) s)"

section \<open>The trampoline\<close>

text \<open>After the call the task spins until the kernel gives it its registers back; the result is the state in which it spins.\<close>

definition user_timer_trampoline :: "(kern \<times> 'd \<Rightarrow> (kern \<times> 'd) option) \<Rightarrow> kern \<times> 'd \<Rightarrow> (kern \<times> 'd) option" where
  "user_timer_trampoline handler s = do { s \<leftarrow> handler s; on_kern user_timer_trampoline_done s }"

text \<open>The table of user/processes.c, for given entry points.\<close>

definition boot_processes :: "addr \<Rightarrow> addr \<Rightarrow> (addr \<times> u8 list) list" where
  "boot_processes red_task console_task = [(red_task, ascii ''red''), (console_task, ascii ''console''), (NULL, [])]"

section \<open>The light after an alarm\<close>

text \<open>A register that reads back what was written to it.\<close>

definition latches :: "'d bus \<Rightarrow> ('d \<Rightarrow> u8) \<Rightarrow> bool" where
  "latches b val \<longleftrightarrow> (\<forall>d. fst (bus_rd8 b LEDS d) = val d \<and> val (snd (bus_rd8 b LEDS d)) = val d)
     \<and> (\<forall>d v. val (bus_wr8 b LEDS v d) = v)"

lemma led_val: "latches b val \<Longrightarrow> val (snd (on_led b f s)) = f (val (snd s))"
  unfolding latches_def by (cases "bus_rd8 b LEDS (snd s)") (simp add: on_led_def modb_def inb_def outb_def, metis fst_conv)

lemma sleep_returns: "\<exists>k'. sleep k ms = Inr (2, k')"
  by (simp add: sleep_def syscall_arm_def c_svc_def Let_def syscall_table_len_def SYS_SLEEP_def syscall_func_def sys_sleep_def)

lemma red_alarm_loop_val:
  assumes "latches b val"
  shows "\<exists>s'. red_alarm_loop b n s = Some s' \<and> val (snd s') = (if even n then val (snd s) else val (snd s) XOR LED_RED)"
proof (induction n arbitrary: s)
  case (Suc n)
  let ?s = "on_led b (\<lambda>v. v XOR LED_RED) s"
  obtain k where k: "sleep (fst ?s) 100 = Inr (2, k)" using sleep_returns by blast
  obtain s' where s': "red_alarm_loop b n (k, snd ?s) = Some s'"
    "val (snd s') = (if even n then val (snd ?s) else val (snd ?s) XOR LED_RED)" using Suc [of "(k, snd ?s)"] by auto
  then show ?case using k led_val [OF assms, of "\<lambda>v. v XOR LED_RED" s] by (simp add: on_kern_def xor.assoc)
qed simp

text \<open>The handler of the red task's alarm ends, and leaves the light as it found it.\<close>

lemma alarm_keeps_light:
  assumes "latches b val"
  shows "\<exists>s'. red_handle_alarm b s = Some s' \<and> val (snd s') = val (snd s)"
  using red_alarm_loop_val [OF assms, of 10 s] by (simp add: red_handle_alarm_def)

text \<open>Each round of the task ends and toggles the light.\<close>

lemma round_toggles:
  assumes "latches b val"
  shows "\<exists>s'. red_round b s = Some s' \<and> val (snd s') = val (snd s) XOR LED_RED"
proof -
  obtain k where "sleep (fst s) 1000 = Inr (2, k)" using sleep_returns by blast
  then show ?thesis by (simp add: red_round_def on_kern_def led_val [OF assms])
qed

end
