(* ===== verification/Spec2Isabelle.thy ===== *)
theory Spec2Isabelle
  imports BoardProps Boot ConsoleExample EthInit LibMath LibString Nand RootHub Stdio UserTasks
begin

text \<open>
  ERTOS is a small real-time kernel in C for the TS-7200 board, an EP93xx processor with an ARM core. This development
  models the program under src/ and proves what its components do. Every definition that models code has its source lines
  in PROJECT.json; here is how the whole hangs together.

  THE PROGRAM

  Start-up. arch/startup.S calls \<open>main\<close> (kernel/main.c), which sets up the heap (kernel/mem.c), the board (arch/init.c), the
  scheduler (kernel/sched.c), the network when it is configured (arch/eth.c, net/dll/eth.c) and the processes of
  user/processes.c, and enters the idle loop. From then on the timer
  interrupt (kernel/timers.c) and system calls (kernel/syscall.c) change the kernel's state; a reschedule picks the next process of
  a ring of processes. Processes wait on completions, which are bounded FIFOs (kernel/list.c) of waiting processes.

  Above the kernel stand the C library (lib/), the serial driver (dev/uart.c, arch/uart.c) with the console (kernel/cons.c), the
  NAND flash driver with its Hamming code (dev/nand.c, dev/hamming.c), the network (net/, with the MAC driver arch/eth.c), USB
  (dev/usb.c, with the host controller driver dev/ohci.c) and the command console (user/console.c).

  THEORIES, in dependency order

  Foundations
    Prelude       the C integer types as words; fact collections; lemmas on words and lists
    Bus           arch/regs.h: reading and writing device registers, as functions of a bus that is an argument
    Bytes         little-endian access to packed structures; regions that do not overlap
    Popcount      popcount32 of dev/hamming.c
  Kernel
    Lists         include/sys/list.h, kernel/list.c: intrusive lists in a table of nodes, bounded FIFOs
    Mem           kernel/mem.c: smalloc, the nine size classes, malloc, free; the locale \<open>allocator\<close> and its interpretation \<open>heap\<close>
    Proc          include/sys/proc.h, do_spawn, spawn and sched_init of kernel/sched.c: the record \<open>kern\<close> is the kernel's state
    Sched         kernel/timers.c, kernel/sched.c, arch/irq.S: task timers, schedule
    Syscall       kernel/syscall.c, kernel/sem.c, lib/sleep.c, lib/kstat.c, lib/syscall_arm.s, arch/sem.S; the step relation \<open>kstep\<close>
  C library
    LibMath       lib/math.c: division by shifting and subtracting
    LibString     lib/string.c over byte-addressed memory
    Stdio         lib/stdio.c: buffered output, printf, getchar, gets
    Render        printf prints the text of its format and arguments
  Devices
    Uart          dev/uart.c, arch/uart.c, kernel/cons.c, kernel/irq.c
    Hamming       dev/hamming.c and dev/hamming.h
    Nand          dev/nand.c on a bus; what the chip sees is a list of events
    Board         arch/init.c, arch/mmu.c, arch/spi.c, arch/misc.c
    BoardProps    the early console, the interrupt vectors, the translation table
  Network
    Cksum, Pkt    net/core/pkt.h, net/core/pkt.c: checksum, packets on the kernel heap
    Net           the state \<open>net\<close> and the output side of net/dll/eth.c, net/dll/arp.c, net/trans/ip.c
    NetIn         the input side, with net/trans/icmp.c and net/trans/udp.c, and the tasks
    EthDev        arch/eth.c: the MAC driver and its descriptor rings
    Frames, ArpFrames, IpFrames, IpInput, RxQueue, Routes, EthRings, EthTx, EthInit: the properties, NetExample a concrete state
  Start
    Boot          kernel/main.c: \<open>main\<close> over kernel, board and network; boot establishes the invariant that every step keeps
  USB
    Sys           the state of a program above the kernel: output, kernel, memory, network, devices
    UsbPkt        include/usb.h and the checksums of dev/usb.c
    Usb           dev/usb.c; the controller is a record of its operations, as \<open>struct usb_hcd\<close> is
    Ohci          dev/ohci.c: the root hub it emulates, its interrupt, its initialisation
    UsbProps      CRC5, round trips of tokens and descriptors
    UsbHost       the locale \<open>control_device\<close>, what the USB core relies on, extended by \<open>enumerable_device\<close>; transfers and enumeration
    RootHub       the root hub interprets both; its enumeration; the alignment of the communication area
  Console
    Tokens        how a line is split (user/console.c, console_task)
    Console       ps, ticker, alarm, dumpmem, reset, kstat, netstat, arp, ifconfig
    ConsoleNand   the pager, the flash commands nand, spi and hmm
    ConsoleTask   usb, help, the table of commands for each configuration, the dispatch, a round of the task
    ConsoleProps, ConsoleFlash: the properties, ConsoleExample a concrete state
  Other processes
    UserTasks     user/red.c, user/timers.c, the table of user/processes.c

  HOW CODE IS MODELLED

  A C function is a function of the state it can change, and returns its result with the new state; the name is kept. Structures are
  records, integers are words of their width (signed ones are read with \<open>sint\<close>), pointers are 32-bit words with \<open>NULL\<close> = 0.
  Structures that are linked or pointed to live in tables indexed by address (\<open>k_ptab\<close>, \<open>k_bfifos\<close>, \<open>ps_pkts\<close>, \<open>ub_devs\<close>); packet
  and string contents are bytes of a memory. \<open>struct list\<close> is the first member of what it links, so those records extend
  \<open>list_node\<close>. States are extended in layers: \<open>kern\<close>, \<open>pstate\<close>, \<open>net\<close>, \<open>sys\<close>, \<open>usb\<close>, \<open>ohci\<close>, \<open>con\<close>.

  A loop whose end depends on the data is an option-valued partial function: \<open>None\<close> is a run that does not end (or, in
  the console, one that runs out of input). Where the code passes printf too few arguments, in the scan for bad pages, the
  value it finds there is a field of the state. Nowhere is fuel used. That a loop ends
  is proved where it does: schedule, the division, printing, the process list; and for one loop that it does not, for the
  checksum of an odd length. Writes behind an array are values of an error type (\<open>con_error\<close>) or are written out where the memory
  behind is part of the state (\<open>gets\<close>, \<open>strncpy\<close>, the descriptor rings).

  Code that is not in the repository is a parameter: the devices are a bus with their own state type, of which a
  property assumes what the data sheet says (\<open>nand_glue\<close>, \<open>gets_ready\<close>); user handlers and process entry points are addresses.

  WHAT IS PROVED

  Kernel: \<open>main\<close> boots with exactly the processes of the build on the run list, with and without the network; what is reachable
  from there is consistent (ring, current process, heap); schedule is round-robin without starvation; allocations never overlap
  and stay in the heap; FIFOs keep their order; wait, wake and event calls wake whom they should; do_spawn is all or nothing, but
  for blocks at the boundary of size classes.
  Library and devices: division, memmove, printf against its text, Hamming correction and detection, the serial driver's order, the
  command sequence of a flash write, corrected reading, the translation table.
  Network: what is sent and answered, byte for byte; route selection; the header checksum with the case in which it fails; which
  packets leak and which stop the receiver; the rings of the driver over reception, transmission and initialisation.
  USB: CRC5 detects one and two flipped bits; tokens round-trip; on every controller that provides the interface a device is
  enumerated, and the root hub of dev/ohci.c is one; the area given to the controller is aligned and inside its block.
  Console: a line runs the command it names, or overruns the array; the pager loses nothing; boot blocks are not erased unasked;
  the scan for bad pages counts them but does not tell which they are; the process list is complete and ends.
  Where the code does not do what it means to, the property says what it does; PROJECT.json lists these findings.

  BOUNDS

  Heaps are those that fit below the top of the address space (\<open>heap_ok\<close>). The properties that give blocks back (those of packets,
  transmission and reception, USB) ask for the first chunk of each size class to be in use (\<open>heap_live\<close>), because \<open>free\<close> lists
  such a chunk in two classes; those that only allocate (process creation, boot, the initialisation of the network) do not
  (\<open>live_ok\<close>). A creation that fails gives its blocks back, so there the condition is that none of them is such a chunk
  (\<open>spawn_clean\<close>); the step relation follows failing creations under this condition only. Allocation succeeds while fewer than 128 blocks
  are live, the chunks of one class; the properties that allocate count their blocks (24 for the enumeration of the root hub; boot takes 5, the network
  15, and each of at most 20 boot processes 4).

  NOT MODELLED

  The reset vector, mode stacks and register save areas of arch/startup.S, arch/cpu.S and arch/irq.S (a register file is a list in a
  process record); cache and TLB maintenance; what kernel, drivers and network print (the console and USB output is modelled); dev/hub.c, which is empty; the structures of
  include/ohci.h for transfers, which no code uses; arch/math.s, which is not linked. System calls and interrupt handlers are atomic
  steps of the model. The console, the network tasks and the USB core are sequential programs: what an interrupt does between
  two of their accesses to shared memory is not modelled.
\<close>

end
